(* ===== verification/Prelude.thy ===== *)
theory Prelude
  imports Main "HOL-Library.Word"
begin

text \<open>
  What the component theories share: the theorem collections of the development, C integers
  and the string-to-integer conversion of the C library, process exits, execution of event
  lists by a step function, reachability with its invariant rule, and counting the threads
  whose program counter satisfies a predicate.
\<close>

section \<open>Theorem collections\<close>

named_theorems cdefs \<open>definitions of C library functions, for evaluating concrete runs\<close>
named_theorems counting \<open>how a count of threads changes when one thread moves\<close>

section \<open>C integers and strings\<close>

text \<open>An \<open>int\<close> of the programs has 32 bits, a \<open>long\<close> has 64.\<close>

abbreviation INT_MAX :: int where "INT_MAX \<equiv> 2147483647"
abbreviation INT_MIN :: int where "INT_MIN \<equiv> - 2147483648"
abbreviation LONG_MAX :: int where "LONG_MAX \<equiv> 9223372036854775807"
abbreviation LONG_MIN :: int where "LONG_MIN \<equiv> - 9223372036854775808"

text \<open>Conversion of an integer value to \<open>int\<close>: reduction modulo \<open>2 ^ 32\<close>, as gcc defines it.\<close>

definition to_int32 :: "int \<Rightarrow> int" where
  [cdefs]: "to_int32 x = (x + 2147483648) mod 4294967296 - 2147483648"

lemma to_int32_id: "INT_MIN \<le> x \<Longrightarrow> x \<le> INT_MAX \<Longrightarrow> to_int32 x = x"
  by (simp add: to_int32_def)

lemma to_int32_range: "INT_MIN \<le> to_int32 x \<and> to_int32 x \<le> INT_MAX"
proof -
  have "0 \<le> (x + 2147483648) mod 4294967296" and "(x + 2147483648) mod 4294967296 < 4294967296"
    by simp_all
  then show ?thesis unfolding to_int32_def by linarith
qed

definition is_digit :: "char \<Rightarrow> bool" where
  [cdefs]: "is_digit c \<longleftrightarrow> 48 \<le> (of_char c :: nat) \<and> (of_char c :: nat) \<le> 57"

definition is_space :: "char \<Rightarrow> bool" where
  [cdefs]: "is_space c \<longleftrightarrow> (of_char c :: nat) = 32 \<or> 9 \<le> (of_char c :: nat) \<and> (of_char c :: nat) \<le> 13"

fun digits_value :: "int \<Rightarrow> string \<Rightarrow> int" where
  "digits_value acc [] = acc"
| "digits_value acc (c # cs) =
     (if is_digit c then digits_value (10 * acc + (int (of_char c) - 48)) cs else acc)"

definition strtol :: "string \<Rightarrow> int" where
  [cdefs]: "strtol s =
     (case dropWhile is_space s of
        [] \<Rightarrow> 0
      | c # cs \<Rightarrow>
          max LONG_MIN (min LONG_MAX
            (if c = CHR ''-'' then - digits_value 0 cs
             else if c = CHR ''+'' then digits_value 0 cs
             else digits_value 0 (c # cs))))"

text \<open>\<open>atoi\<close> is \<open>(int) strtol(s, NULL, 10)\<close>; a string with no number reads as 0.\<close>

definition atoi :: "string \<Rightarrow> int" where
  [cdefs]: "atoi s = to_int32 (strtol s)"

lemma atoi_range: "INT_MIN \<le> atoi s \<and> atoi s \<le> INT_MAX"
  unfolding atoi_def by (rule to_int32_range)

text \<open>The decimal conversions \<open>%d\<close> and \<open>%u\<close> of \<open>printf\<close>.\<close>

fun show_nat :: "nat \<Rightarrow> string" where
  "show_nat n = (if n < 10 then [char_of (48 + n)] else show_nat (n div 10) @ [char_of (48 + n mod 10)])"

declare show_nat.simps [simp del]

definition show_int :: "int \<Rightarrow> string" where
  [cdefs]: "show_int x = (if x < 0 then CHR ''-'' # show_nat (nat (- x)) else show_nat (nat x))"

text \<open>
  A process that ends before its main loop starts: \<open>err(3)\<close> and \<open>errx(3)\<close> print a message
  and exit with a status, \<open>assert(3)\<close> aborts.
\<close>

datatype exit_info = Exit int string | Abort

text \<open>What a finished process leaves: its output, its error output and its exit status.\<close>

record outcome =
  oc_out :: string
  oc_err :: string
  oc_status :: int

abbreviation nl :: string where "nl \<equiv> [char_of (10 :: nat)]"

fun slash_tail :: "string \<Rightarrow> string \<Rightarrow> string" where
  "slash_tail acc [] = acc"
| "slash_tail acc (c # cs) = (if c = CHR ''/'' then slash_tail [] cs else slash_tail (acc @ [c]) cs)"

text \<open>The line \<open>errx(3)\<close> prints: the last component of \<open>argv[0]\<close>, a colon and the message.\<close>

definition progname :: "string \<Rightarrow> string" where
  "progname argv0 = slash_tail [] argv0"

definition errx_line :: "string \<Rightarrow> string \<Rightarrow> string" where
  "errx_line argv0 msg = progname argv0 @ '': '' @ msg @ nl"

text \<open>Addresses and other 64-bit counters that do not wrap around.\<close>

lemma word_next: "(x :: 64 word) < y \<Longrightarrow> unat (x + 1) = Suc (unat x)"
proof -
  assume "x < y"
  moreover have "unat y < 2 ^ 64" using unsigned_less [of y, where 'a = nat] by simp
  ultimately have "unat x + 1 < 2 ^ 64" by (simp add: word_less_nat_alt)
  then show ?thesis by (simp add: unat_word_ariths)
qed

lemma word_prev: "(x :: 64 word) < y \<Longrightarrow> unat (y - 1) = unat y - 1"
  by (rule unat_minus_one) auto

lemma unat_offset: "unat (a :: 64 word) + n < 2 ^ 64 \<Longrightarrow> unat (a + of_nat n) = unat a + n"
  by (simp add: unat_word_ariths unat_of_nat)

section \<open>Runs of a step function\<close>

text \<open>
  A concurrent program is a step function: an event (which thread moves, what the environment
  chooses) takes a state to the next one, or to \<^term>\<open>None\<close> where that event is not possible.
\<close>

fun exec :: "('e \<Rightarrow> 's \<Rightarrow> 's option) \<Rightarrow> 'e list \<Rightarrow> 's \<Rightarrow> 's option" where
  "exec step [] s = Some s"
| "exec step (e # es) s = (case step e s of None \<Rightarrow> None | Some t \<Rightarrow> exec step es t)"

inductive reach :: "('e \<Rightarrow> 's \<Rightarrow> 's option) \<Rightarrow> 's \<Rightarrow> 's \<Rightarrow> bool" for step s0 where
  reach_init: "reach step s0 s0"
| reach_step: "reach step s0 s \<Longrightarrow> step e s = Some t \<Longrightarrow> reach step s0 t"

lemma exec_append: "exec step (es @ fs) s = Option.bind (exec step es s) (exec step fs)"
  by (induction es arbitrary: s) (auto split: option.splits)

lemma reach_exec: "reach step s0 s \<Longrightarrow> exec step es s = Some t \<Longrightarrow> reach step s0 t"
  by (induction es arbitrary: s) (auto split: option.splits intro: reach_step)

lemma exec_reach: "exec step es s0 = Some t \<Longrightarrow> reach step s0 t"
  by (rule reach_exec [OF reach_init])

text \<open>A schedule can be executed from \<open>s\<close> and leads to a state with \<open>P\<close>, as a computable test.\<close>

definition runs :: "('e \<Rightarrow> 's \<Rightarrow> 's option) \<Rightarrow> 'e list \<Rightarrow> 's \<Rightarrow> ('s \<Rightarrow> bool) \<Rightarrow> bool" where
  "runs step es s P \<longleftrightarrow> (case exec step es s of None \<Rightarrow> False | Some t \<Rightarrow> P t)"

lemma runs_exec: "runs step es s P \<Longrightarrow> \<exists>t. exec step es s = Some t \<and> P t"
  by (auto simp: runs_def split: option.splits)

lemma runs_reach: "runs step es s P \<Longrightarrow> \<exists>t. reach step s t \<and> P t"
  by (auto simp: runs_def split: option.splits intro: exec_reach)

lemma reach_runs: "reach step s0 s \<Longrightarrow> runs step es s P \<Longrightarrow> \<exists>t. reach step s0 t \<and> P t"
  using reach_exec [of step s0 s es] by (auto simp: runs_def split: option.splits)

lemma runs_Nil [simp]: "runs step [] s P \<longleftrightarrow> P s"
  by (simp add: runs_def)

lemma runs_Cons [simp]:
  "runs step (e # es) s P \<longleftrightarrow> (case step e s of None \<Rightarrow> False | Some t \<Rightarrow> runs step es t P)"
  by (auto simp: runs_def split: option.splits)

lemma runs_append: "runs step (es @ fs) s P \<longleftrightarrow> runs step es s (\<lambda>t. runs step fs t P)"
  by (induction es arbitrary: s) (auto split: option.splits)

lemma reach_trans: "reach step s t \<Longrightarrow> reach step s0 s \<Longrightarrow> reach step s0 t"
  by (induction rule: reach.induct) (auto intro: reach_step)

lemma exec_snoc_induct [consumes 1, case_names Nil snoc]:
  assumes "exec step es s0 = Some s" "P [] s0"
    and "\<And>es s e t. exec step es s0 = Some s \<Longrightarrow> P es s \<Longrightarrow> step e s = Some t \<Longrightarrow> P (es @ [e]) t"
  shows "P es s"
  using assms(1)
proof (induction es arbitrary: s rule: rev_induct)
  case Nil
  then show ?case using assms(2) by simp
next
  case (snoc e es)
  then obtain u where "exec step es s0 = Some u" "step e u = Some s"
    by (auto simp: exec_append bind_eq_Some_conv split: option.splits)
  with snoc.IH assms(3) show ?case by blast
qed

lemma reach_iff_exec: "reach step s0 t \<longleftrightarrow> (\<exists>es. exec step es s0 = Some t)"
proof
  assume "reach step s0 t"
  then show "\<exists>es. exec step es s0 = Some t"
  proof (induction rule: reach.induct)
    case reach_init
    show ?case by (rule exI [of _ "[]"]) simp
  next
    case (reach_step s e t)
    then obtain es where "exec step es s0 = Some s" by blast
    with reach_step.hyps show ?case
      by (intro exI [of _ "es @ [e]"]) (simp add: exec_append)
  qed
qed (auto intro: exec_reach)

text \<open>
  The contract every state machine of the development meets: an invariant that holds at the
  start and is kept by each step holds wherever the machine can get to.
\<close>

locale step_invariant =
  fixes step :: "'e \<Rightarrow> 's \<Rightarrow> 's option" and s0 :: 's and inv :: "'s \<Rightarrow> bool"
  assumes inv_init: "inv s0"
    and inv_step: "inv s \<Longrightarrow> step e s = Some t \<Longrightarrow> inv t"
begin

lemma reach_inv: "reach step s0 s \<Longrightarrow> inv s"
  by (induction rule: reach.induct) (auto intro: inv_init inv_step)

lemma exec_inv: "inv s \<Longrightarrow> exec step es s = Some t \<Longrightarrow> inv t"
  by (induction es arbitrary: s) (auto split: option.splits intro: inv_step)

end

text \<open>
  Refinement of one machine by another: each step of the concrete one is matched by a sequence of
  abstract events, none at all for a step that shows nothing. The sequence for a run is that of its
  steps, one after the other.
\<close>

fun observed :: "('e \<Rightarrow> 's \<Rightarrow> 's option) \<Rightarrow> ('e \<Rightarrow> 's \<Rightarrow> 'a list) \<Rightarrow> 'e list \<Rightarrow> 's \<Rightarrow> 'a list" where
  "observed step obs [] s = []"
| "observed step obs (e # es) s =
     (case step e s of None \<Rightarrow> [] | Some t \<Rightarrow> obs e s @ observed step obs es t)"

locale step_refinement = step_invariant step s0 inv
  for step :: "'e \<Rightarrow> 's \<Rightarrow> 's option" and s0 :: 's and inv :: "'s \<Rightarrow> bool" +
  fixes astep :: "'a \<Rightarrow> 'b \<Rightarrow> 'b option" and abs_state :: "'s \<Rightarrow> 'b" and obs :: "'e \<Rightarrow> 's \<Rightarrow> 'a list"
  assumes refines: "inv s \<Longrightarrow> step e s = Some t \<Longrightarrow> exec astep (obs e s) (abs_state s) = Some (abs_state t)"
begin

lemma exec_refines:
  "inv s \<Longrightarrow> exec step es s = Some t \<Longrightarrow> exec astep (observed step obs es s) (abs_state s) = Some (abs_state t)"
proof (induction es arbitrary: s)
  case (Cons e es)
  then obtain u where u: "step e s = Some u" "exec step es u = Some t" by (auto split: option.splits)
  with Cons.IH inv_step [OF Cons.prems(1) u(1)] refines [OF Cons.prems(1) u(1)] show ?case
    by (simp add: exec_append)
qed simp

lemma run_refines: "exec step es s0 = Some t \<Longrightarrow> exec astep (observed step obs es s0) (abs_state s0) = Some (abs_state t)"
  by (rule exec_refines [OF inv_init])

end

text \<open>A machine that ends: every step decreases a measure, so it bounds the length of the runs.\<close>

locale step_measure = step_invariant step s0 inv
  for step :: "'e \<Rightarrow> 's \<Rightarrow> 's option" and s0 :: 's and inv :: "'s \<Rightarrow> bool" +
  fixes m :: "'s \<Rightarrow> nat"
  assumes m_step: "inv s \<Longrightarrow> step e s = Some t \<Longrightarrow> m t < m s"
begin

lemma exec_length: "exec step es s0 = Some s \<Longrightarrow> length es + m s \<le> m s0"
proof (induction rule: exec_snoc_induct)
  case (snoc es s e t)
  then have "inv s" by (blast intro: exec_inv inv_init)
  with m_step snoc show ?case by fastforce
qed simp

end

section \<open>Counting threads\<close>

text \<open>
  How many of the first \<open>n\<close> threads are at a program counter that satisfies \<open>P\<close>, as an
  integer, so that the count after one thread has moved is a linear expression in the count
  before.
\<close>

definition cnt :: "nat \<Rightarrow> ('p \<Rightarrow> bool) \<Rightarrow> (nat \<Rightarrow> 'p) \<Rightarrow> int" where
  "cnt n P f = int (card {i. i < n \<and> P (f i)})"

lemma cnt_nonneg [simp]: "0 \<le> cnt n P f"
  by (simp add: cnt_def)

lemma cnt_zero_iff: "cnt n P f = 0 \<longleftrightarrow> (\<forall>i < n. \<not> P (f i))"
  by (auto simp: cnt_def)

lemma cnt_le: "cnt n P f \<le> int n"
proof -
  have "card {i. i < n \<and> P (f i)} \<le> card {..< n}"
    by (rule card_mono) auto
  then show ?thesis by (simp add: cnt_def)
qed

lemma cnt_full_iff: "cnt n P f = int n \<longleftrightarrow> (\<forall>i < n. P (f i))"
proof
  assume full: "cnt n P f = int n"
  have "{i. i < n \<and> P (f i)} = {..< n}"
    by (rule card_subset_eq) (use full in \<open>auto simp: cnt_def\<close>)
  then show "\<forall>i < n. P (f i)" by auto
next
  assume "\<forall>i < n. P (f i)"
  then have "{i. i < n \<and> P (f i)} = {..< n}" by auto
  then show "cnt n P f = int n" by (simp add: cnt_def)
qed

lemma cnt_upd_in [counting]:
  assumes "i < n" "\<not> P (f i)" "P v"
  shows "cnt n P (f(i := v)) = cnt n P f + 1"
proof -
  from assms have "{j. j < n \<and> P ((f(i := v)) j)} = insert i {j. j < n \<and> P (f j)}"
    by auto
  with \<open>\<not> P (f i)\<close> show ?thesis by (simp add: cnt_def)
qed

lemma cnt_upd_out [counting]:
  assumes "i < n" "P (f i)" "\<not> P v"
  shows "cnt n P (f(i := v)) = cnt n P f - 1"
proof -
  from assms have "{j. j < n \<and> P (f j)} = insert i {j. j < n \<and> P ((f(i := v)) j)}"
    by auto
  with \<open>\<not> P v\<close> show ?thesis by (simp add: cnt_def)
qed

lemma cnt_upd_same [counting]:
  assumes "P (f i) = P v"
  shows "cnt n P (f(i := v)) = cnt n P f"
proof -
  from assms have "{j. j < n \<and> P ((f(i := v)) j)} = {j. j < n \<and> P (f j)}" by auto
  then show ?thesis by (simp add: cnt_def)
qed

lemma cnt_map:
  assumes "\<And>p. P (g p) = P p"
  shows "cnt n P (\<lambda>j. g (f j)) = cnt n P f"
  using assms by (simp add: cnt_def)

lemma cnt_pos_obtain: "0 < cnt n P f \<Longrightarrow> \<exists>i < n. P (f i)"
  using cnt_zero_iff [of n P f] by auto

lemma cnt_member: "i < n \<Longrightarrow> P (f i) \<Longrightarrow> 1 \<le> cnt n P f"
  using cnt_zero_iff [of n P f] cnt_nonneg [of n P f] by (metis int_one_le_iff_zero_less order_le_less)

lemma cnt_disjoint_le:
  assumes "\<And>p. P p \<Longrightarrow> \<not> Q p"
  shows "cnt n P f + cnt n Q f \<le> int n"
proof -
  have "card {i. i < n \<and> P (f i)} + card {i. i < n \<and> Q (f i)}
      = card ({i. i < n \<and> P (f i)} \<union> {i. i < n \<and> Q (f i)})"
    by (rule card_Un_disjoint [symmetric]) (use assms in auto)
  also have "\<dots> \<le> card {..< n}" by (rule card_mono) auto
  finally show ?thesis by (simp add: cnt_def)
qed

lemma cnt_split:
  assumes "\<And>p. P p \<Longrightarrow> \<not> Q p"
  shows "cnt n P f + cnt n Q f = int n \<longleftrightarrow> (\<forall>i < n. P (f i) \<or> Q (f i))"
proof -
  have "cnt n P f + cnt n Q f = cnt n (\<lambda>p. P p \<or> Q p) f"
  proof -
    have eq: "{i. i < n \<and> (P (f i) \<or> Q (f i))} = {i. i < n \<and> P (f i)} \<union> {i. i < n \<and> Q (f i)}"
      by auto
    show ?thesis
      unfolding cnt_def eq by (subst card_Un_disjoint) (use assms in auto)
  qed
  then show ?thesis using cnt_full_iff [of n "\<lambda>p. P p \<or> Q p" f] by simp
qed

text \<open>A sum over threads when one of them moves.\<close>

lemma sum_upd:
  fixes g :: "'p \<Rightarrow> nat" and n :: nat
  assumes "i < n"
  shows "(\<Sum>j < n. g ((f(i := v)) j)) + g (f i) = (\<Sum>j < n. g (f j)) + g v"
proof -
  have "(\<Sum>j \<in> {..<n} - {i}. g ((f(i := v)) j)) = (\<Sum>j \<in> {..<n} - {i}. g (f j))"
    by (rule sum.cong) auto
  then show ?thesis
    using assms sum.remove [of "{..<n}" i "\<lambda>j. g ((f(i := v)) j)"] sum.remove [of "{..<n}" i "\<lambda>j. g (f j)"]
    by simp
qed

lemma mod_inc: "0 < (m :: int) \<Longrightarrow> (x + 1) mod m = (if x mod m + 1 = m then 0 else x mod m + 1)"
proof -
  assume m: "0 < m"
  have "(x + 1) mod m = (x mod m + 1) mod m" by (simp add: mod_add_left_eq)
  moreover from m have "0 \<le> x mod m" "x mod m < m" by simp_all
  ultimately show ?thesis by (auto simp: mod_pos_pos_trivial)
qed

end
