(* ===== verification/Barrier.thy ===== *)
theory Barrier
  imports Prelude
begin

text \<open>
  The two hand-made barriers of \<open>pthreads/implement-barrier.c\<close> (it deadlocks) and
  \<open>pthreads/implement-barrier-fixed.c\<close>. A thread is a program counter over the statements
  of \<open>thread()\<close>; the shared state is the globals, the mutex and the text printed. Waiting
  on the condition variable is a program counter that only a broadcast or a spurious wakeup
  leaves, and a woken thread takes the mutex again before it goes on.
\<close>

section \<open>Output\<close>

text \<open>\<open>printf("%d ", id)\<close> and \<open>printf("\n")\<close>; a line is what stands between two newlines.\<close>

datatype tok = Tid nat | Newline

fun put_tok :: "nat list list \<times> nat list \<Rightarrow> tok \<Rightarrow> nat list list \<times> nat list" where
  "put_tok (ls, cur) (Tid i) = (ls, cur @ [i])"
| "put_tok (ls, cur) Newline = (ls @ [cur], [])"

definition out_lines :: "tok list \<Rightarrow> nat list list \<times> nat list" where
  "out_lines ts = foldl put_tok ([], []) ts"

lemma out_lines_Nil [simp]: "out_lines [] = ([], [])"
  by (simp add: out_lines_def)

lemma out_lines_snoc [simp]: "out_lines (ts @ [t]) = put_tok (out_lines ts) t"
  by (simp add: out_lines_def)

text \<open>Threads are scheduled one statement at a time; a waiting thread may wake up spuriously.\<close>

datatype bar_event = Run nat | Spurious nat

section \<open>The fixed barrier\<close>

text \<open>
  The program counters of \<open>thread()\<close>: \<open>F_wtest0\<close>, \<open>F_wtest1\<close> and \<open>F_wtest2\<close> are the
  tests of its three waiting loops (lines 69, 72 and 81), \<open>F_wait\<close>\<open>k\<close> is blocked in the
  corresponding \<open>pthread_cond_wait\<close>, \<open>F_relock\<close>\<open>k\<close> woken there but without the mutex.
\<close>

datatype bf_pc =
    F_poll | F_print | F_lock | F_inc | F_test
  | F_println | F_setwoken | F_bcast1 | F_wtest0 | F_wait0 | F_relock0
  | F_wtest1 | F_wait1 | F_relock1 | F_incw | F_test2 | F_bcast2
  | F_wtest2 | F_wait2 | F_relock2 | F_unlock

record bf_state =
  bf_pc :: "nat \<Rightarrow> bf_pc"
  bf_on_barrier :: int
  bf_wokenup :: int
  bf_mutex :: "nat option"
  bf_out :: "tok list"

definition bf_goto :: "nat \<Rightarrow> bf_pc \<Rightarrow> bf_state \<Rightarrow> bf_state" where
  "bf_goto i p s = s\<lparr>bf_pc := (bf_pc s)(i := p)\<rparr>"

definition bf_acquire :: "nat \<Rightarrow> bf_pc \<Rightarrow> bf_state \<Rightarrow> bf_state option" where
  "bf_acquire i p s =
     (if bf_mutex s = None then Some (bf_goto i p (s\<lparr>bf_mutex := Some i\<rparr>)) else None)"

definition bf_release :: "nat \<Rightarrow> bf_pc \<Rightarrow> bf_state \<Rightarrow> bf_state" where
  "bf_release i p s = bf_goto i p (s\<lparr>bf_mutex := None\<rparr>)"

fun bf_wake :: "bf_pc \<Rightarrow> bf_pc" where
  "bf_wake F_wait0 = F_relock0"
| "bf_wake F_wait1 = F_relock1"
| "bf_wake F_wait2 = F_relock2"
| "bf_wake p = p"

definition bf_broadcast :: "bf_state \<Rightarrow> bf_state" where
  "bf_broadcast s = s\<lparr>bf_pc := (\<lambda>j. bf_wake (bf_pc s j))\<rparr>"

fun bf_stmt :: "int \<Rightarrow> nat \<Rightarrow> bf_pc \<Rightarrow> bf_state \<Rightarrow> bf_state option" where
  "bf_stmt mx i F_poll s = Some (bf_goto i F_print s)"
| "bf_stmt mx i F_print s = Some (bf_goto i F_lock (s\<lparr>bf_out := bf_out s @ [Tid i]\<rparr>))"
| "bf_stmt mx i F_lock s = bf_acquire i F_inc s"
| "bf_stmt mx i F_inc s =
     (if bf_on_barrier s < INT_MAX
      then Some (bf_goto i F_test (s\<lparr>bf_on_barrier := bf_on_barrier s + 1\<rparr>)) else None)"
| "bf_stmt mx i F_test s =
     Some (bf_goto i (if bf_on_barrier s mod mx = 0 then F_println else F_wtest1) s)"
| "bf_stmt mx i F_println s = Some (bf_goto i F_setwoken (s\<lparr>bf_out := bf_out s @ [Newline]\<rparr>))"
| "bf_stmt mx i F_setwoken s = Some (bf_goto i F_bcast1 (s\<lparr>bf_wokenup := 1\<rparr>))"
| "bf_stmt mx i F_bcast1 s = Some (bf_goto i F_wtest0 (bf_broadcast s))"
| "bf_stmt mx i F_wtest0 s =
     Some (if bf_wokenup s < mx then bf_release i F_wait0 s else bf_goto i F_unlock s)"
| "bf_stmt mx i F_wait0 s = None"
| "bf_stmt mx i F_relock0 s = bf_acquire i F_wtest0 s"
| "bf_stmt mx i F_wtest1 s =
     Some (if bf_on_barrier s mod mx \<noteq> 0 then bf_release i F_wait1 s else bf_goto i F_incw s)"
| "bf_stmt mx i F_wait1 s = None"
| "bf_stmt mx i F_relock1 s = bf_acquire i F_wtest1 s"
| "bf_stmt mx i F_incw s = Some (bf_goto i F_test2 (s\<lparr>bf_wokenup := bf_wokenup s + 1\<rparr>))"
| "bf_stmt mx i F_test2 s = Some (bf_goto i (if bf_wokenup s = mx then F_bcast2 else F_wtest2) s)"
| "bf_stmt mx i F_bcast2 s = Some (bf_goto i F_unlock (bf_broadcast s))"
| "bf_stmt mx i F_wtest2 s =
     Some (if bf_wokenup s < mx then bf_release i F_wait2 s else bf_goto i F_unlock s)"
| "bf_stmt mx i F_wait2 s = None"
| "bf_stmt mx i F_relock2 s = bf_acquire i F_wtest2 s"
| "bf_stmt mx i F_unlock s = Some (bf_release i F_poll s)"

definition bf_step :: "int \<Rightarrow> bar_event \<Rightarrow> bf_state \<Rightarrow> bf_state option" where
  "bf_step mx e s =
     (case e of
        Run i \<Rightarrow> if i < nat mx then bf_stmt mx i (bf_pc s i) s else None
      | Spurious i \<Rightarrow>
          if i < nat mx \<and> bf_pc s i \<in> {F_wait0, F_wait1, F_wait2}
          then Some (bf_goto i (bf_wake (bf_pc s i)) s) else None)"

definition bf_init :: bf_state where
  "bf_init = \<lparr>bf_pc = (\<lambda>_. F_poll), bf_on_barrier = 0, bf_wokenup = 0, bf_mutex = None, bf_out = []\<rparr>"

text \<open>
  \<open>main()\<close>: the two optional arguments, the check that refuses fewer than two threads, and the
  two allocations (whether each one succeeds is a parameter). The result is \<open>max\<close>, \<open>maxrand\<close>
  and the state in which the threads start.
\<close>

definition bf_main :: "bool \<Rightarrow> bool \<Rightarrow> string list \<Rightarrow> exit_info + int \<times> int \<times> bf_state" where
  "bf_main malloc_tid malloc_id argv =
     (let mx = (if 1 < length argv then atoi (argv ! 1) else 20);
          maxrand = (if 2 < length argv then atoi (argv ! 2) else 50)
      in if mx < 2 then Inl (Exit 1 ''The argument must be bigger than 1.'')
         else if \<not> malloc_tid then Inl Abort
         else if \<not> malloc_id then Inl Abort
         else Inr (mx, maxrand, bf_init))"

lemmas bf_defs = bf_goto_def bf_acquire_def bf_release_def bf_broadcast_def


section \<open>Invariant of the fixed barrier\<close>

text \<open>
  Where the mutex is held; arrived at the first barrier but not counted in \<open>wokenup\<close>; counted
  in it; the last thread to arrive, before it sets \<open>wokenup\<close>.
\<close>

fun bf_crit :: "bf_pc \<Rightarrow> bool" where
  "bf_crit F_inc = True"
| "bf_crit F_test = True"
| "bf_crit F_println = True"
| "bf_crit F_setwoken = True"
| "bf_crit F_bcast1 = True"
| "bf_crit F_wtest0 = True"
| "bf_crit F_wtest1 = True"
| "bf_crit F_incw = True"
| "bf_crit F_test2 = True"
| "bf_crit F_bcast2 = True"
| "bf_crit F_wtest2 = True"
| "bf_crit F_unlock = True"
| "bf_crit _ = False"

fun bf_arrived :: "bf_pc \<Rightarrow> bool" where
  "bf_arrived F_test = True"
| "bf_arrived F_println = True"
| "bf_arrived F_setwoken = True"
| "bf_arrived F_wtest1 = True"
| "bf_arrived F_wait1 = True"
| "bf_arrived F_relock1 = True"
| "bf_arrived F_incw = True"
| "bf_arrived _ = False"

fun bf_counted :: "bf_pc \<Rightarrow> bool" where
  "bf_counted F_bcast1 = True"
| "bf_counted F_wtest0 = True"
| "bf_counted F_wait0 = True"
| "bf_counted F_relock0 = True"
| "bf_counted F_test2 = True"
| "bf_counted F_bcast2 = True"
| "bf_counted F_wtest2 = True"
| "bf_counted F_wait2 = True"
| "bf_counted F_relock2 = True"
| "bf_counted _ = False"

fun bf_late :: "bf_pc \<Rightarrow> bool" where
  "bf_late F_unlock = True"
| "bf_late p = bf_counted p"

lemma bf_wake_inv [simp]:
  "bf_crit (bf_wake p) = bf_crit p"
  "bf_arrived (bf_wake p) = bf_arrived p"
  "bf_counted (bf_wake p) = bf_counted p"
  "bf_late (bf_wake p) = bf_late p"
  by (cases p; simp)+

abbreviation bf_owner :: "bf_state \<Rightarrow> bf_pc option" where
  "bf_owner s \<equiv> map_option (bf_pc s) (bf_mutex s)"

definition bf_mutex_ok :: "int \<Rightarrow> bf_state \<Rightarrow> bool" where
  "bf_mutex_ok mx s \<longleftrightarrow>
     (\<forall>i < nat mx. bf_crit (bf_pc s i) \<longleftrightarrow> bf_mutex s = Some i)
     \<and> (\<forall>i. bf_mutex s = Some i \<longrightarrow> i < nat mx)
     \<and> 0 \<le> bf_on_barrier s"

lemma bf_mutex_ok_run:
  assumes m: "bf_mutex_ok mx s" and i: "i < nat mx" and st: "bf_stmt mx i (bf_pc s i) s = Some t"
  shows "bf_mutex_ok mx t"
proof -
  have c: "bf_crit (bf_pc s i) \<longleftrightarrow> bf_mutex s = Some i"
    using m i by (simp add: bf_mutex_ok_def)
  show ?thesis
    using st [symmetric] m i c unfolding bf_mutex_ok_def
    by (cases "bf_pc s i"; force simp: bf_defs split: if_splits)
qed

text \<open>
  A round has three phases: threads gather at the first barrier (\<open>on_barrier % max\<close> of them have
  arrived); all have arrived and the last one is about to start the release; threads leave
  (\<open>wokenup\<close> of them have, the others still count as arrived). The counts, the two globals and
  the program counter of the mutex's owner determine the phase.
\<close>

definition bf_phase :: "int \<Rightarrow> int \<Rightarrow> int \<Rightarrow> int \<Rightarrow> int \<Rightarrow> int \<Rightarrow> bf_pc option \<Rightarrow> bool" where
  "bf_phase mx on arrived counted late woken owner \<longleftrightarrow>
     on = arrived \<and> owner \<notin> {Some F_println, Some F_setwoken, Some F_incw, Some F_bcast1}
       \<and> (woken = mx \<or> woken = 0 \<and> late = 0)
   \<or> on = 0 \<and> arrived = mx \<and> counted = 0 \<and> woken \<le> mx \<and> owner \<in> {Some F_test, Some F_println, Some F_setwoken}
   \<or> on = 0 \<and> arrived + counted = mx \<and> woken = counted \<and> 1 \<le> woken \<and> woken < mx
       \<and> owner \<notin> {Some F_test, Some F_println, Some F_setwoken, Some F_bcast2}"

definition bf_phase_ok :: "int \<Rightarrow> bf_state \<Rightarrow> bool" where
  "bf_phase_ok mx s \<longleftrightarrow>
     bf_phase mx (bf_on_barrier s mod mx) (cnt (nat mx) bf_arrived (bf_pc s))
       (cnt (nat mx) bf_counted (bf_pc s)) (cnt (nat mx) bf_late (bf_pc s))
       (bf_wokenup s) (bf_owner s)"

lemma bf_disjoint: "bf_arrived p \<Longrightarrow> \<not> bf_counted p"
  by (cases p) simp_all

lemma bf_owner_crit:
  "bf_mutex_ok mx s \<Longrightarrow> i < nat mx \<Longrightarrow> bf_crit (bf_pc s i) \<Longrightarrow> bf_mutex s = Some i"
  by (simp add: bf_mutex_ok_def)

lemma bf_owner_other:
  "bf_mutex_ok mx s \<Longrightarrow> i < nat mx \<Longrightarrow> \<not> bf_crit (bf_pc s i) \<Longrightarrow>
     map_option ((bf_pc s)(i := p)) (bf_mutex s) = bf_owner s"
  by (cases "bf_mutex s") (auto simp: bf_mutex_ok_def)


text \<open>Each kind of statement on the summary alone.\<close>

lemma bf_phase_acquire:
  "bf_phase mx on a c l w None \<Longrightarrow> p \<in> {F_inc, F_wtest0, F_wtest1, F_wtest2} \<Longrightarrow>
     bf_phase mx on a c l w (Some p)"
  by (auto simp: bf_phase_def)

lemma bf_phase_arrive:
  "bf_phase mx on a c l w (Some F_inc) \<Longrightarrow> a + c < mx \<Longrightarrow> 0 \<le> c \<Longrightarrow> 2 \<le> mx \<Longrightarrow>
     bf_phase mx (if on + 1 = mx then 0 else on + 1) (a + 1) c l w (Some F_test)"
  by (auto simp: bf_phase_def)

lemma bf_phase_test:
  "bf_phase mx 0 a c l w (Some F_test) \<Longrightarrow> 1 \<le> a \<Longrightarrow> bf_phase mx 0 a c l w (Some F_println)"
  "bf_phase mx on a c l w (Some F_test) \<Longrightarrow> on \<noteq> 0 \<Longrightarrow> bf_phase mx on a c l w (Some F_wtest1)"
  by (auto simp: bf_phase_def)

lemma bf_phase_println:
  "bf_phase mx on a c l w (Some F_println) \<Longrightarrow> bf_phase mx on a c l w (Some F_setwoken)"
  by (auto simp: bf_phase_def)

lemma bf_phase_setwoken:
  "bf_phase mx on a c l w (Some F_setwoken) \<Longrightarrow> 2 \<le> mx \<Longrightarrow>
     bf_phase mx on (a - 1) (c + 1) (l + 1) 1 (Some F_bcast1)"
  by (auto simp: bf_phase_def)

lemma bf_phase_bcast1:
  "bf_phase mx on a c l w (Some F_bcast1) \<Longrightarrow> bf_phase mx on a c l w (Some F_wtest0)"
  by (auto simp: bf_phase_def)

lemma bf_phase_sleep:
  "bf_phase mx on a c l w (Some p) \<Longrightarrow> p \<in> {F_wtest0, F_wtest1, F_wtest2} \<Longrightarrow> bf_phase mx on a c l w None"
  by (auto simp: bf_phase_def)

lemma bf_phase_leave:
  "bf_phase mx on a c l w (Some p) \<Longrightarrow> p \<in> {F_wtest0, F_wtest2} \<Longrightarrow> 1 \<le> l \<Longrightarrow>
     \<not> w < mx \<Longrightarrow> bf_phase mx on a (c - 1) l w (Some F_unlock)"
  by (auto simp: bf_phase_def)

lemma bf_phase_bcast2:
  "bf_phase mx on a c l w (Some F_bcast2) \<Longrightarrow> a + c \<le> mx \<Longrightarrow> 1 \<le> c \<Longrightarrow>
     bf_phase mx on a (c - 1) l w (Some F_unlock)"
  by (auto simp: bf_phase_def)

lemma bf_phase_wtest1:
  "bf_phase mx 0 a c l w (Some F_wtest1) \<Longrightarrow> 1 \<le> a \<Longrightarrow> bf_phase mx 0 a c l w (Some F_incw)"
  by (auto simp: bf_phase_def)

lemma bf_phase_incw:
  "bf_phase mx on a c l w (Some F_incw) \<Longrightarrow>
     bf_phase mx on (a - 1) (c + 1) (l + 1) (w + 1) (Some F_test2)"
  by (auto simp: bf_phase_def)

lemma bf_phase_test2:
  "bf_phase mx on a c l mx (Some F_test2) \<Longrightarrow> bf_phase mx on a c l mx (Some F_bcast2)"
  "bf_phase mx on a c l w (Some F_test2) \<Longrightarrow> bf_phase mx on a c l w (Some F_wtest2)"
  by (auto simp: bf_phase_def)

lemma bf_phase_unlock:
  "bf_phase mx on a c l w (Some F_unlock) \<Longrightarrow> 1 \<le> l \<Longrightarrow> a + c < mx \<Longrightarrow>
     bf_phase mx on a c (l - 1) w None"
  by (auto simp: bf_phase_def)

lemma bf_phase_ok_run:
  assumes mx: "2 \<le> mx" and m: "bf_mutex_ok mx s" and ph: "bf_phase_ok mx s"
    and i: "i < nat mx" and st: "bf_stmt mx i (bf_pc s i) s = Some t"
  shows "bf_phase_ok mx t"
proof -
  let ?A = "cnt (nat mx) bf_arrived (bf_pc s)" and ?C = "cnt (nat mx) bf_counted (bf_pc s)"
    and ?L = "cnt (nat mx) bf_late (bf_pc s)"
  have a: "bf_arrived (bf_pc s i) \<Longrightarrow> 1 \<le> ?A" and l: "bf_late (bf_pc s i) \<Longrightarrow> 1 \<le> ?L"
    and c: "bf_counted (bf_pc s i) \<Longrightarrow> 1 \<le> ?C"
    by (rule cnt_member [OF i]; assumption)+
  have le: "?A + ?C \<le> mx"
    using cnt_disjoint_le [where P = bf_arrived and Q = bf_counted and n = "nat mx" and f = "bf_pc s",
        OF bf_disjoint] mx by simp
  have nac: "?A + ?C < mx" if "\<not> bf_arrived (bf_pc s i)" "\<not> bf_counted (bf_pc s i)"
    using cnt_split [where P = bf_arrived and Q = bf_counted and n = "nat mx" and f = "bf_pc s",
        OF bf_disjoint] i mx that le by fastforce
  have c0: "0 \<le> ?C" by simp
  have m0: "0 < mx" using mx by simp
  note own = bf_owner_crit [OF m i] bf_owner_other [OF m i]
  note defs = bf_defs bf_phase_ok_def counting mod_inc [OF m0] cnt_map [where g = bf_wake] own
  note ph' = ph [unfolded bf_phase_ok_def]
  note simps = defs st [symmetric]
  show ?thesis
  proof (cases "bf_pc s i")
    case F_poll
    with st [symmetric] i ph' a l c nac le mx show ?thesis
      by (simp add: defs split: if_splits)
  next
    case F_print
    with st [symmetric] i ph' a l c nac le mx show ?thesis
      by (simp add: defs split: if_splits)
  next
    case F_lock
    with st [symmetric] i ph' a l c nac le mx show ?thesis
      by (simp add: defs split: if_splits) (auto intro: bf_phase_acquire)?
  next
    case F_inc
    with st [symmetric] i ph' a l c nac le mx show ?thesis
      by (simp add: defs split: if_splits) (use bf_phase_arrive in fastforce)?
  next
    case F_test
    with st [symmetric] i ph' a l c nac le mx show ?thesis
      by (simp add: defs split: if_splits) (auto intro: bf_phase_test)?
  next
    case F_println
    with st [symmetric] i ph' a l c nac le mx show ?thesis
      by (simp add: defs split: if_splits) (auto intro: bf_phase_println)?
  next
    case F_setwoken
    with st [symmetric] i ph' a l c nac le mx show ?thesis
      by (simp add: defs split: if_splits) (auto intro: bf_phase_setwoken)?
  next
    case F_bcast1
    with st [symmetric] i ph' a l c nac le mx show ?thesis
      by (simp add: defs split: if_splits) (auto intro: bf_phase_bcast1)?
  next
    case F_wtest0
    with st [symmetric] i ph' a l c nac le mx show ?thesis
      by (simp add: defs split: if_splits) (auto intro: bf_phase_sleep bf_phase_leave)?
  next
    case F_wait0
    with st [symmetric] i ph' a l c nac le mx show ?thesis
      by (simp add: defs split: if_splits)
  next
    case F_relock0
    with st [symmetric] i ph' a l c nac le mx show ?thesis
      by (simp add: defs split: if_splits) (auto intro: bf_phase_acquire)?
  next
    case F_wtest1
    with st [symmetric] i ph' a l c nac le mx show ?thesis
      by (simp add: defs split: if_splits) (auto intro: bf_phase_sleep bf_phase_wtest1)?
  next
    case F_wait1
    with st [symmetric] i ph' a l c nac le mx show ?thesis
      by (simp add: defs split: if_splits)
  next
    case F_relock1
    with st [symmetric] i ph' a l c nac le mx show ?thesis
      by (simp add: defs split: if_splits) (auto intro: bf_phase_acquire)?
  next
    case F_incw
    with st [symmetric] i ph' a l c nac le mx show ?thesis
      by (simp add: defs split: if_splits) (auto intro: bf_phase_incw)?
  next
    case F_test2
    with st [symmetric] i ph' a l c nac le mx show ?thesis
      by (simp add: defs split: if_splits) (auto intro: bf_phase_test2)?
  next
    case F_bcast2
    with st [symmetric] i ph' a l c nac le mx show ?thesis
      by (simp add: defs split: if_splits) (auto intro: bf_phase_bcast2)?
  next
    case F_wtest2
    with st [symmetric] i ph' a l c nac le mx show ?thesis
      by (simp add: defs split: if_splits) (auto intro: bf_phase_sleep bf_phase_leave)?
  next
    case F_wait2
    with st [symmetric] i ph' a l c nac le mx show ?thesis
      by (simp add: defs split: if_splits)
  next
    case F_relock2
    with st [symmetric] i ph' a l c nac le mx show ?thesis
      by (simp add: defs split: if_splits) (auto intro: bf_phase_acquire)?
  next
    case F_unlock
    with st [symmetric] i ph' a l c nac le mx show ?thesis
      by (simp add: defs split: if_splits) (auto intro: bf_phase_unlock)?
  qed
qed

lemma bf_wakenup_le: "bf_phase_ok mx s \<Longrightarrow> 2 \<le> mx \<Longrightarrow> bf_wokenup s \<le> mx"
  by (auto simp: bf_phase_ok_def bf_phase_def)

lemma bf_phase_zero:
  assumes "bf_phase_ok mx s" "bf_owner s \<in> {Some F_println, Some F_setwoken, Some F_incw}"
  shows "bf_on_barrier s mod mx = 0"
  using assms unfolding bf_phase_ok_def bf_phase_def by blast

lemma bf_println_all:
  assumes "2 \<le> mx" "bf_phase_ok mx s" "bf_owner s = Some F_println" "j < nat mx"
  shows "bf_arrived (bf_pc s j)"
proof -
  have "cnt (nat mx) bf_arrived (bf_pc s) = int (nat mx)"
    using assms by (auto simp: bf_phase_ok_def bf_phase_def)
  then have "\<forall>j < nat mx. bf_arrived (bf_pc s j)"
    by (rule iffD1 [OF cnt_full_iff])
  with \<open>j < nat mx\<close> show ?thesis by blast
qed

lemma bf_inc_none:
  assumes "2 \<le> mx" "bf_mutex_ok mx s" "bf_phase_ok mx s" "i < nat mx" "bf_pc s i = F_inc"
    and "bf_on_barrier s mod mx = 0" "j < nat mx"
  shows "\<not> bf_arrived (bf_pc s j)"
proof -
  have own: "bf_owner s = Some F_inc"
    using assms by (auto simp: bf_mutex_ok_def)
  have "cnt (nat mx) bf_arrived (bf_pc s) + cnt (nat mx) bf_counted (bf_pc s) \<noteq> mx"
    using cnt_split [where P = bf_arrived and Q = bf_counted and n = "nat mx" and f = "bf_pc s",
        OF bf_disjoint] assms by fastforce
  then have "cnt (nat mx) bf_arrived (bf_pc s) = 0"
    using assms(3,6) own by (auto simp: bf_phase_ok_def bf_phase_def)
  with assms(7) show ?thesis by (simp add: cnt_zero_iff)
qed

text \<open>No wakeup is lost: a thread asleep has its loop condition true, or a broadcast is due.\<close>

definition bf_signal_ok :: "int \<Rightarrow> bf_state \<Rightarrow> bool" where
  "bf_signal_ok mx s \<longleftrightarrow>
     (\<forall>j < nat mx. bf_pc s j = F_wait1 \<longrightarrow>
        bf_on_barrier s mod mx \<noteq> 0
        \<or> bf_owner s \<in> {Some F_test, Some F_println, Some F_setwoken, Some F_bcast1})
     \<and> (\<forall>j < nat mx. bf_pc s j \<in> {F_wait0, F_wait2} \<longrightarrow>
        bf_wokenup s < mx \<or> bf_owner s \<in> {Some F_test2, Some F_bcast2})"

text \<open>
  The unfinished line of output holds the threads that have printed and not arrived, and, until
  the newline of this round is printed, those that have arrived.
\<close>

definition bf_open :: "int \<Rightarrow> bf_state \<Rightarrow> bool" where
  "bf_open mx s \<longleftrightarrow> bf_on_barrier s mod mx \<noteq> 0 \<or> bf_owner s \<in> {Some F_test, Some F_println}"

fun bf_printed :: "bool \<Rightarrow> bf_pc \<Rightarrow> bool" where
  "bf_printed op F_lock = True"
| "bf_printed op F_inc = True"
| "bf_printed op p = (op \<and> bf_arrived p)"

definition bf_out_ok :: "int \<Rightarrow> bf_state \<Rightarrow> bool" where
  "bf_out_ok mx s \<longleftrightarrow>
     (\<forall>l \<in> set (fst (out_lines (bf_out s))). distinct l \<and> set l = {..< nat mx})
     \<and> distinct (snd (out_lines (bf_out s)))
     \<and> set (snd (out_lines (bf_out s))) = {j. j < nat mx \<and> bf_printed (bf_open mx s) (bf_pc s j)}"

lemma bf_wake_wait [simp]: "bf_wake p \<noteq> F_wait0" "bf_wake p \<noteq> F_wait1" "bf_wake p \<noteq> F_wait2"
  by (cases p; simp)+

lemma bf_wake_printed [simp]: "bf_printed op (bf_wake p) = bf_printed op p"
  by (cases p; simp)

lemma bf_signal_ok_run:
  assumes mx: "2 \<le> mx" and m: "bf_mutex_ok mx s" and ph: "bf_phase_ok mx s" and sg: "bf_signal_ok mx s"
    and i: "i < nat mx" and st: "bf_stmt mx i (bf_pc s i) s = Some t"
  shows "bf_signal_ok mx t"
proof -
  have w: "bf_wokenup s \<le> mx" by (rule bf_wakenup_le [OF ph mx])
  note own = bf_owner_crit [OF m i] bf_owner_other [OF m i]
  show ?thesis
    using st [symmetric] sg i w mx
    by (cases "bf_pc s i"; simp add: bf_signal_ok_def bf_defs own split: if_splits; force)
qed

lemma bf_open_upd [simp]:
  "bf_open mx (s\<lparr>bf_mutex := m, bf_pc := f\<rparr>) \<longleftrightarrow>
     bf_on_barrier s mod mx \<noteq> 0 \<or> map_option f m \<in> {Some F_test, Some F_println}"
  by (simp add: bf_open_def)

lemma bf_out_keep:
  assumes "bf_out_ok mx s" "bf_out t = bf_out s"
    and "\<And>j. j < nat mx \<Longrightarrow> bf_printed (bf_open mx t) (bf_pc t j) = bf_printed (bf_open mx s) (bf_pc s j)"
  shows "bf_out_ok mx t"
proof -
  have "{j. j < nat mx \<and> bf_printed (bf_open mx t) (bf_pc t j)}
      = {j. j < nat mx \<and> bf_printed (bf_open mx s) (bf_pc s j)}"
    using assms(3) by auto
  with assms(1,2) show ?thesis by (simp add: bf_out_ok_def)
qed

lemma bf_printed_open: "\<not> bf_arrived p \<Longrightarrow> bf_printed op p = bf_printed op' p"
  by (cases p) auto

lemma bf_printed_arrived: "bf_arrived p \<Longrightarrow> bf_printed op p = op"
  by (cases p) auto

lemma bf_out_ok_run:
  assumes mx: "2 \<le> mx" and m: "bf_mutex_ok mx s" and ph: "bf_phase_ok mx s" and o: "bf_out_ok mx s"
    and i: "i < nat mx" and st: "bf_stmt mx i (bf_pc s i) s = Some t"
  shows "bf_out_ok mx t"
proof -
  have m0: "0 < mx" using mx by simp
  note own = bf_owner_crit [OF m i] bf_owner_other [OF m i]
  note defs = bf_open_def bf_defs mod_inc [OF m0] own
  show ?thesis
  proof (cases "bf_pc s i")
    case F_print
    have t: "t = s\<lparr>bf_out := bf_out s @ [Tid i], bf_pc := (bf_pc s)(i := F_lock)\<rparr>"
      using st [symmetric] F_print by (simp add: bf_defs)
    have op: "bf_open mx t = bf_open mx s"
      using F_print own unfolding t by (simp add: bf_open_def)
    obtain ls cur where lc: "out_lines (bf_out s) = (ls, cur)" by fastforce
    have "{j. j < nat mx \<and> bf_printed (bf_open mx s) (((bf_pc s)(i := F_lock)) j)}
        = insert i {j. j < nat mx \<and> bf_printed (bf_open mx s) (bf_pc s j)}"
      using i by auto
    with o lc F_print show ?thesis
      unfolding bf_out_ok_def op by (simp add: t)
  next
    case F_println
    have t: "t = s\<lparr>bf_out := bf_out s @ [Newline], bf_pc := (bf_pc s)(i := F_setwoken)\<rparr>"
      using st [symmetric] F_println by (simp add: bf_defs)
    have ow: "bf_owner s = Some F_println" using F_println own by simp
    have all: "bf_arrived (bf_pc s j)" if "j < nat mx" for j
      by (rule bf_println_all [OF mx ph ow that])
    have z: "bf_on_barrier s mod mx = 0" using bf_phase_zero [OF ph] ow by simp
    have ops: "bf_open mx s" and opt: "\<not> bf_open mx t"
      using ow z own F_println unfolding t by (simp_all add: bf_open_def)
    have none: "\<not> bf_printed (bf_open mx t) (bf_pc t j)" if "j < nat mx" for j
    proof -
      have "bf_arrived (bf_pc t j)" using all [OF that] by (simp add: t)
      then show ?thesis using opt by (simp add: bf_printed_arrived)
    qed
    obtain ls cur where lc: "out_lines (bf_out s) = (ls, cur)" by fastforce
    have "set cur = {..< nat mx}"
      using o lc all ops by (auto simp: bf_out_ok_def bf_printed_arrived)
    then show ?thesis
      using o lc none unfolding bf_out_ok_def by (auto simp: t)
  next
    case F_inc
    show ?thesis
    proof (rule bf_out_keep [OF o])
      fix j assume j: "j < nat mx"
      have opt: "bf_open mx t" and pt: "bf_pc t = (bf_pc s)(i := F_test)"
        using st [symmetric] F_inc m0 by (auto simp: defs split: if_splits)
      show "bf_printed (bf_open mx t) (bf_pc t j) = bf_printed (bf_open mx s) (bf_pc s j)"
      proof (cases "bf_open mx s")
        case True
        then show ?thesis using opt pt F_inc by simp
      next
        case False
        then have "bf_on_barrier s mod mx = 0" by (simp add: bf_open_def)
        then have "\<not> bf_arrived (bf_pc s j)"
          using bf_inc_none [OF mx m ph i F_inc _ j] by simp
        then show ?thesis using opt pt F_inc bf_printed_open [of "bf_pc s j"] by auto
      qed
    qed (use st F_inc in \<open>auto simp: bf_defs split: if_splits\<close>)
  next
    case F_setwoken
    have "bf_on_barrier s mod mx = 0"
      using bf_phase_zero [OF ph] F_setwoken own by simp
    then show ?thesis
      using st [symmetric] F_setwoken by (intro bf_out_keep [OF o]) (auto simp: defs)
  next
    case F_incw
    have "bf_on_barrier s mod mx = 0"
      using bf_phase_zero [OF ph] F_incw own by simp
    then show ?thesis
      using st [symmetric] F_incw by (intro bf_out_keep [OF o]) (auto simp: defs)
  qed (use st [symmetric] in \<open>(intro bf_out_keep [OF o]; force simp: defs split: if_splits)\<close>)+
qed

definition bf_inv :: "int \<Rightarrow> bf_state \<Rightarrow> bool" where
  "bf_inv mx s \<longleftrightarrow>
     (2 \<le> mx \<longrightarrow> bf_mutex_ok mx s \<and> bf_phase_ok mx s \<and> bf_signal_ok mx s \<and> bf_out_ok mx s)"

lemma bf_spurious_inv:
  assumes mx: "2 \<le> mx" and m: "bf_mutex_ok mx s"
    and ph: "bf_phase_ok mx s" and sg: "bf_signal_ok mx s" and o: "bf_out_ok mx s"
    and i: "i < nat mx" and w: "bf_pc s i \<in> {F_wait0, F_wait1, F_wait2}"
    and t: "t = bf_goto i (bf_wake (bf_pc s i)) s"
  shows "bf_mutex_ok mx t \<and> bf_phase_ok mx t \<and> bf_signal_ok mx t \<and> bf_out_ok mx t"
proof (intro conjI)
  have nc: "\<not> bf_crit (bf_pc s i)" using w by auto
  note own = bf_owner_other [OF m i nc]
  show "bf_mutex_ok mx t"
    using m w unfolding t bf_goto_def by (auto simp: bf_mutex_ok_def)
  show "bf_phase_ok mx t"
    using ph unfolding t bf_goto_def by (simp add: bf_phase_ok_def counting own)
  show "bf_signal_ok mx t"
    using sg unfolding t bf_goto_def by (simp add: bf_signal_ok_def own)
  show "bf_out_ok mx t"
    unfolding t bf_goto_def by (rule bf_out_keep [OF o]) (auto simp: bf_open_def own)
qed

lemma bf_inv_step:
  assumes inv: "bf_inv mx s" and st: "bf_step mx e s = Some t"
  shows "bf_inv mx t"
proof (cases "2 \<le> mx")
  case mx: True
  with inv have parts: "bf_mutex_ok mx s" "bf_phase_ok mx s" "bf_signal_ok mx s" "bf_out_ok mx s"
    by (auto simp: bf_inv_def)
  show ?thesis
  proof (cases e)
    case (Run i)
    with st have "i < nat mx" "bf_stmt mx i (bf_pc s i) s = Some t"
      by (auto simp: bf_step_def split: if_splits)
    with mx parts show ?thesis
      unfolding bf_inv_def
      by (blast intro: bf_mutex_ok_run bf_phase_ok_run bf_signal_ok_run bf_out_ok_run)
  next
    case (Spurious i)
    with st have "i < nat mx" "bf_pc s i \<in> {F_wait0, F_wait1, F_wait2}"
      "t = bf_goto i (bf_wake (bf_pc s i)) s"
      by (simp_all add: bf_step_def split: if_splits)
    then show ?thesis
      unfolding bf_inv_def using bf_spurious_inv [OF mx parts] by blast
  qed
qed (simp add: bf_inv_def)

lemma bf_inv_init: "bf_inv mx bf_init"
  unfolding bf_inv_def
  by (simp add: bf_init_def bf_mutex_ok_def bf_phase_ok_def bf_phase_def bf_signal_ok_def bf_out_ok_def cnt_def)

interpretation bf: step_invariant "bf_step mx" bf_init "bf_inv mx" for mx
  by unfold_locales (auto intro: bf_inv_init bf_inv_step)

text \<open>Nobody is stuck: the thread that can move is the owner of the mutex, or any thread not asleep.\<close>

lemma bf_progress_inv:
  assumes mx: "2 \<le> mx" and inv: "bf_inv mx s" and small: "bf_on_barrier s < INT_MAX"
  shows "\<exists>i t. bf_step mx (Run i) s = Some t"
proof (cases "bf_mutex s")
  case (Some i)
  with mx inv have "i < nat mx" and "bf_crit (bf_pc s i)"
    by (auto simp: bf_inv_def bf_mutex_ok_def)
  with small show ?thesis
    by (intro exI [of _ i], cases "bf_pc s i") (auto simp: bf_step_def bf_acquire_def)
next
  case None
  have "\<exists>i < nat mx. bf_pc s i \<notin> {F_wait0, F_wait1, F_wait2}"
  proof (rule ccontr)
    assume "\<not> ?thesis"
    then have asleep: "\<And>i. i < nat mx \<Longrightarrow> bf_pc s i \<in> {F_wait0, F_wait1, F_wait2}" by blast
    have sg: "bf_signal_ok mx s" and ph: "bf_phase_ok mx s" using mx inv by (auto simp: bf_inv_def)
    have part: "cnt (nat mx) bf_arrived (bf_pc s) + cnt (nat mx) bf_counted (bf_pc s) = int (nat mx)"
      by (subst cnt_split) (use asleep bf_disjoint in force)+
    show False
    proof (cases "\<exists>i < nat mx. bf_pc s i \<in> {F_wait0, F_wait2}")
      case True
      then obtain i where i: "i < nat mx" "bf_pc s i \<in> {F_wait0, F_wait2}" by blast
      then have "1 \<le> cnt (nat mx) bf_late (bf_pc s)" "1 \<le> cnt (nat mx) bf_counted (bf_pc s)"
        by (auto intro!: cnt_member)
      moreover have "bf_wokenup s < mx" using sg True None by (auto simp: bf_signal_ok_def)
      ultimately have "bf_on_barrier s mod mx = 0" and less: "cnt (nat mx) bf_counted (bf_pc s) < mx"
        using ph None unfolding bf_phase_ok_def bf_phase_def by auto
      then have "\<And>j. j < nat mx \<Longrightarrow> bf_pc s j \<noteq> F_wait1"
        using sg None by (auto simp: bf_signal_ok_def)
      then have "\<forall>j < nat mx. bf_counted (bf_pc s j)" using asleep by fastforce
      then have "cnt (nat mx) bf_counted (bf_pc s) = int (nat mx)" by (rule iffD2 [OF cnt_full_iff])
      with less mx show False by simp
    next
      case False
      then have "\<forall>j < nat mx. bf_arrived (bf_pc s j)" using asleep by fastforce
      then have "cnt (nat mx) bf_arrived (bf_pc s) = int (nat mx)" by (rule iffD2 [OF cnt_full_iff])
      then have "cnt (nat mx) bf_arrived (bf_pc s) = mx" using mx by simp
      moreover have "bf_on_barrier s mod mx < mx" using mx by simp
      moreover have "cnt (nat mx) bf_counted (bf_pc s) = 0"
        using part calculation mx by simp
      ultimately show False using ph None unfolding bf_phase_ok_def bf_phase_def by auto
    qed
  qed
  then obtain i where i: "i < nat mx" "bf_pc s i \<notin> {F_wait0, F_wait1, F_wait2}" by blast
  moreover have "\<not> bf_crit (bf_pc s i)" using inv mx None i by (auto simp: bf_inv_def bf_mutex_ok_def)
  ultimately show ?thesis using None
    by (intro exI [of _ i], cases "bf_pc s i") (auto simp: bf_step_def bf_acquire_def)
qed


lemma bf_main_range:
  "bf_main m1 m2 argv = Inr (mx, maxrand, s0) \<Longrightarrow> 2 \<le> mx \<and> mx \<le> INT_MAX \<and> s0 = bf_init"
  using atoi_range [of "argv ! 1"] by (auto simp: bf_main_def Let_def split: if_splits)

section \<open>The barrier that deadlocks\<close>

text \<open>\<open>thread()\<close> of \<open>implement-barrier.c\<close>: one waiting loop (line 64), no second barrier.\<close>

datatype bo_pc =
    O_poll | O_print | O_lock | O_inc | O_test | O_println | O_bcast
  | O_wtest | O_wait | O_relock | O_unlock

record bo_state =
  bo_pc :: "nat \<Rightarrow> bo_pc"
  bo_on_barrier :: int
  bo_mutex :: "nat option"
  bo_out :: "tok list"

definition bo_goto :: "nat \<Rightarrow> bo_pc \<Rightarrow> bo_state \<Rightarrow> bo_state" where
  "bo_goto i p s = s\<lparr>bo_pc := (bo_pc s)(i := p)\<rparr>"

definition bo_acquire :: "nat \<Rightarrow> bo_pc \<Rightarrow> bo_state \<Rightarrow> bo_state option" where
  "bo_acquire i p s =
     (if bo_mutex s = None then Some (bo_goto i p (s\<lparr>bo_mutex := Some i\<rparr>)) else None)"

definition bo_release :: "nat \<Rightarrow> bo_pc \<Rightarrow> bo_state \<Rightarrow> bo_state" where
  "bo_release i p s = bo_goto i p (s\<lparr>bo_mutex := None\<rparr>)"

fun bo_wake :: "bo_pc \<Rightarrow> bo_pc" where
  "bo_wake O_wait = O_relock"
| "bo_wake p = p"

definition bo_broadcast :: "bo_state \<Rightarrow> bo_state" where
  "bo_broadcast s = s\<lparr>bo_pc := (\<lambda>j. bo_wake (bo_pc s j))\<rparr>"

lemmas bo_defs = bo_goto_def bo_acquire_def bo_release_def bo_broadcast_def

fun bo_stmt :: "int \<Rightarrow> nat \<Rightarrow> bo_pc \<Rightarrow> bo_state \<Rightarrow> bo_state option" where
  "bo_stmt mx i O_poll s = Some (bo_goto i O_print s)"
| "bo_stmt mx i O_print s = Some (bo_goto i O_lock (s\<lparr>bo_out := bo_out s @ [Tid i]\<rparr>))"
| "bo_stmt mx i O_lock s = bo_acquire i O_inc s"
| "bo_stmt mx i O_inc s =
     (if bo_on_barrier s < INT_MAX
      then Some (bo_goto i O_test (s\<lparr>bo_on_barrier := bo_on_barrier s + 1\<rparr>)) else None)"
| "bo_stmt mx i O_test s =
     Some (bo_goto i (if bo_on_barrier s mod mx = 0 then O_println else O_wtest) s)"
| "bo_stmt mx i O_println s = Some (bo_goto i O_bcast (s\<lparr>bo_out := bo_out s @ [Newline]\<rparr>))"
| "bo_stmt mx i O_bcast s = Some (bo_goto i O_unlock (bo_broadcast s))"
| "bo_stmt mx i O_wtest s =
     Some (if bo_on_barrier s mod mx \<noteq> 0 then bo_release i O_wait s else bo_goto i O_unlock s)"
| "bo_stmt mx i O_wait s = None"
| "bo_stmt mx i O_relock s = bo_acquire i O_wtest s"
| "bo_stmt mx i O_unlock s = Some (bo_release i O_poll s)"

definition bo_step :: "int \<Rightarrow> bar_event \<Rightarrow> bo_state \<Rightarrow> bo_state option" where
  "bo_step mx e s =
     (case e of
        Run i \<Rightarrow> if i < nat mx then bo_stmt mx i (bo_pc s i) s else None
      | Spurious i \<Rightarrow>
          if i < nat mx \<and> bo_pc s i = O_wait then Some (bo_goto i O_relock s) else None)"

definition bo_init :: bo_state where
  "bo_init = \<lparr>bo_pc = (\<lambda>_. O_poll), bo_on_barrier = 0, bo_mutex = None, bo_out = []\<rparr>"

definition bo_main :: "bool \<Rightarrow> bool \<Rightarrow> string list \<Rightarrow> exit_info + int \<times> int \<times> bo_state" where
  "bo_main malloc_tid malloc_id argv =
     (let mx = (if 1 < length argv then atoi (argv ! 1) else 10);
          maxrand = (if 2 < length argv then atoi (argv ! 2) else 100)
      in if mx < 2 then Inl (Exit 1 ''The argument must be bigger than 1.'')
         else if \<not> malloc_tid then Inl Abort
         else if \<not> malloc_id then Inl Abort
         else Inr (mx, maxrand, bo_init))"

text \<open>
  Every thread is in the waiting loop and its condition holds. No scheduling and no spurious
  wakeup leaves such states: a woken thread takes the mutex, tests again and goes back to sleep.
\<close>

definition bo_stuck :: "int \<Rightarrow> int \<Rightarrow> bo_state \<Rightarrow> bool" where
  "bo_stuck mx k s \<longleftrightarrow>
     bo_on_barrier s = k \<and> k mod mx \<noteq> 0
     \<and> (\<forall>i < nat mx. bo_pc s i \<in> {O_wtest, O_wait, O_relock})"

lemma bo_stuck_step:
  assumes stuck: "bo_stuck mx k s" and st: "bo_step mx e s = Some t"
  shows "bo_stuck mx k t"
proof (cases e)
  case (Run i)
  with st have i: "i < nat mx" and st: "bo_stmt mx i (bo_pc s i) s = Some t"
    by (auto simp: bo_step_def split: if_splits)
  with stuck have "bo_pc s i \<in> {O_wtest, O_wait, O_relock}" by (auto simp: bo_stuck_def)
  with st [symmetric] stuck show ?thesis
    by (auto simp: bo_stuck_def bo_defs split: if_splits)
next
  case (Spurious i)
  with st [symmetric] stuck show ?thesis
    by (auto simp: bo_step_def bo_stuck_def bo_defs split: if_splits)
qed

lemma bo_stuck_reach: "reach (bo_step mx) s t \<Longrightarrow> bo_stuck mx k s \<Longrightarrow> bo_stuck mx k t"
  by (induction rule: reach.induct) (auto intro: bo_stuck_step)

text \<open>
  The run: all but the last thread arrive and sleep; the last one arrives, broadcasts, releases
  the mutex, comes round again and arrives before the others have looked; the condition holds
  for them again.
\<close>

definition bo_arrive :: "nat \<Rightarrow> bar_event list" where
  "bo_arrive i = replicate 6 (Run i)"

definition bo_pass :: "nat \<Rightarrow> bar_event list" where
  "bo_pass i = replicate 8 (Run i)"

definition bo_deadlock_run :: "nat \<Rightarrow> bar_event list" where
  "bo_deadlock_run n =
     concat (map bo_arrive [0 ..< n]) @ bo_pass n @ bo_arrive n
     @ concat (map (\<lambda>i. replicate 2 (Run i)) [0 ..< n])"

lemmas bo_run_simps = bo_step_def bo_defs bo_arrive_def bo_pass_def numeral_eq_Suc

lemma bo_arrive_run:
  assumes "i < nat mx" "bo_pc s i = O_poll" "bo_mutex s = None" "bo_on_barrier s < INT_MAX"
    and "(bo_on_barrier s + 1) mod mx \<noteq> 0"
  shows "exec (bo_step mx) (bo_arrive i) s =
    Some (s\<lparr>bo_pc := (bo_pc s)(i := O_wait), bo_on_barrier := bo_on_barrier s + 1,
      bo_out := bo_out s @ [Tid i]\<rparr>)"
  using assms by (simp add: bo_run_simps)

lemma bo_pass_run:
  assumes "i < nat mx" "bo_pc s i = O_poll" "bo_mutex s = None" "bo_on_barrier s < INT_MAX"
    and "(bo_on_barrier s + 1) mod mx = 0"
  shows "exec (bo_step mx) (bo_pass i) s =
    Some (s\<lparr>bo_pc := (\<lambda>j. bo_wake (bo_pc s j)), bo_on_barrier := bo_on_barrier s + 1,
      bo_out := bo_out s @ [Tid i, Newline]\<rparr>)"
  using assms by (auto simp: bo_run_simps fun_eq_iff intro!: arg_cong2 [where f = bo_pc_update])

lemma bo_retest_run:
  assumes "i < nat mx" "bo_pc s i = O_relock" "bo_mutex s = None" "bo_on_barrier s mod mx \<noteq> 0"
  shows "exec (bo_step mx) (replicate 2 (Run i)) s = Some (s\<lparr>bo_pc := (bo_pc s)(i := O_wait)\<rparr>)"
  using assms by (simp add: bo_run_simps)

lemma bo_arrive_all:
  assumes "k \<le> n" "int n < INT_MAX"
  shows "\<exists>s. exec (bo_step (int n + 1)) (concat (map bo_arrive [0 ..< k])) bo_init = Some s
     \<and> bo_pc s = (\<lambda>j. if j < k then O_wait else O_poll) \<and> bo_on_barrier s = int k \<and> bo_mutex s = None"
  using assms(1)
proof (induction k)
  case 0
  show ?case by (simp add: bo_init_def)
next
  case (Suc k)
  then obtain s where s: "exec (bo_step (int n + 1)) (concat (map bo_arrive [0 ..< k])) bo_init = Some s"
    "bo_pc s = (\<lambda>j. if j < k then O_wait else O_poll)" "bo_on_barrier s = int k" "bo_mutex s = None"
    by auto
  have "(int k + 1) mod (int n + 1) \<noteq> 0" using Suc.prems by simp
  with s Suc.prems assms(2) show ?case
    by (auto simp: exec_append bo_arrive_run fun_eq_iff)
qed

lemma bo_retest_all:
  assumes "k \<le> n" "\<forall>j < n. bo_pc s j = O_relock" "bo_mutex s = None"
    and "bo_on_barrier s mod mx \<noteq> 0" "n < nat mx"
  shows "exec (bo_step mx) (concat (map (\<lambda>i. replicate 2 (Run i)) [0 ..< k])) s
     = Some (s\<lparr>bo_pc := (\<lambda>j. if j < k then O_wait else bo_pc s j)\<rparr>)"
  using assms(1)
proof (induction k)
  case (Suc k)
  then show ?case using assms
    by (auto simp: exec_append bo_retest_run fun_eq_iff intro!: arg_cong2 [where f = bo_pc_update])
qed simp

lemma bo_deadlock_run_stuck:
  assumes "1 \<le> n" "int n + 1 < INT_MAX"
  shows "\<exists>s. exec (bo_step (int n + 1)) (bo_deadlock_run n) bo_init = Some s
     \<and> bo_stuck (int n + 1) (int n + 2) s \<and> (\<forall>i \<le> n. bo_pc s i = O_wait)"
proof -
  let ?mx = "int n + 1"
  obtain s where s: "exec (bo_step ?mx) (concat (map bo_arrive [0 ..< n])) bo_init = Some s"
    "bo_pc s = (\<lambda>j. if j < n then O_wait else O_poll)" "bo_on_barrier s = int n" "bo_mutex s = None"
    using bo_arrive_all [of n n] assms by auto
  let ?s1 = "s\<lparr>bo_pc := (\<lambda>j. bo_wake (bo_pc s j)), bo_on_barrier := bo_on_barrier s + 1,
      bo_out := bo_out s @ [Tid n, Newline]\<rparr>"
  have 1: "exec (bo_step ?mx) (bo_pass n) s = Some ?s1"
    using s assms by (intro bo_pass_run) simp_all
  have "(1 + ?mx) mod ?mx = 1 mod ?mx" by (rule mod_add_self2)
  with assms have m: "(int n + 2) mod ?mx = 1" by (simp add: algebra_simps)
  let ?s2 = "?s1\<lparr>bo_pc := (bo_pc ?s1)(n := O_wait), bo_on_barrier := bo_on_barrier ?s1 + 1,
      bo_out := bo_out ?s1 @ [Tid n]\<rparr>"
  have 2: "exec (bo_step ?mx) (bo_arrive n) ?s1 = Some ?s2"
    using s assms m by (intro bo_arrive_run) (simp_all add: algebra_simps)
  let ?s3 = "?s2\<lparr>bo_pc := (\<lambda>j. if j < n then O_wait else bo_pc ?s2 j)\<rparr>"
  have 3: "exec (bo_step ?mx) (concat (map (\<lambda>i. replicate 2 (Run i)) [0 ..< n])) ?s2 = Some ?s3"
    using s assms m by (intro bo_retest_all [where n = n]) (auto simp: algebra_simps fun_eq_iff)
  have "exec (bo_step ?mx) (bo_deadlock_run n) bo_init = Some ?s3"
    using s(1) 1 2 3 by (simp add: bo_deadlock_run_def exec_append)
  moreover have "bo_stuck ?mx (int n + 2) ?s3" and "\<forall>i \<le> n. bo_pc ?s3 i = O_wait"
    using s m by (auto simp: bo_stuck_def)
  ultimately show ?thesis by blast
qed

section \<open>Properties\<close>

text \<open>C1: The fixed barrier keeps the rounds apart, whatever the scheduling and the spurious wakeups:
  started by \<open>main()\<close> with any arguments it accepts, every finished line of output holds
  each thread exactly once, and the line being written holds no thread twice. No thread starts a
  round before all the others have finished the one before.\<close>

theorem bf_lines_aligned:
  assumes "bf_main malloc1 malloc2 argv = Inr (mx, maxrand, s0)"
    and "reach (bf_step mx) s0 s"
  shows "(\<forall>l \<in> set (fst (out_lines (bf_out s))). distinct l \<and> set l = {..< nat mx})
     \<and> distinct (snd (out_lines (bf_out s))) \<and> set (snd (out_lines (bf_out s))) \<subseteq> {..< nat mx}"
proof -
  from assms(1) have mx: "2 \<le> mx" and "s0 = bf_init" by (simp_all add: bf_main_range)
  with assms(2) have "bf_inv mx s" by (auto intro: bf.reach_inv)
  with mx show ?thesis by (auto simp: bf_inv_def bf_out_ok_def)
qed

text \<open>Two threads, one full round.\<close>

definition bf_round :: "bar_event list" where
  "bf_round = replicate 6 (Run 0) @ replicate 9 (Run 1) @ replicate 6 (Run 0) @ replicate 3 (Run 1)"

lemma bf_round_run:
  "map_option (\<lambda>s. (bf_pc s 0, bf_pc s 1, bf_on_barrier s, out_lines (bf_out s)))
     (exec (bf_step 2) bf_round bf_init) = Some (F_poll, F_poll, 2, [[0, 1]], [])"
  by code_simp

theorem bf_lines_aligned_witness:
  "\<exists>s. exec (bf_step 2) bf_round bf_init = Some s
     \<and> fst (out_lines (bf_out s)) = [[0, 1]]
     \<and> (\<forall>l \<in> set (fst (out_lines (bf_out s))). distinct l \<and> set l = {..< nat 2})"
proof -
  have main: "bf_main True True [''a.out'', ''2'', ''0''] = Inr (2, 0, bf_init)"
    by (simp add: bf_main_def cdefs)
  obtain s where s: "exec (bf_step 2) bf_round bf_init = Some s"
    and l: "out_lines (bf_out s) = ([[0, 1]], [])"
    using bf_round_run by (auto simp: map_option_case split: option.splits)
  show ?thesis
    using s l bf_lines_aligned [OF main exec_reach [OF s]] by auto
qed

text \<open>C2: The fixed barrier never deadlocks: in every state the threads can get to, some thread can
  execute its next statement without a spurious wakeup, as long as \<open>on_barrier\<close> has not reached
  the largest \<open>int\<close> (where \<open>on_barrier++\<close> is undefined).\<close>

theorem bf_never_stuck:
  assumes "bf_main malloc1 malloc2 argv = Inr (mx, maxrand, s0)"
    and "reach (bf_step mx) s0 s" and "bf_on_barrier s < INT_MAX"
  shows "\<exists>i t. bf_step mx (Run i) s = Some t"
proof -
  from assms(1) have mx: "2 \<le> mx" and "s0 = bf_init" by (simp_all add: bf_main_range)
  with assms(2) have "bf_inv mx s" by (auto intro: bf.reach_inv)
  from bf_progress_inv [OF mx this assms(3)] show ?thesis .
qed

theorem bf_never_stuck_witness:
  "\<exists>s. exec (bf_step 2) bf_round bf_init = Some s \<and> (\<exists>i t. bf_step 2 (Run i) s = Some t)"
proof -
  have main: "bf_main True True [''a.out'', ''2'', ''0''] = Inr (2, 0, bf_init)"
    by (simp add: bf_main_def cdefs)
  obtain s where s: "exec (bf_step 2) bf_round bf_init = Some s" and "bf_on_barrier s = 2"
    using bf_round_run by (auto simp: map_option_case split: option.splits)
  with bf_never_stuck [OF main exec_reach [OF s]] show ?thesis by auto
qed

text \<open>C39: The first barrier deadlocks, as its header says, for every number of threads: there is a
  schedule after which all threads sleep in \<open>pthread_cond_wait\<close>, and from there no schedule and
  no spurious wakeup ever gets one of them out of the waiting loop.\<close>

theorem bo_deadlocks:
  assumes "bo_main malloc1 malloc2 argv = Inr (mx, maxrand, s0)" and "mx < INT_MAX"
  shows "\<exists>s. reach (bo_step mx) s0 s \<and> (\<forall>i < nat mx. bo_pc s i = O_wait)
     \<and> (\<forall>t. reach (bo_step mx) s t \<longrightarrow>
          (\<forall>i < nat mx. bo_pc t i \<in> {O_wtest, O_wait, O_relock}) \<and> bo_on_barrier t = bo_on_barrier s)"
proof -
  from assms(1) have s0: "s0 = bo_init" and mx: "2 \<le> mx"
    by (auto simp: bo_main_def Let_def split: if_splits)
  define n where "n = nat mx - 1"
  have n: "1 \<le> n" "int n + 1 = mx" "int n + 1 < INT_MAX" using mx assms(2) by (auto simp: n_def)
  obtain s where s: "exec (bo_step mx) (bo_deadlock_run n) bo_init = Some s"
    "bo_stuck mx (int n + 2) s" "\<forall>i \<le> n. bo_pc s i = O_wait"
    using bo_deadlock_run_stuck [OF n(1,3)] n(2) by auto
  have "bo_stuck mx (int n + 2) t" if "reach (bo_step mx) s t" for t
    using bo_stuck_reach [OF that s(2)] .
  moreover have "\<forall>i < nat mx. bo_pc s i = O_wait" using s(3) n by auto
  ultimately show ?thesis
    using exec_reach [OF s(1)] s(2) unfolding s0 by (intro exI [of _ s]) (auto simp: bo_stuck_def)
qed

theorem bo_deadlocks_witness:
  "\<exists>s. reach (bo_step 10) bo_init s \<and> (\<forall>i < 10. bo_pc s i = O_wait)
     \<and> (\<forall>t. reach (bo_step 10) s t \<longrightarrow> bo_pc t 3 \<in> {O_wtest, O_wait, O_relock})"
proof -
  have main: "bo_main True True [''a.out'', ''10'', ''0''] = Inr (10, 0, bo_init)"
    by (simp add: bo_main_def cdefs)
  obtain s where "reach (bo_step 10) bo_init s" "\<forall>i < nat 10. bo_pc s i = O_wait"
    "\<And>t. reach (bo_step 10) s t \<Longrightarrow> \<forall>i < nat 10. bo_pc t i \<in> {O_wtest, O_wait, O_relock}"
    using bo_deadlocks [OF main] by auto
  then show ?thesis by (intro exI [of _ s]) simp
qed

end
