(* ===== verification/Posix_Barrier.thy ===== *)
theory Posix_Barrier
  imports Barrier
begin

text \<open>
  What a barrier promises, as an abstract machine; the hand-made barrier of \<open>Barrier\<close> and
  \<open>pthreads/pthread-barrier.c\<close>, which uses the one of POSIX, both refine it.
\<close>

section \<open>The abstract barrier\<close>

text \<open>
  Threads arrive, each once in a round; when all \<open>n\<close> have, the barrier opens for the next round.
\<close>

record ab_state =
  ab_here :: "nat set"
  ab_rounds :: nat

datatype ab_event = Arrive nat | Open

fun ab_step :: "nat \<Rightarrow> ab_event \<Rightarrow> ab_state \<Rightarrow> ab_state option" where
  "ab_step n (Arrive i) s =
     (if i < n \<and> i \<notin> ab_here s then Some (s\<lparr>ab_here := insert i (ab_here s)\<rparr>) else None)"
| "ab_step n Open s =
     (if ab_here s = {..<n} then Some (s\<lparr>ab_here := {}, ab_rounds := Suc (ab_rounds s)\<rparr>) else None)"

definition ab_init :: ab_state where
  "ab_init = \<lparr>ab_here = {}, ab_rounds = 0\<rparr>"

text \<open>Whatever refines it keeps its rounds apart: in a run no thread is a whole round ahead.\<close>

lemma ab_counts:
  "exec (ab_step n) as ab_init = Some s \<Longrightarrow> ab_here s \<subseteq> {..<n} \<and> ab_rounds s = count_list as Open
    \<and> (\<forall>i < n. count_list as (Arrive i) = ab_rounds s + of_bool (i \<in> ab_here s))"
proof (induction rule: exec_snoc_induct)
  case Nil
  show ?case by (simp add: ab_init_def)
next
  case (snoc as s a t)
  then show ?case by (cases a) (auto split: if_splits)
qed

definition ab_accepts :: "nat \<Rightarrow> ab_event list \<Rightarrow> ab_state \<Rightarrow> bool" where
  "ab_accepts n as s \<longleftrightarrow> exec (ab_step n) as ab_init = Some s
     \<and> (\<forall>i < n. count_list as (Arrive i) \<in> {count_list as Open, Suc (count_list as Open)})"

lemma ab_acceptsI: "exec (ab_step n) as ab_init = Some s \<Longrightarrow> ab_accepts n as s"
  using ab_counts [of n as s] by (auto simp: ab_accepts_def)

section \<open>The hand-made barrier refines it\<close>

text \<open>
  A thread arrives when it prints its number, and the barrier opens when the newline is printed, by
  the last thread to arrive.
\<close>

definition bf_abs :: "bf_state \<Rightarrow> ab_state" where
  "bf_abs s = \<lparr>ab_here = set (snd (out_lines (bf_out s))), ab_rounds = length (fst (out_lines (bf_out s)))\<rparr>"

fun bf_obs :: "bar_event \<Rightarrow> bf_state \<Rightarrow> ab_event list" where
  "bf_obs (Run i) s =
     (if bf_pc s i = F_print then [Arrive i] else if bf_pc s i = F_println then [Open] else [])"
| "bf_obs (Spurious i) s = []"

lemma bf_out_stmt:
  assumes "bf_stmt mx i p s = Some t" "p \<noteq> F_print" "p \<noteq> F_println"
  shows "bf_out t = bf_out s"
  using assms by (cases p) (auto simp: bf_defs split: if_splits)

lemma bf_refines_step:
  assumes mx: "2 \<le> mx" and inv: "bf_inv mx s" and st: "bf_step mx e s = Some t"
  shows "exec (ab_step (nat mx)) (bf_obs e s) (bf_abs s) = Some (bf_abs t)"
proof (cases e)
  case (Spurious i)
  with st have "bf_out t = bf_out s" by (auto simp: bf_step_def bf_goto_def split: if_splits)
  with Spurious show ?thesis by (simp add: bf_abs_def)
next
  case (Run i)
  with st have i: "i < nat mx" and stm: "bf_stmt mx i (bf_pc s i) s = Some t"
    by (auto simp: bf_step_def split: if_splits)
  have ok: "bf_out_ok mx s" using inv mx by (simp add: bf_inv_def)
  have ok': "bf_out_ok mx t" using bf_inv_step [OF inv st] mx by (simp add: bf_inv_def)
  consider "bf_pc s i = F_print" | "bf_pc s i = F_println" | "bf_pc s i \<noteq> F_print" "bf_pc s i \<noteq> F_println" by blast
  then show ?thesis
  proof cases
    case 1
    with stm have out: "bf_out t = bf_out s @ [Tid i]" by (auto simp: bf_goto_def)
    obtain ls cur where l: "out_lines (bf_out s) = (ls, cur)" by (cases "out_lines (bf_out s)") auto
    from ok' out l have "distinct (cur @ [i])" by (simp add: bf_out_ok_def)
    with 1 Run i l out show ?thesis by (simp add: bf_abs_def)
  next
    case 2
    with stm have out: "bf_out t = bf_out s @ [Newline]" by (auto simp: bf_goto_def)
    obtain ls cur where l: "out_lines (bf_out s) = (ls, cur)" by (cases "out_lines (bf_out s)") auto
    from ok' out l have "set cur = {..<nat mx}" by (simp add: bf_out_ok_def)
    with 2 Run l out show ?thesis by (simp add: bf_abs_def)
  next
    case 3
    with bf_out_stmt [OF stm] have "bf_out t = bf_out s" by blast
    with 3 Run show ?thesis by (simp add: bf_abs_def)
  qed
qed


interpretation bf_ab: step_refinement "bf_step (int n + 2)" bf_init "bf_inv (int n + 2)" "ab_step (n + 2)" bf_abs bf_obs
  for n
proof unfold_locales
  fix e s t assume "bf_inv (int n + 2) s" "bf_step (int n + 2) e s = Some t"
  with bf_refines_step [of "int n + 2" s e t] show "exec (ab_step (n + 2)) (bf_obs e s) (bf_abs s) = Some (bf_abs t)"
    by (simp add: nat_add_distrib)
qed

section \<open>\<open>pthread-barrier.c\<close>\<close>

text \<open>
  The statements of \<open>worker()\<close>: \<open>B_draw\<close> chooses the number of loops and prints it, \<open>B_blocked\<close> is
  inside \<open>pthread_barrier_wait\<close>, \<open>B_after\<close> has returned from it, with the special value in one
  thread. Which one that is POSIX leaves open, so the event chooses it; otherwise its second
  component is the result of \<open>random()\<close>.
\<close>

definition NUM_THREADS :: nat where "NUM_THREADS = 8"
definition NUM_STAGES :: nat where "NUM_STAGES = 3"

datatype pb_pc = B_draw | B_loop nat nat | B_reaching | B_arrive | B_blocked | B_after bool | B_done

datatype pb_msg = Will_loop nat nat nat | Looping nat nat nat | Reaching nat nat | After nat nat bool

record pb_state =
  pb_pc :: "nat \<Rightarrow> pb_pc"
  pb_j :: "nat \<Rightarrow> nat"
  pb_count :: nat
  pb_out :: "pb_msg list"

datatype pb_event = Pb nat nat

definition pb_say :: "nat \<Rightarrow> pb_pc \<Rightarrow> pb_msg \<Rightarrow> pb_state \<Rightarrow> pb_state" where
  "pb_say i p m s = s\<lparr>pb_pc := (pb_pc s)(i := p), pb_out := pb_out s @ [m]\<rparr>"

text \<open>\<open>pthread_barrier_wait\<close>: the last thread to come wakes all those that are blocked.\<close>

definition pb_wait :: "nat \<Rightarrow> nat \<Rightarrow> pb_state \<Rightarrow> pb_state option" where
  "pb_wait i r s =
     (if Suc (pb_count s) < NUM_THREADS
      then Some (s\<lparr>pb_pc := (pb_pc s)(i := B_blocked), pb_count := Suc (pb_count s)\<rparr>)
      else if r < NUM_THREADS
      then Some (s\<lparr>pb_pc := (\<lambda>k. if k = i \<or> pb_pc s k = B_blocked then B_after (k = r) else pb_pc s k), pb_count := 0\<rparr>)
      else None)"

fun pb_worker :: "nat \<Rightarrow> nat \<Rightarrow> pb_pc \<Rightarrow> pb_state \<Rightarrow> pb_state option" where
  "pb_worker i r B_draw s = Some (pb_say i (B_loop 0 (r mod 5)) (Will_loop (pb_j s i) i (r mod 5)) s)"
| "pb_worker i r (B_loop k c) s =
     Some (if k < c then pb_say i (B_loop (Suc k) c) (Looping (pb_j s i) i k) s
           else s\<lparr>pb_pc := (pb_pc s)(i := B_reaching)\<rparr>)"
| "pb_worker i r B_reaching s = Some (pb_say i B_arrive (Reaching (pb_j s i) i) s)"
| "pb_worker i r B_arrive s = pb_wait i r s"
| "pb_worker i r B_blocked s = None"
| "pb_worker i r (B_after b) s =
     Some ((pb_say i (if Suc (pb_j s i) < NUM_STAGES then B_draw else B_done) (After (pb_j s i) i b) s)
       \<lparr>pb_j := (pb_j s)(i := Suc (pb_j s i))\<rparr>)"
| "pb_worker i r B_done s = None"

fun pb_step :: "pb_event \<Rightarrow> pb_state \<Rightarrow> pb_state option" where
  "pb_step (Pb i r) s = (if i < NUM_THREADS then pb_worker i r (pb_pc s i) s else None)"

definition pb_init :: pb_state where
  "pb_init = \<lparr>pb_pc = (\<lambda>_. B_draw), pb_j = (\<lambda>_. 0), pb_count = 0, pb_out = []\<rparr>"

text \<open>The calls of \<open>pthread_join\<close> in \<open>main()\<close> all return.\<close>

definition pb_joined :: "pb_state \<Rightarrow> bool" where
  "pb_joined s \<longleftrightarrow> (\<forall>i < NUM_THREADS. pb_pc s i = B_done)"

text \<open>How often a thread has passed the barrier, and the abstract state.\<close>

fun pb_is_after :: "pb_pc \<Rightarrow> bool" where
  "pb_is_after (B_after b) = True"
| "pb_is_after _ = False"

definition pb_passed :: "pb_state \<Rightarrow> nat \<Rightarrow> nat" where
  "pb_passed s i = pb_j s i + of_bool (pb_is_after (pb_pc s i))"

definition pb_abs :: "pb_state \<Rightarrow> ab_state" where
  "pb_abs s = \<lparr>ab_here = {i. i < NUM_THREADS \<and> pb_pc s i = B_blocked}, ab_rounds = pb_passed s 0\<rparr>"

fun pb_obs :: "pb_event \<Rightarrow> pb_state \<Rightarrow> ab_event list" where
  "pb_obs (Pb i r) s =
     (if pb_pc s i = B_arrive then if Suc (pb_count s) < NUM_THREADS then [Arrive i] else [Arrive i, Open] else [])"


lemma NUM_THREADS_pos [simp]: "0 < NUM_THREADS"
  by (simp add: NUM_THREADS_def)

fun pb_is_blocked :: "pb_pc \<Rightarrow> bool" where
  "pb_is_blocked B_blocked = True"
| "pb_is_blocked _ = False"

lemma pb_is_blocked_iff: "pb_is_blocked p \<longleftrightarrow> p = B_blocked"
  by (cases p) simp_all

text \<open>All threads have passed the barrier equally often, \<open>r\<close> times; \<open>count\<close> of them are blocked.\<close>

fun pb_fits :: "nat \<Rightarrow> pb_pc \<Rightarrow> nat \<Rightarrow> bool" where
  "pb_fits r (B_after b) j \<longleftrightarrow> Suc j = r \<and> r \<le> NUM_STAGES"
| "pb_fits r B_done j \<longleftrightarrow> j = r \<and> r = NUM_STAGES"
| "pb_fits r (B_loop k c) j \<longleftrightarrow> j = r \<and> r < NUM_STAGES \<and> k \<le> c \<and> c < 5"
| "pb_fits r p j \<longleftrightarrow> j = r \<and> r < NUM_STAGES"

definition pb_inv :: "pb_state \<Rightarrow> bool" where
  "pb_inv s \<longleftrightarrow> (\<forall>i < NUM_THREADS. pb_fits (pb_passed s 0) (pb_pc s i) (pb_j s i))
     \<and> int (pb_count s) = cnt NUM_THREADS pb_is_blocked (pb_pc s) \<and> pb_count s < NUM_THREADS"

lemma pb_fits_passed: "pb_fits r (pb_pc s i) (pb_j s i) \<Longrightarrow> pb_passed s i = r"
  by (cases "pb_pc s i") (simp_all add: pb_passed_def)

text \<open>The last thread to come finds all the others blocked.\<close>

lemma pb_last:
  assumes inv: "pb_inv s" and i: "i < NUM_THREADS" "pb_pc s i = B_arrive" and c: "\<not> Suc (pb_count s) < NUM_THREADS"
  shows "\<forall>k < NUM_THREADS. k \<noteq> i \<longrightarrow> pb_pc s k = B_blocked"
proof -
  have "cnt NUM_THREADS pb_is_blocked ((pb_pc s)(i := B_blocked)) = cnt NUM_THREADS pb_is_blocked (pb_pc s) + 1"
    using i by (intro cnt_upd_in) simp_all
  also have "\<dots> = int NUM_THREADS" using inv c by (simp add: pb_inv_def)
  finally have "\<forall>k < NUM_THREADS. pb_is_blocked (((pb_pc s)(i := B_blocked)) k)" by (simp only: cnt_full_iff)
  then show ?thesis by (auto simp: pb_is_blocked_iff)
qed

lemma pb_wait_opens:
  assumes inv: "pb_inv s" and i: "i < NUM_THREADS" "pb_pc s i = B_arrive" and c: "\<not> Suc (pb_count s) < NUM_THREADS"
    and st: "pb_wait i r s = Some t"
  shows "\<forall>k < NUM_THREADS. pb_pc t k = B_after (k = r)" and "pb_j t = pb_j s" "pb_count t = 0" "pb_out t = pb_out s"
    and "r < NUM_THREADS" "\<forall>k < NUM_THREADS. pb_j s k = pb_passed s 0" "pb_passed s 0 < NUM_STAGES"
proof -
  from st [symmetric] c pb_last [OF inv i c] show pc: "\<forall>k < NUM_THREADS. pb_pc t k = B_after (k = r)"
    and "pb_j t = pb_j s" "pb_count t = 0" "pb_out t = pb_out s" "r < NUM_THREADS"
    by (auto simp: pb_wait_def split: if_splits)
  have "pb_fits (pb_passed s 0) (pb_pc s k) (pb_j s k)" if "k < NUM_THREADS" for k using inv that by (simp add: pb_inv_def)
  then have f: "k < NUM_THREADS \<Longrightarrow> pb_j s k = pb_passed s 0 \<and> pb_passed s 0 < NUM_STAGES" for k
    using pb_last [OF inv i c] i by (cases "k = i") fastforce+
  then show "\<forall>k < NUM_THREADS. pb_j s k = pb_passed s 0" "pb_passed s 0 < NUM_STAGES" using i(1) by blast+
qed

lemma pb_stmt_fits:
  assumes inv: "pb_inv s" and i: "i < NUM_THREADS" and st: "pb_worker i r (pb_pc s i) s = Some t"
    and no: "pb_pc s i = B_arrive \<longrightarrow> Suc (pb_count s) < NUM_THREADS"
  shows "pb_inv t \<and> pb_passed t 0 = pb_passed s 0"
proof -
  from inv i have fi: "pb_fits (pb_passed s 0) (pb_pc s i) (pb_j s i)" by (simp add: pb_inv_def)
  have f: "pb_fits (pb_passed s 0) (pb_pc t i) (pb_j t i)"
    using st [symmetric] no fi by (cases "pb_pc s i") (auto simp: pb_say_def pb_wait_def NUM_STAGES_def)
  have other: "k \<noteq> i \<Longrightarrow> pb_pc t k = pb_pc s k \<and> pb_j t k = pb_j s k" for k
    using st [symmetric] no by (cases "pb_pc s i") (auto simp: pb_say_def pb_wait_def)
  have r: "pb_passed t 0 = pb_passed s 0"
    using pb_fits_passed [OF f] other [of 0] by (cases "i = 0") (auto simp: pb_passed_def)
  have "pb_fits (pb_passed s 0) (pb_pc t k) (pb_j t k)" if "k < NUM_THREADS" for k
    using that f other [of k] inv by (cases "k = i") (auto simp: pb_inv_def)
  moreover have "int (pb_count t) = cnt NUM_THREADS pb_is_blocked (pb_pc t)" "pb_count t < NUM_THREADS"
    using st [symmetric] no inv i
    by (cases "pb_pc s i"; auto simp: pb_inv_def pb_say_def pb_wait_def counting NUM_STAGES_def)+
  ultimately show ?thesis using r by (simp add: pb_inv_def)
qed

lemma pb_inv_step:
  assumes inv: "pb_inv s" and st: "pb_step e s = Some t"
  shows "pb_inv t"
proof -
  obtain i r where e: "e = Pb i r" by (cases e) auto
  with st have i: "i < NUM_THREADS" and w: "pb_worker i r (pb_pc s i) s = Some t" by (simp_all split: if_splits)
  show ?thesis
  proof (cases "pb_pc s i = B_arrive \<and> \<not> Suc (pb_count s) < NUM_THREADS")
    case True
    with w have "pb_wait i r s = Some t" by simp
    note o = pb_wait_opens [OF inv i conjunct1 [OF True] conjunct2 [OF True] this]
    have p: "pb_passed t 0 = Suc (pb_passed s 0)"
      using o(1) [rule_format, of 0] o(6) [rule_format, of 0] o(2) by (simp add: pb_passed_def)
    have "cnt NUM_THREADS pb_is_blocked (pb_pc t) = 0" using o(1) by (simp add: cnt_zero_iff)
    with p o(1-3,6,7) show ?thesis by (simp add: pb_inv_def)
  next
    case False
    with pb_stmt_fits [OF inv i w] show ?thesis by blast
  qed
qed

lemma pb_refines_step:
  assumes inv: "pb_inv s" and st: "pb_step e s = Some t"
  shows "exec (ab_step NUM_THREADS) (pb_obs e s) (pb_abs s) = Some (pb_abs t)"
proof -
  obtain i r where e: "e = Pb i r" by (cases e) auto
  with st have i: "i < NUM_THREADS" and w: "pb_worker i r (pb_pc s i) s = Some t" by (simp_all split: if_splits)
  show ?thesis
  proof (cases "pb_pc s i = B_arrive \<and> \<not> Suc (pb_count s) < NUM_THREADS")
    case True
    with w have "pb_wait i r s = Some t" by simp
    note o = pb_wait_opens [OF inv i conjunct1 [OF True] conjunct2 [OF True] this]
    have p: "pb_passed t 0 = Suc (pb_passed s 0)"
      using o(1) [rule_format, of 0] o(6) [rule_format, of 0] o(2) by (simp add: pb_passed_def)
    have "{k. k < NUM_THREADS \<and> pb_pc t k = B_blocked} = {}" using o(1) by auto
    moreover have "insert i {k. k < NUM_THREADS \<and> pb_pc s k = B_blocked} = {..<NUM_THREADS}"
      using i pb_last [OF inv i conjunct1 [OF True] conjunct2 [OF True]] by auto
    ultimately show ?thesis using True e i p by (simp add: pb_abs_def)
  next
    case False
    with pb_stmt_fits [OF inv i w] have p: "pb_passed t 0 = pb_passed s 0" by blast
    have "{k. k < NUM_THREADS \<and> pb_pc t k = B_blocked} =
        (if pb_pc s i = B_arrive then insert i else id) {k. k < NUM_THREADS \<and> pb_pc s k = B_blocked}"
      using w [symmetric] False i
      by (cases "pb_pc s i") (auto simp: pb_say_def pb_wait_def split: if_splits)
    with p False e i show ?thesis by (auto simp: pb_abs_def)
  qed
qed

interpretation pb_ab: step_refinement pb_step pb_init pb_inv "ab_step NUM_THREADS" pb_abs pb_obs
proof unfold_locales
  show "pb_inv pb_init"
    by (auto simp: pb_inv_def pb_init_def pb_passed_def cnt_def NUM_STAGES_def NUM_THREADS_def)
qed (auto intro: pb_inv_step pb_refines_step)

subsection \<open>Order of the output\<close>

text \<open>
  What may be printed after \<open>out\<close>: a thread is past the barrier of a stage, or in the next one, only
  when all threads have reached it.
\<close>

fun pb_allowed :: "pb_msg list \<Rightarrow> pb_msg \<Rightarrow> bool" where
  "pb_allowed out (After j i b) \<longleftrightarrow> (\<forall>k < NUM_THREADS. Reaching j k \<in> set out)"
| "pb_allowed out (Will_loop (Suc j) i c) \<longleftrightarrow> (\<forall>k < NUM_THREADS. Reaching j k \<in> set out)"
| "pb_allowed out m \<longleftrightarrow> True"

lemma pb_allowed_next:
  "pb_allowed out (Will_loop j i c) \<longleftrightarrow> (0 < j \<longrightarrow> (\<forall>k < NUM_THREADS. Reaching (j - 1) k \<in> set out))"
  by (cases j) simp_all

fun pb_reached :: "pb_pc \<Rightarrow> bool" where
  "pb_reached B_arrive = True"
| "pb_reached B_blocked = True"
| "pb_reached (B_after b) = True"
| "pb_reached p = False"

definition pb_said :: "pb_state \<Rightarrow> nat \<Rightarrow> bool" where
  "pb_said s k \<longleftrightarrow> (\<forall>j < pb_j s k + of_bool (pb_reached (pb_pc s k)). Reaching j k \<in> set (pb_out s))"

definition pb_order :: "pb_msg list \<Rightarrow> bool" where
  "pb_order out \<longleftrightarrow> (\<forall>n < length out. pb_allowed (take n out) (out ! n))"

lemma pb_order_snoc: "pb_order (out @ [m]) \<longleftrightarrow> pb_order out \<and> pb_allowed out m"
  by (auto simp: pb_order_def nth_append less_Suc_eq)

lemma pb_order_split: "pb_order (xs @ m # ys) \<Longrightarrow> pb_allowed xs m"
  by (auto simp: pb_order_def dest: spec [of _ "length xs"])

text \<open>The statements other than a barrier that opens change the counter of one thread.\<close>

definition pb_local :: "nat \<Rightarrow> pb_state \<Rightarrow> pb_state \<Rightarrow> bool" where
  "pb_local i s t \<longleftrightarrow> (\<forall>k. k \<noteq> i \<longrightarrow> pb_pc t k = pb_pc s k \<and> pb_j t k = pb_j s k)"

lemma pb_worker_local:
  "pb_worker i r (pb_pc s i) s = Some t \<Longrightarrow> pb_pc s i = B_arrive \<longrightarrow> Suc (pb_count s) < NUM_THREADS \<Longrightarrow> pb_local i s t"
  by (cases "pb_pc s i") (auto simp: pb_say_def pb_wait_def pb_local_def)

lemma pb_said_step:
  assumes inv: "pb_inv s" and said: "\<forall>k < NUM_THREADS. pb_said s k" and st: "pb_step e s = Some t"
  shows "\<forall>k < NUM_THREADS. pb_said t k"
proof -
  obtain i r where e: "e = Pb i r" by (cases e) auto
  with st have i: "i < NUM_THREADS" and w: "pb_worker i r (pb_pc s i) s = Some t" by (simp_all split: if_splits)
  show ?thesis
  proof (cases "pb_pc s i = B_arrive \<and> \<not> Suc (pb_count s) < NUM_THREADS")
    case True
    with w have "pb_wait i r s = Some t" by simp
    note o = pb_wait_opens [OF inv i conjunct1 [OF True] conjunct2 [OF True] this]
    have "pb_reached (pb_pc s k)" if "k < NUM_THREADS" for k
      using True pb_last [OF inv i conjunct1 [OF True] conjunct2 [OF True]] that by (cases "k = i") auto
    with said o(1-4) show ?thesis by (simp add: pb_said_def)
  next
    case False
    with pb_worker_local [OF w] have l: "pb_local i s t" by blast
    have "set (pb_out s) \<subseteq> set (pb_out t)"
      using w [symmetric] False by (cases "pb_pc s i") (auto simp: pb_say_def pb_wait_def)
    with l said have "k < NUM_THREADS \<Longrightarrow> k \<noteq> i \<Longrightarrow> pb_said t k" for k by (auto simp: pb_said_def pb_local_def)
    moreover from said i have "pb_said s i" by blast
    then have "pb_said t i"
      using w [symmetric] False
      by (cases "pb_pc s i") (auto simp: pb_said_def pb_say_def pb_wait_def less_Suc_eq)
    ultimately show ?thesis by blast
  qed
qed

lemma pb_all_said:
  assumes inv: "pb_inv s" and said: "\<forall>k < NUM_THREADS. pb_said s k" and j: "j < pb_passed s 0" and k: "k < NUM_THREADS"
  shows "Reaching j k \<in> set (pb_out s)"
proof -
  from inv k have "pb_fits (pb_passed s 0) (pb_pc s k) (pb_j s k)" by (simp add: pb_inv_def)
  with j have "j < pb_j s k + of_bool (pb_reached (pb_pc s k))" by (cases "pb_pc s k") auto
  with said k show ?thesis by (simp add: pb_said_def)
qed

lemma pb_order_step:
  assumes inv: "pb_inv s" and said: "\<forall>k < NUM_THREADS. pb_said s k" and ord: "pb_order (pb_out s)"
    and st: "pb_step e s = Some t"
  shows "pb_order (pb_out t)"
proof -
  obtain i r where e: "e = Pb i r" by (cases e) auto
  with st have i: "i < NUM_THREADS" and w: "pb_worker i r (pb_pc s i) s = Some t" by (simp_all split: if_splits)
  from inv i have f: "pb_fits (pb_passed s 0) (pb_pc s i) (pb_j s i)" by (simp add: pb_inv_def)
  have all: "j < pb_passed s 0 \<Longrightarrow> \<forall>k < NUM_THREADS. Reaching j k \<in> set (pb_out s)" for j
    using pb_all_said [OF inv said] by blast
  show ?thesis
  proof (cases "pb_pc s i")
    case B_draw
    with f all [of "pb_j s i - 1"] have "pb_allowed (pb_out s) (Will_loop (pb_j s i) i (r mod 5))"
      by (simp add: pb_allowed_next)
    with w [symmetric] B_draw ord show ?thesis by (simp add: pb_say_def pb_order_snoc)
  next
    case (B_after b)
    with f all [of "pb_j s i"] have "pb_allowed (pb_out s) (After (pb_j s i) i b)" by simp
    with w [symmetric] B_after ord show ?thesis by (simp add: pb_say_def pb_order_snoc)
  qed (use w [symmetric] ord in \<open>auto simp: pb_say_def pb_wait_def pb_order_snoc split: if_splits\<close>)
qed

text \<open>In each finished stage the special value goes to one thread.\<close>

fun pb_special_at :: "nat \<Rightarrow> pb_pc \<times> nat \<Rightarrow> bool" where
  "pb_special_at j (B_after True, l) \<longleftrightarrow> l = j"
| "pb_special_at j _ \<longleftrightarrow> False"

fun pb_special_msg :: "nat \<Rightarrow> pb_msg \<Rightarrow> bool" where
  "pb_special_msg j (After l i True) \<longleftrightarrow> l = j"
| "pb_special_msg j _ \<longleftrightarrow> False"

abbreviation pb_at :: "pb_state \<Rightarrow> nat \<Rightarrow> pb_pc \<times> nat" where
  "pb_at s \<equiv> (\<lambda>k. (pb_pc s k, pb_j s k))"

definition pb_specials :: "nat \<Rightarrow> pb_state \<Rightarrow> bool" where
  "pb_specials j s \<longleftrightarrow> int (length (filter (pb_special_msg j) (pb_out s))) + cnt NUM_THREADS (pb_special_at j) (pb_at s)
     = of_bool (j < pb_passed s 0)"

lemma pb_special_at_iff: "pb_special_at j (p, l) \<longleftrightarrow> p = B_after True \<and> l = j"
  by (cases p; cases "p = B_after True") auto

lemma pb_local_at: "pb_local i s t \<Longrightarrow> pb_at t = (pb_at s)(i := (pb_pc t i, pb_j t i))"
  by (auto simp: pb_local_def)

lemma pb_specials_step:
  assumes inv: "pb_inv s" and sp: "pb_specials j s" and st: "pb_step e s = Some t"
  shows "pb_specials j t"
proof -
  obtain i r where e: "e = Pb i r" by (cases e) auto
  with st have i: "i < NUM_THREADS" and w: "pb_worker i r (pb_pc s i) s = Some t" by (simp_all split: if_splits)
  show ?thesis
  proof (cases "pb_pc s i = B_arrive \<and> \<not> Suc (pb_count s) < NUM_THREADS")
    case True
    with w have "pb_wait i r s = Some t" by simp
    note o = pb_wait_opens [OF inv i conjunct1 [OF True] conjunct2 [OF True] this]
    have p: "pb_passed t 0 = Suc (pb_passed s 0)"
      using o(1) [rule_format, of 0] o(6) [rule_format, of 0] o(2) by (simp add: pb_passed_def)
    have "pb_pc s k \<noteq> B_after True" if "k < NUM_THREADS" for k
      using True pb_last [OF inv i conjunct1 [OF True] conjunct2 [OF True]] that by (cases "k = i") auto
    then have z: "cnt NUM_THREADS (pb_special_at j) (pb_at s) = 0" by (simp add: cnt_zero_iff pb_special_at_iff)
    have "{k. k < NUM_THREADS \<and> pb_special_at j (pb_at t k)} = (if j = pb_passed s 0 then {r} else {})"
      using o(1,2,5,6) by (auto simp: pb_special_at_iff)
    then have "cnt NUM_THREADS (pb_special_at j) (pb_at t) = of_bool (j = pb_passed s 0)" by (simp add: cnt_def)
    with sp z p o(4) show ?thesis by (auto simp: pb_specials_def)
  next
    case False
    with pb_stmt_fits [OF inv i w] have p: "pb_passed t 0 = pb_passed s 0" by blast
    from False pb_worker_local [OF w] have at: "pb_at t = (pb_at s)(i := (pb_pc t i, pb_j t i))"
      using pb_local_at by blast
    have "int (length (filter (pb_special_msg j) (pb_out t))) + of_bool (pb_special_at j (pb_at t i))
        = int (length (filter (pb_special_msg j) (pb_out s))) + of_bool (pb_special_at j (pb_at s i))"
      using w [symmetric] False
      by (cases "pb_pc s i") (auto simp: pb_say_def pb_wait_def pb_special_at_iff elim: pb_special_msg.elims)
    moreover have "cnt NUM_THREADS (pb_special_at j) (pb_at t) =
        cnt NUM_THREADS (pb_special_at j) (pb_at s) + of_bool (pb_special_at j (pb_at t i)) - of_bool (pb_special_at j (pb_at s i))"
      using i unfolding at by (cases "pb_special_at j (pb_at s i)"; cases "pb_special_at j (pb_at t i)") (simp_all add: counting)
    ultimately show ?thesis using sp p by (simp add: pb_specials_def)
  qed
qed

definition pb_printed :: "pb_state \<Rightarrow> bool" where
  "pb_printed s \<longleftrightarrow> pb_inv s \<and> (\<forall>k < NUM_THREADS. pb_said s k) \<and> pb_order (pb_out s) \<and> (\<forall>j. pb_specials j s)"

interpretation pb_pr: step_invariant pb_step pb_init pb_printed
proof unfold_locales
  have "cnt NUM_THREADS (pb_special_at j) (pb_at pb_init) = 0" for j
    by (simp add: cnt_zero_iff pb_init_def)
  then show "pb_printed pb_init"
    using pb_ab.inv_init
    by (simp add: pb_printed_def pb_said_def pb_order_def pb_specials_def pb_passed_def) (simp add: pb_init_def)
next
  fix s e t assume p: "pb_printed s" and st: "pb_step e s = Some t"
  then have "pb_inv s" "\<forall>k < NUM_THREADS. pb_said s k" "pb_order (pb_out s)" "\<forall>j. pb_specials j s"
    unfolding pb_printed_def by blast+
  with st show "pb_printed t"
    unfolding pb_printed_def using pb_inv_step pb_said_step pb_order_step pb_specials_step by blast
qed

subsection \<open>All threads end\<close>

fun pb_rank :: "pb_pc \<times> nat \<Rightarrow> nat" where
  "pb_rank (B_draw, j) = 9 * (2 - j) + 9"
| "pb_rank (B_loop k c, j) = 9 * (2 - j) + (c - k) + 4"
| "pb_rank (B_reaching, j) = 9 * (2 - j) + 3"
| "pb_rank (B_arrive, j) = 9 * (2 - j) + 2"
| "pb_rank (B_blocked, j) = 9 * (2 - j) + 1"
| "pb_rank (B_after b, j) = 9 * (2 - j) + 1"
| "pb_rank (B_done, j) = 0"

definition pb_left :: "pb_state \<Rightarrow> nat" where
  "pb_left s = (\<Sum>k < NUM_THREADS. pb_rank (pb_at s k))"

lemma pb_left_step:
  assumes inv: "pb_inv s" and st: "pb_step e s = Some t"
  shows "pb_left t < pb_left s"
proof -
  obtain i r where e: "e = Pb i r" by (cases e) auto
  with st have i: "i < NUM_THREADS" and w: "pb_worker i r (pb_pc s i) s = Some t" by (simp_all split: if_splits)
  have "pb_rank (pb_at t k) \<le> pb_rank (pb_at s k) \<and> (k = i \<longrightarrow> pb_rank (pb_at t k) < pb_rank (pb_at s k))"
    if "k < NUM_THREADS" for k
  proof -
    from inv that have "pb_fits (pb_passed s 0) (pb_pc s k) (pb_j s k)" by (simp add: pb_inv_def)
    then show ?thesis
      using w [symmetric]
      by (cases "pb_pc s i") (auto simp: pb_say_def pb_wait_def NUM_STAGES_def split: if_splits)
  qed
  then show ?thesis unfolding pb_left_def
    by (intro sum_strict_mono_ex1) (use i in auto)
qed

interpretation pb_end: step_measure pb_step pb_init pb_inv pb_left
  by unfold_locales (rule pb_left_step)

lemma pb_left_init: "pb_left pb_init = 216"
  by (simp add: pb_left_def pb_init_def NUM_THREADS_def)

lemma pb_progress:
  assumes inv: "pb_inv s" and nd: "\<not> pb_joined s"
  shows "\<exists>i t. pb_step (Pb i 0) s = Some t"
proof (rule ccontr)
  assume no: "\<nexists>i t. pb_step (Pb i 0) s = Some t"
  have f: "k < NUM_THREADS \<Longrightarrow> pb_fits (pb_passed s 0) (pb_pc s k) (pb_j s k)" for k using inv by (simp add: pb_inv_def)
  have stuck: "pb_pc s k = B_blocked \<or> pb_pc s k = B_done" if k: "k < NUM_THREADS" for k
  proof -
    from no have "pb_step (Pb k 0) s = None" by (cases "pb_step (Pb k 0) s") blast+
    with k have "pb_worker k 0 (pb_pc s k) s = None" by simp
    then show ?thesis by (cases "pb_pc s k") (auto simp: pb_wait_def split: if_splits)
  qed
  have "\<not> (\<forall>k < NUM_THREADS. pb_is_blocked (pb_pc s k))"
    using inv by (simp add: pb_inv_def flip: cnt_full_iff)
  then obtain m where "m < NUM_THREADS" "pb_pc s m = B_done"
    using stuck by (auto simp: pb_is_blocked_iff)
  with f [of m] have "\<not> pb_passed s 0 < NUM_STAGES" by simp
  then have "pb_pc s k = B_done" if "k < NUM_THREADS" for k
    using f [OF that] stuck [OF that] by auto
  with nd show False by (simp add: pb_joined_def)
qed

lemma pb_joined_passed: "pb_inv s \<Longrightarrow> pb_joined s \<Longrightarrow> pb_passed s 0 = NUM_STAGES"
proof -
  assume "pb_inv s" "pb_joined s"
  then have "pb_fits (pb_passed s 0) (pb_pc s 0) (pb_j s 0)" "pb_pc s 0 = B_done"
    using NUM_THREADS_pos unfolding pb_inv_def pb_joined_def by blast+
  then show ?thesis by simp
qed

lemma pb_joined_specials:
  assumes "pb_specials j s" "pb_joined s" "pb_passed s 0 = NUM_STAGES" "j < NUM_STAGES"
  shows "length (filter (pb_special_msg j) (pb_out s)) = 1"
proof -
  have "cnt NUM_THREADS (pb_special_at j) (pb_at s) = 0"
    using assms(2) by (simp add: cnt_zero_iff pb_joined_def)
  with assms show ?thesis by (simp add: pb_specials_def)
qed

section \<open>Properties\<close>

text \<open>C3: Two barriers, one contract: the hand-made barrier of \<open>implement-barrier-fixed.c\<close>, for any arguments
  \<open>main()\<close> accepts, and \<open>pthread-barrier.c\<close> with the barrier of POSIX both refine the abstract barrier.
  Every run shows a sequence of arrivals and openings that the abstract barrier allows and that leads
  to the abstraction of the state reached; so in any prefix each thread has arrived as often as the
  barrier has opened, or once more.\<close>

theorem barriers_refine:
  assumes "bf_main malloc1 malloc2 argv = Inr (mx, maxrand, s0)"
    and "exec (bf_step mx) es s0 = Some s" and "exec pb_step ps pb_init = Some u"
  shows "ab_accepts (nat mx) (observed (bf_step mx) bf_obs es s0) (bf_abs s)
    \<and> ab_accepts NUM_THREADS (observed pb_step pb_obs ps pb_init) (pb_abs u)"
proof
  from assms(1) have mx: "2 \<le> mx" and s0: "s0 = bf_init" by (simp_all add: bf_main_range)
  define n where "n = nat (mx - 2)"
  with mx have n: "int n + 2 = mx" "n + 2 = nat mx" by auto
  have "bf_abs bf_init = ab_init" by (simp add: bf_abs_def bf_init_def ab_init_def)
  with bf_ab.run_refines [of n es s] assms(2) show "ab_accepts (nat mx) (observed (bf_step mx) bf_obs es s0) (bf_abs s)"
    unfolding s0 n by (intro ab_acceptsI) simp
  have "pb_abs pb_init = ab_init" by (simp add: pb_abs_def pb_init_def ab_init_def pb_passed_def)
  with pb_ab.run_refines [OF assms(3)] show "ab_accepts NUM_THREADS (observed pb_step pb_obs ps pb_init) (pb_abs u)"
    by (intro ab_acceptsI) simp
qed

text \<open>All eight threads come to the first barrier, and thread 3 says that it is past it.\<close>

definition pb_first_stage :: "pb_event list" where
  "pb_first_stage = concat (map (\<lambda>i. replicate 4 (Pb i 0)) [0..<8]) @ [Pb 3 0]"

lemma pb_first_stage_run:
  "runs pb_step pb_first_stage pb_init (\<lambda>s. pb_out s = butlast (pb_out s) @ [After 0 3 False])"
  by code_simp

theorem barriers_refine_witness:
  "\<exists>s u. exec (bf_step 2) bf_round bf_init = Some s \<and> exec pb_step pb_first_stage pb_init = Some u
     \<and> ab_accepts 2 (observed (bf_step 2) bf_obs bf_round bf_init) (bf_abs s)
     \<and> ab_accepts NUM_THREADS (observed pb_step pb_obs pb_first_stage pb_init) (pb_abs u)"
proof -
  have main: "bf_main True True [''a.out'', ''2'', ''0''] = Inr (2, 0, bf_init)"
    by (simp add: bf_main_def cdefs)
  obtain s where s: "exec (bf_step 2) bf_round bf_init = Some s"
    using bf_round_run by (auto simp: map_option_case split: option.splits)
  obtain u where u: "exec pb_step pb_first_stage pb_init = Some u"
    using runs_exec [OF pb_first_stage_run] by blast
  from barriers_refine [OF main s u] s u show ?thesis by auto
qed

text \<open>C7: \<open>pthread-barrier.c\<close> works in stages: whatever the schedule, whatever \<open>random()\<close> returns and
  whichever thread the barrier singles out, when the message that a thread is past the barrier of a
  stage is printed, all eight threads have already said that they reach it, and so when a thread says how often it
  loops in the next stage. There is always a thread that can go on until all
  calls of \<open>pthread_join\<close> have returned, after at most 216 statements; then in each stage exactly one thread
  printed \<open>[last]\<close>.\<close>

theorem pb_stages:
  assumes "exec pb_step es pb_init = Some s"
  shows "(pb_out s = xs @ After j i b # ys \<longrightarrow> (\<forall>k < NUM_THREADS. Reaching j k \<in> set xs))
    \<and> (pb_out s = xs @ Will_loop (Suc j) i c # ys \<longrightarrow> (\<forall>k < NUM_THREADS. Reaching j k \<in> set xs))
    \<and> length es \<le> 216
    \<and> (pb_joined s \<or> (\<exists>i t. pb_step (Pb i 0) s = Some t))
    \<and> (pb_joined s \<longrightarrow> (\<forall>j < NUM_STAGES. length (filter (pb_special_msg j) (pb_out s)) = 1))"
proof -
  from assms have pr: "pb_printed s" by (blast intro: pb_pr.reach_inv exec_reach)
  then have inv: "pb_inv s" and ord: "pb_order (pb_out s)" and sp: "pb_specials j s" for j
    unfolding pb_printed_def by blast+
  from pb_end.exec_length [OF assms] have "length es \<le> 216" by (simp add: pb_left_init)
  moreover have "pb_joined s \<or> (\<exists>i t. pb_step (Pb i 0) s = Some t)" using pb_progress [OF inv] by blast
  moreover have "\<forall>j < NUM_STAGES. length (filter (pb_special_msg j) (pb_out s)) = 1" if "pb_joined s"
    using pb_joined_specials [OF sp that pb_joined_passed [OF inv that]] by blast
  moreover have "\<forall>k < NUM_THREADS. Reaching j k \<in> set xs" if "pb_out s = xs @ After j i b # ys"
    using pb_order_split [OF ord [unfolded that]] by simp
  moreover have "\<forall>k < NUM_THREADS. Reaching j k \<in> set xs" if "pb_out s = xs @ Will_loop (Suc j) i c # ys"
    using pb_order_split [OF ord [unfolded that]] by simp
  ultimately show ?thesis by blast
qed

theorem pb_stages_witness:
  "\<exists>s xs. exec pb_step pb_first_stage pb_init = Some s \<and> pb_out s = xs @ [After 0 3 False]
     \<and> (\<forall>k < NUM_THREADS. Reaching 0 k \<in> set xs)"
proof -
  obtain s where s: "exec pb_step pb_first_stage pb_init = Some s" and xs: "pb_out s = butlast (pb_out s) @ [After 0 3 False]"
    using runs_exec [OF pb_first_stage_run] by blast
  from conjunct1 [OF pb_stages [OF s, of "butlast (pb_out s)" 0 3 False "[]"]] xs s show ?thesis by auto
qed

end
