(* ===== verification/Queue_Simulation.thy ===== *)
theory Queue_Simulation
  imports Prelude
begin

text \<open>
  \<open>cond-variables/queue-simulation.c\<close>: a producer and a consumer that share a bounded counter,
  one mutex and one condition variable, and a main thread that draws the queue. Every access to
  the counter and every \<open>printf\<close> is a step of its own.
\<close>

section \<open>State and steps\<close>

datatype qs_thread = Producer | Consumer | Main

text \<open>
  \<open>P_test\<close> is the loop condition of line 52, \<open>P_wait\<close> is blocked in \<open>pthread_cond_wait\<close>,
  \<open>P_relock\<close> has been woken and wants the mutex; \<open>P_check\<close> is the test of line 71.
\<close>

datatype qs_prod_pc =
    P_poll | P_random | P_lock | P_test | P_say_full | P_sleep | P_wait | P_relock | P_say_woken
  | P_add | P_check | P_say_signal | P_signal | P_unlock

datatype qs_cons_pc =
    C_poll | C_random | C_lock | C_test | C_say_empty | C_sleep | C_wait | C_relock | C_say_woken
  | C_orig | C_sub | C_check | C_say_signal | C_signal | C_unlock

datatype qs_main_pc = M_lock | M_bar | M_dots | M_spaces | M_end | M_unlock | M_poll

record qs_state =
  qs_in_queue :: int
  qs_capacity :: int
  qs_mutex :: "qs_thread option"
  qs_prod :: qs_prod_pc
  qs_msg_created :: int
  qs_cons :: qs_cons_pc
  qs_msg_removed :: int
  qs_orig_in_queue :: int
  qs_main_pc :: qs_main_pc
  qs_i :: int
  qs_out :: string

text \<open>The value \<open>random()\<close> returns comes with the event; a sleeping thread may wake spuriously.\<close>

datatype qs_event = Run_producer int | Run_consumer int | Run_main | Wake_producer | Wake_consumer

definition qs_say :: "string \<Rightarrow> qs_state \<Rightarrow> qs_state" where
  "qs_say msg s = s\<lparr>qs_out := qs_out s @ msg\<rparr>"

abbreviation "qs_nl \<equiv> [char_of (10 :: nat)]"

definition qs_msgs :: "string list" where
  "qs_msgs =
    [''Producer: queue already full, putting myself to sleep.'' @ qs_nl,
     ''Producer: woken up.'' @ qs_nl,
     ''Producer: we inserted a message to an empty queue, signalling the consumer.'' @ qs_nl,
     ''Consumer: queue already empty, putting myself to sleep.'' @ qs_nl,
     ''Consumer: woken up.'' @ qs_nl,
     ''Consumer: queue no longer full, signalling the producer.'' @ qs_nl]"

text \<open>
  \<open>pthread_cond_signal\<close> wakes one thread that waits. If both waited it would be the producer here, while POSIX leaves it open;
  but no state with both waiting can be reached with a capacity of at least 1, which is one of the properties below.
\<close>

definition qs_signal :: "qs_state \<Rightarrow> qs_state" where
  "qs_signal s =
     (if qs_prod s = P_wait then s\<lparr>qs_prod := P_relock\<rparr>
      else if qs_cons s = C_wait then s\<lparr>qs_cons := C_relock\<rparr> else s)"

definition qs_acquire :: "qs_thread \<Rightarrow> qs_state \<Rightarrow> qs_state option" where
  "qs_acquire th s = (if qs_mutex s = None then Some (s\<lparr>qs_mutex := Some th\<rparr>) else None)"

definition qs_release :: "qs_state \<Rightarrow> qs_state" where
  "qs_release s = s\<lparr>qs_mutex := None\<rparr>"

definition qs_p :: "qs_prod_pc \<Rightarrow> qs_state \<Rightarrow> qs_state" where
  "qs_p pc s = s\<lparr>qs_prod := pc\<rparr>"

definition qs_c :: "qs_cons_pc \<Rightarrow> qs_state \<Rightarrow> qs_state" where
  "qs_c pc s = s\<lparr>qs_cons := pc\<rparr>"

definition qs_m :: "qs_main_pc \<Rightarrow> qs_state \<Rightarrow> qs_state" where
  "qs_m pc s = s\<lparr>qs_main_pc := pc\<rparr>"

fun qs_producer :: "int \<Rightarrow> qs_prod_pc \<Rightarrow> qs_state \<Rightarrow> qs_state option" where
  "qs_producer r P_poll s = Some (qs_p P_random s)"
| "qs_producer r P_random s =
     Some (qs_p (if r mod 2 = 0 then P_poll else P_lock) (s\<lparr>qs_msg_created := r mod 2\<rparr>))"
| "qs_producer r P_lock s = map_option (qs_p P_test) (qs_acquire Producer s)"
| "qs_producer r P_test s =
     Some (qs_p (if qs_in_queue s = qs_capacity s then P_say_full else P_add) s)"
| "qs_producer r P_say_full s = Some (qs_p P_sleep (qs_say (qs_msgs ! 0) s))"
| "qs_producer r P_sleep s = Some (qs_p P_wait (qs_release s))"
| "qs_producer r P_wait s = None"
| "qs_producer r P_relock s = map_option (qs_p P_say_woken) (qs_acquire Producer s)"
| "qs_producer r P_say_woken s = Some (qs_p P_test (qs_say (qs_msgs ! 1) s))"
| "qs_producer r P_add s =
     (if qs_in_queue s + qs_msg_created s \<le> INT_MAX
      then Some (qs_p P_check (s\<lparr>qs_in_queue := qs_in_queue s + qs_msg_created s\<rparr>)) else None)"
| "qs_producer r P_check s = Some (qs_p (if qs_in_queue s = 1 then P_say_signal else P_unlock) s)"
| "qs_producer r P_say_signal s = Some (qs_p P_signal (qs_say (qs_msgs ! 2) s))"
| "qs_producer r P_signal s = Some (qs_p P_unlock (qs_signal s))"
| "qs_producer r P_unlock s = Some (qs_p P_poll (qs_release s))"

fun qs_consumer :: "int \<Rightarrow> qs_cons_pc \<Rightarrow> qs_state \<Rightarrow> qs_state option" where
  "qs_consumer r C_poll s = Some (qs_c C_random s)"
| "qs_consumer r C_random s =
     Some (qs_c (if r mod 2 = 0 then C_poll else C_lock) (s\<lparr>qs_msg_removed := r mod 2\<rparr>))"
| "qs_consumer r C_lock s = map_option (qs_c C_test) (qs_acquire Consumer s)"
| "qs_consumer r C_test s = Some (qs_c (if qs_in_queue s = 0 then C_say_empty else C_orig) s)"
| "qs_consumer r C_say_empty s = Some (qs_c C_sleep (qs_say (qs_msgs ! 3) s))"
| "qs_consumer r C_sleep s = Some (qs_c C_wait (qs_release s))"
| "qs_consumer r C_wait s = None"
| "qs_consumer r C_relock s = map_option (qs_c C_say_woken) (qs_acquire Consumer s)"
| "qs_consumer r C_say_woken s = Some (qs_c C_test (qs_say (qs_msgs ! 4) s))"
| "qs_consumer r C_orig s = Some (qs_c C_sub (s\<lparr>qs_orig_in_queue := qs_in_queue s\<rparr>))"
| "qs_consumer r C_sub s =
     Some (qs_c C_check (s\<lparr>qs_in_queue := qs_in_queue s - qs_msg_removed s\<rparr>))"
| "qs_consumer r C_check s =
     Some (qs_c (if qs_orig_in_queue s = qs_capacity s then C_say_signal else C_unlock) s)"
| "qs_consumer r C_say_signal s = Some (qs_c C_signal (qs_say (qs_msgs ! 5) s))"
| "qs_consumer r C_signal s = Some (qs_c C_unlock (qs_signal s))"
| "qs_consumer r C_unlock s = Some (qs_c C_poll (qs_release s))"

text \<open>The loop of \<open>main()\<close> that draws the queue: \<open>i\<close> runs over the dots, then over the spaces.\<close>

fun qs_drawer :: "qs_main_pc \<Rightarrow> qs_state \<Rightarrow> qs_state option" where
  "qs_drawer M_lock s = map_option (qs_m M_bar) (qs_acquire Main s)"
| "qs_drawer M_bar s = Some (qs_m M_dots (qs_say '' |'' (s\<lparr>qs_i := 0\<rparr>)))"
| "qs_drawer M_dots s =
     Some (if qs_i s < qs_in_queue s then qs_say ''.'' (s\<lparr>qs_i := qs_i s + 1\<rparr>)
           else qs_m M_spaces (s\<lparr>qs_i := qs_in_queue s\<rparr>))"
| "qs_drawer M_spaces s =
     Some (if qs_i s < qs_capacity s then qs_say '' '' (s\<lparr>qs_i := qs_i s + 1\<rparr>) else qs_m M_end s)"
| "qs_drawer M_end s = Some (qs_m M_unlock (qs_say (''|'' @ qs_nl) s))"
| "qs_drawer M_unlock s = Some (qs_m M_poll (qs_release s))"
| "qs_drawer M_poll s = Some (qs_m M_lock s)"

definition qs_step :: "qs_event \<Rightarrow> qs_state \<Rightarrow> qs_state option" where
  "qs_step e s =
     (case e of
        Run_producer r \<Rightarrow> qs_producer r (qs_prod s) s
      | Run_consumer r \<Rightarrow> qs_consumer r (qs_cons s) s
      | Run_main \<Rightarrow> qs_drawer (qs_main_pc s) s
      | Wake_producer \<Rightarrow> if qs_prod s = P_wait then Some (qs_p P_relock s) else None
      | Wake_consumer \<Rightarrow> if qs_cons s = C_wait then Some (qs_c C_relock s) else None)"

text \<open>\<open>main()\<close> up to its loop: the capacity is 10 or the one argument, whatever it is.\<close>

definition qs_main :: "string list \<Rightarrow> qs_state" where
  "qs_main argv =
     \<lparr>qs_in_queue = 0, qs_capacity = (if length argv = 2 then atoi (argv ! 1) else 10),
      qs_mutex = None, qs_prod = P_poll, qs_msg_created = 0, qs_cons = C_poll, qs_msg_removed = 0,
      qs_orig_in_queue = 0, qs_main_pc = M_lock, qs_i = 0, qs_out = []\<rparr>"

lemmas qs_defs = qs_say_def qs_signal_def qs_acquire_def qs_release_def qs_p_def qs_c_def qs_m_def

section \<open>Invariant\<close>

fun qs_prod_crit :: "qs_prod_pc \<Rightarrow> bool" where
  "qs_prod_crit P_poll = False"
| "qs_prod_crit P_random = False"
| "qs_prod_crit P_lock = False"
| "qs_prod_crit P_wait = False"
| "qs_prod_crit P_relock = False"
| "qs_prod_crit _ = True"

fun qs_cons_crit :: "qs_cons_pc \<Rightarrow> bool" where
  "qs_cons_crit C_poll = False"
| "qs_cons_crit C_random = False"
| "qs_cons_crit C_lock = False"
| "qs_cons_crit C_wait = False"
| "qs_cons_crit C_relock = False"
| "qs_cons_crit _ = True"

fun qs_main_crit :: "qs_main_pc \<Rightarrow> bool" where
  "qs_main_crit M_lock = False"
| "qs_main_crit M_poll = False"
| "qs_main_crit _ = True"

definition qs_mutex_ok :: "qs_state \<Rightarrow> bool" where
  "qs_mutex_ok s \<longleftrightarrow>
     (qs_prod_crit (qs_prod s) \<longleftrightarrow> qs_mutex s = Some Producer)
     \<and> (qs_cons_crit (qs_cons s) \<longleftrightarrow> qs_mutex s = Some Consumer)
     \<and> (qs_main_crit (qs_main_pc s) \<longleftrightarrow> qs_mutex s = Some Main)"

text \<open>The counter stays in range: between its loop and its update each thread knows there is room.\<close>

definition qs_range_ok :: "qs_state \<Rightarrow> bool" where
  "qs_range_ok s \<longleftrightarrow>
     0 \<le> qs_in_queue s \<and> qs_in_queue s \<le> qs_capacity s
     \<and> (qs_prod s \<notin> {P_poll, P_random} \<longrightarrow> qs_msg_created s = 1)
     \<and> (qs_cons s \<notin> {C_poll, C_random} \<longrightarrow> qs_msg_removed s = 1)
     \<and> (qs_prod s = P_add \<longrightarrow> qs_in_queue s < qs_capacity s)
     \<and> (qs_cons s \<in> {C_orig, C_sub} \<longrightarrow> 0 < qs_in_queue s)
     \<and> (qs_cons s = C_sub \<longrightarrow> qs_orig_in_queue s = qs_in_queue s)
     \<and> (qs_cons s = C_check \<longrightarrow> qs_orig_in_queue s = qs_in_queue s + 1)"

text \<open>No wakeup is lost: a sleeper's condition holds, or the other thread is about to signal.\<close>

definition qs_signal_ok :: "qs_state \<Rightarrow> bool" where
  "qs_signal_ok s \<longleftrightarrow>
     (qs_prod s = P_wait \<longrightarrow> qs_in_queue s = qs_capacity s
        \<or> qs_cons s = C_check \<and> qs_orig_in_queue s = qs_capacity s
        \<or> qs_cons s \<in> {C_say_signal, C_signal})
     \<and> (qs_cons s = C_wait \<longrightarrow> qs_in_queue s = 0
        \<or> qs_prod s = P_check \<and> qs_in_queue s = 1
        \<or> qs_prod s \<in> {P_say_signal, P_signal})
     \<and> (qs_prod s = P_sleep \<or> qs_prod s = P_say_full \<longrightarrow> qs_in_queue s = qs_capacity s)
     \<and> (qs_cons s = C_sleep \<or> qs_cons s = C_say_empty \<longrightarrow> qs_in_queue s = 0)
     \<and> (qs_prod s \<in> {P_say_signal, P_signal} \<longrightarrow> qs_in_queue s = 1)"

lemma qs_mutex_ok_producer:
  "qs_mutex_ok s \<Longrightarrow> qs_producer r (qs_prod s) s = Some t \<Longrightarrow> qs_mutex_ok t"
  by (cases "qs_prod s"; auto simp: qs_mutex_ok_def qs_defs split: if_splits)

lemma qs_mutex_ok_consumer:
  "qs_mutex_ok s \<Longrightarrow> qs_consumer r (qs_cons s) s = Some t \<Longrightarrow> qs_mutex_ok t"
  by (cases "qs_cons s"; auto simp: qs_mutex_ok_def qs_defs split: if_splits)

lemma qs_mutex_ok_drawer:
  "qs_mutex_ok s \<Longrightarrow> qs_drawer (qs_main_pc s) s = Some t \<Longrightarrow> qs_mutex_ok t"
  by (cases "qs_main_pc s"; auto simp: qs_mutex_ok_def qs_defs split: if_splits)

lemma qs_data_producer:
  assumes "qs_mutex_ok s" "qs_range_ok s" "qs_signal_ok s" "1 \<le> qs_capacity s"
    and st: "qs_producer r (qs_prod s) s = Some t"
  shows "qs_range_ok t \<and> qs_signal_ok t \<and> qs_capacity t = qs_capacity s"
  using st [symmetric] assms(1-4) unfolding qs_mutex_ok_def qs_range_ok_def qs_signal_ok_def
  by (cases "qs_prod s"; simp add: qs_defs split: if_splits; cases "qs_cons s"; force)

lemma qs_data_consumer:
  assumes "qs_mutex_ok s" "qs_range_ok s" "qs_signal_ok s" "1 \<le> qs_capacity s"
    and st: "qs_consumer r (qs_cons s) s = Some t"
  shows "qs_range_ok t \<and> qs_signal_ok t \<and> qs_capacity t = qs_capacity s"
  using st [symmetric] assms(1-4) unfolding qs_mutex_ok_def qs_range_ok_def qs_signal_ok_def
  by (cases "qs_cons s"; simp add: qs_defs split: if_splits; cases "qs_prod s"; force)

lemma qs_data_drawer:
  assumes "qs_range_ok s" "qs_signal_ok s" "qs_drawer (qs_main_pc s) s = Some t"
  shows "qs_range_ok t \<and> qs_signal_ok t \<and> qs_capacity t = qs_capacity s"
  using assms(3) [symmetric] assms(1,2) unfolding qs_range_ok_def qs_signal_ok_def
  by (cases "qs_main_pc s"; simp add: qs_defs split: if_splits)

section \<open>The text printed\<close>

definition qs_picture :: "int \<Rightarrow> int \<Rightarrow> string" where
  "qs_picture k cap =
     '' |'' @ replicate (nat k) (CHR ''.'') @ replicate (nat (cap - k)) (CHR '' '') @ ''|'' @ qs_nl"

definition qs_line :: "int \<Rightarrow> string \<Rightarrow> bool" where
  "qs_line cap l \<longleftrightarrow> l \<in> set qs_msgs \<or> (\<exists>k. 0 \<le> k \<and> k \<le> cap \<and> l = qs_picture k cap)"

text \<open>The part of a picture that \<open>main()\<close> has already printed.\<close>

definition qs_partial :: "qs_state \<Rightarrow> string" where
  "qs_partial s =
     (case qs_main_pc s of
        M_dots \<Rightarrow> '' |'' @ replicate (nat (qs_i s)) (CHR ''.'')
      | M_spaces \<Rightarrow> '' |'' @ replicate (nat (qs_in_queue s)) (CHR ''.'')
          @ replicate (nat (qs_i s - qs_in_queue s)) (CHR '' '')
      | M_end \<Rightarrow> '' |'' @ replicate (nat (qs_in_queue s)) (CHR ''.'')
          @ replicate (nat (qs_capacity s - qs_in_queue s)) (CHR '' '')
      | _ \<Rightarrow> [])"

definition qs_out_ok :: "qs_state \<Rightarrow> bool" where
  "qs_out_ok s \<longleftrightarrow>
     (qs_main_pc s = M_dots \<longrightarrow> 0 \<le> qs_i s \<and> qs_i s \<le> qs_in_queue s)
     \<and> (qs_main_pc s = M_spaces \<longrightarrow> qs_in_queue s \<le> qs_i s \<and> qs_i s \<le> qs_capacity s)
     \<and> (\<exists>ls. (\<forall>l \<in> set ls. qs_line (qs_capacity s) l) \<and> qs_out s = concat ls @ qs_partial s)"

lemma qs_out_keep:
  assumes "qs_out_ok s" "qs_capacity t = qs_capacity s" "qs_out t = qs_out s"
    and "qs_main_pc t = qs_main_pc s" "qs_i t = qs_i s"
    and "qs_main_crit (qs_main_pc s) \<Longrightarrow> qs_in_queue t = qs_in_queue s"
  shows "qs_out_ok t"
proof -
  have "qs_partial t = qs_partial s" using assms(2-) by (auto simp: qs_partial_def split: qs_main_pc.splits)
  with assms show ?thesis by (auto simp: qs_out_ok_def)
qed

lemma qs_out_line:
  assumes "qs_out_ok s" "qs_capacity t = qs_capacity s" "qs_out t = qs_out s @ l" "qs_line (qs_capacity s) l"
    and "qs_main_pc t = qs_main_pc s" "\<not> qs_main_crit (qs_main_pc s)"
  shows "qs_out_ok t"
proof -
  have p: "qs_partial s = []" "qs_partial t = []" "qs_main_pc s \<notin> {M_dots, M_spaces}"
    using assms(5,6) by (auto simp: qs_partial_def split: qs_main_pc.splits)
  obtain ls where "\<forall>l \<in> set ls. qs_line (qs_capacity s) l" "qs_out s = concat ls"
    using assms(1) p by (auto simp: qs_out_ok_def)
  with assms p show ?thesis
    unfolding qs_out_ok_def by (auto intro!: exI [of _ "ls @ [l]"])
qed

lemma qs_msgs_length: "length qs_msgs = 6"
  by (simp add: qs_msgs_def)

lemma qs_msgs_line: "n < 6 \<Longrightarrow> qs_line cap (qs_msgs ! n)"
  unfolding qs_line_def using nth_mem [of n qs_msgs] by (simp add: qs_msgs_length)

lemma qs_out_producer:
  assumes m: "qs_mutex_ok s" and o: "qs_out_ok s" and st: "qs_producer r (qs_prod s) s = Some t"
  shows "qs_out_ok t"
proof (cases "qs_prod s \<in> {P_say_full, P_say_woken, P_say_signal}")
  case True
  then have "\<exists>l. qs_out t = qs_out s @ l \<and> qs_line (qs_capacity s) l" and "qs_capacity t = qs_capacity s"
    and "qs_main_pc t = qs_main_pc s" and "\<not> qs_main_crit (qs_main_pc s)"
    using st m by (auto simp: qs_defs qs_mutex_ok_def qs_msgs_line)
  then show ?thesis using qs_out_line [OF o] by metis
next
  case False
  show ?thesis
    by (rule qs_out_keep [OF o]; insert False st [symmetric] m;
        cases "qs_prod s"; auto simp: qs_defs qs_mutex_ok_def split: if_splits)
qed

lemma qs_out_consumer:
  assumes m: "qs_mutex_ok s" and o: "qs_out_ok s" and st: "qs_consumer r (qs_cons s) s = Some t"
  shows "qs_out_ok t"
proof (cases "qs_cons s \<in> {C_say_empty, C_say_woken, C_say_signal}")
  case True
  then have "\<exists>l. qs_out t = qs_out s @ l \<and> qs_line (qs_capacity s) l" and "qs_capacity t = qs_capacity s"
    and "qs_main_pc t = qs_main_pc s" and "\<not> qs_main_crit (qs_main_pc s)"
    using st m by (auto simp: qs_defs qs_mutex_ok_def qs_msgs_line)
  then show ?thesis using qs_out_line [OF o] by metis
next
  case False
  show ?thesis
    by (rule qs_out_keep [OF o]; insert False st [symmetric] m;
        cases "qs_cons s"; auto simp: qs_defs qs_mutex_ok_def split: if_splits)
qed

lemma replicate_snoc: "replicate n x @ [x] = replicate (Suc n) x"
  by (simp add: replicate_append_same)

lemma qs_out_extend:
  assumes "qs_out_ok s" "qs_capacity t = qs_capacity s"
    and "qs_out t = qs_out s @ x" "qs_partial t = qs_partial s @ x"
    and "qs_main_pc t = M_dots \<Longrightarrow> 0 \<le> qs_i t \<and> qs_i t \<le> qs_in_queue t"
    and "qs_main_pc t = M_spaces \<Longrightarrow> qs_in_queue t \<le> qs_i t \<and> qs_i t \<le> qs_capacity t"
  shows "qs_out_ok t"
  using assms by (auto simp: qs_out_ok_def)

lemma replicate_nat_snoc:
  "0 \<le> k \<Longrightarrow> replicate (nat (k + 1)) x = replicate (nat k) x @ [x]"
  by (simp add: nat_add_distrib replicate_append_same)

lemma qs_out_drawer:
  assumes m: "qs_range_ok s" and o: "qs_out_ok s" and st: "qs_drawer (qs_main_pc s) s = Some t"
  shows "qs_out_ok t"
proof (cases "qs_main_pc s")
  case M_end
  obtain ls where ls: "\<forall>l \<in> set ls. qs_line (qs_capacity s) l" "qs_out s = concat ls @ qs_partial s"
    using o by (auto simp: qs_out_ok_def)
  have "qs_partial s @ ''|'' @ qs_nl = qs_picture (qs_in_queue s) (qs_capacity s)"
    by (simp add: qs_partial_def M_end qs_picture_def)
  moreover have "qs_line (qs_capacity s) (qs_picture (qs_in_queue s) (qs_capacity s))"
    using m by (auto simp: qs_line_def qs_range_ok_def)
  moreover have "qs_partial t = []" and "qs_main_pc t = M_unlock" and "qs_capacity t = qs_capacity s"
    and "qs_out t = qs_out s @ ''|'' @ qs_nl"
    using st [symmetric] M_end by (simp_all add: qs_defs qs_partial_def)
  ultimately show ?thesis
    using ls unfolding qs_out_ok_def
    by (auto intro!: exI [of _ "ls @ [qs_picture (qs_in_queue s) (qs_capacity s)]"])
next
  case M_dots
  then have i: "0 \<le> qs_i s \<and> qs_i s \<le> qs_in_queue s" using o by (simp add: qs_out_ok_def)
  show ?thesis
  proof (cases "qs_i s < qs_in_queue s")
    case True
    then show ?thesis using i M_dots st [symmetric]
      by (intro qs_out_extend [OF o, where x = "''.''"]) (simp_all add: qs_defs qs_partial_def replicate_nat_snoc)
  next
    case False
    with i have "qs_i s = qs_in_queue s" by simp
    then show ?thesis using i m M_dots st [symmetric]
      by (intro qs_out_extend [OF o, where x = "[]"])
        (simp_all add: qs_defs qs_partial_def qs_range_ok_def)
  qed
next
  case M_spaces
  then have i: "qs_in_queue s \<le> qs_i s \<and> qs_i s \<le> qs_capacity s" using o by (simp add: qs_out_ok_def)
  show ?thesis
  proof (cases "qs_i s < qs_capacity s")
    case True
    then show ?thesis using i M_spaces st [symmetric] replicate_nat_snoc [of "qs_i s - qs_in_queue s"]
      by (intro qs_out_extend [OF o, where x = "'' ''"]) (simp_all add: qs_defs qs_partial_def diff_add_eq)
  next
    case False
    with i have "qs_i s = qs_capacity s" by simp
    then show ?thesis using i m M_spaces st [symmetric]
      by (intro qs_out_extend [OF o, where x = "[]"]) (simp_all add: qs_defs qs_partial_def)
  qed
next
  case M_bar
  then show ?thesis using st [symmetric] m
    by (intro qs_out_extend [OF o, where x = "'' |''"]) (simp_all add: qs_defs qs_partial_def qs_range_ok_def)
qed (rule qs_out_extend [OF o, where x = "[]"]; use st [symmetric] in
  \<open>simp add: qs_defs qs_partial_def split: if_splits\<close>)+

section \<open>The invariant of the program\<close>

definition qs_inv :: "qs_state \<Rightarrow> bool" where
  "qs_inv s \<longleftrightarrow>
     qs_mutex_ok s \<and> (1 \<le> qs_capacity s \<longrightarrow> qs_range_ok s \<and> qs_signal_ok s \<and> qs_out_ok s)"

lemma qs_capacity_step: "qs_step e s = Some t \<Longrightarrow> qs_capacity t = qs_capacity s"
proof -
  have "qs_producer r pc s = Some t \<Longrightarrow> qs_capacity t = qs_capacity s" for r pc
    by (cases pc) (auto simp: qs_defs split: if_splits)
  moreover have "qs_consumer r pc s = Some t \<Longrightarrow> qs_capacity t = qs_capacity s" for r pc
    by (cases pc) (auto simp: qs_defs split: if_splits)
  moreover have "qs_drawer pc s = Some t \<Longrightarrow> qs_capacity t = qs_capacity s" for pc
    by (cases pc) (auto simp: qs_defs split: if_splits)
  ultimately show "qs_step e s = Some t \<Longrightarrow> qs_capacity t = qs_capacity s"
    by (cases e) (auto simp: qs_step_def qs_defs split: if_splits)
qed

lemma qs_inv_wake:
  assumes "qs_inv s" and "t = qs_p P_relock s \<and> qs_prod s = P_wait \<or> t = qs_c C_relock s \<and> qs_cons s = C_wait"
  shows "qs_inv t"
proof -
  have "qs_out_ok s \<Longrightarrow> qs_out_ok t"
    by (erule qs_out_keep) (use assms in \<open>auto simp: qs_defs\<close>)
  moreover have "qs_mutex_ok t" using assms by (auto simp: qs_inv_def qs_mutex_ok_def qs_defs)
  moreover have "qs_range_ok s \<Longrightarrow> qs_range_ok t"
    using assms(2) by (elim disjE conjE) (simp_all add: qs_range_ok_def qs_defs)
  moreover have "qs_signal_ok s \<Longrightarrow> qs_signal_ok t"
    using assms(2) by (elim disjE conjE) (simp_all add: qs_signal_ok_def qs_defs)
  moreover have "qs_capacity t = qs_capacity s" using assms(2) by (auto simp: qs_defs)
  ultimately show ?thesis using assms(1) by (simp add: qs_inv_def)
qed

lemma qs_inv_step:
  assumes inv: "qs_inv s" and st: "qs_step e s = Some t"
  shows "qs_inv t"
proof (cases e)
  case (Run_producer r)
  with st have st': "qs_producer r (qs_prod s) s = Some t" by (simp add: qs_step_def)
  show ?thesis
    using inv qs_mutex_ok_producer [OF _ st'] qs_data_producer [OF _ _ _ _ st'] qs_out_producer [OF _ _ st']
      qs_capacity_step [OF st]
    unfolding qs_inv_def by simp
next
  case (Run_consumer r)
  with st have st': "qs_consumer r (qs_cons s) s = Some t" by (simp add: qs_step_def)
  show ?thesis
    using inv qs_mutex_ok_consumer [OF _ st'] qs_data_consumer [OF _ _ _ _ st'] qs_out_consumer [OF _ _ st']
      qs_capacity_step [OF st]
    unfolding qs_inv_def by simp
next
  case Run_main
  with st have st': "qs_drawer (qs_main_pc s) s = Some t" by (simp add: qs_step_def)
  show ?thesis
    using inv qs_mutex_ok_drawer [OF _ st'] qs_data_drawer [OF _ _ st'] qs_out_drawer [OF _ _ st']
      qs_capacity_step [OF st]
    unfolding qs_inv_def by simp
qed (use inv st in \<open>auto intro!: qs_inv_wake [OF inv] simp: qs_step_def split: if_splits\<close>)

interpretation qs: step_invariant qs_step "qs_main argv" qs_inv for argv
proof unfold_locales
  show "qs_inv (qs_main argv)"
    by (auto simp: qs_inv_def qs_main_def qs_mutex_ok_def qs_range_ok_def qs_signal_ok_def qs_out_ok_def
        qs_partial_def intro!: exI [of _ "[]"])
qed (rule qs_inv_step)

interpretation qs_cap: step_invariant qs_step "qs_main argv" "\<lambda>s. qs_capacity s = qs_capacity (qs_main argv)"
  for argv
  by unfold_locales (simp_all add: qs_capacity_step)

lemma qs_reach:
  assumes "1 \<le> qs_capacity (qs_main argv)" "reach qs_step (qs_main argv) s"
  shows "qs_mutex_ok s \<and> qs_range_ok s \<and> qs_signal_ok s \<and> qs_out_ok s"
  using qs.reach_inv [OF assms(2)] qs_cap.reach_inv [OF assms(2)] assms(1) by (simp add: qs_inv_def)

section \<open>Properties\<close>

text \<open>
  C5: Started with a capacity of at least 1, in every reachable state the number of messages lies
  between 0 and the capacity, and the producer and the consumer are never both asleep on the
  condition variable they share: no wakeup is lost, although both use the same variable.
\<close>

theorem qs_bounded_no_deadlock:
  assumes "1 \<le> qs_capacity (qs_main argv)" "reach qs_step (qs_main argv) s"
  shows "0 \<le> qs_in_queue s \<and> qs_in_queue s \<le> qs_capacity (qs_main argv)
    \<and> \<not> (qs_prod s = P_wait \<and> qs_cons s = C_wait)"
proof -
  have r: "qs_range_ok s" and g: "qs_signal_ok s" using qs_reach [OF assms] by simp_all
  have c: "1 \<le> qs_capacity s" using qs_cap.reach_inv [OF assms(2)] assms(1) by simp
  have "\<not> (qs_prod s = P_wait \<and> qs_cons s = C_wait)"
  proof
    assume "qs_prod s = P_wait \<and> qs_cons s = C_wait"
    with g have "qs_in_queue s = qs_capacity s" "qs_in_queue s = 0" by (simp_all add: qs_signal_ok_def)
    with c show False by simp
  qed
  with r qs_cap.reach_inv [OF assms(2)] show ?thesis by (simp add: qs_range_ok_def)
qed

lemma qs_run_witness:
  "runs qs_step (replicate 9 (Run_producer 1)) (qs_main [''q'', ''1''])
     (\<lambda>s. qs_mutex s = None \<and> qs_in_queue s = 1) \<and> qs_capacity (qs_main [''q'', ''1'']) = 1"
  by code_simp

theorem qs_bounded_no_deadlock_witness:
  "\<exists>s. reach qs_step (qs_main [''q'', ''1'']) s \<and> qs_in_queue s = 1 \<and> qs_in_queue s \<le> 1"
  using qs_run_witness [THEN conjunct1, THEN runs_reach] qs_run_witness [THEN conjunct2]
    qs_bounded_no_deadlock [of "[''q'', ''1'']"] by fastforce

text \<open>
  C6: Started with a capacity of at least 1, whenever the mutex is free everything printed so
  far is a sequence of whole lines, each one of the six messages or a picture of the queue that
  is exactly as wide as the capacity: the lines of the three threads never mix.
\<close>

theorem qs_whole_lines:
  assumes "1 \<le> qs_capacity (qs_main argv)" "reach qs_step (qs_main argv) s" "qs_mutex s = None"
  shows "\<exists>ls. qs_out s = concat ls \<and> (\<forall>l \<in> set ls. qs_line (qs_capacity (qs_main argv)) l)"
  using qs_reach [OF assms(1,2)] qs_cap.reach_inv [OF assms(2)] assms(3)
  by (cases "qs_main_pc s") (auto simp: qs_out_ok_def qs_mutex_ok_def qs_partial_def)

theorem qs_whole_lines_witness:
  "\<exists>s ls. reach qs_step (qs_main [''q'', ''1'']) s \<and> qs_out s = concat ls \<and> (\<forall>l \<in> set ls. qs_line 1 l)"
  using qs_run_witness [THEN conjunct1, THEN runs_reach] qs_run_witness [THEN conjunct2]
    qs_whole_lines [of "[''q'', ''1'']"] by fastforce

text \<open>
  \<open>main()\<close> does not check its argument. With a capacity of 0 both threads go to sleep; with a
  negative one the test for a full queue never succeeds.
\<close>

lemma qs_produce:
  assumes "qs_capacity s < 0" "0 \<le> qs_in_queue s" "qs_in_queue s < INT_MAX"
    and "qs_prod s = P_poll" "qs_cons s = C_poll" "qs_mutex s = None"
  shows "runs qs_step (replicate (if qs_in_queue s = 0 then 9 else 7) (Run_producer 1)) s
    (\<lambda>t. qs_capacity t < 0 \<and> qs_in_queue t = qs_in_queue s + 1
      \<and> qs_prod t = P_poll \<and> qs_cons t = C_poll \<and> qs_mutex t = None)"
proof (cases "qs_in_queue s = 0")
  case True
  with assms show ?thesis by (simp add: numeral_eq_Suc qs_step_def qs_defs)
next
  case False
  with assms show ?thesis by (simp add: numeral_eq_Suc qs_step_def qs_defs)
qed

lemma qs_both_asleep:
  assumes "qs_capacity s = 0" "qs_in_queue s = 0" "qs_prod s = P_poll" "qs_cons s = C_poll" "qs_mutex s = None"
  shows "\<exists>t. reach qs_step s t \<and> qs_prod t = P_wait \<and> qs_cons t = C_wait"
proof -
  have "runs qs_step (replicate 6 (Run_producer 1)) s (\<lambda>t. qs_prod t = P_wait \<and> qs_in_queue t = 0
      \<and> qs_cons t = C_poll \<and> qs_mutex t = None)"
    using assms by (simp add: numeral_eq_Suc qs_step_def qs_defs)
  from runs_reach [OF this] obtain t where t: "reach qs_step s t" "qs_prod t = P_wait" "qs_in_queue t = 0"
      "qs_cons t = C_poll" "qs_mutex t = None"
    by auto
  from t(2-5) have "runs qs_step (replicate 6 (Run_consumer 1)) t (\<lambda>u. qs_prod u = P_wait \<and> qs_cons u = C_wait)"
    by (simp add: numeral_eq_Suc qs_step_def qs_defs)
  with t(1) show ?thesis by (rule reach_runs)
qed

lemma qs_overfull:
  assumes "qs_capacity s < 0" "int k \<le> INT_MAX"
    and "qs_in_queue s = 0" "qs_prod s = P_poll" "qs_cons s = C_poll" "qs_mutex s = None"
  shows "\<exists>t. reach qs_step s t \<and> qs_capacity t < 0 \<and> qs_in_queue t = int k
    \<and> qs_prod t = P_poll \<and> qs_cons t = C_poll \<and> qs_mutex t = None"
  using assms(2)
proof (induction k)
  case 0
  with assms show ?case by (auto intro!: exI [of _ s] reach_init)
next
  case (Suc k)
  then obtain t where t: "reach qs_step s t" "qs_capacity t < 0" "qs_in_queue t = int k"
    "qs_prod t = P_poll" "qs_cons t = C_poll" "qs_mutex t = None" by auto
  with Suc.prems obtain es u where "exec qs_step es t = Some u" "qs_capacity u < 0"
    "qs_in_queue u = int k + 1" "qs_prod u = P_poll" "qs_cons u = C_poll" "qs_mutex u = None"
    using qs_produce [of t, THEN runs_exec] by auto
  with reach_exec [OF t(1)] show ?case by (intro exI [of _ u]) auto
qed

text \<open>
  What an unchecked argument does: a negative capacity lets the number of messages grow to
  any value an \<open>int\<close> holds, and with 0, or with an argument that is not a number, there is a
  schedule in which the producer and the consumer both go to sleep, where no step but a spurious
  wakeup of theirs can ever change that.
\<close>

theorem qs_unchecked_capacity:
  "(atoi arg < 0 \<and> int k \<le> INT_MAX \<longrightarrow>
      (\<exists>s. reach qs_step (qs_main [prog, arg]) s \<and> qs_in_queue s = int k))
   \<and> (atoi arg = 0 \<longrightarrow>
      (\<exists>s. reach qs_step (qs_main [prog, arg]) s \<and> qs_prod s = P_wait \<and> qs_cons s = C_wait))"
proof (intro conjI impI)
  assume "atoi arg < 0 \<and> int k \<le> INT_MAX"
  then show "\<exists>s. reach qs_step (qs_main [prog, arg]) s \<and> qs_in_queue s = int k"
    using qs_overfull [of "qs_main [prog, arg]" k] by (auto simp: qs_main_def)
next
  assume "atoi arg = 0"
  then show "\<exists>s. reach qs_step (qs_main [prog, arg]) s \<and> qs_prod s = P_wait \<and> qs_cons s = C_wait"
    using qs_both_asleep [of "qs_main [prog, arg]"] by (simp add: qs_main_def)
qed

theorem qs_unchecked_capacity_witness:
  "(\<exists>s. reach qs_step (qs_main [''q'', ''-1'']) s \<and> qs_in_queue s = 1000)
   \<and> (\<exists>s. reach qs_step (qs_main [''q'', ''x'']) s \<and> qs_prod s = P_wait \<and> qs_cons s = C_wait)"
proof -
  have "atoi ''-1'' = - 1" "atoi ''x'' = 0" by code_simp+
  with qs_unchecked_capacity [of "''-1''" 1000 "''q''"] qs_unchecked_capacity [of "''x''" 0 "''q''"]
  show ?thesis by simp
qed

end
