(* ===== verification/Race_Loop.thy ===== *)
theory Race_Loop
  imports Prelude
begin

text \<open>
  The two-process loop of \<open>race/race.c\<close> and of its repaired versions: parent and child compare
  two bytes of a shared mapping and then set both to a value of their own. The loop is modelled
  once over the operations in which the versions differ; a locale states what the bracketing
  calls must promise for the bytes never to be seen apart.
\<close>

section \<open>State and steps\<close>

datatype rc_who = Parent | Child

text \<open>What a call into the kernel does: return, block, or fail with an error other than \<open>EINTR\<close>.\<close>

datatype 'l rc_call = Returns 'l | Blocks | Fails

text \<open>
  \<open>R_load\<close> and \<open>R_cmp\<close> are the two loads of the test, \<open>R_store1\<close> and \<open>R_store0\<close> the two stores.
  The argument of \<open>R_stats\<close>, \<open>R_cleanup\<close> and \<open>R_exit\<close> is the status the process exits with.
\<close>

datatype rc_pc =
    R_loop | R_lock | R_load | R_cmp | R_debug | R_count | R_store1 | R_store0 | R_unlock | R_incr
  | R_left | R_wait | R_stats int | R_cleanup int | R_exit int | R_abort

text \<open>
  The operations of one version: the calls around the loop body, what the cleanup does to the
  lock, and where a process goes on after its loop (\<open>R_left\<close>), after \<open>wait\<close>, after the
  statistics and the cleanup, and when its lock call or \<open>wait\<close> is interrupted or fails.
\<close>

record 'l rc_ops =
  op_lock :: "rc_who \<Rightarrow> 'l \<Rightarrow> 'l rc_call"
  op_unlock :: "rc_who \<Rightarrow> 'l \<Rightarrow> 'l rc_call"
  op_cleanup :: "rc_who \<Rightarrow> 'l \<Rightarrow> 'l"
  op_next :: "rc_who \<Rightarrow> rc_pc \<Rightarrow> rc_pc"
  op_eintr :: "rc_pc \<Rightarrow> rc_pc"
  op_failed :: rc_pc

record 'l rc_state =
  rc_addr0 :: int
  rc_addr1 :: int
  rc_lock :: 'l
  rc_pcs :: "rc_who \<Rightarrow> rc_pc"
  rc_seen :: "rc_who \<Rightarrow> int"
  rc_run :: "rc_who \<Rightarrow> bool"
  rc_races :: "rc_who \<Rightarrow> 32 word"
  rc_loops :: "rc_who \<Rightarrow> 64 word"
  rc_dbg :: bool
  rc_debugged :: "(rc_who \<times> int \<times> int) list"
  rc_printed :: "(rc_who \<times> 32 word \<times> 64 word) list"

definition rc_goto :: "rc_who \<Rightarrow> rc_pc \<Rightarrow> 'l rc_state \<Rightarrow> 'l rc_state" where
  "rc_goto w pc s = s\<lparr>rc_pcs := (rc_pcs s)(w := pc)\<rparr>"

text \<open>The value a process writes: the parent 1, the child 2.\<close>

definition rc_value :: "rc_who \<Rightarrow> int" where
  "rc_value w = (if w = Parent then 1 else 2)"

fun rc_exited :: "rc_pc \<Rightarrow> bool" where
  "rc_exited (R_exit _) = True"
| "rc_exited R_abort = True"
| "rc_exited _ = False"

fun rc_stmt :: "'l rc_ops \<Rightarrow> rc_who \<Rightarrow> rc_pc \<Rightarrow> 'l rc_state \<Rightarrow> 'l rc_state option" where
  "rc_stmt ops w R_loop s = Some (rc_goto w (if rc_run s w then R_lock else R_left) s)"
| "rc_stmt ops w R_lock s =
     (case op_lock ops w (rc_lock s) of
        Returns l \<Rightarrow> Some (rc_goto w R_load (s\<lparr>rc_lock := l\<rparr>))
      | Blocks \<Rightarrow> None
      | Fails \<Rightarrow> Some (rc_goto w (op_failed ops) s))"
| "rc_stmt ops w R_load s = Some (rc_goto w R_cmp (s\<lparr>rc_seen := (rc_seen s)(w := rc_addr0 s)\<rparr>))"
| "rc_stmt ops w R_cmp s =
     Some (rc_goto w (if rc_seen s w = rc_addr1 s then R_store1
                      else if rc_dbg s then R_debug else R_count) s)"
| "rc_stmt ops w R_debug s =
     Some (rc_goto w R_count
       (s\<lparr>rc_debugged := rc_debugged s @ [(w, rc_addr0 s, rc_addr1 s)]\<rparr>))"
| "rc_stmt ops w R_count s =
     Some (rc_goto w R_store1 (s\<lparr>rc_races := (rc_races s)(w := rc_races s w + 1)\<rparr>))"
| "rc_stmt ops w R_store1 s = Some (rc_goto w R_store0 (s\<lparr>rc_addr1 := rc_value w\<rparr>))"
| "rc_stmt ops w R_store0 s = Some (rc_goto w R_unlock (s\<lparr>rc_addr0 := rc_value w\<rparr>))"
| "rc_stmt ops w R_unlock s =
     (case op_unlock ops w (rc_lock s) of
        Returns l \<Rightarrow> Some (rc_goto w R_incr (s\<lparr>rc_lock := l\<rparr>))
      | Blocks \<Rightarrow> None
      | Fails \<Rightarrow> Some (rc_goto w (op_failed ops) s))"
| "rc_stmt ops w R_incr s =
     Some (rc_goto w R_loop (s\<lparr>rc_loops := (rc_loops s)(w := rc_loops s w + 1)\<rparr>))"
| "rc_stmt ops w R_left s = Some (rc_goto w (op_next ops w R_left) s)"
| "rc_stmt ops w R_wait s =
     (if rc_exited (rc_pcs s Child) then Some (rc_goto w (op_next ops w R_wait) s) else None)"
| "rc_stmt ops w (R_stats c) s =
     Some (rc_goto w (op_next ops w (R_stats c))
       (s\<lparr>rc_printed := rc_printed s @ [(w, rc_races s w, rc_loops s w)]\<rparr>))"
| "rc_stmt ops w (R_cleanup c) s =
     Some (rc_goto w (op_next ops w (R_cleanup c)) (s\<lparr>rc_lock := op_cleanup ops w (rc_lock s)\<rparr>))"
| "rc_stmt ops w (R_exit c) s = None"
| "rc_stmt ops w R_abort s = None"

text \<open>
  \<open>Sigint w\<close> runs the handler \<open>finish()\<close> in process \<open>w\<close>; \<open>Eintr w\<close> does so while \<open>w\<close> is inside
  a blocking call, which then fails with \<open>EINTR\<close>: the handler is installed without \<open>SA_RESTART\<close>.
\<close>

datatype rc_event = Run rc_who | Sigint rc_who | Eintr rc_who

definition rc_finish :: "rc_who \<Rightarrow> 'l rc_state \<Rightarrow> 'l rc_state" where
  "rc_finish w s = s\<lparr>rc_run := (rc_run s)(w := False)\<rparr>"

definition rc_blocked :: "'l rc_ops \<Rightarrow> rc_who \<Rightarrow> 'l rc_state \<Rightarrow> bool" where
  "rc_blocked ops w s \<longleftrightarrow>
     rc_pcs s w = R_lock \<and> op_lock ops w (rc_lock s) = Blocks
     \<or> rc_pcs s w = R_wait \<and> \<not> rc_exited (rc_pcs s Child)"

definition rc_step :: "'l rc_ops \<Rightarrow> rc_event \<Rightarrow> 'l rc_state \<Rightarrow> 'l rc_state option" where
  "rc_step ops e s =
     (case e of
        Run w \<Rightarrow> rc_stmt ops w (rc_pcs s w) s
      | Sigint w \<Rightarrow> if rc_exited (rc_pcs s w) then None else Some (rc_finish w s)
      | Eintr w \<Rightarrow> if rc_blocked ops w s
                  then Some (rc_goto w (op_eintr ops (rc_pcs s w)) (rc_finish w s)) else None)"

definition rc_init :: "'l \<Rightarrow> bool \<Rightarrow> 'l rc_state" where
  "rc_init l dbg =
     \<lparr>rc_addr0 = 0, rc_addr1 = 0, rc_lock = l, rc_pcs = (\<lambda>_. R_loop), rc_seen = (\<lambda>_. 0),
      rc_run = (\<lambda>_. True), rc_races = (\<lambda>_. 0), rc_loops = (\<lambda>_. 0), rc_dbg = dbg,
      rc_debugged = [], rc_printed = []\<rparr>"

lemmas rc_defs = rc_goto_def rc_finish_def

section \<open>What the bracketing calls must promise\<close>

fun rc_crit :: "rc_pc \<Rightarrow> bool" where
  "rc_crit R_load = True"
| "rc_crit R_cmp = True"
| "rc_crit R_debug = True"
| "rc_crit R_count = True"
| "rc_crit R_store1 = True"
| "rc_crit R_store0 = True"
| "rc_crit R_unlock = True"
| "rc_crit _ = False"

definition rc_in :: "'l rc_state \<Rightarrow> rc_who set" where
  "rc_in s = {w. rc_crit (rc_pcs s w)}"

text \<open>Of a process in its critical section: what it knows of the two bytes at each statement.\<close>

fun rc_local :: "rc_who \<Rightarrow> rc_pc \<Rightarrow> 'l rc_state \<Rightarrow> bool" where
  "rc_local w R_debug s = False"
| "rc_local w R_count s = False"
| "rc_local w R_cmp s = (rc_seen s w = rc_addr1 s \<and> rc_addr0 s = rc_addr1 s)"
| "rc_local w R_store0 s = (rc_addr1 s = rc_value w)"
| "rc_local w _ s = (rc_addr0 s = rc_addr1 s)"

definition rc_quiet :: "'l rc_state \<Rightarrow> bool" where
  "rc_quiet s \<longleftrightarrow>
     (\<forall>w. rc_races s w = 0) \<and> rc_debugged s = [] \<and> (\<forall>(w, n, k) \<in> set (rc_printed s). n = 0)"

definition rc_safe :: "'l rc_state \<Rightarrow> bool" where
  "rc_safe s \<longleftrightarrow>
     (\<forall>v \<in> rc_in s. \<forall>w \<in> rc_in s. v = w) \<and> (rc_in s = {} \<longrightarrow> rc_addr0 s = rc_addr1 s)
     \<and> (\<forall>w \<in> rc_in s. rc_local w (rc_pcs s w) s) \<and> rc_quiet s"

lemma rc_in_goto:
  "rc_in (rc_goto w pc s) = (if rc_crit pc then insert w (rc_in s) else rc_in s - {w})"
  by (auto simp: rc_in_def rc_goto_def)

lemma rc_in_cong: "rc_pcs t = rc_pcs s \<Longrightarrow> rc_in t = rc_in s"
  by (simp add: rc_in_def)

lemma rc_safe_leave:
  assumes "rc_safe s" "w \<notin> rc_in s \<or> rc_pcs s w = R_unlock" "\<not> rc_crit pc"
    and "rc_pcs s' = rc_pcs s" "rc_addr0 s' = rc_addr0 s" "rc_addr1 s' = rc_addr1 s"
    and "rc_seen s' = rc_seen s" "rc_quiet s'"
  shows "rc_safe (rc_goto w pc s')"
proof -
  have i: "rc_in s' = rc_in s" using assms(4) by (rule rc_in_cong)
  have l: "rc_local v p (rc_goto w pc s') = rc_local v p s" for v p
    using assms(5-7) by (cases p) (simp_all add: rc_goto_def)
  have "rc_addr0 s = rc_addr1 s" if "rc_in s - {w} = {}"
    using that assms(1,2) by (cases "rc_in s = {}") (fastforce simp: rc_safe_def)+
  moreover have "rc_quiet (rc_goto w pc s')" using assms(8) by (simp add: rc_quiet_def rc_goto_def)
  ultimately show ?thesis
    using assms(1,3-7) unfolding rc_safe_def rc_in_goto i l by (auto simp: rc_goto_def)
qed

text \<open>
  \<open>ok H l\<close> says that the lock in state \<open>l\<close> is held by exactly the processes of \<open>H\<close>. A call that
  returns lets its caller in only when nobody is; one that blocks has a holder to wait for;
  releasing never blocks, and after it, or when it fails, the caller no longer counts.
\<close>

locale rc_bracket =
  fixes ops :: "'l rc_ops" and l0 :: 'l and ok :: "rc_who set \<Rightarrow> 'l \<Rightarrow> bool"
  assumes ok_init: "ok {} l0"
    and ok_lock: "ok H l \<Longrightarrow> w \<notin> H \<Longrightarrow> op_lock ops w l = Returns l' \<Longrightarrow> H = {} \<and> ok {w} l'"
    and ok_block: "ok H l \<Longrightarrow> op_lock ops w l = Blocks \<Longrightarrow> H \<noteq> {}"
    and ok_unlock: "ok H l \<Longrightarrow> w \<in> H \<Longrightarrow> op_unlock ops w l = Returns l' \<Longrightarrow> ok (H - {w}) l'"
    and ok_unlock_fails: "ok H l \<Longrightarrow> w \<in> H \<Longrightarrow> op_unlock ops w l = Fails \<Longrightarrow> ok (H - {w}) l"
    and unlock_no_block: "op_unlock ops w l \<noteq> Blocks"
    and ok_cleanup: "ok H l \<Longrightarrow> w \<notin> H \<Longrightarrow> ok H (op_cleanup ops w l)"
    and next_out: "\<not> rc_crit (op_next ops w pc)"
    and eintr_out: "\<not> rc_crit (op_eintr ops pc)"
    and failed_out: "\<not> rc_crit (op_failed ops)"
    and child_waits_not: "op_next ops Child pc \<noteq> R_wait" "op_eintr ops pc \<noteq> R_wait" "op_failed ops \<noteq> R_wait"
begin

definition bracket_inv :: "'l rc_state \<Rightarrow> bool" where
  "bracket_inv s \<longleftrightarrow> ok (rc_in s) (rc_lock s) \<and> rc_safe s"

lemma bracket_inv_init: "bracket_inv (rc_init l0 dbg)"
  by (simp add: bracket_inv_def rc_init_def rc_in_def ok_init rc_safe_def rc_quiet_def)

lemma bracket_inv_leave:
  assumes "bracket_inv s" "w \<notin> rc_in s \<or> rc_pcs s w = R_unlock" "\<not> rc_crit pc"
    and "rc_pcs s' = rc_pcs s" "rc_addr0 s' = rc_addr0 s" "rc_addr1 s' = rc_addr1 s"
    and "rc_seen s' = rc_seen s" "rc_quiet s'" "ok (rc_in s - {w}) (rc_lock s')"
  shows "bracket_inv (rc_goto w pc s')"
proof -
  have "rc_safe (rc_goto w pc s')"
    using assms(1) by (intro rc_safe_leave [OF _ assms(2-8)]) (simp add: bracket_inv_def)
  moreover have "rc_in s' = rc_in s" using assms(4) by (rule rc_in_cong)
  ultimately show ?thesis
    using assms(3,9) unfolding bracket_inv_def rc_in_goto by (simp add: rc_goto_def)
qed

lemma bracket_inv_out:
  assumes inv: "bracket_inv s" and st: "rc_stmt ops w (rc_pcs s w) s = Some t" and out: "w \<notin> rc_in s"
  shows "bracket_inv t"
proof -
  from inv have ok: "ok (rc_in s) (rc_lock s)" and safe: "rc_safe s" and q: "rc_quiet s"
    by (simp_all add: bracket_inv_def rc_safe_def)
  from ok out have ok': "ok (rc_in s - {w}) (rc_lock s)" by simp
  note leave = bracket_inv_leave [OF inv disjI1 [OF out]]
  have nc: "\<not> rc_crit (rc_pcs s w)" using out by (simp add: rc_in_def)
  show ?thesis
  proof (cases "rc_pcs s w")
    case R_lock
    show ?thesis
    proof (cases "op_lock ops w (rc_lock s)")
      case (Returns l)
      with ok_lock [OF ok out] have none: "rc_in s = {}" and l: "ok {w} l" by auto
      with safe q have "rc_addr0 s = rc_addr1 s" by (simp add: rc_safe_def)
      moreover have t: "t = rc_goto w R_load (s\<lparr>rc_lock := l\<rparr>)" using st R_lock Returns by simp
      moreover have "rc_in t = {w}" unfolding t rc_in_goto using none rc_in_cong [of "s\<lparr>rc_lock := l\<rparr>" s] by simp
      ultimately show ?thesis using l q
        by (simp add: bracket_inv_def rc_safe_def) (simp add: rc_goto_def rc_quiet_def)
    next
      case Fails
      with st R_lock show ?thesis by (auto intro!: leave failed_out q ok')
    qed (use st R_lock in simp)
  next
    case (R_stats c)
    have "rc_quiet (s\<lparr>rc_printed := rc_printed s @ [(w, rc_races s w, rc_loops s w)]\<rparr>)"
      using q by (auto simp: rc_quiet_def)
    with st R_stats show ?thesis by (auto intro!: leave next_out ok')
  next
    case (R_cleanup c)
    have "rc_quiet (s\<lparr>rc_lock := op_cleanup ops w (rc_lock s)\<rparr>)"
      using q by (simp add: rc_quiet_def)
    moreover have "ok (rc_in s - {w}) (op_cleanup ops w (rc_lock s))"
      using ok_cleanup [OF ok' , of w] by simp
    ultimately show ?thesis using st R_cleanup by (auto intro!: leave next_out)
  next
    case R_incr
    have "rc_quiet (s\<lparr>rc_loops := (rc_loops s)(w := rc_loops s w + 1)\<rparr>)"
      using q by (simp add: rc_quiet_def)
    with st R_incr show ?thesis by (auto intro!: leave ok')
  next
    case R_loop
    with st show ?thesis by (cases "rc_run s w") (auto intro!: leave q ok')
  next
    case R_left
    with st show ?thesis by (auto intro!: leave next_out q ok')
  next
    case R_wait
    with st show ?thesis by (auto intro!: leave next_out q ok' split: if_splits)
  qed (use st nc in simp_all)
qed

lemma bracket_inv_in:
  assumes inv: "bracket_inv s" and st: "rc_stmt ops w (rc_pcs s w) s = Some t" and w: "w \<in> rc_in s"
  shows "bracket_inv t"
proof -
  from inv have ok: "ok (rc_in s) (rc_lock s)" and safe: "rc_safe s" and q: "rc_quiet s"
    and one: "rc_in s = {w}" and loc: "rc_local w (rc_pcs s w) s"
    using w by (auto simp: bracket_inv_def rc_safe_def)
  show ?thesis
  proof (cases "rc_pcs s w")
    case R_unlock
    note leave = bracket_inv_leave [OF inv disjI2 [OF R_unlock]]
    show ?thesis
    proof (cases "op_unlock ops w (rc_lock s)")
      case (Returns l)
      have "rc_quiet (s\<lparr>rc_lock := l\<rparr>)" using q by (simp add: rc_quiet_def)
      with Returns st R_unlock show ?thesis
        by (auto intro!: leave ok_unlock [OF ok w])
    next
      case Fails
      with st R_unlock show ?thesis
        by (auto intro!: leave q failed_out ok_unlock_fails [OF ok w])
    qed (simp add: unlock_no_block)
  next
    case R_load
    with st have t: "t = rc_goto w R_cmp (s\<lparr>rc_seen := (rc_seen s)(w := rc_addr0 s)\<rparr>)" by simp
    have "rc_in t = {w}" unfolding t rc_in_goto rc_in_cong [of "s\<lparr>rc_seen := (rc_seen s)(w := rc_addr0 s)\<rparr>" s, simplified]
      using one by simp
    with t ok q loc R_load one show ?thesis
      by (simp add: bracket_inv_def rc_safe_def) (simp add: rc_goto_def rc_quiet_def)
  next
    case R_cmp
    with st loc have t: "t = rc_goto w R_store1 s" by simp
    have "rc_in t = {w}" unfolding t rc_in_goto using one by simp
    with t ok q loc R_cmp one show ?thesis
      by (simp add: bracket_inv_def rc_safe_def) (simp add: rc_goto_def rc_quiet_def)
  next
    case R_store1
    with st have t: "t = rc_goto w R_store0 (s\<lparr>rc_addr1 := rc_value w\<rparr>)" by simp
    have "rc_in t = {w}" unfolding t rc_in_goto rc_in_cong [of "s\<lparr>rc_addr1 := rc_value w\<rparr>" s, simplified]
      using one by simp
    with t ok q R_store1 one show ?thesis
      by (simp add: bracket_inv_def rc_safe_def) (simp add: rc_goto_def rc_quiet_def)
  next
    case R_store0
    with st have t: "t = rc_goto w R_unlock (s\<lparr>rc_addr0 := rc_value w\<rparr>)" by simp
    have "rc_in t = {w}" unfolding t rc_in_goto rc_in_cong [of "s\<lparr>rc_addr0 := rc_value w\<rparr>" s, simplified]
      using one by simp
    with t ok q loc R_store0 one show ?thesis
      by (simp add: bracket_inv_def rc_safe_def) (simp add: rc_goto_def rc_quiet_def)
  qed (use st loc w in \<open>simp_all add: rc_in_def\<close>)
qed

lemma bracket_inv_step:
  assumes inv: "bracket_inv s" and st: "rc_step ops e s = Some t"
  shows "bracket_inv t"
proof (cases e)
  case (Run w)
  with st have "rc_stmt ops w (rc_pcs s w) s = Some t" by (simp add: rc_step_def)
  with inv show ?thesis by (cases "w \<in> rc_in s") (rule bracket_inv_in bracket_inv_out; assumption)+
next
  case (Sigint w)
  with st have "t = s\<lparr>rc_run := (rc_run s)(w := False)\<rparr>"
    by (auto simp: rc_step_def rc_finish_def split: if_splits)
  moreover have "rc_local v p (s\<lparr>rc_run := (rc_run s)(w := False)\<rparr>) = rc_local v p s" for v p
    by (cases p) simp_all
  ultimately show ?thesis using inv
    by (simp add: bracket_inv_def rc_safe_def rc_in_def rc_quiet_def)
next
  case (Eintr w)
  with st have t: "t = rc_goto w (op_eintr ops (rc_pcs s w)) (rc_finish w s)" and b: "rc_blocked ops w s"
    by (auto simp: rc_step_def split: if_splits)
  then have out: "w \<notin> rc_in s" by (auto simp: rc_blocked_def rc_in_def)
  have "rc_quiet (rc_finish w s)" using inv by (simp add: bracket_inv_def rc_safe_def rc_quiet_def rc_finish_def)
  with inv out show ?thesis unfolding t
    by (intro bracket_inv_leave [OF inv] eintr_out) (simp_all add: rc_finish_def bracket_inv_def)
qed

lemma bracket_reach: "reach (rc_step ops) (rc_init l0 dbg) s \<Longrightarrow> bracket_inv s"
  by (induction rule: reach.induct) (auto intro: bracket_inv_init bracket_inv_step)

lemma child_never_waits: "reach (rc_step ops) (rc_init l0 dbg) s \<Longrightarrow> rc_pcs s Child \<noteq> R_wait"
proof (induction rule: reach.induct)
  case (reach_step s e t)
  have "rc_stmt ops w pc s = Some t \<Longrightarrow> rc_pcs s w = pc \<Longrightarrow> rc_pcs t Child \<noteq> R_wait" for w pc
    using reach_step.IH
    by (cases pc; cases w) (auto simp: rc_goto_def child_waits_not split: rc_call.splits if_splits)
  with reach_step show ?case
    by (cases e) (auto simp: rc_step_def rc_goto_def rc_finish_def child_waits_not split: if_splits)
qed (simp add: rc_init_def)

text \<open>No process ever sees the bytes differ, and every statistics line says so.\<close>

lemma no_race: "reach (rc_step ops) (rc_init l0 dbg) s \<Longrightarrow> rc_quiet s"
  using bracket_reach by (auto simp: bracket_inv_def rc_safe_def)

text \<open>The processes never block each other for good: one can move until both have exited.\<close>

lemma no_deadlock:
  assumes r: "reach (rc_step ops) (rc_init l0 dbg) s" and alive: "\<not> rc_exited (rc_pcs s w)"
  shows "\<exists>v t. rc_step ops (Run v) s = Some t"
proof -
  have ok: "ok (rc_in s) (rc_lock s)" using bracket_reach [OF r] by (simp add: bracket_inv_def)
  note wait = child_never_waits [OF r]
  have move: "\<exists>t. rc_step ops (Run v) s = Some t"
    if "\<not> rc_exited (rc_pcs s v)" "\<not> rc_blocked ops v s" for v
    using that unlock_no_block [of v "rc_lock s"]
    by (cases "rc_pcs s v") (auto simp: rc_step_def rc_blocked_def split: rc_call.splits if_splits)
  show ?thesis
  proof (cases "rc_in s = {}")
    case False
    then obtain v where v: "rc_crit (rc_pcs s v)" by (auto simp: rc_in_def)
    then have "\<not> rc_exited (rc_pcs s v)" "\<not> rc_blocked ops v s"
      by (cases "rc_pcs s v"; simp add: rc_blocked_def)+
    with move show ?thesis by blast
  next
    case True
    with ok have nb: "op_lock ops v (rc_lock s) \<noteq> Blocks" for v using ok_block by blast
    show ?thesis
    proof (cases "rc_exited (rc_pcs s Child)")
      case True
      then have "\<not> rc_blocked ops w s" using nb by (auto simp: rc_blocked_def)
      with move alive show ?thesis by blast
    next
      case False
      then have "\<not> rc_blocked ops Child s" using nb wait by (auto simp: rc_blocked_def)
      with move False show ?thesis by blast
    qed
  qed
qed

end

end
