(* ===== verification/Race.thy ===== *)
theory Race
  imports Race_Loop
begin

text \<open>
  The programs that share two bytes or two integers between two processes or threads:
  \<open>race/race.c\<close> and its versions with a System V semaphore, a POSIX semaphore and a record lock,
  each as the operations it puts around the loop of \<open>Race_Loop\<close>; \<open>mutexes/race.c\<close> and
  \<open>mutexes/race-fixed.c\<close> with two threads.
\<close>

section \<open>Setting up\<close>

text \<open>The calls of \<open>main()\<close> that can fail before the loop starts.\<close>

datatype rc_setup = Set_semget | Set_semctl | Set_sem_open | Set_open | Set_mmap | Set_fork

fun rc_first_failure :: "(rc_setup \<Rightarrow> bool) \<Rightarrow> (rc_setup \<times> string) list \<Rightarrow> string option" where
  "rc_first_failure works [] = None"
| "rc_first_failure works ((c, msg) # cs) =
     (if works c then rc_first_failure works cs else Some msg)"

definition rc_main :: "(rc_setup \<Rightarrow> bool) \<Rightarrow> (rc_setup \<times> string) list \<Rightarrow> 'l \<Rightarrow> string list \<Rightarrow>
    exit_info + 'l rc_state" where
  "rc_main works calls l argv =
     (case rc_first_failure works calls of
        Some msg \<Rightarrow> Inl (Exit 1 msg)
      | None \<Rightarrow> Inr (rc_init l (length argv \<noteq> 1)))"

lemma rc_main_Inr: "rc_main works calls l argv = Inr s \<Longrightarrow> s = rc_init l (length argv \<noteq> 1)"
  by (simp add: rc_main_def split: option.splits)

section \<open>\<open>race/race.c\<close>\<close>

text \<open>There is no lock: the calls around the body are empty.\<close>

fun ra_next :: "rc_who \<Rightarrow> rc_pc \<Rightarrow> rc_pc" where
  "ra_next Parent R_left = R_wait"
| "ra_next Child R_left = R_cleanup 0"
| "ra_next w R_wait = R_cleanup 0"
| "ra_next w (R_cleanup c) = R_stats 0"
| "ra_next w (R_stats c) = R_exit 0"
| "ra_next w pc = R_abort"

fun ra_eintr :: "rc_pc \<Rightarrow> rc_pc" where
  "ra_eintr pc = R_cleanup 0"

definition ra_ops :: "unit rc_ops" where
  "ra_ops = \<lparr>op_lock = (\<lambda>w l. Returns l), op_unlock = (\<lambda>w l. Returns l), op_cleanup = (\<lambda>w l. l),
     op_next = ra_next, op_eintr = ra_eintr, op_failed = R_abort\<rparr>"

text \<open>The loops of both processes and the end of \<open>main()\<close>.\<close>

definition ra_step :: "rc_event \<Rightarrow> unit rc_state \<Rightarrow> unit rc_state option" where
  "ra_step = rc_step ra_ops"

definition ra_main :: "(rc_setup \<Rightarrow> bool) \<Rightarrow> string list \<Rightarrow> exit_info + unit rc_state" where
  "ra_main works argv =
     rc_main works [(Set_open, ''open''), (Set_mmap, ''mmap''), (Set_fork, ''fork'')] () argv"

section \<open>\<open>race/sem-fixed-race.c\<close>\<close>

text \<open>The value of the System V semaphore, or \<^term>\<open>None\<close> once \<open>cleanup()\<close> has removed it.\<close>

datatype sf_dir = UP | DOWN

fun sf_up_down :: "sf_dir \<Rightarrow> rc_who \<Rightarrow> int option \<Rightarrow> int option rc_call" where
  "sf_up_down dir w None = Fails"
| "sf_up_down UP w (Some n) = (if n < 32767 then Returns (Some (n + 1)) else Fails)"
| "sf_up_down DOWN w (Some n) = (if 1 \<le> n then Returns (Some (n - 1)) else Blocks)"

definition sf_cleanup :: "rc_who \<Rightarrow> int option \<Rightarrow> int option" where
  "sf_cleanup w l = (if w = Parent then None else l)"

fun sf_next :: "rc_who \<Rightarrow> rc_pc \<Rightarrow> rc_pc" where
  "sf_next Parent R_left = R_wait"
| "sf_next Child R_left = R_stats 0"
| "sf_next w R_wait = R_stats 0"
| "sf_next w (R_stats c) = R_cleanup c"
| "sf_next w (R_cleanup c) = R_exit c"
| "sf_next w pc = R_abort"

fun sf_eintr :: "rc_pc \<Rightarrow> rc_pc" where
  "sf_eintr R_lock = R_stats 1"
| "sf_eintr pc = R_stats 0"

definition sf_ops :: "int option rc_ops" where
  "sf_ops = \<lparr>op_lock = sf_up_down DOWN, op_unlock = sf_up_down UP, op_cleanup = sf_cleanup,
     op_next = sf_next, op_eintr = sf_eintr, op_failed = R_cleanup 1\<rparr>"

text \<open>Each loop with the semaphore around its body.\<close>

definition sf_step :: "rc_event \<Rightarrow> int option rc_state \<Rightarrow> int option rc_state option" where
  "sf_step = rc_step sf_ops"

definition sf_main :: "(rc_setup \<Rightarrow> bool) \<Rightarrow> string list \<Rightarrow> exit_info + int option rc_state" where
  "sf_main works argv =
     rc_main works [(Set_semget, ''semget''), (Set_semctl, ''semctl''), (Set_open, ''open''),
       (Set_mmap, ''mmap''), (Set_fork, ''fork'')] (Some 1) argv"

definition sf_ok :: "rc_who set \<Rightarrow> int option \<Rightarrow> bool" where
  "sf_ok H l \<longleftrightarrow> (\<forall>n. l = Some n \<longrightarrow> n + int (card H) = 1)"

lemma rc_who_UNIV: "(UNIV :: rc_who set) = {Parent, Child}"
  using rc_who.exhaust by auto

instance rc_who :: finite
  by standard (simp add: rc_who_UNIV)

lemma rc_card_remove: "w \<in> H \<Longrightarrow> int (card (H - {w :: rc_who})) = int (card H) - 1"
  by (cases "card H") (auto simp: card_Diff_singleton)

lemma rc_card_le_1: "n + int (card (H :: rc_who set)) = 1 \<Longrightarrow> n < 1 \<or> n = 1 \<and> H = {}"
proof (cases "card H = 0")
  case True
  then show "n + int (card H) = 1 \<Longrightarrow> n < 1 \<or> n = 1 \<and> H = {}" by simp
qed linarith

lemma sf_next_out: "\<not> rc_crit (sf_next w pc)" and sf_next_child: "sf_next Child pc \<noteq> R_wait"
  by (cases pc; cases w; simp)+

interpretation sf: rc_bracket sf_ops "Some 1" sf_ok
proof unfold_locales
  fix H l w l'
  assume ok: "sf_ok H l"
  { assume "w \<notin> H" "op_lock sf_ops w l = Returns l'"
    with ok show "H = {} \<and> sf_ok {w} l'"
      by (cases l) (auto simp: sf_ops_def sf_ok_def dest!: rc_card_le_1 split: if_splits) }
  { assume "op_lock sf_ops w l = Blocks"
    with ok show "H \<noteq> {}" by (cases l) (auto simp: sf_ops_def sf_ok_def split: if_splits) }
  { assume "w \<in> H" "op_unlock sf_ops w l = Returns l'"
    with ok show "sf_ok (H - {w}) l'"
      using rc_card_remove [of w H]
      by (cases l) (auto simp: sf_ops_def sf_ok_def rc_card_remove split: if_splits) }
  { assume "w \<in> H" "op_unlock sf_ops w l = Fails"
    with ok show "sf_ok (H - {w}) l"
      by (cases l) (auto simp: sf_ops_def sf_ok_def split: if_splits) }
  { assume "w \<notin> H"
    with ok show "sf_ok H (op_cleanup sf_ops w l)" by (simp add: sf_ops_def sf_ok_def sf_cleanup_def) }
next
  fix w l
  show "op_unlock sf_ops w l \<noteq> Blocks" by (cases l) (simp_all add: sf_ops_def)
next
  fix pc
  show "\<not> rc_crit (op_eintr sf_ops pc)" and "op_eintr sf_ops pc \<noteq> R_wait"
    by (cases pc; simp add: sf_ops_def)+
qed (simp_all add: sf_ok_def sf_ops_def sf_next_out sf_next_child)

section \<open>\<open>race/fcntl-fixed-race.c\<close>\<close>

text \<open>
  The state of the record lock on the two bytes is the process that owns it. \<open>lock_unlock()\<close> with
  a first argument other than 1 and -1 exits; \<open>LOCK\<close> and \<open>UNLOCK\<close> pass -1 and 1.
\<close>

definition ff_lock_unlock :: "int \<Rightarrow> rc_who \<Rightarrow> rc_who option \<Rightarrow> rc_who option rc_call" where
  "ff_lock_unlock n w l =
     (if n = 1 then Returns (if l = Some w then None else l)
      else if n = - 1 then (if l = None \<or> l = Some w then Returns (Some w) else Blocks)
      else Fails)"

text \<open>\<open>close(fd)\<close> drops the lock of the process.\<close>

definition ff_cleanup :: "rc_who \<Rightarrow> rc_who option \<Rightarrow> rc_who option" where
  "ff_cleanup w l = (if l = Some w then None else l)"

fun ff_next :: "rc_who \<Rightarrow> rc_pc \<Rightarrow> rc_pc" where
  "ff_next Parent R_left = R_wait"
| "ff_next Child R_left = R_cleanup 0"
| "ff_next w R_wait = R_cleanup 0"
| "ff_next w (R_cleanup c) = R_stats c"
| "ff_next w (R_stats c) = R_exit c"
| "ff_next w pc = R_abort"

fun ff_eintr :: "rc_pc \<Rightarrow> rc_pc" where
  "ff_eintr R_lock = R_stats 1"
| "ff_eintr pc = R_cleanup 0"

definition ff_ops :: "rc_who option rc_ops" where
  "ff_ops = \<lparr>op_lock = ff_lock_unlock (- 1), op_unlock = ff_lock_unlock 1, op_cleanup = ff_cleanup,
     op_next = ff_next, op_eintr = ff_eintr, op_failed = R_exit 1\<rparr>"

text \<open>Each loop with the record lock around its body.\<close>

definition ff_step :: "rc_event \<Rightarrow> rc_who option rc_state \<Rightarrow> rc_who option rc_state option" where
  "ff_step = rc_step ff_ops"

definition ff_main :: "(rc_setup \<Rightarrow> bool) \<Rightarrow> string list \<Rightarrow> exit_info + rc_who option rc_state" where
  "ff_main works argv =
     rc_main works [(Set_open, ''test.dat create''), (Set_mmap, ''mmap''), (Set_fork, ''fork'')]
       None argv"

definition ff_ok :: "rc_who set \<Rightarrow> rc_who option \<Rightarrow> bool" where
  "ff_ok H l \<longleftrightarrow> H = set_option l"

lemma ff_next_out: "\<not> rc_crit (ff_next w pc)" and ff_next_child: "ff_next Child pc \<noteq> R_wait"
  by (cases pc; cases w; simp)+

lemma ff_eintr_out: "\<not> rc_crit (ff_eintr pc) \<and> ff_eintr pc \<noteq> R_wait"
  by (cases pc) simp_all

interpretation ff: rc_bracket ff_ops None ff_ok
  by unfold_locales
    (auto simp: ff_ok_def ff_ops_def ff_lock_unlock_def ff_cleanup_def ff_next_out ff_next_child ff_eintr_out
      split: if_splits)

section \<open>\<open>race/posix-sem-fixed-race.c\<close>\<close>

text \<open>
  The results of \<open>sem_wait\<close> and \<open>sem_post\<close> are ignored: a \<open>sem_wait\<close> that a signal interrupts
  goes on into the critical section, and a \<open>sem_post\<close> that would overflow changes nothing. An
  interrupted \<open>waitpid\<close> returns -1, which the assertion on line 138 does not accept.
\<close>

definition ps_sem_wait :: "rc_who \<Rightarrow> int \<Rightarrow> int rc_call" where
  "ps_sem_wait w n = (if 0 < n then Returns (n - 1) else Blocks)"

definition ps_sem_post :: "rc_who \<Rightarrow> int \<Rightarrow> int rc_call" where
  "ps_sem_post w n = Returns (if n < INT_MAX then n + 1 else n)"

fun ps_next :: "rc_who \<Rightarrow> rc_pc \<Rightarrow> rc_pc" where
  "ps_next Parent R_left = R_wait"
| "ps_next Child R_left = R_stats 0"
| "ps_next w R_wait = R_stats 0"
| "ps_next w (R_stats c) = R_cleanup c"
| "ps_next w (R_cleanup c) = R_exit c"
| "ps_next w pc = R_abort"

fun ps_eintr :: "rc_pc \<Rightarrow> rc_pc" where
  "ps_eintr R_lock = R_load"
| "ps_eintr pc = R_abort"

text \<open>The semaphore stays usable after \<open>sem_close\<close> and \<open>sem_unlink\<close>: the other process has it open.\<close>

definition ps_ops :: "int rc_ops" where
  "ps_ops = \<lparr>op_lock = ps_sem_wait, op_unlock = ps_sem_post, op_cleanup = (\<lambda>w n. n),
     op_next = ps_next, op_eintr = ps_eintr, op_failed = R_load\<rparr>"

text \<open>Each loop with the POSIX semaphore around its body.\<close>

definition ps_step :: "rc_event \<Rightarrow> int rc_state \<Rightarrow> int rc_state option" where
  "ps_step = rc_step ps_ops"

text \<open>\<open>sem_open(SEM_NAME, O_CREAT, S_IRWXU, 1)\<close>: a semaphore left over keeps its value.\<close>

definition ps_main :: "(rc_setup \<Rightarrow> bool) \<Rightarrow> int option \<Rightarrow> string list \<Rightarrow> exit_info + int rc_state" where
  "ps_main works old argv =
     rc_main works [(Set_sem_open, ''sem_open''), (Set_open, ''open''), (Set_mmap, ''mmap''),
       (Set_fork, ''fork'')] (case old of None \<Rightarrow> 1 | Some n \<Rightarrow> n) argv"

text \<open>The same operations with interrupted calls leaving the loop, for runs without interrupts.\<close>

definition ps_calm :: "int rc_ops" where
  "ps_calm = ps_ops\<lparr>op_eintr := (\<lambda>pc. R_abort), op_failed := R_abort\<rparr>"

definition ps_ok :: "rc_who set \<Rightarrow> int \<Rightarrow> bool" where
  "ps_ok H n \<longleftrightarrow> n + int (card H) = 1"

lemma ps_next_out: "\<not> rc_crit (ps_next w pc)" and ps_next_child: "ps_next Child pc \<noteq> R_wait"
  by (cases pc; cases w; simp)+

interpretation ps: rc_bracket ps_calm 1 ps_ok
proof unfold_locales
  fix H n w n'
  assume ok: "ps_ok H n" and "w \<notin> H" "op_lock ps_calm w n = Returns n'"
  then show "H = {} \<and> ps_ok {w} n'"
    by (auto simp: ps_ok_def ps_calm_def ps_ops_def ps_sem_wait_def dest!: rc_card_le_1 split: if_splits)
next
  fix H n w n'
  assume ok: "ps_ok H n" and "w \<in> H" "op_unlock ps_calm w n = Returns n'"
  then show "ps_ok (H - {w}) n'"
    using rc_card_remove [of w H]
    by (auto simp: ps_ok_def ps_calm_def ps_ops_def ps_sem_post_def rc_card_remove split: if_splits)
qed (auto simp: ps_ok_def ps_calm_def ps_ops_def ps_sem_wait_def ps_sem_post_def ps_next_out ps_next_child
    split: if_splits)

lemma ps_calm_step: "(\<forall>w. e \<noteq> Eintr w) \<Longrightarrow> rc_step ps_ops e s = rc_step ps_calm e s"
proof -
  have "rc_stmt ps_ops w pc s = rc_stmt ps_calm w pc s" for w pc
    by (cases pc) (auto simp: ps_calm_def ps_ops_def ps_sem_wait_def ps_sem_post_def)
  then show "(\<forall>w. e \<noteq> Eintr w) \<Longrightarrow> rc_step ps_ops e s = rc_step ps_calm e s"
    by (cases e) (simp_all add: rc_step_def)
qed

lemma ps_calm_exec:
  "(\<forall>w. Eintr w \<notin> set es) \<Longrightarrow> exec (rc_step ps_ops) es s = exec (rc_step ps_calm) es s"
proof (induction es arbitrary: s)
  case (Cons e es)
  then have "\<forall>w. e \<noteq> Eintr w" and "\<forall>w. Eintr w \<notin> set es" by auto
  with Cons.IH show ?case by (auto simp: ps_calm_step split: option.split)
qed simp

section \<open>\<open>mutexes/race.c\<close> and \<open>mutexes/race-fixed.c\<close>\<close>

text \<open>The thread created with argument 0 and the one created with argument 1.\<close>

datatype mt_thread = T0 | T1

datatype mt_pc = T_lock | T_load | T_cmp | T_write | T_a | T_b | T_unlock

record mt_state =
  mt_a :: int
  mt_b :: int
  mt_mutex :: "mt_thread option"
  mt_pcs :: "mt_thread \<Rightarrow> mt_pc"
  mt_seen :: "mt_thread \<Rightarrow> int"
  mt_out :: string

definition mt_data :: "mt_thread \<Rightarrow> int" where
  "mt_data t = (if t = T0 then 0 else 1)"

definition mt_char :: "mt_thread \<Rightarrow> char" where
  "mt_char t = (if mt_data t = 0 then CHR ''|'' else CHR ''_'')"

definition mt_goto :: "mt_thread \<Rightarrow> mt_pc \<Rightarrow> mt_state \<Rightarrow> mt_state" where
  "mt_goto t pc s = s\<lparr>mt_pcs := (mt_pcs s)(t := pc)\<rparr>"

text \<open>The loop of \<open>mutexes/race.c\<close>: no mutex, so \<open>T_lock\<close> and \<open>T_unlock\<close> are not used.\<close>

fun mu_stmt :: "mt_thread \<Rightarrow> mt_pc \<Rightarrow> mt_state \<Rightarrow> mt_state option" where
  "mu_stmt t T_load s = Some (mt_goto t T_cmp (s\<lparr>mt_seen := (mt_seen s)(t := mt_a s)\<rparr>))"
| "mu_stmt t T_cmp s = Some (mt_goto t (if mt_seen s t \<noteq> mt_b s then T_write else T_a) s)"
| "mu_stmt t T_write s = Some (mt_goto t T_a (s\<lparr>mt_out := mt_out s @ [mt_char t]\<rparr>))"
| "mu_stmt t T_a s = Some (mt_goto t T_b (s\<lparr>mt_a := mt_data t\<rparr>))"
| "mu_stmt t T_b s = Some (mt_goto t T_load (s\<lparr>mt_b := mt_data t\<rparr>))"
| "mu_stmt t _ s = None"

text \<open>The loop of \<open>mutexes/race-fixed.c\<close>.\<close>

fun mf_stmt :: "mt_thread \<Rightarrow> mt_pc \<Rightarrow> mt_state \<Rightarrow> mt_state option" where
  "mf_stmt t T_lock s =
     (if mt_mutex s = None then Some (mt_goto t T_load (s\<lparr>mt_mutex := Some t\<rparr>)) else None)"
| "mf_stmt t T_load s = Some (mt_goto t T_cmp (s\<lparr>mt_seen := (mt_seen s)(t := mt_a s)\<rparr>))"
| "mf_stmt t T_cmp s = Some (mt_goto t (if mt_seen s t \<noteq> mt_b s then T_write else T_a) s)"
| "mf_stmt t T_write s = Some (mt_goto t T_a (s\<lparr>mt_out := mt_out s @ [mt_char t]\<rparr>))"
| "mf_stmt t T_a s = Some (mt_goto t T_b (s\<lparr>mt_a := mt_data t\<rparr>))"
| "mf_stmt t T_b s = Some (mt_goto t T_unlock (s\<lparr>mt_b := mt_data t\<rparr>))"
| "mf_stmt t T_unlock s = Some (mt_goto t T_lock (s\<lparr>mt_mutex := None\<rparr>))"

definition mu_step :: "mt_thread \<Rightarrow> mt_state \<Rightarrow> mt_state option" where
  "mu_step t s = mu_stmt t (mt_pcs s t) s"

definition mf_step :: "mt_thread \<Rightarrow> mt_state \<Rightarrow> mt_state option" where
  "mf_step t s = mf_stmt t (mt_pcs s t) s"

definition mt_init :: "mt_pc \<Rightarrow> mt_state" where
  "mt_init pc =
     \<lparr>mt_a = 0, mt_b = 0, mt_mutex = None, mt_pcs = (\<lambda>_. pc), mt_seen = (\<lambda>_. 0), mt_out = []\<rparr>"

definition mu_main :: mt_state where "mu_main = mt_init T_load"
definition mf_main :: mt_state where "mf_main = mt_init T_lock"

fun mf_local :: "mt_thread \<Rightarrow> mt_pc \<Rightarrow> mt_state \<Rightarrow> bool" where
  "mf_local t T_lock s = True"
| "mf_local t T_cmp s = (mt_a s = mt_b s \<and> mt_seen s t = mt_a s)"
| "mf_local t T_write s = False"
| "mf_local t T_b s = (mt_a s = mt_data t)"
| "mf_local t _ s = (mt_a s = mt_b s)"

definition mf_inv :: "mt_state \<Rightarrow> bool" where
  "mf_inv s \<longleftrightarrow>
     (\<forall>t. mt_pcs s t \<noteq> T_lock \<longleftrightarrow> mt_mutex s = Some t) \<and> (\<forall>t. mf_local t (mt_pcs s t) s)
     \<and> (mt_mutex s = None \<longrightarrow> mt_a s = mt_b s) \<and> mt_out s = []"

lemma mf_inv_step:
  assumes inv: "mf_inv s" and st: "mf_step t s = Some u"
  shows "mf_inv u"
proof -
  have other: "mt_pcs s v = T_lock" if "mt_mutex s = Some t" "v \<noteq> t" for v
    using inv that by (auto simp: mf_inv_def)
  from st have st': "mf_stmt t (mt_pcs s t) s = Some u" by (simp add: mf_step_def)
  have loc: "mf_local t (mt_pcs s t) s" using inv by (simp add: mf_inv_def)
  show ?thesis
  proof (cases "mt_mutex s = Some t")
    case True
    have o: "\<forall>v. v \<noteq> t \<longrightarrow> mt_pcs s v = T_lock" using other True by blast
    have out: "mt_out s = []" using inv by (simp add: mf_inv_def)
    have pc: "mt_pcs s t \<noteq> T_lock" using inv True by (auto simp: mf_inv_def)
    have new: "mf_inv u" if "mt_out u = []" "mt_mutex u = Some t" "mf_local t (mt_pcs u t) u"
        "mt_pcs u t \<noteq> T_lock" "\<forall>v. v \<noteq> t \<longrightarrow> mt_pcs u v = T_lock" for u
      using that by (auto simp: mf_inv_def)
    show ?thesis
    proof (cases "mt_pcs s t = T_unlock")
      case unlock: True
      with st' loc o out show ?thesis by (auto simp: mf_inv_def mt_goto_def split: if_splits)
    next
      case False
      with pc st' [symmetric] loc o out True show ?thesis
        by (cases "mt_pcs s t") (auto intro!: new simp: mt_goto_def)
    qed
  next
    case False
    with inv have pc: "mt_pcs s t = T_lock" by (auto simp: mf_inv_def)
    with st' have none: "mt_mutex s = None" and u: "u = mt_goto t T_load (s\<lparr>mt_mutex := Some t\<rparr>)"
      by (auto split: if_splits)
    with inv have "\<forall>v. mt_pcs s v = T_lock" by (auto simp: mf_inv_def)
    with inv none show ?thesis unfolding u by (auto simp: mf_inv_def mt_goto_def)
  qed
qed

interpretation mf: step_invariant mf_step mf_main mf_inv
proof unfold_locales
  show "mf_inv mf_main" by (simp add: mf_inv_def mf_main_def mt_init_def)
qed (rule mf_inv_step)

text \<open>One thread is caught between the two assignments of the other, then both start over.\<close>

lemma mu_print_once:
  assumes "mt_a s = 0" "mt_b s = 0" "mt_pcs s = (\<lambda>_. T_load)"
  shows "\<exists>es. runs mu_step es s (\<lambda>u. mt_a u = 0 \<and> mt_b u = 0 \<and> mt_pcs u = (\<lambda>_. T_load)
    \<and> mt_out u = mt_out s @ [mt_char t])"
proof (cases t)
  case T0
  show ?thesis unfolding T0
    by (rule exI [of _ "[T1, T1, T1, T0, T0, T1, T0, T0, T0]"])
      (simp add: assms mu_step_def mt_goto_def mt_data_def fun_eq_iff)
next
  case T1
  show ?thesis unfolding T1
    by (rule exI [of _ "[T1, T1, T1, T1, T0, T0, T0, T1, T1, T0, T1, T1, T1, T0, T0, T0, T0]"])
      (simp add: assms mu_step_def mt_goto_def mt_data_def fun_eq_iff)
qed

lemma mu_print_all:
  "set out \<subseteq> {mt_char T0, mt_char T1} \<Longrightarrow> \<exists>u. reach mu_step mu_main u \<and> mt_out u = out
     \<and> mt_a u = 0 \<and> mt_b u = 0 \<and> mt_pcs u = (\<lambda>_. T_load)"
proof (induction out rule: rev_induct)
  case Nil
  show ?case by (rule exI [of _ mu_main]) (simp add: reach_init mu_main_def mt_init_def)
next
  case (snoc c out)
  then obtain u where u: "reach mu_step mu_main u" "mt_out u = out" "mt_a u = 0" "mt_b u = 0"
    "mt_pcs u = (\<lambda>_. T_load)" by auto
  from snoc.prems obtain t where t: "c = mt_char t" by auto
  obtain es where es: "runs mu_step es u (\<lambda>v. mt_a v = 0 \<and> mt_b v = 0 \<and> mt_pcs v = (\<lambda>_. T_load)
    \<and> mt_out v = mt_out u @ [mt_char t])"
    using mu_print_once [of u t] u by auto
  from reach_runs [OF u(1) es] u(2) show ?case unfolding t by auto
qed

section \<open>Properties\<close>

text \<open>
  C9: \<open>sem-fixed-race.c\<close>: with the System V semaphore around the loop body, in every reachable
  state neither process has seen the bytes differ and every statistics line reports 0, whatever
  signals arrive; and until both processes have exited one of them can move.
\<close>

theorem sf_no_race:
  assumes "sf_main works argv = Inr s0" "reach sf_step s0 s"
  shows "rc_quiet s \<and> (\<not> rc_exited (rc_pcs s w) \<longrightarrow> (\<exists>v t. sf_step (Run v) s = Some t))"
  using assms sf.no_race sf.no_deadlock by (auto simp: sf_main_def sf_step_def dest!: rc_main_Inr)

lemma sf_run:
  "runs sf_step (replicate 10 (Run Child) @ [Run Parent, Run Child, Run Child, Eintr Parent,
       Run Parent, Run Parent] @ replicate 4 (Run Child)) (rc_init (Some 1) False)
     (\<lambda>s. rc_printed s = [(Parent, 0, 0)] \<and> rc_lock s = None \<and> rc_pcs s Child = R_exit 1)"
  by code_simp

theorem sf_no_race_witness:
  "\<exists>s. reach sf_step (rc_init (Some 1) False) s \<and> rc_lock s = None \<and> rc_quiet s"
  using runs_reach [OF sf_run] sf_no_race [of "\<lambda>_. True" "[''a'']" "rc_init (Some 1) False"]
  by (auto simp: sf_main_def rc_main_def)

text \<open>
  \<open>fcntl-fixed-race.c\<close>: the same of the version with a record lock.
\<close>

theorem ff_no_race:
  assumes "ff_main works argv = Inr s0" "reach ff_step s0 s"
  shows "rc_quiet s \<and> (\<not> rc_exited (rc_pcs s w) \<longrightarrow> (\<exists>v t. ff_step (Run v) s = Some t))"
  using assms ff.no_race ff.no_deadlock by (auto simp: ff_main_def ff_step_def dest!: rc_main_Inr)

lemma ff_run:
  "runs ff_step (replicate 2 (Run Child) @ [Run Parent, Eintr Parent, Run Parent] @
       replicate 4 (Run Child)) (rc_init None False)
     (\<lambda>s. rc_printed s = [(Parent, 0, 0)] \<and> rc_pcs s Parent = R_exit 1 \<and> rc_addr1 s = 2)"
  by code_simp

theorem ff_no_race_witness:
  "\<exists>s. reach ff_step (rc_init None False) s \<and> rc_pcs s Parent = R_exit 1 \<and> rc_quiet s"
  using runs_reach [OF ff_run] ff_no_race [of "\<lambda>_. True" "[''a'']" "rc_init None False"]
  by (auto simp: ff_main_def rc_main_def)

text \<open>
  \<open>race.c\<close>: whatever the arguments, there is a schedule, ended by one \<open>SIGINT\<close> in each
  process, in which the parent reports an inconsistency, both processes exit normally, and where
  debug output is on it shows two equal bytes of a state that was found inconsistent.
\<close>

theorem ra_race:
  assumes "ra_main works argv = Inr s0"
  shows "\<exists>s k. reach ra_step s0 s \<and> (Parent, 1, k) \<in> set (rc_printed s)
    \<and> rc_pcs s Parent = R_exit 0 \<and> rc_pcs s Child = R_exit 0
    \<and> rc_debugged s = (if length argv = 1 then [] else [(Parent, 2, 2)])"
proof -
  let ?es = "\<lambda>dbg. replicate 5 (Run Child) @ replicate 4 (Run Parent) @ [Run Child]
     @ replicate (if dbg then 6 else 5) (Run Parent) @ [Sigint Parent, Run Parent, Run Parent, Run Child,
        Run Child, Sigint Child] @ replicate 4 (Run Child) @ replicate 3 (Run Parent)"
  let ?P = "\<lambda>dbg s. rc_printed s = [(Child, 0, 1), (Parent, 1, 1)] \<and> rc_pcs s Parent = R_exit 0
      \<and> rc_pcs s Child = R_exit 0 \<and> rc_debugged s = (if dbg then [(Parent, 2, 2)] else [])"
  have "runs ra_step (?es True) (rc_init () True) (?P True)"
    and "runs ra_step (?es False) (rc_init () False) (?P False)"
    by code_simp+
  then have "runs ra_step (?es dbg) (rc_init () dbg) (?P dbg)" for dbg
    by (cases dbg) simp_all
  from runs_reach [OF this [of "length argv \<noteq> 1"]] assms show ?thesis
    by (auto simp: ra_main_def dest!: rc_main_Inr)
qed

theorem ra_race_witness:
  "\<exists>s k. reach ra_step (rc_init () False) s \<and> (Parent, 1, k) \<in> set (rc_printed s)"
  using ra_race [of "\<lambda>_. True" "[''a'']" "rc_init () False"] by (auto simp: ra_main_def rc_main_def)

text \<open>
  \<open>posix-sem-fixed-race.c\<close>, when no semaphore of that name was left over: as long as no
  signal interrupts a blocked call the bytes are never seen apart; but as the result of
  \<open>sem_wait\<close> is ignored, a \<open>SIGINT\<close> that interrupts it lets the process into the critical section
  while the other one is inside, and the statistics then report an inconsistency.
\<close>

theorem ps_race_by_signal:
  assumes "ps_main works None argv = Inr s0"
  shows "((\<forall>w. Eintr w \<notin> set es) \<longrightarrow> exec ps_step es s0 = Some s \<longrightarrow> rc_quiet s)
    \<and> (\<exists>t k. reach ps_step s0 t \<and> (Parent, 1, k) \<in> set (rc_printed t)
        \<and> rc_pcs t Parent = R_exit 0 \<and> rc_pcs t Child = R_exit 0)"
proof (intro conjI impI)
  assume "\<forall>w. Eintr w \<notin> set es" "exec ps_step es s0 = Some s"
  then show "rc_quiet s"
    using assms ps.no_race by (auto simp: ps_main_def ps_step_def ps_calm_exec dest!: rc_main_Inr exec_reach)
next
  let ?es = "\<lambda>dbg. replicate 5 (Run Child) @ [Run Parent, Eintr Parent]
     @ replicate (if dbg then 10 else 9) (Run Parent) @ replicate 3 (Run Child) @ [Sigint Child]
     @ replicate 4 (Run Child) @ replicate 3 (Run Parent)"
  let ?P = "\<lambda>s. rc_printed s = [(Child, 0, 1), (Parent, 1, 1)] \<and> rc_pcs s Parent = R_exit 0
      \<and> rc_pcs s Child = R_exit 0"
  have "runs ps_step (?es True) (rc_init 1 True) ?P"
    and "runs ps_step (?es False) (rc_init 1 False) ?P"
    by code_simp+
  then have "runs ps_step (?es dbg) (rc_init 1 dbg) ?P" for dbg
    by (cases dbg) simp_all
  from runs_reach [OF this [of "length argv \<noteq> 1"]] assms
  show "\<exists>t k. reach ps_step s0 t \<and> (Parent, 1, k) \<in> set (rc_printed t)
      \<and> rc_pcs t Parent = R_exit 0 \<and> rc_pcs t Child = R_exit 0"
    by (auto simp: ps_main_def dest!: rc_main_Inr)
qed

theorem ps_race_by_signal_witness:
  "(\<exists>s. exec ps_step [Run Child, Sigint Parent] (rc_init 1 True) = Some s \<and> rc_quiet s)
   \<and> (\<exists>t k. reach ps_step (rc_init 1 True) t \<and> (Parent, 1, k) \<in> set (rc_printed t))"
proof -
  obtain s where "exec ps_step [Run Child, Sigint Parent] (rc_init 1 True) = Some s"
    by (simp add: ps_step_def rc_step_def rc_init_def rc_goto_def)
  with ps_race_by_signal [of "\<lambda>_. True" "[''a'', ''b'']" "rc_init 1 True" "[Run Child, Sigint Parent]"]
  show ?thesis by (fastforce simp: ps_main_def rc_main_def)
qed

text \<open>
  The two threads of \<open>mutexes/race-fixed.c\<close> never print anything; those of
  \<open>mutexes/race.c\<close> can print any string of the two characters.
\<close>

theorem mt_race_and_fix:
  "(reach mf_step mf_main s \<longrightarrow> mt_out s = [])
   \<and> (set out \<subseteq> {CHR ''|'', CHR ''_''} \<longrightarrow> (\<exists>u. reach mu_step mu_main u \<and> mt_out u = out))"
  using mf.reach_inv [of s] mu_print_all [of out] by (auto simp: mf_inv_def mt_char_def mt_data_def)

theorem mt_race_and_fix_witness:
  "(\<exists>s. reach mf_step mf_main s \<and> mt_mutex s = Some T1 \<and> mt_out s = [])
   \<and> (\<exists>u. reach mu_step mu_main u \<and> mt_out u = ''_|_'')"
proof -
  have "runs mf_step [T1] mf_main (\<lambda>s. mt_mutex s = Some T1)" by code_simp
  from runs_reach [OF this] mt_race_and_fix [of _ "''_|_''"] show ?thesis by auto
qed

end
