(* ===== verification/Getopt.thy ===== *)
theory Getopt
  imports Prelude
begin

text \<open>
  Command line options: the POSIX \<open>getopt(3)\<close> that nine of the programs call, and
  \<open>getopt/getopt.c\<close>, which does nothing else. Options stop at the first other argument, as
  POSIX has it.
\<close>

section \<open>The library function\<close>

text \<open>
  What successive calls return: a known option with its argument, an unknown option, or a known
  one whose argument is missing.
\<close>

datatype optval = Opt char "string option" | Bad_opt char | Missing_arg char

text \<open>The option string, without its leading \<open>:\<close>, as the list of letters with their \<open>:\<close> flag.\<close>

fun optspec :: "string \<Rightarrow> (char \<times> bool) list" where
  "optspec [] = []"
| "optspec [c] = [(c, False)]"
| "optspec (c # d # cs) = (if d = CHR '':'' then (c, True) # optspec cs else (c, False) # optspec (d # cs))"

fun getopt_cluster :: "(char \<times> bool) list \<Rightarrow> string \<Rightarrow> string list \<Rightarrow> optval list \<times> string list" where
  "getopt_cluster spec [] rest = ([], rest)"
| "getopt_cluster spec (c # cs) rest =
     (case map_of spec c of
        None \<Rightarrow> (case getopt_cluster spec cs rest of (os, r) \<Rightarrow> (Bad_opt c # os, r))
      | Some False \<Rightarrow> (case getopt_cluster spec cs rest of (os, r) \<Rightarrow> (Opt c None # os, r))
      | Some True \<Rightarrow>
          if cs \<noteq> [] then ([Opt c (Some cs)], rest)
          else (case rest of [] \<Rightarrow> ([Missing_arg c], []) | a # r \<Rightarrow> ([Opt c (Some a)], r)))"

lemma getopt_cluster_rest: "length (snd (getopt_cluster spec cs rest)) \<le> length rest"
  by (induction cs) (auto split: option.splits bool.splits list.splits prod.splits)

function getopt_scan :: "(char \<times> bool) list \<Rightarrow> string list \<Rightarrow> optval list \<times> string list" where
  "getopt_scan spec args =
     (case args of
        [] \<Rightarrow> ([], [])
      | a # rest \<Rightarrow>
          if a = ''--'' then ([], rest)
          else if 2 \<le> length a \<and> hd a = CHR ''-''
          then let c = getopt_cluster spec (tl a) rest; s = getopt_scan spec (snd c)
               in (fst c @ fst s, snd s)
          else ([], args))"
  by pat_completeness auto
termination
  by (relation "measure (\<lambda>(spec, args). length args)")
    (auto intro: le_less_trans [OF getopt_cluster_rest])

declare getopt_scan.simps [simp del]

text \<open>Writing options down again: each with its argument attached to it or in the next word.\<close>

fun opt_words :: "optval \<times> bool \<Rightarrow> string list" where
  "opt_words (Opt c None, att) = [[CHR ''-'', c]]"
| "opt_words (Opt c (Some v), att) = (if att then [CHR ''-'' # c # v] else [[CHR ''-'', c], v])"
| "opt_words (_, att) = []"

fun opt_fits :: "(char \<times> bool) list \<Rightarrow> optval \<times> bool \<Rightarrow> bool" where
  "opt_fits spec (Opt c None, att) \<longleftrightarrow> c \<noteq> CHR ''-'' \<and> map_of spec c = Some False"
| "opt_fits spec (Opt c (Some v), att) \<longleftrightarrow> c \<noteq> CHR ''-'' \<and> map_of spec c = Some True \<and> (att \<longrightarrow> v \<noteq> [])"
| "opt_fits spec (_, att) \<longleftrightarrow> False"

lemma getopt_scan_Opt:
  assumes "opt_fits spec (o1, att)"
  shows "getopt_scan spec (opt_words (o1, att) @ rest) =
    (o1 # fst (getopt_scan spec rest), snd (getopt_scan spec rest))"
proof (cases o1)
  case (Opt c v)
  with assms show ?thesis
    by (cases v; subst getopt_scan.simps) (auto simp: Let_def)
qed (use assms in auto)

lemma getopt_scan_stop: "getopt_scan spec (''--'' # files) = ([], files)"
  by (subst getopt_scan.simps) simp

lemma getopt_scan_words:
  assumes "\<forall>x \<in> set opts. opt_fits spec x"
  shows "getopt_scan spec (concat (map opt_words opts) @ ''--'' # files) = (map fst opts, files)"
  using assms
  by (induction opts) (auto simp: getopt_scan_stop getopt_scan_Opt [simplified])

lemma getopt_scan_length: "length (snd (getopt_scan spec args)) \<le> length args"
proof (induction spec args rule: getopt_scan.induct)
  case (1 spec args)
  show ?case
  proof (cases args)
    case (Cons a rest)
    with 1 getopt_cluster_rest [of spec "tl a" rest] show ?thesis
      by (subst getopt_scan.simps) (fastforce simp: Let_def intro: le_trans)
  qed (simp add: getopt_scan.simps)
qed

text \<open>The index of the first argument that is not an option, with \<open>argv[0]\<close> counted.\<close>

definition getopt_optind :: "(char \<times> bool) list \<Rightarrow> string list \<Rightarrow> nat" where
  "getopt_optind spec args = Suc (length args) - length (snd (getopt_scan spec args))"

section \<open>\<open>getopt/getopt.c\<close>\<close>

text \<open>\<open>basename(3)\<close>.\<close>

definition strip_slashes :: "string \<Rightarrow> string" where
  "strip_slashes s = rev (dropWhile (\<lambda>c. c = CHR ''/'') (rev s))"

definition c_basename :: "string \<Rightarrow> string" where
  "c_basename s =
     (if s = [] then ''.'' else if strip_slashes s = [] then ''/'' else slash_tail [] (strip_slashes s))"

definition go_usage :: "string \<Rightarrow> string" where
  "go_usage argv0 =
     errx_line argv0 (''usage: '' @ c_basename argv0
       @ '' <command> [-c code] <filename> [<filename> [...]]'')"

text \<open>
  The loop over the options: the value of \<open>code\<close>, or the message and usage line it stops with.
\<close>

fun go_options :: "string \<Rightarrow> string option \<Rightarrow> optval list \<Rightarrow> string + string option" where
  "go_options argv0 code [] = Inr code"
| "go_options argv0 code (Opt c v # os) =
     (if c = CHR ''c'' then go_options argv0 v os else go_options argv0 code os)"
| "go_options argv0 code (Missing_arg c # os) =
     Inl (''missing value for -'' @ [c] @ nl @ go_usage argv0)"
| "go_options argv0 code (Bad_opt c # os) = Inl (''unknown option -'' @ [c] @ nl @ go_usage argv0)"

definition go_files :: "string list \<Rightarrow> string" where
  "go_files files = concat (map (\<lambda>f. '' '' @ [CHR 0x27] @ f @ [CHR 0x27]) files)"

definition go_main :: "string list \<Rightarrow> outcome" where
  "go_main argv =
     (if length argv < 2 then \<lparr>oc_out = [], oc_err = go_usage (hd argv), oc_status = 1\<rparr>
      else
        let first = ''first param (command): '' @ argv ! 1 @ nl;
            scan = getopt_scan (optspec ''c:'') (drop 2 argv);
            files = snd scan
        in case go_options (hd argv) None (fst scan) of
             Inl msg \<Rightarrow> \<lparr>oc_out = first, oc_err = msg, oc_status = 1\<rparr>
           | Inr code \<Rightarrow>
               let out = first @ ''...done reading option arguments'' @ nl
                     @ (case code of None \<Rightarrow> []
                        | Some v \<Rightarrow> ''option -c set to '' @ [CHR 0x27] @ v @ [CHR 0x27] @ nl)
               in if files = [] then \<lparr>oc_out = out @ ''no filenames entered'' @ nl, oc_err = [], oc_status = 0\<rparr>
                  else \<lparr>oc_out = out @ ''filenames:'' @ go_files files @ nl, oc_err = [], oc_status = 0\<rparr>)"

definition go_values :: "(string \<times> bool) list \<Rightarrow> (optval \<times> bool) list" where
  "go_values vs = map (\<lambda>(v, att). (Opt (CHR ''c'') (Some v), att)) vs"

lemma go_options_values:
  "go_options argv0 code (map fst (go_values vs)) =
     Inr (if vs = [] then code else Some (fst (last vs)))"
  by (induction vs arbitrary: code) (auto simp: go_values_def)

text \<open>
  Whatever values \<open>-c\<close> is given, each attached to it or in the next word, and whatever file
  names follow \<open>--\<close>, \<open>getopt.c\<close> reports the command, the last of the values and all the files in
  order, and exits with 0.
\<close>

theorem go_reports_arguments:
  assumes "\<forall>(v, att) \<in> set vs. att \<longrightarrow> v \<noteq> []"
  shows "go_main ([prog, cmd] @ concat (map opt_words (go_values vs)) @ ''--'' # files) =
    \<lparr>oc_out = ''first param (command): '' @ cmd @ nl @ ''...done reading option arguments'' @ nl
       @ (if vs = [] then [] else ''option -c set to '' @ [CHR 0x27] @ fst (last vs) @ [CHR 0x27] @ nl)
       @ (if files = [] then ''no filenames entered'' else ''filenames:'' @ go_files files) @ nl,
     oc_err = [], oc_status = 0\<rparr>"
proof -
  have "\<forall>x \<in> set (go_values vs). opt_fits (optspec ''c:'') x"
    using assms by (auto simp: go_values_def)
  from getopt_scan_words [OF this, of files] show ?thesis
    by (simp add: go_main_def go_options_values Let_def numeral_2_eq_2)
qed

theorem go_reports_arguments_witness:
  "go_main [''./a.out'', ''foo'', ''-caaa'', ''-c'', ''bbb'', ''--'', ''bar'', ''har haha''] =
    \<lparr>oc_out = ''first param (command): foo'' @ nl @ ''...done reading option arguments'' @ nl
       @ ''option -c set to '' @ [CHR 0x27] @ ''bbb'' @ [CHR 0x27] @ nl
       @ ''filenames: '' @ [CHR 0x27] @ ''bar'' @ [CHR 0x27] @ '' '' @ [CHR 0x27] @ ''har haha'' @ [CHR 0x27] @ nl,
     oc_err = [], oc_status = 0\<rparr>"
  using go_reports_arguments [of "[(''aaa'', True), (''bbb'', False)]" "''./a.out''" "''foo''"
      "[''bar'', ''har haha'']"]
  by (simp add: go_values_def go_files_def)

end
