(* ===== verification/Atomic_Add.thy ===== *)
theory Atomic_Add
  imports Getopt
begin

text \<open>
  \<open>race/atomic-add.c\<close>: two threads add 1, 2, ... to one 32-bit integer, atomically (\<open>-a\<close>), under
  a mutex (\<open>-m\<close>) or unprotected.
\<close>

section \<open>Arguments\<close>

datatype aa_mode = Atomic | Mutex | Plain

text \<open>\<open>atomic\<close>, \<open>mutex\<close> and whether an option asked for the usage text.\<close>

fun aa_options :: "int \<Rightarrow> int \<Rightarrow> optval list \<Rightarrow> (int \<times> int) option" where
  "aa_options atomic mutex [] = Some (atomic, mutex)"
| "aa_options atomic mutex (Opt c v # os) =
     (if c = CHR ''a'' then aa_options 1 mutex os
      else if c = CHR ''m'' then aa_options atomic 1 os else None)"
| "aa_options atomic mutex (_ # os) = None"

definition aa_usage :: string where
  "aa_usage =
     ''atomic/mutex/race tester'' @ nl @ ''a.out [-a|-m] <num_of_cycles>'' @ nl
     @ [char_of (9 :: nat)] @ ''-a'' @ [char_of (9 :: nat)] @ ''use atomic_add(3c)/C11 stdatomic'' @ nl
     @ [char_of (9 :: nat)] @ ''-m'' @ [char_of (9 :: nat)] @ ''use pthread_mutex(3c)'' @ nl
     @ [char_of (9 :: nat)] @ ''-h'' @ [char_of (9 :: nat)] @ ''this help'' @ nl"

definition aa_args :: "string list \<Rightarrow> outcome + aa_mode \<times> int" where
  "aa_args argv =
     (let scan = getopt_scan (optspec ''ahm'') (tl argv);
          usage = Inl \<lparr>oc_out = [], oc_err = aa_usage, oc_status = 1\<rparr>
      in case aa_options 0 0 (fst scan) of
           None \<Rightarrow> usage
         | Some (atomic, mutex) \<Rightarrow>
             if atomic + mutex = 2 \<or> length (snd scan) \<noteq> 1 then usage
             else Inr (if atomic \<noteq> 0 then Atomic else if mutex \<noteq> 0 then Mutex else Plain,
                       atoi (hd (snd scan))))"

section \<open>The threads\<close>

datatype aa_thread = Thread1 | Thread2

text \<open>
  \<open>A_test\<close> is the loop condition, \<open>A_incr\<close> the step \<open>++i\<close>; \<open>A_load\<close> and \<open>A_store\<close> are the two
  accesses of \<open>x = x + i\<close>.
\<close>

datatype aa_pc = A_test | A_add | A_lock | A_load | A_store | A_unlock | A_incr | A_done

record aa_state =
  aa_x :: "32 word"
  aa_mutex :: "aa_thread option"
  aa_pcs :: "aa_thread \<Rightarrow> aa_pc"
  aa_i :: "aa_thread \<Rightarrow> int"
  aa_tmp :: "aa_thread \<Rightarrow> 32 word"

definition aa_goto :: "aa_thread \<Rightarrow> aa_pc \<Rightarrow> aa_state \<Rightarrow> aa_state" where
  "aa_goto t pc s = s\<lparr>aa_pcs := (aa_pcs s)(t := pc)\<rparr>"

definition aa_body :: "aa_mode \<Rightarrow> aa_pc" where
  "aa_body m = (case m of Atomic \<Rightarrow> A_add | Mutex \<Rightarrow> A_lock | Plain \<Rightarrow> A_load)"

fun aa_count :: "aa_mode \<Rightarrow> int \<Rightarrow> aa_thread \<Rightarrow> aa_pc \<Rightarrow> aa_state \<Rightarrow> aa_state option" where
  "aa_count m n t A_test s = Some (aa_goto t (if aa_i s t < n then aa_body m else A_done) s)"
| "aa_count m n t A_add s =
     Some (aa_goto t A_incr (s\<lparr>aa_x := aa_x s + word_of_int (aa_i s t)\<rparr>))"
| "aa_count m n t A_lock s =
     (if aa_mutex s = None then Some (aa_goto t A_load (s\<lparr>aa_mutex := Some t\<rparr>)) else None)"
| "aa_count m n t A_load s = Some (aa_goto t A_store (s\<lparr>aa_tmp := (aa_tmp s)(t := aa_x s)\<rparr>))"
| "aa_count m n t A_store s =
     Some (aa_goto t (if m = Mutex then A_unlock else A_incr)
       (s\<lparr>aa_x := aa_tmp s t + word_of_int (aa_i s t)\<rparr>))"
| "aa_count m n t A_unlock s = Some (aa_goto t A_incr (s\<lparr>aa_mutex := None\<rparr>))"
| "aa_count m n t A_incr s = Some (aa_goto t A_test (s\<lparr>aa_i := (aa_i s)(t := aa_i s t + 1)\<rparr>))"
| "aa_count m n t A_done s = None"

definition aa_step :: "aa_mode \<Rightarrow> int \<Rightarrow> aa_thread \<Rightarrow> aa_state \<Rightarrow> aa_state option" where
  "aa_step m n t s = aa_count m n t (aa_pcs s t) s"

definition aa_init :: aa_state where
  "aa_init = \<lparr>aa_x = 0, aa_mutex = None, aa_pcs = (\<lambda>_. A_test), aa_i = (\<lambda>_. 1), aa_tmp = (\<lambda>_. 0)\<rparr>"

definition aa_joined :: "aa_state \<Rightarrow> bool" where
  "aa_joined s \<longleftrightarrow> aa_pcs s Thread1 = A_done \<and> aa_pcs s Thread2 = A_done"

section \<open>The check at the end\<close>

text \<open>The loop of \<open>main()\<close> runs over unsigned integers.\<close>

function aa_sum :: "32 word \<Rightarrow> 32 word \<Rightarrow> 32 word \<Rightarrow> 32 word" where
  "aa_sum n1 i x2 = (if i < n1 then aa_sum n1 (i + 1) (x2 + i) else x2)"
  by pat_completeness auto
termination
proof (relation "measure (\<lambda>(n1, i, x2). nat (uint n1 - uint i))")
  fix n1 i x2 :: "32 word"
  assume "i < n1"
  then have le: "uint i < uint n1" by (simp add: word_less_def)
  then have "uint (i + 1) = uint i + 1" using uint_lt2p [of n1] by (simp add: uint_word_ariths)
  with le show "((n1, i + 1, x2 + i), (n1, i, x2)) \<in> measure (\<lambda>(n1, i, x2). nat (uint n1 - uint i))"
    by simp
qed simp

declare aa_sum.simps [simp del]

definition aa_report :: "int \<Rightarrow> 32 word \<Rightarrow> string" where
  "aa_report n x =
     (let x2 = aa_sum (word_of_int n) 1 0 in
      ''n is '' @ show_int n @ ''.'' @ nl
      @ (if x \<noteq> 2 * x2 then ''RACE DETECTED'' @ nl else ''everything OK, no race detected'' @ nl)
      @ ''result is '' @ show_int (uint x) @ nl @ ''expected '' @ show_int (uint (2 * x2)) @ nl)"

definition aa_gauss :: "int \<Rightarrow> int" where
  "aa_gauss n = (\<Sum>k = 0..<n. k)"

lemma aa_gauss_Suc: "0 \<le> n \<Longrightarrow> aa_gauss (n + 1) = aa_gauss n + n"
proof -
  assume "0 \<le> n"
  then have "{0..<n + 1} = insert n {0..<n}" by auto
  then show ?thesis by (simp add: aa_gauss_def)
qed

lemma aa_gauss_0: "n \<le> 1 \<Longrightarrow> aa_gauss n = 0"
proof -
  assume "n \<le> 1"
  then have "n \<le> 0 \<or> n = 1" by auto
  moreover have "{0..<1} = {0 :: int}" by auto
  ultimately show ?thesis by (elim disjE) (simp_all add: aa_gauss_def)
qed

lemma aa_gauss_double: "0 \<le> n \<Longrightarrow> 2 * aa_gauss n = n * (n - 1)"
proof (induction n rule: int_ge_induct)
  case (step n)
  have "aa_gauss (n + 1) = aa_gauss n + n" using step.hyps by (rule aa_gauss_Suc)
  with step.IH show ?case by (simp only:) (simp add: algebra_simps)
qed (simp add: aa_gauss_0)

definition aa_tri :: "int \<Rightarrow> 32 word" where
  "aa_tri n = word_of_int (aa_gauss n)"

lemma aa_tri_Suc: "0 \<le> n \<Longrightarrow> aa_tri (n + 1) = aa_tri n + word_of_int n"
  by (simp add: aa_tri_def aa_gauss_Suc)

lemma aa_tri_0: "n \<le> 1 \<Longrightarrow> aa_tri n = 0"
  by (simp add: aa_tri_def aa_gauss_0)

lemma aa_sum_tri:
  "i \<le> n1 \<Longrightarrow> aa_sum n1 i (aa_tri (uint i)) = aa_tri (uint n1)"
proof (induction n1 i "aa_tri (uint i)" rule: aa_sum.induct)
  case (1 n1 i)
  show ?case
  proof (cases "i < n1")
    case True
    then have le: "uint i < uint n1" by (simp add: word_less_def)
    then have "uint (i + 1) = uint i + 1" using uint_lt2p [of n1] by (simp add: uint_word_ariths)
    then have "aa_tri (uint i) + i = aa_tri (uint (i + 1))" and "i + 1 \<le> n1"
      using aa_tri_Suc [of "uint i"] le by (simp_all add: word_le_def)
    with 1 True show ?thesis by (subst aa_sum.simps) simp
  next
    case False
    with 1 have "i = n1" by simp
    then show ?thesis by (subst aa_sum.simps) simp
  qed
qed

lemma aa_sum_eq: "aa_sum n1 1 0 = aa_tri (uint n1)"
proof (cases "n1 = 0")
  case True
  then show ?thesis by (simp add: aa_sum.simps aa_tri_0)
next
  case False
  then have "0 < n1" by (simp add: word_neq_0_conv)
  then have "1 \<le> n1" by (simp add: word_less_def word_le_def)
  from aa_sum_tri [OF this] show ?thesis by (simp add: aa_tri_0)
qed

text \<open>Twice the sum is a product, so the number printed as expected can be read off.\<close>

lemma aa_expected: "2 * aa_sum (word_of_int n) 1 0 = word_of_int (n * (n - 1))"
proof -
  let ?u = "uint (word_of_int n :: 32 word)"
  have "2 * aa_tri ?u = word_of_int (2 * aa_gauss ?u)" by (simp add: aa_tri_def)
  also have "\<dots> = word_of_int (?u * (?u - 1))" by (simp only: aa_gauss_double uint_ge_0)
  also have "\<dots> = (word_of_int ?u :: 32 word) * (word_of_int ?u - 1)" by simp
  also have "\<dots> = word_of_int n * (word_of_int n - 1)" by (simp only: word_of_int_uint)
  finally show ?thesis by (simp add: aa_sum_eq)
qed

section \<open>Invariant\<close>

text \<open>What a thread has added so far, with the summand it has stored but not yet counted.\<close>

fun aa_stored :: "aa_pc \<Rightarrow> bool" where
  "aa_stored A_unlock = True"
| "aa_stored A_incr = True"
| "aa_stored _ = False"

definition aa_share :: "aa_thread \<Rightarrow> aa_state \<Rightarrow> 32 word" where
  "aa_share t s = aa_tri (if aa_stored (aa_pcs s t) then aa_i s t + 1 else aa_i s t)"

fun aa_held :: "aa_pc \<Rightarrow> bool" where
  "aa_held A_load = True"
| "aa_held A_store = True"
| "aa_held A_unlock = True"
| "aa_held _ = False"

text \<open>The statements a mode does not have, and where a loop body has its counter.\<close>

fun aa_pc_ok :: "aa_mode \<Rightarrow> int \<Rightarrow> aa_pc \<Rightarrow> int \<Rightarrow> bool" where
  "aa_pc_ok m n A_test i \<longleftrightarrow> i \<le> max 1 n"
| "aa_pc_ok m n A_done i \<longleftrightarrow> i = max 1 n"
| "aa_pc_ok m n A_add i \<longleftrightarrow> m = Atomic \<and> i < n"
| "aa_pc_ok m n A_incr i \<longleftrightarrow> i < n"
| "aa_pc_ok m n A_lock i \<longleftrightarrow> m = Mutex \<and> i < n"
| "aa_pc_ok m n A_unlock i \<longleftrightarrow> m = Mutex \<and> i < n"
| "aa_pc_ok m n _ i \<longleftrightarrow> m \<noteq> Atomic \<and> i < n"

definition aa_inv :: "aa_mode \<Rightarrow> int \<Rightarrow> aa_state \<Rightarrow> bool" where
  "aa_inv m n s \<longleftrightarrow>
     (\<forall>t. 1 \<le> aa_i s t \<and> aa_pc_ok m n (aa_pcs s t) (aa_i s t))
     \<and> (m = Mutex \<longrightarrow> (\<forall>t. aa_held (aa_pcs s t) \<longleftrightarrow> aa_mutex s = Some t)
          \<and> (\<forall>t. aa_pcs s t = A_store \<longrightarrow> aa_tmp s t = aa_x s))
     \<and> (m \<noteq> Plain \<longrightarrow> aa_x s = aa_share Thread1 s + aa_share Thread2 s)
     \<and> (n \<le> 1 \<longrightarrow> aa_x s = 0)"

lemma aa_other: "(\<forall>t. P t) \<longleftrightarrow> P Thread1 \<and> P Thread2"
  by (metis aa_thread.exhaust)

lemma aa_inv_step:
  assumes inv: "aa_inv m n s" and st: "aa_step m n t s = Some u"
  shows "aa_inv m n u"
proof -
  from st have st': "Some u = aa_count m n t (aa_pcs s t) s" by (simp add: aa_step_def)
  show ?thesis
    using inv st' aa_tri_Suc [of "aa_i s t"]
    unfolding aa_inv_def aa_other
    by (cases "aa_pcs s t"; cases t; cases m)
      (auto simp: aa_goto_def aa_body_def aa_share_def split: if_splits)
qed

interpretation aa: step_invariant "aa_step m n" aa_init "aa_inv m n" for m n
proof unfold_locales
  show "aa_inv m n aa_init" by (auto simp: aa_inv_def aa_init_def aa_share_def aa_tri_0)
qed (rule aa_inv_step)

section \<open>The threads return\<close>

fun aa_rank :: "aa_pc \<Rightarrow> nat" where
  "aa_rank A_test = 6"
| "aa_rank A_add = 5"
| "aa_rank A_lock = 5"
| "aa_rank A_load = 4"
| "aa_rank A_store = 3"
| "aa_rank A_unlock = 2"
| "aa_rank A_incr = 1"
| "aa_rank A_done = 0"

definition aa_left :: "int \<Rightarrow> aa_state \<Rightarrow> aa_thread \<Rightarrow> nat" where
  "aa_left n s t = 7 * nat (n - aa_i s t) + aa_rank (aa_pcs s t)"

lemma aa_left_step:
  assumes "aa_inv m n s" "aa_step m n t s = Some u"
  shows "aa_left n u t < aa_left n s t \<and> (v \<noteq> t \<longrightarrow> aa_left n u v = aa_left n s v)"
proof -
  have ok: "aa_pc_ok m n (aa_pcs s t) (aa_i s t)" using assms by (simp add: aa_inv_def)
  from assms(2) have "Some u = aa_count m n t (aa_pcs s t) s" by (simp add: aa_step_def)
  with ok show ?thesis
    by (cases "aa_pcs s t") (auto simp: aa_left_def aa_goto_def aa_body_def split: if_splits aa_mode.splits)
qed

lemma aa_runs_end:
  "aa_inv m n s \<Longrightarrow> exec (aa_step m n) ts s = Some u \<Longrightarrow>
     length ts + aa_left n u Thread1 + aa_left n u Thread2 \<le> aa_left n s Thread1 + aa_left n s Thread2"
proof (induction ts arbitrary: s)
  case (Cons t ts)
  then obtain v where v: "aa_step m n t s = Some v" "exec (aa_step m n) ts v = Some u"
    by (auto split: option.splits)
  with Cons.IH [OF aa_inv_step [OF Cons.prems(1) v(1)]]
    aa_left_step [OF Cons.prems(1) v(1), of Thread1] aa_left_step [OF Cons.prems(1) v(1), of Thread2]
  show ?case by (cases t) auto
qed simp

lemma aa_stuck_joined:
  assumes inv: "aa_inv m n s" and "\<forall>t. aa_step m n t s = None"
  shows "aa_joined s"
proof -
  have stuck: "aa_pcs s t = A_done \<or> aa_pcs s t = A_lock \<and> aa_mutex s \<noteq> None" for t
    using assms(2) [THEN spec, of t] by (cases "aa_pcs s t") (auto simp: aa_step_def split: if_splits)
  have "aa_mutex s = None" if "aa_pcs s t = A_lock" for t
  proof (rule ccontr)
    assume "aa_mutex s \<noteq> None"
    then obtain v where v: "aa_mutex s = Some v" by blast
    have "m = Mutex" using inv that by (auto simp: aa_inv_def dest: spec [of _ t])
    with inv v have "aa_held (aa_pcs s v)" by (auto simp: aa_inv_def)
    with stuck [of v] show False by auto
  qed
  with stuck show ?thesis unfolding aa_joined_def by blast
qed

lemma aa_joined_x:
  assumes "aa_inv m n s" "m \<noteq> Plain" "0 \<le> n" "aa_joined s"
  shows "aa_x s = word_of_int (n * (n - 1))"
proof -
  have "aa_i s t = max 1 n" for t using assms by (cases t) (auto simp: aa_inv_def aa_joined_def dest: spec [of _ t])
  then have "aa_x s = 2 * aa_tri (max 1 n)"
    using assms by (simp add: aa_inv_def aa_joined_def aa_share_def)
  also have "\<dots> = word_of_int (2 * aa_gauss (max 1 n))" by (simp add: aa_tri_def)
  also have "2 * aa_gauss (max 1 n) = n * (n - 1)"
    using assms(3) by (cases "n = 0") (simp_all add: aa_gauss_0 max_def aa_gauss_double)
  finally show ?thesis .
qed

text \<open>
  C14: With \<open>-a\<close> or \<open>-m\<close> and a non-negative number, whatever the schedule: the threads take at
  most \<open>14 n + 12\<close> steps, one of them can move until both have returned, and then \<open>main()\<close>
  reports that everything is in order and prints twice the sum of the numbers below \<open>n\<close>.
\<close>

theorem aa_protected_sum:
  assumes "m \<noteq> Plain" "0 \<le> n" "exec (aa_step m n) ts aa_init = Some s"
  shows "int (length ts) \<le> 14 * n + 12 \<and> (aa_joined s \<or> (\<exists>t u. aa_step m n t s = Some u))
    \<and> (aa_joined s \<longrightarrow> aa_report n (aa_x s) = ''n is '' @ show_int n @ ''.'' @ nl
        @ ''everything OK, no race detected'' @ nl
        @ ''result is '' @ show_int (n * (n - 1) mod 2 ^ 32) @ nl
        @ ''expected '' @ show_int (n * (n - 1) mod 2 ^ 32) @ nl)"
proof -
  have inv: "aa_inv m n s" using aa.reach_inv [OF exec_reach [OF assms(3)]] .
  have "int (length ts) \<le> 14 * n + 12"
    using aa_runs_end [OF aa.inv_init assms(3)] assms(2) by (simp add: aa_left_def aa_init_def)
  moreover have "aa_joined s \<or> (\<exists>t u. aa_step m n t s = Some u)"
    using aa_stuck_joined [OF inv] by (metis not_None_eq)
  moreover have "aa_joined s \<Longrightarrow> aa_x s = word_of_int (n * (n - 1))"
    using aa_joined_x [OF inv assms(1,2)] by simp
  ultimately show ?thesis
    unfolding aa_report_def Let_def aa_expected by (simp add: uint_word_of_int take_bit_eq_mod del: of_int_mult)
qed

theorem aa_protected_sum_witness:
  "\<exists>m s. aa_args [''a.out'', ''-m'', ''2''] = Inr (m, 2) \<and> exec (aa_step m 2)
      (replicate 5 Thread2 @ replicate 7 Thread1 @ replicate 2 Thread2) aa_init = Some s
    \<and> aa_report 2 (aa_x s) = ''n is 2.'' @ nl @ ''everything OK, no race detected'' @ nl
        @ ''result is 2'' @ nl @ ''expected 2'' @ nl"
proof -
  have a: "aa_args [''a.out'', ''-m'', ''2''] = Inr (Mutex, 2)" by code_simp
  have "runs (aa_step Mutex 2) (replicate 5 Thread2 @ replicate 7 Thread1 @ replicate 2 Thread2) aa_init
      aa_joined" by code_simp
  from runs_exec [OF this] obtain s where s: "exec (aa_step Mutex 2)
      (replicate 5 Thread2 @ replicate 7 Thread1 @ replicate 2 Thread2) aa_init = Some s" "aa_joined s"
    by blast
  have "show_int 2 = ''2''" by code_simp
  with aa_protected_sum [of Mutex 2, OF _ _ s(1)] s a show ?thesis by simp
qed

section \<open>Without protection, and with a negative number\<close>

lemma aa_lockstep:
  assumes "1 \<le> i" "i < n" "aa_pcs s = (\<lambda>_. A_test)" "aa_i s = (\<lambda>_. i)" "aa_x s = aa_tri i"
  shows "runs (aa_step Plain n) (concat (replicate 4 [Thread1, Thread2])) s
    (\<lambda>u. aa_pcs u = (\<lambda>_. A_test) \<and> aa_i u = (\<lambda>_. i + 1) \<and> aa_x u = aa_tri (i + 1))"
  using assms aa_tri_Suc [of i]
  by (simp add: numeral_eq_Suc aa_step_def aa_goto_def aa_body_def fun_eq_iff aa_other)

lemma aa_half:
  assumes "1 \<le> n"
  shows "i \<le> n \<Longrightarrow> 1 \<le> i \<Longrightarrow> \<exists>s. reach (aa_step Plain n) aa_init s \<and> aa_pcs s = (\<lambda>_. A_test) \<and> aa_i s = (\<lambda>_. i)
    \<and> aa_x s = aa_tri i"
proof (induction i rule: int_induct [of _ 1])
  case base
  show ?case by (rule exI [of _ aa_init]) (simp add: reach_init aa_init_def aa_tri_0)
next
  case (step1 i)
  then obtain s where s: "reach (aa_step Plain n) aa_init s" "aa_pcs s = (\<lambda>_. A_test)" "aa_i s = (\<lambda>_. i)"
    "aa_x s = aa_tri i" by auto
  from reach_runs [OF s(1) aa_lockstep [of i n s]] step1 s show ?case by simp
qed simp

lemma aa_half_joined:
  assumes "1 \<le> n"
  shows "\<exists>s. reach (aa_step Plain n) aa_init s \<and> aa_joined s \<and> aa_x s = aa_tri n"
proof -
  obtain s where s: "reach (aa_step Plain n) aa_init s" "aa_pcs s = (\<lambda>_. A_test)" "aa_i s = (\<lambda>_. n)"
    "aa_x s = aa_tri n" using aa_half [OF assms, of n] assms by auto
  then have "runs (aa_step Plain n) [Thread1, Thread2] s (\<lambda>u. aa_joined u \<and> aa_x u = aa_tri n)"
    by (simp add: aa_step_def aa_goto_def aa_joined_def)
  from reach_runs [OF s(1) this] show ?thesis .
qed

definition aa_says_race :: "int \<Rightarrow> 32 word \<Rightarrow> bool" where
  "aa_says_race n x \<longleftrightarrow> (\<exists>rest. aa_report n x = ''n is '' @ show_int n @ ''.'' @ nl @ ''RACE DETECTED'' @ nl @ rest)"

lemma aa_says_race_iff: "x \<noteq> word_of_int (n * (n - 1)) \<Longrightarrow> aa_says_race n x"
  unfolding aa_says_race_def aa_report_def Let_def aa_expected by simp

lemma aa_word_nonzero: "0 < x \<Longrightarrow> x < 2 ^ 32 \<Longrightarrow> (word_of_int x :: 32 word) \<noteq> 0"
proof
  assume x: "0 < x" "x < 2 ^ 32" and "(word_of_int x :: 32 word) = 0"
  then have "uint (word_of_int x :: 32 word) = 0" by simp
  then have "x mod 2 ^ 32 = 0" by (simp only: uint_word_of_int) simp
  with x show False by simp
qed

text \<open>
  Without an option, for every \<open>n\<close> from 2 to 92682 some schedule loses half of the sum and
  the race is reported. A negative number makes \<open>main()\<close> report a race whenever both threads
  have returned, although they have done nothing: they compare as signed integers, the check at
  the end as unsigned ones.
\<close>

theorem aa_race_reports:
  "(2 \<le> n \<and> n \<le> 92682 \<longrightarrow> (\<exists>s. reach (aa_step Plain n) aa_init s \<and> aa_joined s
      \<and> 2 * aa_x s = word_of_int (n * (n - 1)) \<and> aa_says_race n (aa_x s)))
   \<and> (- 65536 < n \<and> n < 0 \<longrightarrow> reach (aa_step m n) aa_init u \<longrightarrow> aa_joined u \<longrightarrow>
      aa_x u = 0 \<and> aa_says_race n (aa_x u))"
proof (intro conjI impI)
  assume n: "2 \<le> n \<and> n \<le> 92682"
  then obtain s where s: "reach (aa_step Plain n) aa_init s" "aa_joined s" "aa_x s = aa_tri n"
    using aa_half_joined [of n] by auto
  have g: "2 * aa_gauss n = n * (n - 1)" using n by (simp add: aa_gauss_double)
  have "2 * 1 \<le> n * (n - 1)" and "n * (n - 1) \<le> 92682 * 92681"
    using n by (intro mult_mono; simp)+
  with g have "0 < aa_gauss n" "aa_gauss n < 2 ^ 32" by simp_all
  then have nz: "aa_tri n \<noteq> 0" unfolding aa_tri_def by (rule aa_word_nonzero)
  have "2 * aa_tri n = word_of_int (2 * aa_gauss n)" by (simp add: aa_tri_def)
  then have t: "2 * aa_tri n = word_of_int (n * (n - 1))" by (simp only: g)
  have "aa_tri n + aa_tri n \<noteq> aa_tri n" using nz by (simp only: add_cancel_left_left simp_thms)
  then have "aa_tri n \<noteq> word_of_int (n * (n - 1))" unfolding t [symmetric] mult_2 by (rule not_sym)
  with s t show "\<exists>s. reach (aa_step Plain n) aa_init s \<and> aa_joined s
      \<and> 2 * aa_x s = word_of_int (n * (n - 1)) \<and> aa_says_race n (aa_x s)"
    by (intro exI [of _ s]) (simp add: aa_says_race_iff)
next
  assume n: "- 65536 < n \<and> n < 0" and r: "reach (aa_step m n) aa_init u"
  show x: "aa_x u = 0" using aa.reach_inv [OF r] n by (simp add: aa_inv_def)
  have "1 * 1 \<le> (- n) * (1 - n)" and "(- n) * (1 - n) \<le> 65535 * 65536" using n by (intro mult_mono; simp)+
  then have "0 < n * (n - 1)" "n * (n - 1) < 2 ^ 32" by (simp_all add: algebra_simps)
  from aa_word_nonzero [OF this] show "aa_says_race n (aa_x u)"
    by (intro aa_says_race_iff) (simp only: x not_sym)
qed

theorem aa_race_reports_witness:
  "(\<exists>s. reach (aa_step Plain 2) aa_init s \<and> aa_joined s \<and> aa_says_race 2 (aa_x s))
   \<and> (\<exists>u. reach (aa_step Atomic (- 1)) aa_init u \<and> aa_joined u \<and> aa_says_race (- 1) (aa_x u))"
proof -
  have "runs (aa_step Atomic (- 1)) [Thread1, Thread2] aa_init aa_joined" by code_simp
  from runs_reach [OF this] aa_race_reports [of 2 Plain aa_init] aa_race_reports [of "- 1" Atomic]
  show ?thesis by auto
qed

end
