(* ===== verification/File_Locking.thy ===== *)
theory File_Locking
  imports Getopt
begin

text \<open>
  The programs of \<open>file-locking/\<close>: \<open>fcntl-locking.c\<close> (five writers and a reader under an advisory
  record lock, with private or shared file offsets), \<open>lock-unlock.c\<close> (a lock file) and \<open>lockf.c\<close>.
\<close>

section \<open>\<open>fcntl-locking.c\<close>: state and steps\<close>

datatype fl_mode = No_lock | Shared_fd | Exclusive_fd

datatype fl_pc =
    L_check | L_lock | L_mark_seek | L_mark_write | L_seek | L_write | L_end | L_unlock

datatype fl_dump_pc = D_lock | D_seek | D_read | D_print | D_unlock

text \<open>
  File offsets belong to open file descriptions: number 0 is the one \<open>main()\<close> opened, which the
  children inherit, \<open>i + 1\<close> the one child \<open>i\<close> opens with \<open>-L\<close>. The lock on the second half has
  at most one writing owner; the only reader is the parent.
\<close>

record fl_state =
  fl_file :: string
  fl_off :: "nat \<Rightarrow> nat"
  fl_writer :: "nat option"
  fl_reader :: bool
  fl_pcs :: "nat \<Rightarrow> fl_pc"
  fl_j :: "nat \<Rightarrow> nat"
  fl_dump :: fl_dump_pc
  fl_dump_off :: nat
  fl_buf :: string
  fl_n :: nat
  fl_dumps :: "(string \<times> nat) list"

definition fl_c :: string where
  "fl_c = ''/_#+.''"

text \<open>Writing one byte at an offset: a hole before it reads as zero bytes.\<close>

definition fl_put :: "nat \<Rightarrow> char \<Rightarrow> string \<Rightarrow> string" where
  "fl_put off ch f =
     (if off < length f then f[off := ch] else f @ replicate (off - length f) (CHR 0x00) @ [ch])"

definition fl_fd :: "fl_mode \<Rightarrow> nat \<Rightarrow> nat" where
  "fl_fd m i = (if m = Exclusive_fd then Suc i else 0)"

definition fl_goto :: "nat \<Rightarrow> fl_pc \<Rightarrow> fl_state \<Rightarrow> fl_state" where
  "fl_goto i pc s = s\<lparr>fl_pcs := (fl_pcs s)(i := pc)\<rparr>"

definition fl_lseek :: "nat \<Rightarrow> nat \<Rightarrow> fl_state \<Rightarrow> fl_state" where
  "fl_lseek fd pos s = s\<lparr>fl_off := (fl_off s)(fd := pos)\<rparr>"

definition fl_write :: "nat \<Rightarrow> char \<Rightarrow> fl_state \<Rightarrow> fl_state" where
  "fl_write fd ch s =
     s\<lparr>fl_file := fl_put (fl_off s fd) ch (fl_file s), fl_off := (fl_off s)(fd := Suc (fl_off s fd))\<rparr>"

definition fl_set_j :: "nat \<Rightarrow> nat \<Rightarrow> fl_state \<Rightarrow> fl_state" where
  "fl_set_j i v s = s\<lparr>fl_j := (fl_j s)(i := v)\<rparr>"

fun fl_child :: "fl_mode \<Rightarrow> nat \<Rightarrow> fl_pc \<Rightarrow> fl_state \<Rightarrow> fl_state option" where
  "fl_child m i L_check s =
     Some (fl_goto i (if fl_j s i = 35 then (if m = No_lock then L_mark_seek else L_lock) else L_seek) s)"
| "fl_child m i L_lock s =
     (if (fl_writer s = None \<or> fl_writer s = Some i) \<and> \<not> fl_reader s
      then Some (fl_goto i L_mark_seek (s\<lparr>fl_writer := Some i\<rparr>)) else None)"
| "fl_child m i L_mark_seek s =
     Some (fl_goto i L_mark_write (fl_set_j i (Suc (fl_j s i)) (fl_lseek (fl_fd m i) (fl_j s i) s)))"
| "fl_child m i L_mark_write s = Some (fl_goto i L_seek (fl_write (fl_fd m i) (CHR ''|'') s))"
| "fl_child m i L_seek s =
     Some (fl_goto i L_write (fl_set_j i (Suc (fl_j s i)) (fl_lseek (fl_fd m i) (fl_j s i) s)))"
| "fl_child m i L_write s = Some (fl_goto i L_end (fl_write (fl_fd m i) (fl_c ! i) s))"
| "fl_child m i L_end s =
     Some (if fl_j s i = 70 then fl_goto i (if m = No_lock then L_check else L_unlock) (fl_set_j i 0 s)
           else fl_goto i L_check s)"
| "fl_child m i L_unlock s =
     Some (fl_goto i L_check (s\<lparr>fl_writer := (if fl_writer s = Some i then None else fl_writer s)\<rparr>))"

text \<open>
  \<open>dump_file()\<close> in the parent. \<open>lseek(fd, SEEK_SET, 0)\<close> has its last two arguments exchanged,
  which makes no difference: both are 0.
\<close>

fun fl_dumper :: "fl_mode \<Rightarrow> fl_dump_pc \<Rightarrow> fl_state \<Rightarrow> fl_state option" where
  "fl_dumper m D_lock s =
     (if m = No_lock then Some (s\<lparr>fl_dump := D_seek\<rparr>)
      else if fl_writer s = None then Some (s\<lparr>fl_reader := True, fl_dump := D_seek\<rparr>) else None)"
| "fl_dumper m D_seek s =
     Some (s\<lparr>fl_dump_off := 0, fl_buf := replicate 70 (CHR 0x00), fl_dump := D_read\<rparr>)"
| "fl_dumper m D_read s =
     (let got = take 70 (drop (fl_dump_off s) (fl_file s)) in
      Some (s\<lparr>fl_n := length got, fl_buf := got @ drop (length got) (fl_buf s),
              fl_dump_off := fl_dump_off s + length got, fl_dump := D_print\<rparr>))"
| "fl_dumper m D_print s =
     Some (s\<lparr>fl_dumps := fl_dumps s @ [(fl_buf s, fl_n s)], fl_dump := D_unlock\<rparr>)"
| "fl_dumper m D_unlock s = Some (s\<lparr>fl_reader := False, fl_dump := D_lock\<rparr>)"

datatype fl_event = Child nat | Dump

definition fl_step :: "fl_mode \<Rightarrow> fl_event \<Rightarrow> fl_state \<Rightarrow> fl_state option" where
  "fl_step m e s =
     (case e of
        Child i \<Rightarrow> if i < 5 then fl_child m i (fl_pcs s i) s else None
      | Dump \<Rightarrow> fl_dumper m (fl_dump s) s)"

text \<open>
  The file after \<open>lseek(fd, SEEK_SET, FILE_LEN - 1)\<close> and \<open>write(fd, "", 1)\<close>: 69 is no valid third
  argument, so the seek fails and the byte goes to offset 0; with \<open>-L\<close> the descriptor is -1 and
  the write fails as well.
\<close>

definition fl_init :: "fl_mode \<Rightarrow> fl_state" where
  "fl_init m =
     \<lparr>fl_file = (if m = Exclusive_fd then [] else [CHR 0x00]), fl_off = (\<lambda>fd. if fd = 0 then 1 else 0),
      fl_writer = None, fl_reader = False, fl_pcs = (\<lambda>_. L_check), fl_j = (\<lambda>_. 0), fl_dump = D_lock,
      fl_dump_off = 0, fl_buf = [], fl_n = 0, fl_dumps = []\<rparr>"

fun fl_options :: "fl_mode \<Rightarrow> string \<Rightarrow> optval list \<Rightarrow> (string, fl_mode \<times> string) sum" where
  "fl_options m out [] = Inr (m, out)"
| "fl_options m out (Opt ch v # os) =
     (if ch = CHR ''l'' then fl_options Shared_fd (out @ ''Using locking with a shared fd.'' @ nl) os
      else fl_options Exclusive_fd (out @ ''Using locking with private fd's.'' @ nl) os)"
| "fl_options m out (_ # os) = Inl out"

definition fl_usage :: "string \<Rightarrow> string" where
  "fl_usage argv0 = errx_line argv0 (''usage: '' @ argv0 @ '' [-l|-L] <filename>'')"

text \<open>\<open>main()\<close> up to the forks; \<open>openable\<close> says whether the file can be created.\<close>

definition fl_main :: "bool \<Rightarrow> string list \<Rightarrow> outcome + string \<times> fl_mode \<times> fl_state" where
  "fl_main openable argv =
     (let scan = getopt_scan (optspec ''lL'') (tl argv) in
      case fl_options No_lock [] (fst scan) of
        Inl out \<Rightarrow> Inl \<lparr>oc_out = out, oc_err = fl_usage (hd argv), oc_status = 1\<rparr>
      | Inr (m, out) \<Rightarrow>
          if length (snd scan) \<noteq> 1 then Inl \<lparr>oc_out = out, oc_err = fl_usage (hd argv), oc_status = 1\<rparr>
          else
            let out' = (if m = No_lock then out @ ''Not using locking.'' @ nl else out)
            in if openable then Inr (out', m, fl_init m)
               else Inl \<lparr>oc_out = out', oc_err = errx_line (hd argv) ''open'', oc_status = 1\<rparr>)"

lemmas fl_defs = fl_goto_def fl_lseek_def fl_write_def fl_set_j_def

section \<open>The second half under \<open>-L\<close>\<close>

definition fl_full :: "nat \<Rightarrow> string" where
  "fl_full i = CHR ''|'' # replicate 34 (fl_c ! i)"

text \<open>How many bytes of its pass child \<open>i\<close> has written.\<close>

fun fl_pos :: "fl_pc \<Rightarrow> nat \<Rightarrow> nat" where
  "fl_pos L_mark_write j = 35"
| "fl_pos L_write j = j - 1"
| "fl_pos L_unlock j = 70"
| "fl_pos _ j = j"

fun fl_local :: "fl_pc \<Rightarrow> nat \<Rightarrow> nat \<Rightarrow> bool \<Rightarrow> bool" where
  "fl_local L_check j off holds \<longleftrightarrow> j < 70 \<and> (if holds then 36 < j else j \<le> 35)"
| "fl_local L_lock j off holds \<longleftrightarrow> j = 35 \<and> \<not> holds"
| "fl_local L_mark_seek j off holds \<longleftrightarrow> j = 35 \<and> holds"
| "fl_local L_mark_write j off holds \<longleftrightarrow> j = 36 \<and> off = 35 \<and> holds"
| "fl_local L_seek j off holds \<longleftrightarrow> j < 70 \<and> (if holds then 36 \<le> j else j < 35)"
| "fl_local L_write j off holds \<longleftrightarrow> j = Suc off \<and> j \<le> 70 \<and> (if holds then 36 < j else j \<le> 35)"
| "fl_local L_end j off holds \<longleftrightarrow> j \<le> 70 \<and> (if holds then 36 < j else j \<le> 35)"
| "fl_local L_unlock j off holds \<longleftrightarrow> j = 0 \<and> holds"

definition fl_upper_ok :: "fl_state \<Rightarrow> bool" where
  "fl_upper_ok s \<longleftrightarrow>
     (case fl_writer s of
        None \<Rightarrow> drop 35 (fl_file s) = [] \<or> (\<exists>i < 5. drop 35 (fl_file s) = fl_full i)
      | Some i \<Rightarrow>
          let p = fl_pos (fl_pcs s i) (fl_j s i) - 35 in
          take p (drop 35 (fl_file s)) = take p (fl_full i)
          \<and> (length (fl_file s) = 35 + p \<or> length (fl_file s) = 70))"

definition fl_dump_ok :: "string \<times> nat \<Rightarrow> bool" where
  "fl_dump_ok d \<longleftrightarrow>
     length (fst d) = 70
     \<and> (snd d \<le> 35 \<and> drop 35 (fst d) = replicate 35 (CHR 0x00)
        \<or> snd d = 70 \<and> (\<exists>i < 5. drop 35 (fst d) = fl_full i))"

definition fl_inv :: "fl_state \<Rightarrow> bool" where
  "fl_inv s \<longleftrightarrow>
     (\<forall>i. fl_local (fl_pcs s i) (fl_j s i) (fl_off s (Suc i)) (fl_writer s = Some i))
     \<and> (\<forall>i. fl_pos (fl_pcs s i) (fl_j s i) \<le> length (fl_file s))
     \<and> (\<forall>i. fl_writer s = Some i \<longrightarrow> i < 5)
     \<and> length (fl_file s) \<le> 70 \<and> fl_upper_ok s
     \<and> (fl_reader s \<longleftrightarrow> fl_dump s \<noteq> D_lock) \<and> (fl_reader s \<longrightarrow> fl_writer s = None)
     \<and> (fl_dump s = D_read \<longrightarrow> fl_dump_off s = 0 \<and> fl_buf s = replicate 70 (CHR 0x00))
     \<and> (fl_dump s = D_print \<longrightarrow> fl_dump_ok (fl_buf s, fl_n s))
     \<and> (\<forall>d \<in> set (fl_dumps s). fl_dump_ok d)"

lemma fl_put_length: "off \<le> length f \<Longrightarrow> length (fl_put off ch f) = max (length f) (Suc off)"
  by (simp add: fl_put_def)

lemma fl_put_lower: "off < 35 \<Longrightarrow> off \<le> length f \<Longrightarrow> drop 35 (fl_put off ch f) = drop 35 f"
  by (auto simp: fl_put_def)

lemma fl_full_nth: "fl_full i ! 0 = CHR ''|''" "0 < k \<Longrightarrow> k < 35 \<Longrightarrow> fl_full i ! k = fl_c ! i"
  by (simp_all add: fl_full_def nth_Cons')

lemma fl_full_length [simp]: "length (fl_full i) = 35"
  by (simp add: fl_full_def)

lemma fl_put_upper:
  assumes "off \<le> length f" "35 \<le> off" "take (off - 35) (drop 35 f) = take (off - 35) g"
    and "off - 35 < length g" "ch = g ! (off - 35)"
  shows "take (Suc (off - 35)) (drop 35 (fl_put off ch f)) = take (Suc (off - 35)) g"
proof -
  have "take (off - 35) (drop 35 (fl_put off ch f)) = take (off - 35) (drop 35 f)"
    using assms(1,2) by (auto simp: fl_put_def drop_update_swap)
  moreover have "fl_put off ch f ! off = ch"
    using assms(1) by (auto simp: fl_put_def nth_append)
  moreover have "off < length (fl_put off ch f)" using assms(1) by (simp add: fl_put_length)
  ultimately show ?thesis
    using assms by (simp add: take_Suc_conv_app_nth)
qed

lemma fl_child_local:
  assumes "fl_inv s" "fl_child Exclusive_fd i (fl_pcs s i) s = Some t"
  shows "fl_local (fl_pcs t k) (fl_j t k) (fl_off t (Suc k)) (fl_writer t = Some k)"
proof -
  from assms(1) have i: "fl_local (fl_pcs s i) (fl_j s i) (fl_off s (Suc i)) (fl_writer s = Some i)"
    and k: "fl_local (fl_pcs s k) (fl_j s k) (fl_off s (Suc k)) (fl_writer s = Some k)"
    by (simp_all add: fl_inv_def)
  with assms(2) [symmetric] show ?thesis
    by (cases "fl_pcs s i"; cases "k = i") (auto simp: fl_defs fl_fd_def split: if_splits)
qed

lemma fl_child_length:
  assumes "fl_inv s" "fl_child Exclusive_fd i (fl_pcs s i) s = Some t"
  shows "length (fl_file s) \<le> length (fl_file t) \<and> length (fl_file t) \<le> 70
    \<and> fl_pos (fl_pcs t i) (fl_j t i) \<le> length (fl_file t)"
proof -
  from assms(1) have i: "fl_local (fl_pcs s i) (fl_j s i) (fl_off s (Suc i)) (fl_writer s = Some i)"
    and "fl_pos (fl_pcs s i) (fl_j s i) \<le> length (fl_file s)" "length (fl_file s) \<le> 70"
    by (simp_all add: fl_inv_def)
  with assms(2) [symmetric] show ?thesis
    by (cases "fl_pcs s i") (auto simp: fl_defs fl_fd_def fl_put_length split: if_splits)
qed

text \<open>A child that does not hold the lock leaves the second half and who holds it alone.\<close>

lemma fl_child_lower:
  assumes inv: "fl_inv s" and st: "fl_child Exclusive_fd i (fl_pcs s i) s = Some t"
    and out: "fl_writer s \<noteq> Some i" "fl_pcs s i \<noteq> L_lock"
  shows "fl_upper_ok t \<and> fl_writer t = fl_writer s"
proof -
  from inv have i: "fl_local (fl_pcs s i) (fl_j s i) (fl_off s (Suc i)) (fl_writer s = Some i)"
    and p: "fl_pos (fl_pcs s i) (fl_j s i) \<le> length (fl_file s)" and up: "fl_upper_ok s"
    by (simp_all add: fl_inv_def)
  have "drop 35 (fl_file t) = drop 35 (fl_file s)"
    and "35 \<le> length (fl_file s) \<longrightarrow> length (fl_file t) = length (fl_file s)"
    and "fl_writer t = fl_writer s" and "\<forall>k. k \<noteq> i \<longrightarrow> fl_pcs t k = fl_pcs s k \<and> fl_j t k = fl_j s k"
    using i p out st [symmetric]
    by (cases "fl_pcs s i"; force simp: fl_defs fl_fd_def fl_put_length fl_put_lower split: if_splits)+
  with up out(1) show ?thesis
    by (auto simp: fl_upper_ok_def Let_def split: option.splits)
qed

lemma fl_upper_write:
  assumes "length f = 35 + p \<or> length f = 70" "take p (drop 35 f) = take p (fl_full i)"
    and "p < 35" "ch = fl_full i ! p"
  shows "take (Suc p) (drop 35 (fl_put (35 + p) ch f)) = take (Suc p) (fl_full i)
    \<and> (length (fl_put (35 + p) ch f) = 35 + Suc p \<or> length (fl_put (35 + p) ch f) = 70)"
  using assms fl_put_upper [of "35 + p" f "fl_full i" ch] by (auto simp: fl_put_length)

lemma fl_child_upper:
  assumes inv: "fl_inv s" and st: "fl_child Exclusive_fd i (fl_pcs s i) s = Some t" and i5: "i < 5"
    and holds: "fl_writer s = Some i"
  shows "fl_upper_ok t"
proof -
  let ?j = "fl_j s i" and ?f = "fl_file s"
  have "fl_local (fl_pcs s i) ?j (fl_off s (Suc i)) (fl_writer s = Some i)" using inv by (simp add: fl_inv_def)
  with holds have loc: "fl_local (fl_pcs s i) ?j (fl_off s (Suc i)) True" by simp
  from inv holds have up: "take (fl_pos (fl_pcs s i) ?j - 35) (drop 35 ?f) = take (fl_pos (fl_pcs s i) ?j - 35) (fl_full i)"
    "length ?f = 35 + (fl_pos (fl_pcs s i) ?j - 35) \<or> length ?f = 70"
    by (auto simp: fl_inv_def fl_upper_ok_def Let_def)
  show ?thesis
  proof (cases "fl_pcs s i")
    case L_mark_write
    with loc up st [symmetric] holds fl_upper_write [of ?f 0 i "CHR ''|''"] show ?thesis
      by (simp add: fl_upper_ok_def fl_defs fl_fd_def fl_full_nth)
  next
    case L_write
    with loc have o: "?j = Suc (fl_off s (Suc i))" "35 < fl_off s (Suc i)" "fl_off s (Suc i) < 70"
      by auto
    have e: "35 + (fl_off s (Suc i) - 35) = fl_off s (Suc i)" using o by simp
    have "Suc (fl_off s (Suc i)) - 35 = Suc (fl_off s (Suc i) - 35)" using o by simp
    moreover have "fl_full i ! (fl_off s (Suc i) - 35) = fl_c ! i" using o by (intro fl_full_nth) simp_all
    ultimately show ?thesis
      using L_write up st [symmetric] holds o(1)
        fl_upper_write [of ?f "fl_off s (Suc i) - 35" i "fl_c ! i", unfolded e] o
      by (simp add: fl_upper_ok_def fl_defs fl_fd_def)
  next
    case L_unlock
    with up have "length ?f = 70" and "drop 35 ?f = fl_full i" by auto
    with L_unlock st [symmetric] holds i5 show ?thesis by (auto simp: fl_upper_ok_def fl_goto_def)
  qed (use loc up st [symmetric] holds in \<open>auto simp: fl_upper_ok_def fl_defs split: if_splits\<close>)
qed

lemma fl_child_lock:
  assumes inv: "fl_inv s" and st: "fl_child Exclusive_fd i L_lock s = Some t" and pc: "fl_pcs s i = L_lock"
  shows "fl_upper_ok t"
proof -
  from inv have "fl_local (fl_pcs s i) (fl_j s i) (fl_off s (Suc i)) (fl_writer s = Some i)"
    and "fl_pos (fl_pcs s i) (fl_j s i) \<le> length (fl_file s)" and up: "fl_upper_ok s"
    by (simp_all add: fl_inv_def)
  with pc have "fl_writer s \<noteq> Some i" and j: "fl_j s i = 35" "35 \<le> length (fl_file s)" by auto
  with st have n: "fl_writer s = None" and t: "t = fl_goto i L_mark_seek (s\<lparr>fl_writer := Some i\<rparr>)"
    by (auto split: if_splits)
  from up n have "length (fl_file s) = 35 \<or> length (fl_file s) = 70"
    using j(2) by (auto simp: fl_upper_ok_def dest!: arg_cong [of _ _ length])
  then show ?thesis using j unfolding t by (simp add: fl_upper_ok_def fl_goto_def)
qed

lemma fl_inv_child:
  assumes inv: "fl_inv s" and i: "i < 5" and st: "fl_child Exclusive_fd i (fl_pcs s i) s = Some t"
  shows "fl_inv t"
proof -
  have up: "fl_upper_ok t"
  proof (cases "fl_writer s = Some i")
    case True
    with inv st i show ?thesis by (blast intro: fl_child_upper)
  next
    case False
    then show ?thesis using fl_child_lower [OF inv st] fl_child_lock [OF inv, of i t] st by fastforce
  qed
  have same: "fl_dump t = fl_dump s" "fl_reader t = fl_reader s" "fl_dump_off t = fl_dump_off s"
    "fl_buf t = fl_buf s" "fl_n t = fl_n s" "fl_dumps t = fl_dumps s"
    "\<And>k. k \<noteq> i \<Longrightarrow> fl_pcs t k = fl_pcs s k \<and> fl_j t k = fl_j s k"
    using st [symmetric] by (cases "fl_pcs s i"; auto simp: fl_defs split: if_splits)+
  have w: "fl_writer t \<in> {fl_writer s, None, Some i} \<and> (fl_reader s \<longrightarrow> fl_writer s = None \<longrightarrow> fl_writer t = None)"
    using st [symmetric] by (cases "fl_pcs s i") (auto simp: fl_defs split: if_splits)
  have pos: "fl_pos (fl_pcs t k) (fl_j t k) \<le> length (fl_file t)" for k
  proof (cases "k = i")
    case False
    have "fl_pos (fl_pcs s k) (fl_j s k) \<le> length (fl_file s)" using inv by (simp add: fl_inv_def)
    with fl_child_length [OF inv st] same(7) [OF False] show ?thesis by simp
  qed (use fl_child_length [OF inv st] in simp)
  show ?thesis
    using inv up same(1-6) w pos i fl_child_local [OF inv st] fl_child_length [OF inv st]
    unfolding fl_inv_def by auto
qed

lemma fl_read_ok:
  assumes "length f \<le> 70" "drop 35 f = [] \<or> (\<exists>i < 5. drop 35 f = fl_full i)"
  shows "fl_dump_ok (f @ replicate (70 - length f) (CHR 0x00), length f)"
proof -
  have "length f = 70" if "drop 35 f = fl_full i" for i
    using arg_cong [OF that, of length] by simp
  with assms show ?thesis by (auto simp: fl_dump_ok_def)
qed

lemma fl_inv_dumper:
  assumes inv: "fl_inv s" and st: "fl_dumper Exclusive_fd (fl_dump s) s = Some t"
  shows "fl_inv t"
proof (cases "fl_dump s")
  case D_read
  with inv have n: "fl_writer s = None" and o: "fl_dump_off s = 0" "fl_buf s = replicate 70 (CHR 0x00)"
    and l: "length (fl_file s) \<le> 70" by (auto simp: fl_inv_def)
  from inv n have "fl_dump_ok (fl_file s @ replicate (70 - length (fl_file s)) (CHR 0x00), length (fl_file s))"
    by (intro fl_read_ok l) (simp add: fl_inv_def fl_upper_ok_def)
  moreover from st D_read o l have "t = s\<lparr>fl_n := length (fl_file s),
      fl_buf := fl_file s @ replicate (70 - length (fl_file s)) (CHR 0x00),
      fl_dump_off := length (fl_file s), fl_dump := D_print\<rparr>"
    by (simp add: Let_def)
  ultimately show ?thesis using inv D_read n by (auto simp: fl_inv_def fl_upper_ok_def)
next
  case D_lock
  with st have "t = s\<lparr>fl_reader := True, fl_dump := D_seek\<rparr>" "fl_writer s = None"
    by (auto split: if_splits)
  with inv D_lock show ?thesis by (simp add: fl_inv_def fl_upper_ok_def)
next
  case D_print
  with st have "t = s\<lparr>fl_dumps := fl_dumps s @ [(fl_buf s, fl_n s)], fl_dump := D_unlock\<rparr>" by simp
  with inv D_print show ?thesis by (auto simp: fl_inv_def fl_upper_ok_def)
next
  case D_seek
  with st have "t = s\<lparr>fl_dump_off := 0, fl_buf := replicate 70 (CHR 0x00), fl_dump := D_read\<rparr>"
    by (simp)
  with inv D_seek show ?thesis by (auto simp: fl_inv_def fl_upper_ok_def)
next
  case D_unlock
  with st inv show ?thesis by (auto simp: fl_inv_def fl_upper_ok_def)
qed

lemma fl_inv_step: "fl_inv s \<Longrightarrow> fl_step Exclusive_fd e s = Some t \<Longrightarrow> fl_inv t"
  by (cases e) (auto simp: fl_step_def intro: fl_inv_child fl_inv_dumper split: if_splits)

lemma fl_main_mode: "fl_main openable argv = Inr (out, m, s0) \<Longrightarrow> s0 = fl_init m"
  by (auto simp: fl_main_def Let_def split: sum.splits if_splits)

text \<open>Whole passes of one child, for concrete runs: what a child leaves alone, and its iterations.\<close>

definition fl_frame :: "nat \<Rightarrow> fl_state \<Rightarrow> fl_state \<Rightarrow> bool" where
  "fl_frame i s t \<longleftrightarrow>
     (\<forall>n. n \<noteq> i \<longrightarrow> fl_pcs t n = fl_pcs s n \<and> fl_j t n = fl_j s n)
     \<and> fl_reader t = fl_reader s \<and> fl_dump t = fl_dump s \<and> fl_dumps t = fl_dumps s"

lemma fl_put_end: "k = length f \<Longrightarrow> fl_put k ch f = f @ [ch]"
  by (simp add: fl_put_def)

lemma fl_iter:
  assumes "i < 5" "fl_pcs s i = L_check" "fl_j s i = k" "k \<noteq> 35" "k < 69"
  shows "runs (fl_step m) (replicate 4 (Child i)) s (\<lambda>t. fl_pcs t i = L_check \<and> fl_j t i = Suc k
    \<and> fl_file t = fl_put k (fl_c ! i) (fl_file s) \<and> fl_writer t = fl_writer s \<and> fl_frame i s t)"
  using assms by (simp add: numeral_eq_Suc fl_step_def fl_defs fl_frame_def)

lemma fl_iters:
  assumes "reach (fl_step m) s0 s" "i < 5" "fl_pcs s i = L_check" "fl_j s i = k" "length (fl_file s) = k"
    and "k + n \<le> 35 \<or> 35 < k" "k + n \<le> 69"
  shows "\<exists>t. reach (fl_step m) s0 t \<and> fl_pcs t i = L_check \<and> fl_j t i = k + n
    \<and> fl_file t = fl_file s @ replicate n (fl_c ! i) \<and> fl_writer t = fl_writer s \<and> fl_frame i s t"
  using assms(6,7)
proof (induction n)
  case 0
  with assms show ?case by (intro exI [of _ s]) (simp add: fl_frame_def)
next
  case (Suc n)
  then obtain t where t: "reach (fl_step m) s0 t" "fl_pcs t i = L_check" "fl_j t i = k + n"
    "fl_file t = fl_file s @ replicate n (fl_c ! i)" "fl_writer t = fl_writer s" "fl_frame i s t" by auto
  from Suc.prems have "k + n \<noteq> 35" "k + n < 69" by auto
  from reach_runs [OF t(1) fl_iter [OF assms(2) t(2,3) this]] t assms(5) show ?case
    by (auto simp: fl_put_end fl_frame_def replicate_append_same)
qed

lemma fl_finish:
  assumes "reach (fl_step m) s0 s" "m \<noteq> No_lock" "i < 5" "fl_pcs s i = L_check" "fl_j s i = 69"
    and "length (fl_file s) = 69" "fl_writer s = Some i"
  shows "\<exists>t. reach (fl_step m) s0 t \<and> fl_file t = fl_file s @ [fl_c ! i] \<and> fl_writer t = None \<and> fl_frame i s t"
proof -
  have "runs (fl_step m) (replicate 5 (Child i)) s (\<lambda>t. fl_file t = fl_file s @ [fl_c ! i]
      \<and> fl_writer t = None \<and> fl_frame i s t)"
    using assms(2-) by (simp add: numeral_eq_Suc fl_step_def fl_defs fl_frame_def fl_put_end)
  from reach_runs [OF assms(1) this] show ?thesis .
qed

lemma fl_dump_run:
  assumes "reach (fl_step m) s0 s" "fl_dump s = D_lock" "fl_writer s = None" "length (fl_file s) = 70"
  shows "\<exists>t. reach (fl_step m) s0 t \<and> fl_dumps t = fl_dumps s @ [(fl_file s, 70)]"
proof -
  have "runs (fl_step m) (replicate 4 Dump) s (\<lambda>t. fl_dumps t = fl_dumps s @ [(fl_file s, 70)])"
    using assms(2-) by (simp add: numeral_eq_Suc fl_step_def Let_def)
  from reach_runs [OF assms(1) this] show ?thesis .
qed

lemma fl_mark:
  assumes "reach (fl_step m) s0 s" "m \<noteq> No_lock" "i < 5" "fl_pcs s i = L_check" "fl_j s i = 35"
    and "length (fl_file s) = 35" "fl_writer s = None" "\<not> fl_reader s"
  shows "\<exists>t. reach (fl_step m) s0 t \<and> fl_pcs t i = L_seek \<and> fl_j t i = 36
    \<and> fl_file t = fl_file s @ ''|'' \<and> fl_writer t = Some i \<and> fl_frame i s t"
proof -
  have "runs (fl_step m) (replicate 4 (Child i)) s (\<lambda>t. fl_pcs t i = L_seek \<and> fl_j t i = 36
    \<and> fl_file t = fl_file s @ ''|'' \<and> fl_writer t = Some i \<and> fl_frame i s t)"
    using assms(2-) by (simp add: numeral_eq_Suc fl_step_def fl_defs fl_frame_def fl_put_end)
  from reach_runs [OF assms(1) this] show ?thesis .
qed

text \<open>The first half, the lock and the bar.\<close>

lemma fl_first_half:
  assumes "m \<noteq> No_lock" "i < 5"
  shows "\<exists>t. reach (fl_step m) (fl_init m) t \<and> fl_pcs t i = L_seek \<and> fl_j t i = 36
    \<and> fl_file t = replicate 35 (fl_c ! i) @ ''|'' \<and> fl_writer t = Some i \<and> fl_frame i (fl_init m) t"
proof -
  have "runs (fl_step m) (replicate 4 (Child i)) (fl_init m) (\<lambda>t. fl_pcs t i = L_check \<and> fl_j t i = Suc 0
      \<and> fl_file t = fl_put 0 (fl_c ! i) (fl_file (fl_init m)) \<and> fl_writer t = fl_writer (fl_init m)
      \<and> fl_frame i (fl_init m) t)"
    by (rule fl_iter) (simp_all add: assms fl_init_def)
  from runs_reach [OF this] obtain s where s: "reach (fl_step m) (fl_init m) s" "fl_pcs s i = L_check"
    "fl_j s i = 1" "fl_file s = [fl_c ! i]" "fl_writer s = None" "fl_frame i (fl_init m) s"
    by (auto simp: fl_init_def fl_put_def split: if_splits)
  then obtain t where t: "reach (fl_step m) (fl_init m) t" "fl_pcs t i = L_check" "fl_j t i = 35"
    "fl_file t = [fl_c ! i] @ replicate 34 (fl_c ! i)" "fl_writer t = None" "fl_frame i s t"
    using fl_iters [OF s(1) assms(2) s(2,3), of 34] by auto
  have f: "fl_frame i (fl_init m) t" using s(6) t(6) by (simp add: fl_frame_def)
  then have "\<not> fl_reader t" by (simp add: fl_frame_def fl_init_def)
  with fl_mark [OF t(1) assms t(2,3)] t(4,5) obtain u where "reach (fl_step m) (fl_init m) u"
    "fl_pcs u i = L_seek" "fl_j u i = 36" "fl_file u = fl_file t @ ''|''" "fl_writer u = Some i" "fl_frame i t u"
    by auto
  moreover have "[fl_c ! i] @ replicate 34 (fl_c ! i) = replicate 35 (fl_c ! i)"
    by (simp add: numeral_eq_Suc)
  ultimately show ?thesis using t(4) f by (intro exI [of _ u]) (simp add: fl_frame_def)
qed

lemma fl_private_run:
  "\<exists>s buf. reach (fl_step Exclusive_fd) (fl_init Exclusive_fd) s \<and> (buf, 70) \<in> set (fl_dumps s)"
proof -
  let ?r = "reach (fl_step Exclusive_fd) (fl_init Exclusive_fd)"
  obtain s where s: "?r s" "fl_pcs s 2 = L_seek" "fl_j s 2 = 36" "fl_file s = replicate 35 (fl_c ! 2) @ ''|''"
    "fl_writer s = Some 2" "fl_frame 2 (fl_init Exclusive_fd) s"
    using fl_first_half [of Exclusive_fd 2] by auto
  have "runs (fl_step Exclusive_fd) (replicate 3 (Child 2)) s (\<lambda>t. fl_pcs t 2 = L_check \<and> fl_j t 2 = 37
      \<and> length (fl_file t) = 37 \<and> fl_writer t = Some 2 \<and> fl_frame 2 s t)"
    using s by (simp add: numeral_eq_Suc fl_step_def fl_defs fl_frame_def fl_put_end)
  from reach_runs [OF s(1) this] obtain t where t: "?r t" "fl_pcs t 2 = L_check" "fl_j t 2 = 37"
    "length (fl_file t) = 37" "fl_writer t = Some 2" "fl_frame 2 s t" by blast
  from fl_iters [OF t(1) _ t(2,3,4), of 32] t(5) obtain u where u: "?r u" "fl_pcs u 2 = L_check"
    "fl_j u 2 = 69" "fl_file u = fl_file t @ replicate 32 (fl_c ! 2)" "fl_writer u = Some 2" "fl_frame 2 t u" by auto
  with t(4) have "length (fl_file u) = 69" by simp
  from fl_finish [OF u(1) _ _ u(2,3) this u(5)] obtain v where v: "?r v" "fl_file v = fl_file u @ [fl_c ! 2]"
    "fl_writer v = None" "fl_frame 2 u v" by auto
  have "fl_dump v = D_lock" using s(6) t(6) u(6) v(4) by (simp add: fl_frame_def fl_init_def)
  moreover have "length (fl_file v) = 70" using t(4) u(4) v(2) by simp
  ultimately obtain w where "?r w" "fl_dumps w = fl_dumps v @ [(fl_file v, 70)]"
    using fl_dump_run [OF v(1) _ v(3)] by auto
  then show ?thesis by (intro exI [of _ w] exI [of _ "fl_file v"]) simp
qed

text \<open>
  Child 0 has the lock and seeks to 36, child 1 seeks to 0, and child 0 writes there; then child 0
  goes on to the end.
\<close>

lemma fl_shared_run:
  "\<exists>s buf. reach (fl_step Shared_fd) (fl_init Shared_fd) s \<and> (buf, 70) \<in> set (fl_dumps s)
    \<and> length buf = 70 \<and> buf ! 36 = CHR 0x00 \<and> buf ! 37 = CHR ''/''"
proof -
  let ?r = "reach (fl_step Shared_fd) (fl_init Shared_fd)"
  obtain s where s: "?r s" "fl_pcs s 0 = L_seek" "fl_j s 0 = 36" "fl_file s = replicate 35 (fl_c ! 0) @ ''|''"
    "fl_writer s = Some 0" "fl_frame 0 (fl_init Shared_fd) s"
    using fl_first_half [of Shared_fd 0] by auto
  then have "fl_pcs s 1 = L_check" "fl_j s 1 = 0" by (simp_all add: fl_frame_def fl_init_def)
  with s have "runs (fl_step Shared_fd) [Child 0, Child 1, Child 1, Child 0, Child 0, Child 1] s
      (\<lambda>t. fl_pcs t 0 = L_check \<and> fl_j t 0 = 37 \<and> length (fl_file t) = 36 \<and> fl_writer t = Some 0
        \<and> fl_dump t = fl_dump s)"
    by (simp add: fl_step_def fl_defs fl_fd_def fl_put_def)
  from reach_runs [OF s(1) this] obtain t where t: "?r t" "fl_pcs t 0 = L_check" "fl_j t 0 = 37"
    "length (fl_file t) = 36" "fl_writer t = Some 0" "fl_dump t = fl_dump s" by blast
  from reach_runs [OF t(1) fl_iter [OF _ t(2,3)]] t(4,5) obtain u where u: "?r u" "fl_pcs u 0 = L_check"
    "fl_j u 0 = 38" "fl_file u = fl_file t @ [CHR 0x00, fl_c ! 0]" "fl_writer u = Some 0" "fl_frame 0 t u"
    by (auto simp: fl_put_def)
  with t(4) have "length (fl_file u) = 38" by simp
  from fl_iters [OF u(1) _ u(2,3) this, of 31] u(5) obtain v where v: "?r v" "fl_pcs v 0 = L_check"
    "fl_j v 0 = 69" "fl_file v = fl_file u @ replicate 31 (fl_c ! 0)" "fl_writer v = Some 0" "fl_frame 0 u v" by auto
  with t(4) u(4) have "length (fl_file v) = 69" by simp
  from fl_finish [OF v(1) _ _ v(2,3) this v(5)] obtain w where w: "?r w" "fl_file w = fl_file v @ [fl_c ! 0]"
    "fl_writer w = None" "fl_frame 0 v w" by auto
  have "fl_dump w = D_lock" using s(6) t(6) u(6) v(6) w(4) by (simp add: fl_frame_def fl_init_def)
  moreover have "length (fl_file w) = 70" using t(4) u(4) v(4) w(2) by simp
  ultimately obtain x where "?r x" "fl_dumps x = fl_dumps w @ [(fl_file w, 70)]"
    using fl_dump_run [OF w(1) _ w(3)] by auto
  moreover have "fl_file w = fl_file t @ [CHR 0x00, CHR ''/''] @ replicate 32 (CHR ''/'')"
    by (simp add: w(2) v(4) u(4) fl_c_def replicate_append_same numeral_eq_Suc)
  ultimately show ?thesis using t(4)
    by (intro exI [of _ x] exI [of _ "fl_file w"]) (simp add: nth_append)
qed

text \<open>
  With \<open>-l\<close> the lock does not keep the second half together: the children share one file
  offset, and there is a schedule after which the parent, holding its lock, prints a complete
  line whose second half is not one child's.
\<close>

theorem fl_shared_inconsistent:
  assumes "fl_main openable argv = Inr (out, Shared_fd, s0)"
  shows "\<exists>s buf. reach (fl_step Shared_fd) s0 s \<and> (buf, 70) \<in> set (fl_dumps s)
    \<and> \<not> (\<exists>ch. drop 36 buf = replicate 34 ch)"
proof -
  obtain s buf where s: "reach (fl_step Shared_fd) s0 s" "(buf, 70) \<in> set (fl_dumps s)"
    and b: "length buf = 70" "buf ! 36 = CHR 0x00" "buf ! 37 = CHR ''/''"
    using fl_shared_run fl_main_mode [OF assms] by blast
  have "drop 36 buf \<noteq> replicate 34 ch" for ch
  proof
    assume r: "drop 36 buf = replicate 34 ch"
    have "drop 36 buf ! 0 = ch" "drop 36 buf ! 1 = ch" unfolding r by simp_all
    with b have "CHR 0x00 = CHR ''/''" by simp
    then show False by simp
  qed
  with s show ?thesis by blast
qed

theorem fl_shared_inconsistent_witness:
  "\<exists>s buf. reach (fl_step Shared_fd) (fl_init Shared_fd) s \<and> (buf, 70) \<in> set (fl_dumps s)
    \<and> \<not> (\<exists>ch. drop 36 buf = replicate 34 ch)"
proof -
  have "fl_main True [''a.out'', ''-l'', ''xxx''] = Inr (''Using locking with a shared fd.'' @ nl,
      Shared_fd, fl_init Shared_fd)"
    by (simp add: fl_main_def getopt_scan.simps)
  then show ?thesis by (rule fl_shared_inconsistent)
qed

section \<open>Interrupts\<close>

text \<open>
  The processes that are alive: the children 0 to 4 (those that \<open>fork\<close> created and that could open
  the file) and the parent, number 5. SIGINT is sent to any of them. \<open>sigint_handler()\<close> calls
  \<open>kill(SIGTERM, -1)\<close>, with the arguments exchanged: -1 is no signal, so the call fails. The kernel
  releases the locks of a process that ends; its place in the program is put back, and never looked at again.
\<close>

definition fl_kill :: "int \<Rightarrow> int \<Rightarrow> nat set \<Rightarrow> nat set" where
  "fl_kill pid sig alive = (if 0 \<le> sig \<and> sig \<le> 64 \<and> pid = - 1 then {} else alive)"

definition sigint_handler :: "nat \<Rightarrow> nat set \<Rightarrow> nat set" where
  "sigint_handler p alive = fl_kill 15 (- 1) alive - {p}"

definition fl_exit :: "nat \<Rightarrow> fl_state \<Rightarrow> fl_state" where
  "fl_exit p s =
     s\<lparr>fl_writer := (if fl_writer s = Some p then None else fl_writer s), fl_reader := (fl_reader s \<and> p \<noteq> 5),
       fl_pcs := (if p = 5 then fl_pcs s else (fl_pcs s)(p := L_check)),
       fl_dump := (if p = 5 then D_lock else fl_dump s)\<rparr>"

text \<open>\<open>Fcntl_fails p\<close>: \<open>fcntl\<close> returns -1 in \<open>lock()\<close>, \<open>lockr()\<close> or \<open>unlock()\<close>, and \<open>err\<close> ends the process.\<close>

datatype fls_event = Sched fl_event | Sigint nat | Fcntl_fails nat

fun fl_actor :: "fl_event \<Rightarrow> nat" where
  "fl_actor (Child i) = i"
| "fl_actor Dump = 5"

definition fl_at_fcntl :: "fl_mode \<Rightarrow> nat \<Rightarrow> fl_state \<Rightarrow> bool" where
  "fl_at_fcntl m p s \<longleftrightarrow>
     m \<noteq> No_lock \<and> (if p = 5 then fl_dump s = D_lock \<or> fl_dump s = D_unlock
                   else fl_pcs s p = L_lock \<or> fl_pcs s p = L_unlock)"

fun fls_step :: "fl_mode \<Rightarrow> fls_event \<Rightarrow> fl_state \<times> nat set \<Rightarrow> (fl_state \<times> nat set) option" where
  "fls_step m (Sched e) (s, alive) = (if fl_actor e \<in> alive then map_option (\<lambda>t. (t, alive)) (fl_step m e s) else None)"
| "fls_step m (Sigint p) (s, alive) = (if p \<in> alive then Some (fl_exit p s, sigint_handler p alive) else None)"
| "fls_step m (Fcntl_fails p) (s, alive) =
     (if p \<in> alive \<and> fl_at_fcntl m p s then Some (fl_exit p s, alive - {p}) else None)"

lemma fls_lift_exec:
  "exec (fl_step m) es s = Some t \<Longrightarrow> {..5} \<subseteq> alive \<Longrightarrow> exec (fls_step m) (map Sched es) (s, alive) = Some (t, alive)"
proof (induction es arbitrary: s)
  case (Cons e es)
  then obtain u where u: "fl_step m e s = Some u" "exec (fl_step m) es u = Some t" by (auto split: option.splits)
  then have "fl_actor e \<in> alive" using Cons.prems(2) by (cases e) (auto simp: fl_step_def split: if_splits)
  with u Cons show ?case by simp
qed simp

lemma fls_lift: "reach (fl_step m) s t \<Longrightarrow> {..5} \<subseteq> alive \<Longrightarrow> reach (fls_step m) (s, alive) (t, alive)"
  unfolding reach_iff_exec using fls_lift_exec by blast

text \<open>The steps without SIGINT, under \<open>-L\<close>.\<close>

definition fls_calm :: "fls_event \<Rightarrow> fl_state \<times> nat set \<Rightarrow> (fl_state \<times> nat set) option" where
  "fls_calm e x = (case e of Sigint p \<Rightarrow> None | _ \<Rightarrow> fls_step Exclusive_fd e x)"

lemma fls_calm_exec:
  "\<forall>p. Sigint p \<notin> set es \<Longrightarrow> exec fls_calm es x = exec (fls_step Exclusive_fd) es x"
proof (induction es arbitrary: x)
  case (Cons e es)
  then have "fls_calm e x = fls_step Exclusive_fd e x" by (auto simp: fls_calm_def split: fls_event.split)
  with Cons show ?case by (auto split: option.split)
qed simp

lemma fl_exit_child:
  assumes inv: "fl_inv s" and pc: "fl_pcs s p = L_lock \<or> fl_pcs s p = L_unlock" and p: "p \<noteq> 5"
  shows "fl_inv (fl_exit p s)"
proof -
  have loc: "fl_local (fl_pcs s i) (fl_j s i) (fl_off s (Suc i)) (fl_writer s = Some i)"
    and pos: "fl_pos (fl_pcs s i) (fl_j s i) \<le> length (fl_file s)" for i using inv by (simp_all add: fl_inv_def)
  show ?thesis
  using pc
proof
  assume "fl_pcs s p = L_unlock"
  moreover from this loc [of p] have "fl_writer s = Some p" by simp
  moreover from this inv have "\<not> fl_reader s" by (auto simp: fl_inv_def)
  ultimately have "fl_child Exclusive_fd p (fl_pcs s p) s = Some (fl_exit p s)"
    using p by (simp add: fl_exit_def fl_goto_def)
  moreover have "p < 5" using inv \<open>fl_writer s = Some p\<close> by (simp add: fl_inv_def)
  ultimately show ?thesis using inv by (blast intro: fl_inv_child)
next
  assume l: "fl_pcs s p = L_lock"
  with loc [of p] have w: "fl_writer s \<noteq> Some p" and j: "fl_j s p = 35" by simp_all
  have "fl_local (fl_pcs (fl_exit p s) i) (fl_j s i) (fl_off s (Suc i)) (fl_writer s = Some i)" for i
    using loc [of i] l w j by (simp add: fl_exit_def)
  moreover have "fl_pos (fl_pcs (fl_exit p s) i) (fl_j s i) \<le> length (fl_file s)" for i
    using pos [of i] l j by (auto simp: fl_exit_def)
  moreover have "fl_upper_ok (fl_exit p s)"
    using inv w p by (auto simp: fl_inv_def fl_upper_ok_def fl_exit_def split: option.splits)
  moreover have "fl_exit p s = s\<lparr>fl_pcs := (fl_pcs s)(p := L_check)\<rparr>" using w p by (simp add: fl_exit_def)
  ultimately show ?thesis using inv unfolding fl_inv_def by simp
qed
qed

lemma fl_exit_parent:
  assumes "fl_inv s"
  shows "fl_inv (fl_exit 5 s)"
proof -
  have "fl_writer s \<noteq> Some 5" using assms by (auto simp: fl_inv_def)
  then have "fl_exit 5 s = s\<lparr>fl_reader := False, fl_dump := D_lock\<rparr>" by (simp add: fl_exit_def)
  with assms show ?thesis by (cases "fl_writer s") (simp_all add: fl_inv_def fl_upper_ok_def Let_def)
qed

lemma fls_inv_step:
  assumes "fl_inv (fst x)" "fls_calm e x = Some y"
  shows "fl_inv (fst y)"
proof (cases e)
  case (Sched d)
  with assms show ?thesis by (cases x) (auto simp: fls_calm_def intro: fl_inv_step split: if_splits)
next
  case (Fcntl_fails p)
  with assms(2) have at: "fl_at_fcntl Exclusive_fd p (fst x)" "fst y = fl_exit p (fst x)" and "p \<in> snd x"
    by (cases x; auto simp: fls_calm_def split: if_splits)+
  show ?thesis
  proof (cases "p = 5")
    case False
    with at have pc: "fl_pcs (fst x) p = L_lock \<or> fl_pcs (fst x) p = L_unlock" by (simp add: fl_at_fcntl_def)
    show ?thesis unfolding at(2) by (rule fl_exit_child [OF assms(1) pc False])
  qed (use at fl_exit_parent [OF assms(1)] in simp)
qed (use assms in \<open>simp add: fls_calm_def\<close>)

interpretation fl: step_invariant fls_calm "(fl_init Exclusive_fd, alive)" "\<lambda>x. fl_inv (fst x)" for alive
proof unfold_locales
  show "fl_inv (fst (fl_init Exclusive_fd, alive))" by (simp add: fl_inv_def fl_init_def fl_upper_ok_def)
qed (rule fls_inv_step)

text \<open>
  C19: With \<open>-L\<close>, whichever of the children exist, and as long as no SIGINT arrives and the writes to the file
  succeed, every line the parent prints shows the second half either not written at all or written
  completely by one child: the bar, then 34 times that child's character. A process whose \<open>fcntl\<close> fails
  ends and does not break this; one that is interrupted can.
\<close>

theorem fl_private_consistent:
  assumes "fl_main openable argv = Inr (out, Exclusive_fd, s0)"
    and "exec (fls_step Exclusive_fd) es (s0, forked) = Some (s, alive)" "\<forall>p. Sigint p \<notin> set es"
    and "(buf, n) \<in> set (fl_dumps s)"
  shows "length buf = 70 \<and> (n \<le> 35 \<and> drop 35 buf = replicate 35 (CHR 0x00)
    \<or> n = 70 \<and> (\<exists>i < 5. drop 35 buf = CHR ''|'' # replicate 34 (fl_c ! i)))"
proof -
  have "s0 = fl_init Exclusive_fd" using fl_main_mode [OF assms(1)] .
  moreover have "exec fls_calm es (s0, forked) = Some (s, alive)" using assms(2,3) by (simp add: fls_calm_exec)
  ultimately have "fl_inv s" using fl.reach_inv [of forked "(s, alive)"] exec_reach by fastforce
  with assms(4) have "fl_dump_ok (buf, n)" by (auto simp: fl_inv_def)
  then show ?thesis by (simp add: fl_dump_ok_def fl_full_def)
qed

theorem fl_private_consistent_witness:
  "\<exists>es s buf. exec (fls_step Exclusive_fd) es (fl_init Exclusive_fd, {..5}) = Some (s, {..5})
    \<and> (buf, 70) \<in> set (fl_dumps s) \<and> (\<exists>i < 5. drop 35 buf = CHR ''|'' # replicate 34 (fl_c ! i))"
proof -
  obtain es s buf where s: "exec (fl_step Exclusive_fd) es (fl_init Exclusive_fd) = Some s" "(buf, 70) \<in> set (fl_dumps s)"
    using fl_private_run unfolding reach_iff_exec by blast
  from fls_lift_exec [OF s(1) order.refl]
  have e: "exec (fls_step Exclusive_fd) (map Sched es) (fl_init Exclusive_fd, {..5}) = Some (s, {..5})" .
  have m: "fl_main True [''a.out'', ''-L'', ''xxx''] = Inr (''Using locking with private fd's.'' @ nl,
      Exclusive_fd, fl_init Exclusive_fd)"
    by (simp add: fl_main_def getopt_scan.simps)
  have "\<forall>p. Sigint p \<notin> set (map Sched es)" by auto
  from fl_private_consistent [OF m e this s(2)] e s(2) show ?thesis
    by (intro exI [of _ "map Sched es"] exI [of _ s] exI [of _ buf]) simp
qed

lemma fls_all: "distinct ps \<Longrightarrow> alive = set ps \<Longrightarrow> \<exists>t. exec (fls_step m) (map Sigint ps) (s, alive) = Some (t, {})"
proof (induction ps arbitrary: s alive)
  case (Cons p ps)
  then have "sigint_handler p alive = set ps" by (auto simp: sigint_handler_def fl_kill_def)
  with Cons show ?case by simp
qed simp

text \<open>
  A SIGINT ends exactly the process it is sent to: all of them, if the terminal sends it to the group, but if only the parent
  is interrupted no child ends. And it breaks the promise of \<open>-L\<close>: a child that is interrupted while it holds the lock loses
  it, and the parent prints a second half of which the rest is missing.
\<close>

theorem fls_interrupts:
  "sigint_handler p alive = alive - {p}"
  "distinct ps \<Longrightarrow> \<exists>t. exec (fls_step m) (map Sigint ps) (s, set ps) = Some (t, {})"
  "\<exists>t alive. reach (fls_step Exclusive_fd) (fl_init Exclusive_fd, {..5}) (t, alive) \<and> (\<exists>d \<in> set (fl_dumps t). \<not> fl_dump_ok d)"
proof -
  show "sigint_handler p alive = alive - {p}" by (auto simp: sigint_handler_def fl_kill_def)
  show "distinct ps \<Longrightarrow> \<exists>t. exec (fls_step m) (map Sigint ps) (s, set ps) = Some (t, {})" by (rule fls_all) simp_all
  obtain s where s: "reach (fl_step Exclusive_fd) (fl_init Exclusive_fd) s" "fl_file s = replicate 35 (fl_c ! 0) @ ''|''"
    "fl_writer s = Some 0" "fl_frame 0 (fl_init Exclusive_fd) s"
    using fl_first_half [of Exclusive_fd 0] by auto
  let ?d = "(replicate 35 (fl_c ! 0) @ ''|'' @ replicate 34 (CHR 0x00), 36)"
  have "runs (fls_step Exclusive_fd) (Sigint 0 # map Sched [Dump, Dump, Dump, Dump]) (s, {..5}) (\<lambda>x. ?d \<in> set (fl_dumps (fst x)))"
    using s(2-4) by (simp add: fl_exit_def sigint_handler_def fl_kill_def fl_step_def fl_frame_def fl_init_def)
  from reach_runs [OF fls_lift [OF s(1) order.refl] this]
  obtain x where "reach (fls_step Exclusive_fd) (fl_init Exclusive_fd, {..5}) x" "?d \<in> set (fl_dumps (fst x))" by blast
  moreover have "\<not> fl_dump_ok ?d" by (simp add: fl_dump_ok_def)
  ultimately show "\<exists>t alive. reach (fls_step Exclusive_fd) (fl_init Exclusive_fd, {..5}) (t, alive) \<and> (\<exists>d \<in> set (fl_dumps t). \<not> fl_dump_ok d)"
    by (metis prod.collapse)
qed

section \<open>\<open>lock-unlock.c\<close>\<close>

text \<open>
  The file system is the set of existing names; \<open>fails\<close> says whether the one system call of the
  program fails for another reason than that the file exists, or is missing.
\<close>

definition lu_lock :: "bool \<Rightarrow> string \<Rightarrow> string set \<Rightarrow> int \<times> string set" where
  "lu_lock fails name fs =
     (if fails then (2, fs) else if name \<in> fs then (1, fs) else (0, insert name fs))"

definition lu_unlock :: "bool \<Rightarrow> string \<Rightarrow> string set \<Rightarrow> int \<times> string set" where
  "lu_unlock fails name fs =
     (if fails \<or> name \<notin> fs then (2, fs) else (0, fs - {name}))"

definition lu_main :: "bool \<Rightarrow> string list \<Rightarrow> string set \<Rightarrow> int \<times> string set" where
  "lu_main fails argv fs =
     (if length argv \<noteq> 3 then (1, fs)
      else if argv ! 2 \<noteq> ''lock'' \<and> argv ! 2 \<noteq> ''unlock'' then (1, fs)
      else if argv ! 2 = ''lock'' then lu_lock fails (argv ! 1) fs
      else lu_unlock fails (argv ! 1) fs)"

text \<open>A history: what a sequence of runs of the program, by any processes, returned.\<close>

fun lu_history :: "(bool \<times> string list) list \<Rightarrow> string set \<Rightarrow> (string list \<times> int) list \<times> string set" where
  "lu_history [] fs = ([], fs)"
| "lu_history ((fails, argv) # calls) fs =
     (let r = lu_main fails argv fs; h = lu_history calls (snd r)
      in ((argv, fst r) # fst h, snd h))"

text \<open>How many calls of the history acquired, or released, the lock file \<open>name\<close>.\<close>

definition lu_count :: "string \<Rightarrow> string \<Rightarrow> (string list \<times> int) list \<Rightarrow> int" where
  "lu_count opn name h =
     int (length (filter (\<lambda>(argv, rc). rc = 0 \<and> argv ! 1 = name \<and> argv ! 2 = opn) h))"

lemma lu_count_Cons:
  "lu_count opn name ((argv, rc) # h) =
     (if rc = 0 \<and> argv ! 1 = name \<and> argv ! 2 = opn then 1 else 0) + lu_count opn name h"
  by (simp add: lu_count_def)

lemma lu_main_step:
  assumes "lu_main fails argv fs = (rc, fs')"
  shows "(if rc = 0 \<and> argv ! 1 = name \<and> argv ! 2 = ''lock'' then 1 else 0)
    - (if rc = 0 \<and> argv ! 1 = name \<and> argv ! 2 = ''unlock'' then 1 else 0)
    = (if name \<in> fs' then 1 else 0) - (if name \<in> fs then 1 else (0 :: int))"
proof (cases "length argv = 3 \<and> (argv ! 2 = ''lock'' \<or> argv ! 2 = ''unlock'')")
  case True
  then consider "length argv = 3" "argv ! 2 = ''lock''" | "length argv = 3" "argv ! 2 = ''unlock''" by blast
  then show ?thesis
    using assms by cases (auto simp: lu_main_def lu_lock_def lu_unlock_def split: if_splits)
next
  case False
  with assms show ?thesis by (auto simp: lu_main_def split: if_splits)
qed

lemma lu_history_balance:
  "lu_count ''lock'' name (fst (lu_history calls fs)) - lu_count ''unlock'' name (fst (lu_history calls fs))
    = (if name \<in> snd (lu_history calls fs) then 1 else 0) - (if name \<in> fs then 1 else 0)"
proof (induction calls arbitrary: fs)
  case (Cons c calls)
  obtain fails argv where c: "c = (fails, argv)" by force
  obtain rc fs' where r: "lu_main fails argv fs = (rc, fs')" by force
  have h: "lu_history (c # calls) fs = ((argv, rc) # fst (lu_history calls fs'), snd (lu_history calls fs'))"
    by (simp add: c r Let_def)
  show ?case
    using Cons.IH [of fs'] lu_main_step [OF r, of name] unfolding h fst_conv snd_conv lu_count_Cons
    by linarith
qed (simp add: lu_count_def)

text \<open>
  \<open>lock-unlock.c\<close>: in every sequence of runs on a free lock file, after each of them the
  acquisitions exceed the releases by one if the file exists and by nothing if it does not: of
  any number of processes that release only what they acquired, at most one holds the lock.
\<close>

theorem lu_exclusive:
  assumes "name \<notin> fs"
  shows "lu_count ''lock'' name (fst (lu_history calls fs)) - lu_count ''unlock'' name (fst (lu_history calls fs))
    = (if name \<in> snd (lu_history calls fs) then 1 else 0)"
  using lu_history_balance [of name calls fs] assms by simp

theorem lu_exclusive_witness:
  "fst (lu_history [(False, [''l'', ''x'', ''lock'']), (False, [''l'', ''x'', ''lock''])] {})
     = [([''l'', ''x'', ''lock''], 0), ([''l'', ''x'', ''lock''], 1)]
   \<and> lu_count ''lock'' ''x'' (fst (lu_history [(False, [''l'', ''x'', ''lock'']), (False, [''l'', ''x'', ''lock''])] {})) = 1"
  using lu_exclusive [of "''x''" "{}" "[(False, [''l'', ''x'', ''lock'']), (False, [''l'', ''x'', ''lock''])]"]
  by (simp add: Let_def lu_main_def lu_lock_def lu_count_def)

section \<open>\<open>lockf.c\<close>\<close>

text \<open>
  \<open>lockf(fd, F_LOCK, len)\<close> locks from the current file offset on, to infinity when \<open>len\<close> is 0. The
  result is the exit message or the set of locked bytes with which the program pauses.
\<close>

definition c_lockf :: "nat \<Rightarrow> nat \<Rightarrow> nat set" where
  "c_lockf off len = (if len = 0 then {off..} else {off..<off + len})"

definition lf_main :: "string list \<Rightarrow> string option \<Rightarrow> bool \<Rightarrow> exit_info + nat set" where
  "lf_main argv file granted =
     (if length argv \<noteq> 2 then Inl (Exit 1 ''usage'')
      else case file of
        None \<Rightarrow> Inl (Exit 1 ''open'')
      | Some f \<Rightarrow>
          let size = length f; off = size
          in if granted then Inr (c_lockf off size) else Inl (Exit 1 ''lockf''))"

text \<open>
  The comment of \<open>lockf.c\<close> announces a lock on the whole file, but the seek to the end that
  finds the size also moves the start of the lock: no byte of a non-empty file is locked, only as
  many bytes beyond its end.
\<close>

theorem lf_locks_beyond_end:
  assumes "lf_main argv (Some f) granted = Inr locked"
  shows "locked \<inter> {..<length f} = {} \<and> (f \<noteq> [] \<longrightarrow> locked = {length f..<2 * length f})
    \<and> (f = [] \<longrightarrow> locked = UNIV)"
  using assms by (auto simp: lf_main_def c_lockf_def Let_def split: if_splits)

theorem lf_locks_beyond_end_witness:
  "\<exists>locked. lf_main [''lockf'', ''f''] (Some ''abc'') True = Inr locked \<and> locked = {3..<6}"
proof -
  have "lf_main [''lockf'', ''f''] (Some ''abc'') True = Inr {3..<6}"
    by (simp add: lf_main_def c_lockf_def Let_def eval_nat_numeral)
  from lf_locks_beyond_end [OF this] this show ?thesis by simp
qed

end
