(* ===== verification/Nonblocking_Connect.thy ===== *)
theory Nonblocking_Connect
  imports Prelude
begin

text \<open>
  \<open>select/non-blocking-connect.c\<close>: connections to several hosts are started without blocking and
  \<open>select\<close> tells which of them have been decided. What the network answers is a parameter.
\<close>

section \<open>Hosts, addresses and lines of output\<close>

datatype nb_family = Inet | Inet6 | Other_family

datatype nb_connected = Connected | In_progress | Refused string

text \<open>
  One address of a host and what the calls for it return: \<open>getnameinfo\<close> an error code or the
  numeric address, \<open>socket\<close> a descriptor or -1 with a message, \<open>fcntl\<close> success, and \<open>connect\<close>.
\<close>

record nb_addr =
  ad_family :: nb_family
  ad_name :: "int + string"
  ad_socket :: "string + int"
  ad_fcntl_ok :: bool
  ad_connect :: nb_connected

record nb_host =
  h_name :: string
  h_port :: string
  h_sockets :: "int list"
  h_numsock :: nat

definition nb_hosts :: "nb_host list" where
  "nb_hosts =
     map (\<lambda>(name, port). \<lparr>h_name = name, h_port = port, h_sockets = [- 1, - 1, - 1], h_numsock = 0\<rparr>)
       [(''www.devnull.cz'', ''80''), (''www.devnull.cz'', ''33''), (''u-pl6.ms.mff.cuni.cz'', ''999''),
        (''localhost'', ''22''), (''localhost'', ''7'')]"

datatype nb_msg =
    Will_work string string
  | Note string
  | Socket_made string string string int
  | At_once string string
  | Conn_ok string string int
  | Conn_failed string string int string
  | Timed_out string string int

fun nb_text :: "nb_msg \<Rightarrow> string" where
  "nb_text (Will_work h p) = ''  '' @ h @ '':'' @ p @ nl"
| "nb_text (Note t) = t @ nl"
| "nb_text (Socket_made h ip p fd) =
     ''  '' @ h @ ''['' @ ip @ '']:'' @ p @ '' socket '' @ show_int fd @ nl"
| "nb_text (At_once h p) = ''  '' @ h @ '' connected OK on port '' @ p @ nl"
| "nb_text (Conn_ok h p fd) = ''  '' @ h @ '' connected OK on port '' @ p @ '' socket '' @ show_int fd @ nl"
| "nb_text (Conn_failed h p fd e) =
     ''  '' @ h @ '' connect failed on port '' @ p @ '' socket '' @ show_int fd @ '' ('' @ e @ '')'' @ nl"
| "nb_text (Timed_out h p fd) = ''  '' @ h @ '' timed out on port '' @ p @ '' socket '' @ show_int fd @ nl"

text \<open>How the program can end early: by \<open>err\<close> or \<open>errx\<close>, or by writing beyond \<open>sockets[]\<close>.\<close>

datatype nb_stop = Stop string | Overrun

text \<open>\<open>nb_stopped\<close>: the call whose failure has ended the program in the waiting loop, by \<open>err(1, ...)\<close>.\<close>

record nb_state =
  nb_done :: "nb_host list"
  nb_n :: nat
  nb_num_sockets :: nat
  nb_wrfds :: "int set"
  nb_wrfds_orig :: "int set"
  nb_timeouts :: nat
  nb_stopped :: "string option"
  nb_out :: "nb_msg list"

section \<open>Starting the connections\<close>

definition nb_say :: "nb_msg list \<Rightarrow> nb_state \<Rightarrow> nb_state" where
  "nb_say ms s = s\<lparr>nb_out := nb_out s @ ms\<rparr>"

text \<open>
  The loop over the addresses of one host; \<open>i\<close> advances for every address, \<open>numsock\<close> only for those
  that get a socket. \<open>error = getnameinfo(...) != 0\<close> assigns the result of the comparison, so the
  message is that of error 1. \<open>gai\<close> is \<open>gai_strerror\<close>.
\<close>

fun nb_addresses :: "(int \<Rightarrow> string) \<Rightarrow> nb_addr list \<Rightarrow> nat \<Rightarrow> nb_host \<Rightarrow> nb_state \<Rightarrow>
    nb_stop + nb_host \<times> nb_state" where
  "nb_addresses gai [] i h s = Inr (h, s)"
| "nb_addresses gai (ad # ads) i h s =
     (if ad_family ad \<noteq> Inet \<and> ad_family ad \<noteq> Inet6 then nb_addresses gai ads (Suc i) h s
      else case ad_name ad of
        Inl e \<Rightarrow> Inl (Stop (gai 1))
      | Inr ip \<Rightarrow>
          if length (h_sockets h) \<le> i then Inl Overrun
          else case ad_socket ad of
            Inl e \<Rightarrow> nb_addresses gai ads (Suc i) (h\<lparr>h_sockets := (h_sockets h)[i := - 1]\<rparr>) s
          | Inr fd \<Rightarrow>
              let h' = h\<lparr>h_sockets := (h_sockets h)[i := fd], h_numsock := Suc (h_numsock h)\<rparr>;
                  s' = nb_say [Socket_made (h_name h) ip (h_port h) fd] s
              in if \<not> ad_fcntl_ok ad then Inl (Stop ''fcntl'')
                 else
                   let s'' =
                     (case ad_connect ad of
                        In_progress \<Rightarrow> nb_say [Note ''    connect EINPROGRESS OK (expected)'']
                          (s'\<lparr>nb_wrfds := insert fd (nb_wrfds s')\<rparr>)
                      | Refused e \<Rightarrow> nb_say [Note (''    connect: '' @ e)] (s'\<lparr>nb_n := Suc (nb_n s')\<rparr>)
                      | Connected \<Rightarrow> nb_say [At_once (h_name h) (h_port h)] (s'\<lparr>nb_n := Suc (nb_n s')\<rparr>))
                   in nb_addresses gai ads (Suc i) h' (s''\<lparr>nb_num_sockets := Suc (nb_num_sockets s'')\<rparr>))"

text \<open>The loop over the hosts, each with the result of its \<open>getaddrinfo\<close>.\<close>

fun nb_start :: "(int \<Rightarrow> string) \<Rightarrow> (nb_host \<times> (int + nb_addr list)) list \<Rightarrow> nb_state \<Rightarrow>
    nb_stop + nb_state" where
  "nb_start gai [] s = Inr s"
| "nb_start gai ((h, Inl e) # hs) s = Inl (Stop (gai e))"
| "nb_start gai ((h, Inr ads) # hs) s =
     (case nb_addresses gai ads 0 h s of
        Inl stop \<Rightarrow> Inl stop
      | Inr (h', s') \<Rightarrow> nb_start gai hs (s'\<lparr>nb_done := nb_done s' @ [h']\<rparr>))"

definition nb_main :: "(int \<Rightarrow> string) \<Rightarrow> (int + nb_addr list) list \<Rightarrow> nb_stop + nb_state" where
  "nb_main gai answers =
     (let s0 = \<lparr>nb_done = [], nb_n = 0, nb_num_sockets = 0, nb_wrfds = {}, nb_wrfds_orig = {},
            nb_timeouts = 0, nb_stopped = None,
            nb_out = [Note ''will work with these machines/services:'']
              @ map (\<lambda>h. Will_work (h_name h) (h_port h)) nb_hosts
              @ [Note ''making all sockets non-blocking, and calling connect...'']\<rparr>
      in case nb_start gai (zip nb_hosts answers) s0 of
           Inl stop \<Rightarrow> Inl stop
         | Inr s \<Rightarrow> Inr (nb_say [Note ''continuing with select now, checking the connect status...'']
                     (s\<lparr>nb_wrfds_orig := nb_wrfds s\<rparr>)))"

section \<open>Waiting\<close>

text \<open>The two nested loops over hosts and sockets visit these, in this order.\<close>

definition nb_sockets :: "nb_host list \<Rightarrow> (string \<times> string \<times> int) list" where
  "nb_sockets hs = concat (map (\<lambda>h. map (\<lambda>fd. (h_name h, h_port h, fd)) (take (h_numsock h) (h_sockets h))) hs)"

text \<open>
  What \<open>select\<close> returns: a timeout, some ready descriptors, each with the \<open>SO_ERROR\<close> that
  \<open>getsockopt\<close> then reports and its text (or its failure, \<^term>\<open>None\<close>), or an error.
\<close>

datatype nb_event = Tick | Ready "(int \<times> (int \<times> string) option) list" | Select_fails

fun nb_check :: "(int \<times> (int \<times> string) option) list \<Rightarrow> (string \<times> string \<times> int) list \<Rightarrow> nb_state \<Rightarrow> nb_state" where
  "nb_check ready [] s = s"
| "nb_check ready ((h, p, fd) # xs) s =
     (case map_of ready fd of
        None \<Rightarrow> nb_check ready xs s
      | Some None \<Rightarrow> s\<lparr>nb_stopped := Some ''getsockopt''\<rparr>
      | Some (Some (optval, e)) \<Rightarrow>
          nb_check ready xs
            (nb_say [if optval = 0 then Conn_ok h p fd else Conn_failed h p fd e]
              (s\<lparr>nb_wrfds_orig := nb_wrfds_orig s - {fd}, nb_n := Suc (nb_n s)\<rparr>)))"

text \<open>
  One round of the \<open>while\<close> loop. \<open>select\<close> leaves only the ready descriptors in the set it is given,
  and none when it times out.
\<close>

definition nb_round :: "nb_event \<Rightarrow> nb_state \<Rightarrow> nb_state option" where
  "nb_round e s =
     (if nb_stopped s \<noteq> None \<or> nb_n s = nb_num_sockets s \<or> nb_timeouts s = 10 then None
      else case e of
        Tick \<Rightarrow>
          Some (nb_say [if Suc (nb_timeouts s) = 10 then Note ''  TIMEOUT REACHED'' else Note ''  .'']
            (s\<lparr>nb_wrfds := {}, nb_timeouts := Suc (nb_timeouts s)\<rparr>))
      | Ready ready \<Rightarrow>
          if ready = [] \<or> \<not> fst ` set ready \<subseteq> nb_wrfds s then None
          else let s' = nb_check ready (nb_sockets (nb_done s)) s
               in Some (if nb_stopped s' = None then s'\<lparr>nb_wrfds := nb_wrfds_orig s'\<rparr> else s')
      | Select_fails \<Rightarrow> Some (s\<lparr>nb_stopped := Some ''select''\<rparr>))"

text \<open>The loop after it, over the sockets still in the set.\<close>

definition nb_final :: "nb_state \<Rightarrow> nb_msg list" where
  "nb_final s =
     map (\<lambda>(h, p, fd). Timed_out h p fd) (filter (\<lambda>(h, p, fd). fd \<in> nb_wrfds_orig s) (nb_sockets (nb_done s)))"

text \<open>The end of the program, with its exit status and everything it has printed.\<close>

definition nb_end :: "nb_state \<Rightarrow> (int \<times> nb_msg list) option" where
  "nb_end s =
     (if nb_stopped s \<noteq> None then Some (1, nb_out s)
      else if nb_n s = nb_num_sockets s \<or> nb_timeouts s = 10 then Some (0, nb_out s @ nb_final s)
      else None)"

fun nb_fails :: "nb_event \<Rightarrow> bool" where
  "nb_fails Tick = False"
| "nb_fails (Ready r) = list_ex (\<lambda>x. snd x = None) r"
| "nb_fails Select_fails = True"

fun nb_reports :: "int \<Rightarrow> nb_msg \<Rightarrow> bool" where
  "nb_reports fd (Conn_ok h p fd') = (fd' = fd)"
| "nb_reports fd (Conn_failed h p fd' e) = (fd' = fd)"
| "nb_reports fd (Timed_out h p fd') = (fd' = fd)"
| "nb_reports fd _ = False"

definition nb_fds :: "nb_state \<Rightarrow> int list" where
  "nb_fds s = map (\<lambda>(h, p, fd). fd) (nb_sockets (nb_done s))"

section \<open>Every connection is reported once\<close>

text \<open>How often \<open>fd\<close> has been reported, and its membership in a set as a number.\<close>

definition nb_times :: "int \<Rightarrow> nb_msg list \<Rightarrow> nat" where
  "nb_times fd ms = length (filter (nb_reports fd) ms)"

lemma nb_times_append [simp]: "nb_times fd (xs @ ys) = nb_times fd xs + nb_times fd ys"
  by (simp add: nb_times_def)

lemma nb_check_same:
  "nb_done (nb_check r xs s) = nb_done s \<and> nb_num_sockets (nb_check r xs s) = nb_num_sockets s
   \<and> nb_timeouts (nb_check r xs s) = nb_timeouts s"
  by (induction xs arbitrary: s) (auto simp: nb_say_def split: option.splits)

lemma nb_check_works:
  "\<not> list_ex (\<lambda>x. snd x = None) r \<Longrightarrow> nb_stopped (nb_check r xs s) = nb_stopped s"
proof (induction xs arbitrary: s)
  case (Cons x xs)
  have "map_of r fd \<noteq> Some None" for fd
    using Cons.prems map_of_SomeD [of r fd None] by (force simp: list_ex_iff)
  with Cons show ?case by (cases x) (auto simp: nb_say_def split: option.splits)
qed simp

lemma nb_chain: "a + x = b + y \<Longrightarrow> b = c + z \<Longrightarrow> y + z = w \<Longrightarrow> a + x = c + (w :: nat)"
  by simp

lemma nb_check_effect:
  assumes "distinct (map (\<lambda>(h, p, fd). fd) xs)" "finite (nb_wrfds_orig s)"
    and "\<forall>(h, p, fd) \<in> set xs. map_of r fd \<noteq> None \<longrightarrow> fd \<in> nb_wrfds_orig s"
  shows "nb_times fd (nb_out (nb_check r xs s)) + (if fd \<in> nb_wrfds_orig (nb_check r xs s) then 1 else 0)
       = nb_times fd (nb_out s) + (if fd \<in> nb_wrfds_orig s then 1 else 0)
   \<and> nb_n (nb_check r xs s) + card (nb_wrfds_orig (nb_check r xs s)) = nb_n s + card (nb_wrfds_orig s)
   \<and> nb_wrfds_orig (nb_check r xs s) \<subseteq> nb_wrfds_orig s"
  using assms
proof (induction xs arbitrary: s)
  case (Cons x xs)
  obtain h p f where x: "x = (h, p, f)" by (cases x)
  show ?case
  proof (cases "map_of r f")
    case None
    with Cons x show ?thesis by auto
  next
    case got: (Some w)
  show ?thesis
  proof (cases w)
  case None
    with got x show ?thesis by simp
  next
  case (Some v)
    obtain optval e where v: "v = (optval, e)" by force
    let ?m = "if optval = 0 then Conn_ok h p f else Conn_failed h p f e"
    let ?s = "nb_say [?m] (s\<lparr>nb_wrfds_orig := nb_wrfds_orig s - {f}, nb_n := Suc (nb_n s)\<rparr>)"
    have f: "f \<in> nb_wrfds_orig s" using Cons.prems(3) got x by auto
    have c: "card (nb_wrfds_orig s) = Suc (card (nb_wrfds_orig s - {f}))"
      by (rule card.remove) (use f Cons.prems(2) in simp_all)
    have "\<forall>(h, p, fd) \<in> set xs. map_of r fd \<noteq> None \<longrightarrow> fd \<in> nb_wrfds_orig ?s"
    proof (intro ballI, clarify)
      fix h' p' fd' v'
      assume "(h', p', fd') \<in> set xs" "map_of r fd' = Some v'"
      moreover from this have "fd' \<in> nb_wrfds_orig s" using Cons.prems(3) x by force
      moreover have "fd' \<noteq> f" using Cons.prems(1) x \<open>(h', p', fd') \<in> set xs\<close> by force
      ultimately show "fd' \<in> nb_wrfds_orig ?s" by (simp add: nb_say_def)
    qed
    with Cons.IH [of ?s] Cons.prems have ih: "nb_times fd (nb_out (nb_check r xs ?s)) + (if fd \<in> nb_wrfds_orig (nb_check r xs ?s) then 1 else 0)
         = nb_times fd (nb_out ?s) + (if fd \<in> nb_wrfds_orig ?s then 1 else 0)
       \<and> nb_n (nb_check r xs ?s) + card (nb_wrfds_orig (nb_check r xs ?s)) = nb_n ?s + card (nb_wrfds_orig ?s)
       \<and> nb_wrfds_orig (nb_check r xs ?s) \<subseteq> nb_wrfds_orig ?s"
      by (simp add: x nb_say_def)
    have ts: "nb_times fd (nb_out ?s) = nb_times fd (nb_out s) + (if f = fd then 1 else 0)"
      by (simp add: nb_say_def nb_times_def)
    have ms: "(if fd \<in> nb_wrfds_orig ?s then 1 else 0) + (if f = fd then 1 else 0) = (if fd \<in> nb_wrfds_orig s then 1 else (0 :: nat))"
      using f by (cases "f = fd") (simp_all add: nb_say_def)
    have os: "nb_wrfds_orig ?s = nb_wrfds_orig s - {f}" "nb_n ?s = Suc (nb_n s)" by (simp_all add: nb_say_def)
    have st: "nb_check r (x # xs) s = nb_check r xs ?s" by (simp add: x got Some v)
    show ?thesis
      unfolding st
    proof (intro conjI)
      show "nb_times fd (nb_out (nb_check r xs ?s)) + (if fd \<in> nb_wrfds_orig (nb_check r xs ?s) then 1 else 0)
          = nb_times fd (nb_out s) + (if fd \<in> nb_wrfds_orig s then 1 else 0)"
        by (rule nb_chain [OF ih [THEN conjunct1] ts ms])
      show "nb_n (nb_check r xs ?s) + card (nb_wrfds_orig (nb_check r xs ?s)) = nb_n s + card (nb_wrfds_orig s)"
        using ih [THEN conjunct2, THEN conjunct1] unfolding os c by simp
      show "nb_wrfds_orig (nb_check r xs ?s) \<subseteq> nb_wrfds_orig s"
        using ih [THEN conjunct2, THEN conjunct2] unfolding os by blast
    qed
  qed
  qed
qed auto

definition nb_good :: "nb_state \<Rightarrow> bool" where
  "nb_good s \<longleftrightarrow>
     distinct (nb_fds s) \<and> nb_wrfds_orig s \<subseteq> set (nb_fds s) \<and> nb_wrfds s = nb_wrfds_orig s \<and> nb_stopped s = None
     \<and> nb_n s + card (nb_wrfds_orig s) = nb_num_sockets s \<and> (\<forall>fd. nb_times fd (nb_out s) = 0)"

definition nb_inv :: "nb_state \<Rightarrow> nb_state \<Rightarrow> bool" where
  "nb_inv s0 s \<longleftrightarrow> (nb_good s0 \<longrightarrow>
     nb_done s = nb_done s0 \<and> nb_num_sockets s = nb_num_sockets s0
     \<and> nb_wrfds_orig s \<subseteq> nb_wrfds_orig s0
     \<and> (nb_stopped s = None \<longrightarrow> nb_wrfds s = {} \<or> nb_wrfds s = nb_wrfds_orig s)
     \<and> nb_n s + card (nb_wrfds_orig s) = nb_num_sockets s
     \<and> (\<forall>fd. nb_times fd (nb_out s) + (if fd \<in> nb_wrfds_orig s then 1 else 0)
           = (if fd \<in> nb_wrfds_orig s0 then 1 else 0)))"

lemma nb_inv_round:
  assumes inv: "nb_inv s0 s" and st: "nb_round e s = Some t"
  shows "nb_inv s0 t"
proof (cases e)
  case Tick
  with inv st show ?thesis
    by (auto simp: nb_round_def nb_inv_def nb_say_def nb_times_def split: if_splits)
next
  case (Ready r)
  let ?u = "nb_check r (nb_sockets (nb_done s)) s"
  from Ready st have r: "r \<noteq> []" "fst ` set r \<subseteq> nb_wrfds s" and run: "nb_stopped s = None"
    and t: "t = (if nb_stopped ?u = None then ?u\<lparr>nb_wrfds := nb_wrfds_orig ?u\<rparr> else ?u)"
    by (auto simp: nb_round_def Let_def split: if_splits)
  show ?thesis
  proof (cases "nb_good s0")
    case good: True
    with inv have same: "nb_done s = nb_done s0" and sub: "nb_wrfds_orig s \<subseteq> nb_wrfds_orig s0"
      and ws: "nb_wrfds s = nb_wrfds_orig s"
      using r run by (auto simp: nb_inv_def)
    have d: "distinct (map (\<lambda>(h, p, fd). fd) (nb_sockets (nb_done s)))"
      using good same by (simp add: nb_good_def nb_fds_def)
    have "nb_wrfds_orig s \<subseteq> set (nb_fds s0)" using sub good by (auto simp: nb_good_def)
    then have fin: "finite (nb_wrfds_orig s)" by (rule finite_subset) simp
    have "\<forall>(h, p, fd) \<in> set (nb_sockets (nb_done s)). map_of r fd \<noteq> None \<longrightarrow> fd \<in> nb_wrfds_orig s"
      using r(2) ws by (auto simp: map_of_eq_None_iff)
    note eff = nb_check_effect [OF d fin this]
    have "nb_wrfds_orig ?u \<subseteq> nb_wrfds_orig s0" using eff sub by blast
    with eff nb_check_same [of r "nb_sockets (nb_done s)" s] inv good show ?thesis
      unfolding t nb_inv_def by (cases "nb_stopped ?u") auto
  qed (simp add: nb_inv_def)
next
  case Select_fails
  with inv st show ?thesis by (auto simp: nb_round_def nb_inv_def split: if_splits)
qed

lemma nb_stopped_round:
  assumes "nb_round e s = Some t" "\<not> nb_fails e"
  shows "nb_stopped t = None"
  using assms nb_check_works by (cases e) (auto simp: nb_round_def nb_say_def Let_def split: if_splits)

lemma nb_stopped_exec:
  "exec nb_round es s = Some t \<Longrightarrow> nb_stopped s = None \<Longrightarrow> nb_stopped t \<noteq> None \<Longrightarrow> \<exists>e \<in> set es. nb_fails e"
proof (induction es arbitrary: s)
  case (Cons e es)
  then obtain u where u: "nb_round e s = Some u" "exec nb_round es u = Some t" by (auto split: option.splits)
  show ?case
  proof (cases "nb_fails e")
    case False
    from Cons.IH [OF u(2) nb_stopped_round [OF u(1) False] Cons.prems(3)] show ?thesis by auto
  qed simp
qed simp

interpretation nb: step_invariant nb_round s0 "nb_inv s0" for s0
proof unfold_locales
  show "nb_inv s0 s0" by (simp add: nb_inv_def nb_good_def)
qed (rule nb_inv_round)

section \<open>The start leaves a good state\<close>

definition nb_usable :: "nb_addr \<Rightarrow> bool" where
  "nb_usable ad \<longleftrightarrow>
     ad_family ad \<noteq> Other_family \<and> (\<exists>ip. ad_name ad = Inr ip) \<and> (\<exists>fd. ad_socket ad = Inr fd) \<and> ad_fcntl_ok ad"

definition nb_new :: "nb_addr list \<Rightarrow> int list" where
  "nb_new ads = map (\<lambda>ad. projr (ad_socket ad)) ads"

definition nb_growing :: "int list \<Rightarrow> nb_state \<Rightarrow> bool" where
  "nb_growing F s \<longleftrightarrow>
     distinct F \<and> nb_stopped s = None \<and> nb_wrfds s \<subseteq> set F \<and> nb_n s + card (nb_wrfds s) = nb_num_sockets s
     \<and> (\<forall>fd. nb_times fd (nb_out s) = 0)"

lemma nb_addresses_good:
  assumes "\<forall>ad \<in> set ads. nb_usable ad" "length (h_sockets h) = 3" "i + length ads \<le> 3" "h_numsock h = i"
    and "nb_growing F s" "distinct (F @ nb_new ads)"
  shows "\<exists>h' s'. nb_addresses gai ads i h s = Inr (h', s') \<and> nb_growing (F @ nb_new ads) s'
    \<and> take (h_numsock h') (h_sockets h') = take i (h_sockets h) @ nb_new ads
    \<and> nb_done s' = nb_done s \<and> nb_timeouts s' = nb_timeouts s"
  using assms
proof (induction ads arbitrary: i h F s)
  case (Cons ad ads)
  from Cons.prems(1) obtain ip fd where ad: "ad_name ad = Inr ip" "ad_socket ad = Inr fd" "ad_fcntl_ok ad"
    "ad_family ad = Inet \<or> ad_family ad = Inet6"
    by (auto simp: nb_usable_def) (meson nb_family.exhaust)
  let ?h = "h\<lparr>h_sockets := (h_sockets h)[i := fd], h_numsock := Suc (h_numsock h)\<rparr>"
  let ?s' = "nb_say [Socket_made (h_name h) ip (h_port h) fd] s"
  let ?s'' = "(case ad_connect ad of
                In_progress \<Rightarrow> nb_say [Note ''    connect EINPROGRESS OK (expected)'']
                  (?s'\<lparr>nb_wrfds := insert fd (nb_wrfds ?s')\<rparr>)
              | Refused e \<Rightarrow> nb_say [Note (''    connect: '' @ e)] (?s'\<lparr>nb_n := Suc (nb_n ?s')\<rparr>)
              | Connected \<Rightarrow> nb_say [At_once (h_name h) (h_port h)] (?s'\<lparr>nb_n := Suc (nb_n ?s')\<rparr>))"
  let ?t = "?s''\<lparr>nb_num_sockets := Suc (nb_num_sockets ?s'')\<rparr>"
  have step: "nb_addresses gai (ad # ads) i h s = nb_addresses gai ads (Suc i) ?h ?t"
    using ad Cons.prems(2,3) by (auto simp: Let_def)
  have new: "nb_new (ad # ads) = fd # nb_new ads" using ad by (simp add: nb_new_def)
  have F: "fd \<notin> set F" "distinct F" using Cons.prems(6) by (auto simp: new)
  have "fd \<notin> nb_wrfds s" using F Cons.prems(5) by (auto simp: nb_growing_def)
  moreover have "finite (nb_wrfds s)" using Cons.prems(5) finite_subset by (auto simp: nb_growing_def)
  ultimately have grow: "nb_growing (F @ [fd]) ?t"
    using Cons.prems(5) F by (cases "ad_connect ad") (auto simp: nb_growing_def nb_say_def nb_times_def)
  have same: "nb_done ?t = nb_done s \<and> nb_timeouts ?t = nb_timeouts s"
    by (cases "ad_connect ad") (auto simp: nb_say_def)
  have tk: "take (Suc i) (h_sockets ?h) = take i (h_sockets h) @ [fd]"
    using Cons.prems(2,3) by (simp add: take_Suc_conv_app_nth)
  have "\<exists>h' s'. nb_addresses gai ads (Suc i) ?h ?t = Inr (h', s') \<and> nb_growing ((F @ [fd]) @ nb_new ads) s'
    \<and> take (h_numsock h') (h_sockets h') = take (Suc i) (h_sockets ?h) @ nb_new ads
    \<and> nb_done s' = nb_done ?t \<and> nb_timeouts s' = nb_timeouts ?t"
    using Cons.prems grow by (intro Cons.IH) (auto simp: new)
  then show ?case unfolding step new same [THEN conjunct1] same [THEN conjunct2] tk by simp
qed (simp add: nb_new_def)

lemma nb_start_good:
  assumes "\<forall>(h, ads) \<in> set hs. length (h_sockets h) = 3 \<and> h_numsock h = 0 \<and> length ads \<le> 3 \<and> (\<forall>ad \<in> set ads. nb_usable ad)"
    and "nb_growing (nb_fds s) s" "distinct (nb_fds s @ concat (map (nb_new \<circ> snd) hs))"
  shows "\<exists>s'. nb_start gai (map (\<lambda>(h, ads). (h, Inr ads)) hs) s = Inr s' \<and> nb_growing (nb_fds s') s'
    \<and> nb_timeouts s' = nb_timeouts s"
  using assms
proof (induction hs arbitrary: s)
  case (Cons x hs)
  obtain h ads where x: "x = (h, ads)" by force
  have disj: "distinct (nb_fds s @ nb_new ads)" using Cons.prems(3) by (auto simp: x)
  obtain h' s' where 1: "nb_addresses gai ads 0 h s = Inr (h', s')" "nb_growing (nb_fds s @ nb_new ads) s'"
    "take (h_numsock h') (h_sockets h') = nb_new ads" "nb_done s' = nb_done s" "nb_timeouts s' = nb_timeouts s"
    using nb_addresses_good [OF _ _ _ _ _ disj, of h 0 s gai] Cons.prems(1,2) by (auto simp: x)
  let ?t = "s'\<lparr>nb_done := nb_done s' @ [h']\<rparr>"
  have f: "nb_fds ?t = nb_fds s @ nb_new ads"
    using 1 by (simp add: nb_fds_def nb_sockets_def comp_def)
  have "nb_growing (nb_fds ?t) ?t" using 1(2) unfolding f by (simp add: nb_growing_def)
  moreover have "distinct (nb_fds ?t @ concat (map (nb_new \<circ> snd) hs))"
    using Cons.prems(3) unfolding f by (simp add: x comp_def)
  ultimately have "\<exists>s'. nb_start gai (map (\<lambda>(h, ads). (h, Inr ads)) hs) ?t = Inr s' \<and> nb_growing (nb_fds s') s'
      \<and> nb_timeouts s' = nb_timeouts ?t"
    using Cons.prems(1) by (intro Cons.IH) (auto simp: x comp_def)
  with 1 show ?case by (simp add: x)
qed auto

text \<open>The environment in which every address yields a socket of its own.\<close>

definition nb_fair :: "nb_addr list list \<Rightarrow> bool" where
  "nb_fair adss \<longleftrightarrow>
     (\<forall>ads \<in> set adss. length ads \<le> 3 \<and> (\<forall>ad \<in> set ads. nb_usable ad))
     \<and> distinct (concat (map nb_new adss))"

lemma nb_main_good:
  assumes "nb_fair adss" "length adss = 5" "nb_main gai (map Inr adss) = Inr s"
  shows "nb_good s"
proof -
  let ?hs = "zip nb_hosts adss"
  define s0 where "s0 = \<lparr>nb_done = [], nb_n = 0, nb_num_sockets = 0, nb_wrfds = {}, nb_wrfds_orig = {},
            nb_timeouts = 0, nb_stopped = None,
            nb_out = [Note ''will work with these machines/services:'']
              @ map (\<lambda>h. Will_work (h_name h) (h_port h)) nb_hosts
              @ [Note ''making all sockets non-blocking, and calling connect...'']\<rparr>"
  have z: "zip nb_hosts (map Inr adss) = map (\<lambda>(h, ads). (h, Inr ads)) ?hs"
    by (simp add: zip_map2)
  have l: "length nb_hosts = 5" by (simp add: nb_hosts_def)
  have m: "map (nb_new \<circ> snd) ?hs = map nb_new adss"
    using l assms(2) by (simp flip: map_map)
  have "\<exists>s'. nb_start gai (map (\<lambda>(h, ads). (h, Inr ads)) ?hs) s0 = Inr s' \<and> nb_growing (nb_fds s') s'
    \<and> nb_timeouts s' = nb_timeouts s0"
  proof (rule nb_start_good)
    show "\<forall>(h, ads) \<in> set ?hs. length (h_sockets h) = 3 \<and> h_numsock h = 0 \<and> length ads \<le> 3 \<and> (\<forall>ad \<in> set ads. nb_usable ad)"
      using assms(1) by (fastforce simp: nb_fair_def nb_hosts_def dest: set_zip_leftD set_zip_rightD)
    show "nb_growing (nb_fds s0) s0"
      by (simp add: s0_def nb_growing_def nb_fds_def nb_sockets_def nb_times_def nb_hosts_def)
    show "distinct (nb_fds s0 @ concat (map (nb_new \<circ> snd) ?hs))"
      using assms(1) unfolding m by (simp add: nb_fair_def s0_def nb_fds_def nb_sockets_def)
  qed
  then obtain s' where s': "nb_start gai (map (\<lambda>(h, ads). (h, Inr ads)) ?hs) s0 = Inr s'" "nb_growing (nb_fds s') s'"
    by blast
  with assms(3) have s: "s = nb_say [Note ''continuing with select now, checking the connect status...'']
      (s'\<lparr>nb_wrfds_orig := nb_wrfds s'\<rparr>)"
    unfolding nb_main_def Let_def z s0_def [symmetric] by simp
  then have "nb_fds s = nb_fds s'" by (simp add: nb_fds_def nb_say_def)
  with s s'(2) show ?thesis by (auto simp: nb_growing_def nb_good_def nb_say_def nb_times_def)
qed

section \<open>Properties\<close>

lemma nb_final_times:
  "distinct (nb_fds s) \<Longrightarrow> nb_times fd (nb_final s) = (if fd \<in> nb_wrfds_orig s \<inter> set (nb_fds s) then 1 else 0)"
proof -
  have "distinct (map (\<lambda>(h, p, fd). fd) xs) \<Longrightarrow>
      nb_times fd (map (\<lambda>(h, p, fd). Timed_out h p fd) (filter (\<lambda>(h, p, fd). fd \<in> W) xs))
      = (if fd \<in> W \<inter> (\<lambda>(h, p, fd). fd) ` set xs then 1 else 0)" for xs W
    by (induction xs) (auto simp: nb_times_def, force+)
  then show "distinct (nb_fds s) \<Longrightarrow> ?thesis"
    by (simp add: nb_final_def nb_fds_def)
qed

text \<open>
  C13: When every address is IPv4 or IPv6 and gets a socket of its own, and no host has more than
  three: as long as \<open>select\<close> and \<open>getsockopt\<close> do not fail, then whatever \<open>select\<close> reports and whenever
  the waiting loop is left, each connection that was in progress is reported exactly once, as
  connected, as failed or as timed out, and no other is; and the loop that counts finished
  connections ends only when none is in progress. Only a failure of one of the two calls ends the
  loop early: the program then exits with status 1, prints nothing more, and has reported each
  connection at most once.
\<close>

theorem nb_each_reported_once:
  assumes "nb_fair adss" "length adss = 5" "nb_main gai (map Inr adss) = Inr s0" "exec nb_round es s0 = Some s"
  shows "(nb_stopped s = None \<longrightarrow>
        nb_times fd (nb_out s @ nb_final s) = (if fd \<in> nb_wrfds_orig s0 then 1 else 0)
        \<and> (nb_n s = nb_num_sockets s \<longrightarrow> nb_wrfds_orig s = {})
        \<and> (nb_n s = nb_num_sockets s \<or> nb_timeouts s = 10 \<longrightarrow> nb_end s = Some (0, nb_out s @ nb_final s)))
    \<and> (nb_stopped s \<noteq> None \<longrightarrow>
        nb_end s = Some (1, nb_out s) \<and> (\<exists>e \<in> set es. nb_fails e)
        \<and> nb_times fd (nb_out s) \<le> (if fd \<in> nb_wrfds_orig s0 then 1 else 0))"
proof -
  have good: "nb_good s0" using assms(1-3) by (rule nb_main_good)
  with nb.reach_inv [OF exec_reach [OF assms(4)]] have d: "nb_done s = nb_done s0" and sub: "nb_wrfds_orig s \<subseteq> nb_wrfds_orig s0"
    and c: "nb_n s + card (nb_wrfds_orig s) = nb_num_sockets s"
    and t: "nb_times fd (nb_out s) + (if fd \<in> nb_wrfds_orig s then 1 else 0) = (if fd \<in> nb_wrfds_orig s0 then 1 else 0)"
    by (simp_all add: nb_inv_def)
  have f: "nb_fds s = nb_fds s0" using d by (simp add: nb_fds_def)
  have "nb_wrfds_orig s \<subseteq> set (nb_fds s0)" using sub good by (auto simp: nb_good_def)
  then have fin: "finite (nb_wrfds_orig s)" and "nb_wrfds_orig s \<inter> set (nb_fds s) = nb_wrfds_orig s"
    unfolding f by (auto intro: finite_subset)
  moreover have "distinct (nb_fds s)" using good f by (simp add: nb_good_def)
  ultimately have "nb_times fd (nb_out s @ nb_final s) = (if fd \<in> nb_wrfds_orig s0 then 1 else 0)"
    using t nb_final_times [of s fd] by auto
  moreover have "nb_n s = nb_num_sockets s \<longrightarrow> nb_wrfds_orig s = {}" using c fin by auto
  moreover have "nb_stopped s \<noteq> None \<longrightarrow> (\<exists>e \<in> set es. nb_fails e)"
    using nb_stopped_exec [OF assms(4)] good by (simp add: nb_good_def)
  moreover have "nb_times fd (nb_out s) \<le> (if fd \<in> nb_wrfds_orig s0 then 1 else 0)" using t by simp
  ultimately show ?thesis by (simp add: nb_end_def)
qed

definition nb_example :: "nb_addr list list" where
  "nb_example =
     [[\<lparr>ad_family = Inet6, ad_name = Inr ''::1'', ad_socket = Inr 3, ad_fcntl_ok = True, ad_connect = In_progress\<rparr>,
       \<lparr>ad_family = Inet, ad_name = Inr ''127.0.0.1'', ad_socket = Inr 4, ad_fcntl_ok = True, ad_connect = In_progress\<rparr>],
      [], [], [], []]"

theorem nb_each_reported_once_witness:
  "\<exists>s0 s. nb_main (\<lambda>e. []) (map Inr nb_example) = Inr s0
    \<and> exec nb_round [Ready [(3, Some (0, []))], Tick] s0 = Some s \<and> nb_stopped s = None
    \<and> nb_times 3 (nb_out s @ nb_final s) = 1 \<and> nb_times 4 (nb_out s @ nb_final s) = 1"
proof -
  have f: "nb_fair nb_example" "length nb_example = 5"
    by (simp_all add: nb_fair_def nb_example_def nb_usable_def nb_new_def)
  obtain s0 where s0: "nb_main (\<lambda>e. []) (map Inr nb_example) = Inr s0" "nb_wrfds_orig s0 = {3, 4}"
      "nb_n s0 = 0" "nb_num_sockets s0 = 2" "nb_timeouts s0 = 0" "nb_wrfds s0 = {3, 4}"
      "nb_sockets (nb_done s0) = [(''www.devnull.cz'', ''80'', 3), (''www.devnull.cz'', ''80'', 4)]"
    by (auto simp: nb_main_def Let_def nb_hosts_def nb_example_def nb_say_def nb_sockets_def)
  moreover have "nb_stopped s0 = None"
    using nb_main_good [OF f s0(1)] by (simp add: nb_good_def)
  ultimately obtain s where s: "exec nb_round [Ready [(3, Some (0, []))], Tick] s0 = Some s" "nb_stopped s = None"
    by (simp add: nb_round_def Let_def nb_say_def)
  show ?thesis
    using nb_each_reported_once [OF f s0(1) s(1), of 3]
      nb_each_reported_once [OF f s0(1) s(1), of 4] s0 s by simp
qed

lemma nb_blind:
  "nb_wrfds s = {} \<Longrightarrow> Select_fails \<notin> set es \<Longrightarrow> exec nb_round es s = Some t \<Longrightarrow>
     set es \<subseteq> {Tick} \<and> nb_wrfds t = {} \<and> nb_wrfds_orig t = nb_wrfds_orig s \<and> nb_n t = nb_n s
     \<and> nb_timeouts t = nb_timeouts s + length es \<and> (es \<noteq> [] \<longrightarrow> nb_timeouts t \<le> 10 \<or> 10 < nb_timeouts s)"
proof (induction es arbitrary: s)
  case (Cons e es)
  then obtain u where u: "nb_round e s = Some u" "exec nb_round es u = Some t" by (auto split: option.splits)
  with Cons.prems(1,2) have e: "e = Tick" and "nb_wrfds u = {}" "nb_wrfds_orig u = nb_wrfds_orig s"
    "nb_n u = nb_n s" "nb_timeouts u = Suc (nb_timeouts s)" "nb_timeouts s \<noteq> 10"
    by (cases e; auto simp: nb_round_def nb_say_def split: if_splits)+
  with Cons.IH [OF _ _ u(2)] Cons.prems(2) show ?case by (cases "es = []") auto
qed simp

text \<open>
  A second without any event blinds the program: \<open>select\<close> has emptied the set, which is not
  restored before the next call. After it no connection is found finished any more, whatever
  happens to it: unless \<open>select\<close> fails, the only further results of \<open>select\<close> are timeouts, at most nine, and all
  connections then in progress are reported as timed out.
\<close>

theorem nb_blind_after_tick:
  assumes "nb_round Tick s = Some t" "exec nb_round es t = Some u" "Select_fails \<notin> set es"
  shows "set es \<subseteq> {Tick} \<and> nb_wrfds_orig u = nb_wrfds_orig s \<and> nb_n u = nb_n s
    \<and> nb_timeouts u = nb_timeouts s + 1 + length es
    \<and> (nb_timeouts s \<le> 9 \<longrightarrow> length es \<le> 9 - nb_timeouts s)"
proof -
  from assms(1) have t: "nb_wrfds t = {}" "nb_wrfds_orig t = nb_wrfds_orig s" "nb_n t = nb_n s"
    "nb_timeouts t = Suc (nb_timeouts s)"
    by (auto simp: nb_round_def nb_say_def split: if_splits)
  from nb_blind [OF t(1) assms(3,2)] t show ?thesis by (cases "es = []") auto
qed

definition nb_pending :: nb_state where
  "nb_pending =
     \<lparr>nb_done = [], nb_n = 0, nb_num_sockets = 1, nb_wrfds = {3}, nb_wrfds_orig = {3}, nb_timeouts = 0,
      nb_stopped = None, nb_out = []\<rparr>"

theorem nb_blind_after_tick_witness:
  "\<exists>t u. nb_round (Ready [(3, Some (0, []))]) nb_pending \<noteq> None \<and> nb_round Tick nb_pending = Some t
    \<and> exec nb_round (replicate 9 Tick) t = Some u \<and> nb_wrfds_orig u = {3} \<and> nb_timeouts u = 10"
proof -
  obtain t where t: "nb_round Tick nb_pending = Some t" "nb_n t = 0" "nb_num_sockets t = 1" "nb_timeouts t = 1" "nb_stopped t = None"
    by (simp add: nb_round_def nb_pending_def nb_say_def)
  then obtain u where u: "exec nb_round (replicate 9 Tick) t = Some u"
    by (simp add: numeral_eq_Suc nb_round_def nb_say_def)
  have "nb_round (Ready [(3, Some (0, []))]) nb_pending \<noteq> None"
    by (simp add: nb_round_def nb_pending_def Let_def)
  with nb_blind_after_tick [OF t(1) u(1)] t u show ?thesis by (simp add: nb_pending_def)
qed

text \<open>
  An address without a socket before one that connects makes the program spin: the sockets of
  a host are stored by the number of the address, but only as many slots are checked as there are
  sockets. \<open>select\<close> reports the connected socket at once, for ever, and nothing is counted.
\<close>

theorem nb_gap_spins:
  assumes "nb_main gai [Inr [\<lparr>ad_family = Inet6, ad_name = Inr ip6, ad_socket = Inl msg, ad_fcntl_ok = True,
        ad_connect = In_progress\<rparr>,
      \<lparr>ad_family = Inet, ad_name = Inr ip4, ad_socket = Inr fd, ad_fcntl_ok = True, ad_connect = In_progress\<rparr>],
      Inr [], Inr [], Inr [], Inr []] = Inr s0" and "0 \<le> fd"
  shows "exec nb_round (replicate k (Ready [(fd, Some (0, []))])) s0 = Some s0 \<and> nb_n s0 < nb_num_sockets s0"
proof -
  from assms(1) have s0: "nb_wrfds s0 = {fd}" "nb_wrfds_orig s0 = {fd}" "nb_n s0 = 0" "nb_num_sockets s0 = 1"
      "nb_timeouts s0 = 0" "nb_stopped s0 = None"
      "nb_sockets (nb_done s0) = [(''www.devnull.cz'', ''80'', - 1)]"
    by (auto simp: nb_main_def Let_def nb_hosts_def nb_say_def nb_sockets_def)
  then have "nb_round (Ready [(fd, Some (0, []))]) s0 = Some s0"
    using assms(2) by (simp add: nb_round_def Let_def)
  then have "exec nb_round (replicate k (Ready [(fd, Some (0, []))])) s0 = Some s0"
    by (induction k) simp_all
  with s0 show ?thesis by simp
qed

theorem nb_gap_spins_witness:
  "\<exists>s0. exec nb_round (replicate 1000 (Ready [(3, Some (0, []))])) s0 = Some s0 \<and> nb_n s0 < nb_num_sockets s0"
proof -
  obtain s0 where "nb_main (\<lambda>e. []) [Inr [\<lparr>ad_family = Inet6, ad_name = Inr ''::1'', ad_socket = Inl ''EAFNOSUPPORT'',
        ad_fcntl_ok = True, ad_connect = In_progress\<rparr>,
      \<lparr>ad_family = Inet, ad_name = Inr ''127.0.0.1'', ad_socket = Inr 3, ad_fcntl_ok = True, ad_connect = In_progress\<rparr>],
      Inr [], Inr [], Inr [], Inr []] = Inr s0"
    by (auto simp: nb_main_def Let_def nb_hosts_def nb_say_def)
  from nb_gap_spins [OF this] show ?thesis by auto
qed

end
