(* ===== verification/Tcp_Programs.thy ===== *)
theory Tcp_Programs
  imports Getopt
begin

text \<open>
  The stream socket programs of \<open>tcp/\<close> and \<open>select/\<close>: setting up the socket, serving connections
  one after the other, serving a terminal and a socket with \<open>select\<close> or by polling, and the two
  clients that send what they read. What the kernel returns is an argument.
\<close>

section \<open>Setting up a socket\<close>

datatype sock_call =
    K_socket | K_setsockopt | K_bind int | K_listen int | K_accept | K_nonblock_out | K_nonblock_sock | K_pton string
  | K_connect int | K_resolve | K_linger int

text \<open>
  The calls a \<open>main()\<close> makes, each with the message of the \<open>err\<close> that follows when it fails: which
  of them are made, and the message if one fails.
\<close>

fun run_calls :: "(sock_call \<Rightarrow> bool) \<Rightarrow> (sock_call \<times> string) list \<Rightarrow> sock_call list \<times> string option" where
  "run_calls works [] = ([], None)"
| "run_calls works ((c, msg) # cs) =
     (if works c then (c # fst (run_calls works cs), snd (run_calls works cs)) else ([c], Some msg))"

datatype set_up = Usage | Set_up "sock_call list" "string option"

definition set_up :: "(sock_call \<Rightarrow> bool) \<Rightarrow> (sock_call \<times> string) list \<Rightarrow> set_up" where
  "set_up works cs = Set_up (fst (run_calls works cs)) (snd (run_calls works cs))"

text \<open>\<open>htons(atoi(s))\<close>, with or without a cast to \<open>short\<close>, keeps the low 16 bits.\<close>

definition net_port :: "string \<Rightarrow> int" where
  "net_port s = atoi s mod 65536"

abbreviation SOMAXCONN :: int where "SOMAXCONN \<equiv> 4096"

definition ts_main :: "(sock_call \<Rightarrow> bool) \<Rightarrow> string list \<Rightarrow> set_up" where
  "ts_main works argv =
     (if length argv \<noteq> 2 then Usage
      else set_up works [(K_socket, ''socket''), (K_setsockopt, ''setsockopt''),
        (K_bind (net_port (argv ! 1)), ''bind''), (K_listen SOMAXCONN, ''listen'')])"

definition te_main :: "(sock_call \<Rightarrow> bool) \<Rightarrow> string list \<Rightarrow> set_up" where
  "te_main works argv =
     (if length argv < 2 then Usage
      else set_up works [(K_socket, ''socket''), (K_bind (net_port (argv ! 1)), ''bind''),
        (K_listen 0, ''listen'')])"

definition re_main :: "(sock_call \<Rightarrow> bool) \<Rightarrow> string list \<Rightarrow> set_up" where
  "re_main works argv =
     (if length argv \<noteq> 3 then Usage
      else set_up works ((K_socket, ''socket'')
        # (if atoi (argv ! 1) \<noteq> 0 then [(K_setsockopt, ''setsockopt'')] else [])
        @ [(K_bind (net_port (argv ! 2)), ''bind''), (K_listen SOMAXCONN, ''listen'')]))"

definition ul_main :: "(sock_call \<Rightarrow> bool) \<Rightarrow> string list \<Rightarrow> set_up" where
  "ul_main works argv =
     (if length argv < 2 then Usage
      else set_up works [(K_socket, ''socket''), (K_setsockopt, ''setsockopt''),
        (K_bind (net_port (argv ! 1)), ''bind''),
        (K_listen (if length argv = 3 then atoi (argv ! 2) else SOMAXCONN), ''listen'')])"

definition se_main :: "(sock_call \<Rightarrow> bool) \<Rightarrow> string list \<Rightarrow> set_up" where
  "se_main works argv =
     (if length argv \<noteq> 2 then Usage
      else set_up works [(K_socket, ''socket''), (K_setsockopt, ''setsockopt''),
        (K_bind (net_port (argv ! 1)), ''bind''), (K_listen SOMAXCONN, ''listen'')])"

definition bw_main :: "(sock_call \<Rightarrow> bool) \<Rightarrow> string list \<Rightarrow> set_up" where
  "bw_main works argv =
     (if length argv \<noteq> 2 then Usage
      else set_up works [(K_socket, ''socket''), (K_setsockopt, ''setsockopt''),
        (K_bind (net_port (argv ! 1)), ''bind''), (K_listen SOMAXCONN, ''listen''),
        (K_nonblock_out, ''fcntl''), (K_nonblock_sock, ''fcntl'')])"

definition ws_main :: "(sock_call \<Rightarrow> bool) \<Rightarrow> string list \<Rightarrow> set_up" where
  "ws_main works argv =
     (if length argv \<noteq> 2 then Usage
      else set_up works [(K_socket, ''socket''), (K_setsockopt, ''setsockopt''),
        (K_bind (net_port (argv ! 1)), ''bind''), (K_listen SOMAXCONN, ''listen''),
        (K_accept, ''accept'')])"

definition cn_main :: "(sock_call \<Rightarrow> bool) \<Rightarrow> string list \<Rightarrow> set_up" where
  "cn_main works argv =
     (if length argv \<noteq> 3 then Usage
      else set_up works [(K_pton (argv ! 1), ''inet_pton failed''), (K_socket, ''socket''),
        (K_connect (net_port (argv ! 2)), ''connect'')])"

lemma run_calls_stop:
  "run_calls works cs = (done, Some msg) \<longleftrightarrow>
     (\<exists>pre c post. cs = pre @ (c, msg) # post \<and> (\<forall>x \<in> set pre. works (fst x)) \<and> \<not> works c
        \<and> done = map fst pre @ [c])"
proof (induction cs arbitrary: "done")
  case (Cons x cs)
  obtain c m where x: "x = (c, m)" by force
  show ?case
  proof (cases "works c")
    case True
    have "run_calls works (x # cs) = (done, Some msg) \<longleftrightarrow>
        (\<exists>d. run_calls works cs = (d, Some msg) \<and> done = c # d)"
      by (cases "run_calls works cs") (auto simp: x True)
    also have "\<dots> \<longleftrightarrow> (\<exists>pre c' post. x # cs = pre @ (c', msg) # post \<and> (\<forall>x \<in> set pre. works (fst x))
        \<and> \<not> works c' \<and> done = map fst pre @ [c'])"
      unfolding Cons.IH
    proof (intro iffI; elim exE conjE)
      fix d pre c' post
      assume "cs = pre @ (c', msg) # post" "\<forall>x \<in> set pre. works (fst x)" "\<not> works c'"
        "d = map fst pre @ [c']" "done = c # d"
      then show "\<exists>pre c' post. x # cs = pre @ (c', msg) # post \<and> (\<forall>x \<in> set pre. works (fst x))
        \<and> \<not> works c' \<and> done = map fst pre @ [c']"
        by (intro exI [of _ "x # pre"] exI [of _ c'] exI [of _ post]) (simp add: x True)
    next
      fix pre c' post
      assume e: "x # cs = pre @ (c', msg) # post" "\<forall>x \<in> set pre. works (fst x)" "\<not> works c'"
        "done = map fst pre @ [c']"
      then obtain pre' where "pre = x # pre'" using True x by (cases pre) auto
      with e show "\<exists>d. (\<exists>pre c post. cs = pre @ (c, msg) # post \<and> (\<forall>x \<in> set pre. works (fst x))
        \<and> \<not> works c \<and> d = map fst pre @ [c]) \<and> done = c # d"
        by (intro exI [of _ "map fst pre' @ [c']"]) (auto simp: x)
    qed
    finally show ?thesis .
  next
    case False
    show ?thesis
    proof
      assume "run_calls works (x # cs) = (done, Some msg)"
      then show "\<exists>pre c post. x # cs = pre @ (c, msg) # post \<and> (\<forall>x \<in> set pre. works (fst x)) \<and> \<not> works c
        \<and> done = map fst pre @ [c]"
        using False by (intro exI [of _ "[]"] exI [of _ c] exI [of _ cs]) (simp add: x)
    next
      assume "\<exists>pre c post. x # cs = pre @ (c, msg) # post \<and> (\<forall>x \<in> set pre. works (fst x)) \<and> \<not> works c
        \<and> done = map fst pre @ [c]"
      then obtain pre c' post where e: "x # cs = pre @ (c', msg) # post" "\<forall>x \<in> set pre. works (fst x)"
        "\<not> works c'" "done = map fst pre @ [c']" by blast
      with False x have "pre = []" by (cases pre) auto
      with e False show "run_calls works (x # cs) = (done, Some msg)" by (simp add: x)
    qed
  qed
qed simp

section \<open>Serving connections\<close>

text \<open>What \<open>read\<close> returns on a connection, and what the programs do.\<close>

datatype rd = Data string | Eof | Rd_error

datatype dest = Stdout | Peer

text \<open>
  \<open>Put w d\<close> is a call of \<open>write\<close>, whatever becomes of it: nobody looks at its result.
  \<open>Put_huge\<close> is a \<open>write\<close> whose count is -1 converted to \<open>size_t\<close>; the kernel refuses it.
\<close>

datatype act = Put dest string | Put_huge dest | Log string

datatype served = Waiting | Reading | Err string | Ended

text \<open>
  \<open>while ((n = read(...)) != 0) write(..., n)\<close>: what is done for a connection, and what it still
  delivers after its end of file.
\<close>

fun copy_conn :: "dest list \<Rightarrow> rd list \<Rightarrow> act list \<times> bool" where
  "copy_conn ds [] = ([], False)"
| "copy_conn ds (Eof # rs) = ([], True)"
| "copy_conn ds (Data d # rs) = (map (\<lambda>w. Put w d) ds @ fst (copy_conn ds rs), snd (copy_conn ds rs))"
| "copy_conn ds (Rd_error # rs) = (map Put_huge ds @ fst (copy_conn ds rs), snd (copy_conn ds rs))"

text \<open>The endless loop over \<open>accept\<close>, whose result is \<^term>\<open>None\<close> when it fails.\<close>

fun sv_loop :: "dest list \<Rightarrow> act list \<Rightarrow> rd list option list \<Rightarrow> act list \<times> served" where
  "sv_loop ds hello [] = ([], Waiting)"
| "sv_loop ds hello (None # cs) = ([], Err ''accept'')"
| "sv_loop ds hello (Some rs # cs) =
     (let c = copy_conn ds rs in
      if \<not> snd c then (hello @ fst c, Reading)
      else let l = sv_loop ds hello cs
           in (hello @ fst c @ [Log ''-- connection closed --''] @ fst l, snd l))"

definition ts_loop :: "rd list option list \<Rightarrow> act list \<times> served" where
  "ts_loop = sv_loop [Stdout] [Log ''-- connection accepted --'']"

definition te_loop :: "rd list option list \<Rightarrow> act list \<times> served" where
  "te_loop = sv_loop [Stdout, Peer] [Log ''-- connection accepted --'']"

definition re_loop :: "rd list option list \<Rightarrow> act list \<times> served" where
  "re_loop = sv_loop [Stdout] []"

fun put_to :: "dest \<Rightarrow> act \<Rightarrow> string" where
  "put_to w (Put w' d) = (if w = w' then d else [])"
| "put_to w _ = []"

definition sent_to :: "dest \<Rightarrow> act list \<Rightarrow> string" where
  "sent_to w as = concat (map (put_to w) as)"

lemma sent_to_simps [simp]:
  "sent_to w [] = []" "sent_to w (xs @ ys) = sent_to w xs @ sent_to w ys"
  "sent_to w (Put w' d # as) = (if w = w' then d else []) @ sent_to w as"
  "sent_to w (Put_huge w' # as) = sent_to w as" "sent_to w (Log t # as) = sent_to w as"
  by (simp_all add: sent_to_def)

definition conn :: "string list \<Rightarrow> rd list option" where
  "conn ds = Some (map Data ds @ [Eof])"

lemma copy_conn_data:
  "copy_conn ds (map Data xs @ Eof # rs) = (concat (map (\<lambda>d. map (\<lambda>w. Put w d) ds) xs), True)"
  by (induction xs) simp_all

lemma sent_to_data:
  "distinct ds \<Longrightarrow> sent_to w (concat (map (\<lambda>d. map (\<lambda>v. Put v d) ds) xs)) = (if w \<in> set ds then concat xs else [])"
proof (induction xs)
  case (Cons x xs)
  have "sent_to w (map (\<lambda>v. Put v x) ds) = (if w \<in> set ds then x else [])"
    using Cons.prems by (induction ds) auto
  with Cons show ?case by simp
qed simp

lemma sv_loop_data:
  "distinct ds \<Longrightarrow> sent_to v hello = [] \<Longrightarrow>
   snd (sv_loop ds hello (map conn cs)) = Waiting
   \<and> sent_to v (fst (sv_loop ds hello (map conn cs))) = (if v \<in> set ds then concat (concat cs) else [])"
  by (induction cs) (auto simp: conn_def copy_conn_data Let_def sent_to_data)

section \<open>A terminal and a socket: \<open>select.c\<close> and \<open>busy-wait.c\<close>\<close>

text \<open>\<open>while ((n = read(...)) > 0) write(1, buf, n)\<close> and the check after it.\<close>

datatype conn_end = At_eof | Still_reading | Failed_read

fun drain_conn :: "rd list \<Rightarrow> act list \<times> conn_end" where
  "drain_conn [] = ([], Still_reading)"
| "drain_conn (Eof # rs) = ([], At_eof)"
| "drain_conn (Rd_error # rs) = ([], Failed_read)"
| "drain_conn (Data d # rs) = (Put Stdout d # fst (drain_conn rs), snd (drain_conn rs))"

text \<open>What is done for an accepted connection, and how the program goes on.\<close>

definition se_conn :: "rd list \<Rightarrow> act list \<times> served option" where
  "se_conn rs =
     (let c = drain_conn rs in
      case snd c of
        Still_reading \<Rightarrow> (Log ''-- connection accepted --'' # fst c, Some Reading)
      | Failed_read \<Rightarrow> (Log ''-- connection accepted --'' # fst c, Some (Err ''read''))
      | At_eof \<Rightarrow> (Log ''-- connection accepted --'' # fst c @ [Log ''-- connection closed --''], None))"

text \<open>
  One round of \<open>select.c\<close>: \<open>select\<close> fails, or what the terminal delivers if it is ready, then what \<open>accept\<close> yields
  if the listening socket is ready, \<^term>\<open>Some None\<close> being a failure. It is not checked: reading from
  descriptor -1 is what ends the program.
\<close>

datatype se_poll = Select_failed | Polled "rd option" "rd list option option"

fun se_round :: "se_poll \<Rightarrow> act list \<times> served option" where
  "se_round Select_failed = ([], Some (Err ''select''))"
| "se_round (Polled tty cn) =
     (let socket =
        (case cn of
           None \<Rightarrow> ([], None)
         | Some None \<Rightarrow> se_conn [Rd_error]
         | Some (Some rs) \<Rightarrow> se_conn rs)
      in case tty of
           Some Eof \<Rightarrow> ([], Some Ended)
         | Some Rd_error \<Rightarrow> ([], Some (Err ''read''))
         | Some (Data d) \<Rightarrow> (Put Stdout d # fst socket, snd socket)
         | None \<Rightarrow> socket)"

fun se_loop :: "se_poll list \<Rightarrow> act list \<times> served" where
  "se_loop [] = ([], Waiting)"
| "se_loop (p # polls) =
     (let r = se_round p in
      case snd r of
        Some e \<Rightarrow> (fst r, e)
      | None \<Rightarrow> (fst r @ fst (se_loop polls), snd (se_loop polls)))"

text \<open>
  One round of \<open>busy-wait.c\<close>: \<^term>\<open>None\<close> stands for a call that would block. The read of the
  terminal cannot block because descriptor 0 is the same open file as descriptor 1.
\<close>

definition bw_round :: "rd option \<Rightarrow> rd list option option \<Rightarrow> act list \<times> served option" where
  "bw_round tty cn =
     (let socket =
        (case cn of
           None \<Rightarrow> ([], None)
         | Some None \<Rightarrow> ([], Some (Err ''accept''))
         | Some (Some rs) \<Rightarrow> se_conn rs)
      in case tty of
           None \<Rightarrow> socket
         | Some Rd_error \<Rightarrow> ([], Some (Err ''read''))
         | Some Eof \<Rightarrow> ([], Some Ended)
         | Some (Data d) \<Rightarrow> (Put Stdout d # fst socket, snd socket))"

fun bw_loop :: "(rd option \<times> rd list option option) list \<Rightarrow> act list \<times> served" where
  "bw_loop [] = ([], Waiting)"
| "bw_loop ((tty, cn) # rounds) =
     (let r = bw_round tty cn in
      case snd r of
        Some e \<Rightarrow> (fst r, e)
      | None \<Rightarrow> (fst r @ fst (bw_loop rounds), snd (bw_loop rounds)))"

text \<open>
  What arrives on the standard output: the \<open>n\<close>-th call of \<open>write\<close> takes the first \<open>wr n\<close> bytes, none if
  it fails. \<open>busy-wait.c\<close> makes its output non-blocking, so that a terminal that is slow takes fewer than it is given.
\<close>

fun arrives :: "(nat \<Rightarrow> nat) \<Rightarrow> nat \<Rightarrow> act list \<Rightarrow> string" where
  "arrives wr n [] = []"
| "arrives wr n (Put Stdout d # as) = take (wr n) d @ arrives wr (Suc n) as"
| "arrives wr n (a # as) = arrives wr n as"

text \<open>\<open>select\<close> returns only when something is ready, or with an error.\<close>

definition selected :: "(rd option \<times> rd list option option) list \<Rightarrow> se_poll list" where
  "selected rounds = map (\<lambda>(tty, cn). Polled tty cn) (filter (\<lambda>(tty, cn). tty \<noteq> None \<or> cn \<noteq> None) rounds)"

lemma se_conn_waits: "snd (se_conn rs) \<noteq> Some Waiting"
  by (simp add: se_conn_def Let_def split: conn_end.splits)

lemma se_round_waits: "snd (se_round p) \<noteq> Some Waiting"
  using se_conn_waits by (cases p) (simp_all add: Let_def split: option.splits rd.splits)

lemma bw_round_waits: "snd (bw_round tty cn) \<noteq> Some Waiting"
  using se_conn_waits by (simp add: bw_round_def Let_def split: option.splits rd.splits)

lemma se_loop_append:
  "snd (se_loop ps) = Waiting \<Longrightarrow> se_loop (ps @ qs) = (fst (se_loop ps) @ fst (se_loop qs), snd (se_loop qs))"
proof (induction ps)
  case (Cons p ps)
  then show ?case using se_round_waits [of p] by (auto simp: Let_def split: option.splits)
qed simp

lemma bw_loop_append:
  "snd (bw_loop xs) = Waiting \<Longrightarrow> bw_loop (xs @ ys) = (fst (bw_loop xs) @ fst (bw_loop ys), snd (bw_loop ys))"
proof (induction xs)
  case (Cons x xs)
  obtain tty cn where "x = (tty, cn)" by force
  with Cons show ?case using bw_round_waits [of tty cn] by (auto simp: Let_def split: option.splits)
qed simp

lemma arrives_all: "(\<And>k d. Put Stdout d \<in> set as \<Longrightarrow> length d \<le> wr k) \<Longrightarrow> arrives wr n as = sent_to Stdout as"
proof (induction as arbitrary: n)
  case (Cons a as)
  then show ?case by (cases a; cases "case a of Put w d \<Rightarrow> w | _ \<Rightarrow> Peer") auto
qed simp

section \<open>Writing: \<open>write-select.c\<close>, \<open>connect.c\<close>, \<open>linger.c\<close>\<close>

text \<open>
  The loop of \<open>write-select.c\<close> over the results of its \<open>write\<close> calls of 1024 bytes each, -1 included;
  \<open>total\<close> is a \<open>size_t\<close>.
\<close>

fun ws_loop :: "64 word \<Rightarrow> int list \<Rightarrow> (int \<times> 64 word) list \<times> served" where
  "ws_loop tot [] = ([], Waiting)"
| "ws_loop tot (n # ns) =
     (if n = - 1 then ([], Err ''write'')
      else let tot' = tot + word_of_int n; l = ws_loop tot' ns in ((n, tot') # fst l, snd l))"

definition ws_line :: "int \<times> 64 word \<Rightarrow> string" where
  "ws_line x = (case x of (n, tot) \<Rightarrow>
     ''[ '' @ show_int n @ '' bytes written (total '' @ show_int (uint tot) @ '') ]'' @ nl)"

text \<open>
  \<open>connect.c\<close>: each element is what \<open>read\<close> yields and what the \<open>write\<close> of it then returns; the
  result is what the peer gets and the messages.
\<close>

fun cn_loop :: "(rd \<times> int) list \<Rightarrow> string \<times> act list \<times> served" where
  "cn_loop [] = ([], [], Reading)"
| "cn_loop ((Eof, r) # xs) = ([], [Log ''read finished''], Ended)"
| "cn_loop ((Rd_error, r) # xs) = ([], [Log ''read finished''], Ended)"
| "cn_loop ((Data d, r) # xs) =
     (if 0 < r then (let l = cn_loop xs in (take (nat r) d @ fst l, snd l))
      else ([], [Log ''server closed the connection''], Ended))"

text \<open>
  \<open>linger.c\<close>: \<open>-L\<close> and its value, -1 without it; \<open>?\<close> is returned for an unknown option and for a
  missing value, and ends in the usage message.
\<close>

fun lg_options :: "int \<Rightarrow> optval list \<Rightarrow> int option" where
  "lg_options linger [] = Some linger"
| "lg_options linger (Opt c (Some v) # os) = lg_options (atoi v) os"
| "lg_options linger (Opt c None # os) = lg_options linger os"
| "lg_options linger (_ # os) = None"

definition lg_main :: "(sock_call \<Rightarrow> bool) \<Rightarrow> string list \<Rightarrow> set_up" where
  "lg_main works argv =
     (let scan = getopt_scan (optspec ''L:'') (tl argv) in
      case lg_options (- 1) (fst scan) of
        None \<Rightarrow> Usage
      | Some linger \<Rightarrow>
          if length (snd scan) \<noteq> 2 then Usage
          else set_up works ([(K_resolve, ''gai_strerror''), (K_socket, ''socket'')]
            @ (if 0 \<le> linger then [(K_linger linger, ''setsockopt'')] else [])
            @ [(K_connect (net_port (snd scan ! 1)), ''connect'')]))"

text \<open>
  Its loop keeps the result of \<open>read\<close> in a \<open>size_t\<close>, so that -1 is positive: an error is reported as
  -1 bytes and passed to \<open>write\<close>, and the loop goes on.
\<close>

fun lg_loop :: "rd list \<Rightarrow> act list \<times> bool" where
  "lg_loop [] = ([], False)"
| "lg_loop (Eof # rs) = ([Log ''closing'', Log ''exiting''], True)"
| "lg_loop (Data d # rs) =
     (Log (''got '' @ show_int (int (length d)) @ '' bytes'') # Put Peer d # fst (lg_loop rs), snd (lg_loop rs))"
| "lg_loop (Rd_error # rs) =
     (Log (''got '' @ show_int (- 1) @ '' bytes'') # Put_huge Peer # fst (lg_loop rs), snd (lg_loop rs))"

section \<open>\<open>connect-only.c\<close> and \<open>getbyname.c\<close>\<close>

definition co_main :: "(sock_call \<Rightarrow> bool) \<Rightarrow> string list \<Rightarrow> set_up" where
  "co_main works argv =
     (if length argv \<noteq> 3 \<and> length argv \<noteq> 4 then Usage
      else set_up works [(K_pton (argv ! 1), ''inet_pton failed''), (K_socket, ''socket''),
        (K_connect (net_port (argv ! 2)), ''connect'')])"

text \<open>Without an interval, or with -1, the client never reads; otherwise it reads every so often.\<close>

definition co_interval :: "string list \<Rightarrow> int" where
  "co_interval argv = (if length argv = 4 then atoi (argv ! 3) else - 1)"

fun co_read :: "rd list \<Rightarrow> act list \<times> served" where
  "co_read [] = ([], Reading)"
| "co_read (Rd_error # rs) = ([], Err ''read'')"
| "co_read (Eof # rs) = ([], Ended)"
| "co_read (Data d # rs) = (Put Stdout d # fst (co_read rs), snd (co_read rs))"

definition co_loop :: "int \<Rightarrow> rd list \<Rightarrow> act list \<times> served" where
  "co_loop interval rs = (if interval = - 1 then ([], Waiting) else co_read rs)"

text \<open>
  \<open>getbyname.c\<close> looks up the protocol, then the service by its name or else as a port; the entry's
  port is the one bound. The lines printed and the calls made.
\<close>

definition gb_main ::
  "(sock_call \<Rightarrow> bool) \<Rightarrow> (string \<Rightarrow> int option) \<Rightarrow> (string \<Rightarrow> string \<Rightarrow> (string \<times> int) option)
    \<Rightarrow> (int \<Rightarrow> string \<Rightarrow> (string \<times> int) option) \<Rightarrow> string list \<Rightarrow> string list \<times> set_up"
where
  "gb_main works proto byname byport argv =
     (if length argv \<noteq> 3 then ([], Usage)
      else case proto (argv ! 2) of
        None \<Rightarrow> ([], Set_up [] (Some ([CHR 0x27] @ argv ! 2 @ [CHR 0x27] @ '' not valid protocol name'')))
      | Some pp \<Rightarrow>
          let named = byname (argv ! 1) (argv ! 2);
              lines = (if named = None
                then [[CHR 0x27] @ argv ! 1 @ [CHR 0x27] @ '' not a known service name, trying port number''] else []);
              sp = (if named = None then byport (net_port (argv ! 1)) (argv ! 2) else named)
          in (case sp of
                None \<Rightarrow> (lines, Set_up [] (Some ''not valid service port number either''))
              | Some (name, port) \<Rightarrow>
                  (lines @ [''official service name: '' @ name],
                   set_up works [(K_socket, ''socket''), (K_bind port, ''bind''), (K_listen SOMAXCONN, ''listen'')])))"

text \<open>
  Its service loop ends a connection with the first result of \<open>read\<close> that is not positive, and
  does not look whether \<open>accept\<close> has failed: \<open>read\<close> then fails as well.
\<close>

fun gb_conn :: "rd list \<Rightarrow> act list \<times> bool" where
  "gb_conn [] = ([], False)"
| "gb_conn (Data d # rs) = (Put Stdout d # fst (gb_conn rs), snd (gb_conn rs))"
| "gb_conn (_ # rs) = ([], True)"

fun gb_loop :: "rd list option list \<Rightarrow> act list \<times> served" where
  "gb_loop [] = ([Log ''waiting for a connection''], Waiting)"
| "gb_loop (c # cs) =
     (let conn = gb_conn (case c of None \<Rightarrow> [Rd_error] | Some rs \<Rightarrow> rs) in
      if \<not> snd conn then (Log ''waiting for a connection'' # fst conn, Reading)
      else (Log ''waiting for a connection'' # fst conn @ Log ''-- connection closed --'' # fst (gb_loop cs),
            snd (gb_loop cs)))"

lemma gb_main_port:
  "proto pr = Some pp \<Longrightarrow> byname sv pr = None \<Longrightarrow> byport (atoi sv mod 65536) pr = Some (name, port) \<Longrightarrow>
     snd (gb_main (\<lambda>_. True) proto byname byport [prog, sv, pr]) = Set_up [K_socket, K_bind port, K_listen SOMAXCONN] None"
  by (simp add: gb_main_def Let_def net_port_def set_up_def numeral_2_eq_2)

lemma gb_loop_accept_fails:
  "gb_loop (replicate k None) =
     (concat (replicate k [Log ''waiting for a connection'', Log ''-- connection closed --''])
        @ [Log ''waiting for a connection''], Waiting)"
  by (induction k) (simp_all add: Let_def)

section \<open>Properties\<close>

lemma run_calls_failed:
  assumes "run_calls works cs = (done, Some msg)"
  shows "done \<noteq> [] \<and> \<not> works (last done) \<and> (\<forall>x \<in> set (butlast done). works x) \<and> (last done, msg) \<in> set cs"
proof -
  from assms obtain pre c post where "cs = pre @ (c, msg) # post" "\<forall>x \<in> set pre. works (fst x)"
    "\<not> works c" "done = map fst pre @ [c]"
    unfolding run_calls_stop by blast
  then show ?thesis by auto
qed

text \<open>
  The port a server binds is its argument modulo 65536 and nothing rejects another one; and
  when a call of the set-up fails, the program stops with that call, all before it having worked;
  \<open>reuseaddr.c\<close> sets the option exactly when its first argument is a number other than 0.
\<close>

theorem sv_setup:
  "ts_main (\<lambda>c. True) [prog, p] = Set_up [K_socket, K_setsockopt, K_bind (atoi p mod 65536), K_listen SOMAXCONN] None
   \<and> (re_main works [prog, r, p] = Set_up done (Some msg) \<longrightarrow>
      done \<noteq> [] \<and> \<not> works (last done) \<and> (\<forall>x \<in> set (butlast done). works x)
      \<and> (K_setsockopt \<in> set done \<longrightarrow> atoi r \<noteq> 0))
   \<and> (re_main (\<lambda>c. True) [prog, r, p] = Set_up all None \<longrightarrow> (K_setsockopt \<in> set all \<longleftrightarrow> atoi r \<noteq> 0))"
proof (intro conjI impI)
  assume "re_main works [prog, r, p] = Set_up done (Some msg)"
  then have *: "run_calls works ((K_socket, ''socket'')
        # (if atoi r \<noteq> 0 then [(K_setsockopt, ''setsockopt'')] else [])
        @ [(K_bind (net_port p), ''bind''), (K_listen SOMAXCONN, ''listen'')]) = (done, Some msg)"
    by (auto simp: re_main_def set_up_def numeral_2_eq_2 prod_eq_iff)
  from run_calls_failed [OF this]
  show "done \<noteq> []" "\<not> works (last done)" "\<forall>x \<in> set (butlast done). works x" by simp_all
  show "K_setsockopt \<in> set done \<Longrightarrow> atoi r \<noteq> 0" using * by (auto split: if_splits)
next
  assume "re_main (\<lambda>c. True) [prog, r, p] = Set_up all None"
  then show "K_setsockopt \<in> set all \<longleftrightarrow> atoi r \<noteq> 0" by (auto simp: re_main_def set_up_def split: if_splits)
qed (simp add: ts_main_def set_up_def net_port_def)

theorem sv_setup_witness:
  "(\<exists>done. re_main (\<lambda>c. c \<noteq> K_bind 80) [''a'', ''1'', ''65616''] = Set_up done (Some ''bind'') \<and> K_setsockopt \<in> set done
      \<and> atoi ''1'' \<noteq> 0)
   \<and> (\<exists>all. re_main (\<lambda>c. True) [''a'', ''no'', ''80''] = Set_up all None \<and> K_setsockopt \<notin> set all)"
proof -
  have a: "atoi ''1'' = 1" "atoi ''65616'' = 65616" "atoi ''no'' = 0" by code_simp+
  have "re_main (\<lambda>c. c \<noteq> K_bind 80) [''a'', ''1'', ''65616''] =
      Set_up [K_socket, K_setsockopt, K_bind 80] (Some ''bind'')"
    and "\<exists>all. re_main (\<lambda>c. True) [''a'', ''no'', ''80''] = Set_up all None"
    by (simp_all add: re_main_def set_up_def net_port_def a)
  then show ?thesis
    using sv_setup [where prog = "''a''" and r = "''1''" and p = "''65616''" and works = "\<lambda>c. c \<noteq> K_bind 80"]
      sv_setup [where prog = "''a''" and r = "''no''" and p = "''80''" and works = "\<lambda>c. True"] a(3)
    by auto
qed

text \<open>
  The three servers that copy a connection to their output: for every sequence of connections
  whose reads do not fail, the sink server, the echo server and the reuse example write all data
  in order to their output and wait for the next connection; the echo server sends back just the
  same, the others nothing.
\<close>

theorem sv_copies:
  "snd (ts_loop (map conn cs)) = Waiting \<and> sent_to Stdout (fst (ts_loop (map conn cs))) = concat (concat cs)
     \<and> sent_to Peer (fst (ts_loop (map conn cs))) = []
   \<and> snd (te_loop (map conn cs)) = Waiting \<and> sent_to Stdout (fst (te_loop (map conn cs))) = concat (concat cs)
     \<and> sent_to Peer (fst (te_loop (map conn cs))) = concat (concat cs)
   \<and> snd (re_loop (map conn cs)) = Waiting \<and> sent_to Stdout (fst (re_loop (map conn cs))) = concat (concat cs)"
  by (simp add: ts_loop_def te_loop_def re_loop_def sv_loop_data)

lemma copy_conn_errors:
  "copy_conn ds (replicate k Rd_error) = (concat (replicate k (map Put_huge ds)), False)"
  by (induction k) simp_all

lemma show_minus_1: "show_int (- 1) = ''-1''"
  by code_simp

lemma lg_loop_errors:
  "lg_loop (replicate k Rd_error) = (concat (replicate k [Log ''got -1 bytes'', Put_huge Peer]), False)"
  by (induction k) (simp_all add: show_minus_1)

text \<open>
  A read error is not noticed everywhere: while \<open>read\<close> keeps failing, the sink and echo servers
  and \<open>linger.c\<close> stay in their loops, each round passing a count of -1 to \<open>write\<close>, whereas
  \<open>select.c\<close>, \<open>busy-wait.c\<close> and \<open>connect-only.c\<close> end with the error at once. \<open>getbyname.c\<close> goes on
  to the next connection; but it does the same when \<open>accept\<close> fails, so that it spins while it does.
\<close>

theorem rd_error_spins:
  "ts_loop [Some (replicate k Rd_error)] =
     (Log ''-- connection accepted --'' # concat (replicate k [Put_huge Stdout]), Reading)
   \<and> te_loop [Some (replicate k Rd_error)] =
     (Log ''-- connection accepted --'' # concat (replicate k [Put_huge Stdout, Put_huge Peer]), Reading)
   \<and> lg_loop (replicate k Rd_error) = (concat (replicate k [Log ''got -1 bytes'', Put_huge Peer]), False)
   \<and> se_loop [Polled None (Some (Some (replicate (Suc k) Rd_error)))] = ([Log ''-- connection accepted --''], Err ''read'')
   \<and> bw_loop [(None, Some (Some (replicate (Suc k) Rd_error)))] = ([Log ''-- connection accepted --''], Err ''read'')
   \<and> snd (co_loop 1 (replicate (Suc k) Rd_error)) = Err ''read''
   \<and> gb_loop (replicate k None) =
     (concat (replicate k [Log ''waiting for a connection'', Log ''-- connection closed --''])
        @ [Log ''waiting for a connection''], Waiting)"
  by (simp add: ts_loop_def te_loop_def copy_conn_errors lg_loop_errors bw_round_def se_conn_def Let_def
      co_loop_def gb_loop_accept_fails)

lemma bw_equals_se_loop:
  assumes "\<forall>(tty, cn) \<in> set rounds. cn \<noteq> Some None"
  shows "bw_loop rounds = se_loop (selected rounds)"
  using assms
proof (induction rounds)
  case (Cons r rounds)
  obtain tty cn where r: "r = (tty, cn)" by force
  with Cons.prems have "bw_round tty cn = se_round (Polled tty cn)"
    by (cases cn; cases "the cn") (auto simp: bw_round_def Let_def split: option.splits rd.splits)
  moreover have "se_round (Polled None None) = ([], None)" by simp
  ultimately show ?case
    using Cons by (auto simp: r selected_def Let_def simp del: se_round.simps split: option.splits)
qed (simp add: selected_def)

text \<open>
  C38: Polling and \<open>select\<close> do the same, as long as no call fails: in a sequence of polls in which \<open>accept\<close> does not
  fail, \<open>busy-wait.c\<close> makes the same calls of \<open>write\<close> and ends in the same way as \<open>select.c\<close>, whose \<open>select\<close> succeeds, on
  those polls in which something was ready; and the same output arrives if every \<open>write\<close> takes all it is given (the
  output of \<open>busy-wait.c\<close> is non-blocking and may not). They differ when a call fails: \<open>busy-wait.c\<close> ends
  with an error of \<open>accept\<close> at once; \<open>select.c\<close> first reports that the connection was accepted and then ends with an
  error of \<open>read\<close>; and it ends when \<open>select\<close> fails.
\<close>

theorem bw_equals_se:
  assumes "\<forall>(tty, cn) \<in> set rounds. cn \<noteq> Some None"
  shows "bw_loop rounds = se_loop (selected rounds)
    \<and> ((\<forall>k d. Put Stdout d \<in> set (fst (bw_loop rounds)) \<longrightarrow> length d \<le> wr k) \<longrightarrow>
         arrives wr 0 (fst (bw_loop rounds)) = sent_to Stdout (fst (se_loop (selected rounds))))
    \<and> (snd (bw_loop rounds) = Waiting \<longrightarrow>
         bw_loop (rounds @ (None, Some None) # xs) = (fst (bw_loop rounds), Err ''accept'')
         \<and> se_loop (selected rounds @ Polled None (Some None) # ys)
           = (fst (bw_loop rounds) @ [Log ''-- connection accepted --''], Err ''read'')
         \<and> se_loop (selected rounds @ Select_failed # ys) = (fst (bw_loop rounds), Err ''select''))"
proof (intro conjI impI)
  note eq = bw_equals_se_loop [OF assms]
  show "bw_loop rounds = se_loop (selected rounds)" by (rule eq)
  show "arrives wr 0 (fst (bw_loop rounds)) = sent_to Stdout (fst (se_loop (selected rounds)))"
    if "\<forall>k d. Put Stdout d \<in> set (fst (bw_loop rounds)) \<longrightarrow> length d \<le> wr k"
    unfolding eq [symmetric] using that by (intro arrives_all) blast
  assume w: "snd (bw_loop rounds) = Waiting"
  then have w': "snd (se_loop (selected rounds)) = Waiting" unfolding eq .
  show "bw_loop (rounds @ (None, Some None) # xs) = (fst (bw_loop rounds), Err ''accept'')"
    using bw_loop_append [OF w] by (simp add: bw_round_def)
  show "se_loop (selected rounds @ Polled None (Some None) # ys)
      = (fst (bw_loop rounds) @ [Log ''-- connection accepted --''], Err ''read'')"
    using se_loop_append [OF w'] by (simp add: eq se_conn_def)
  show "se_loop (selected rounds @ Select_failed # ys) = (fst (bw_loop rounds), Err ''select'')"
    using se_loop_append [OF w'] by (simp add: eq)
qed

theorem bw_equals_se_witness:
  "bw_loop [(None, None), (Some (Data ''a''), Some (Some [Data ''b'', Eof])), (None, None), (Some Eof, None)]
   = se_loop [Polled (Some (Data ''a'')) (Some (Some [Data ''b'', Eof])), Polled (Some Eof) None]
   \<and> bw_loop [(Some (Data ''a''), None), (None, Some None)] = ([Put Stdout ''a''], Err ''accept'')"
proof -
  have "bw_loop [(Some (Data ''a''), None)] = ([Put Stdout ''a''], Waiting)" by (simp add: bw_round_def)
  then show ?thesis
    using bw_equals_se [of "[(None, None), (Some (Data ''a''), Some (Some [Data ''b'', Eof])), (None, None), (Some Eof, None)]"]
      bw_equals_se [of "[(Some (Data ''a''), None)]" "\<lambda>_. 1" "[]" "[]"]
    by (simp add: selected_def del: bw_loop.simps se_loop.simps)
qed

lemma ws_total:
  "\<forall>n \<in> set ns. n \<noteq> - 1 \<Longrightarrow> ns \<noteq> [] \<Longrightarrow>
     snd (last (fst (ws_loop tot ns))) = tot + word_of_int (sum_list ns) \<and> fst (ws_loop tot ns) \<noteq> []"
proof (induction ns arbitrary: tot)
  case (Cons n ns)
  show ?case
  proof (cases "ns = []")
    case False
    with Cons.IH [of "tot + word_of_int n"] Cons.prems show ?thesis by (simp add: Let_def)
  qed (use Cons.prems in simp)
qed simp

lemma cn_loop_data:
  "\<forall>(d, r) \<in> set xs. 0 < r \<Longrightarrow> cn_loop (map (\<lambda>(d, r). (Data d, r)) xs @ [(Eof, 0)]) =
      (concat (map (\<lambda>(d, r). take (nat r) d) xs), [Log ''read finished''], Ended)"
  by (induction xs) (auto simp: Let_def)

lemma short_writes:
  "\<forall>(d, r) \<in> set xs. 0 < r \<and> r \<le> int (length d) \<Longrightarrow>
     length (concat (map (\<lambda>(d, r). take (nat r) d) xs)) \<le> length (concat (map fst xs))
     \<and> (length (concat (map (\<lambda>(d, r). take (nat r) d) xs)) = length (concat (map fst xs))
        \<longrightarrow> (\<forall>(d, r) \<in> set xs. r = int (length d)))"
  by (induction xs) auto

lemma full_writes:
  "\<forall>(d, r) \<in> set xs. r = int (length d) \<Longrightarrow> concat (map (\<lambda>(d, r). take (nat r) d) xs) = concat (map fst xs)"
  by (induction xs) auto

text \<open>
  What the writing programs send. \<open>connect.c\<close> delivers exactly what it read if and only if no
  \<open>write\<close> was short: the rest of a short one is never sent again. \<open>write-select.c\<close> prints as total
  the sum of what its writes returned, modulo \<open>2 ^ 64\<close>.
\<close>

theorem clients_send:
  assumes "\<forall>(d, r) \<in> set xs. 0 < r \<and> r \<le> int (length d)"
    and "ns \<noteq> []" "\<forall>n \<in> set ns. n \<noteq> - 1"
  shows "cn_loop (map (\<lambda>(d, r). (Data d, r)) xs @ [(Eof, 0)]) =
      (concat (map (\<lambda>(d, r). take (nat r) d) xs), [Log ''read finished''], Ended)
    \<and> (fst (cn_loop (map (\<lambda>(d, r). (Data d, r)) xs @ [(Eof, 0)])) = concat (map fst xs)
        \<longleftrightarrow> (\<forall>(d, r) \<in> set xs. r = int (length d)))
    \<and> uint (snd (last (fst (ws_loop 0 ns)))) = sum_list ns mod 2 ^ 64"
proof -
  have "\<forall>(d, r) \<in> set xs. 0 < r" using assms(1) by auto
  note c = cn_loop_data [OF this]
  have "concat (map (\<lambda>(d, r). take (nat r) d) xs) = concat (map fst xs) \<longleftrightarrow> (\<forall>(d, r) \<in> set xs. r = int (length d))"
    using short_writes [OF assms(1)] full_writes [of xs] by metis
  moreover have "snd (last (fst (ws_loop 0 ns))) = word_of_int (sum_list ns)"
    using ws_total [of ns 0] assms(2,3) by simp
  ultimately show ?thesis unfolding c by (simp add: uint_word_of_int)
qed

theorem clients_send_witness:
  "fst (cn_loop [(Data ''abc'', 2), (Data ''de'', 2), (Eof, 0)]) = ''abde''
   \<and> uint (snd (last (fst (ws_loop 0 [1024, 500])))) = 1524"
  using clients_send [of "[(''abc'', 2), (''de'', 2)]" "[1024, 500]"] by simp

end
