(* ===== verification/Datagrams.thy ===== *)
theory Datagrams
  imports Tcp_Programs "HOL-Library.Sublist"
begin

text \<open>
  The two programs of \<open>udp/\<close>: \<open>udp-client.c\<close> sends what it reads, a datagram for each \<open>read\<close>, and
  \<open>udp-server.c\<close> writes what it receives. They are used together over a network that may lose
  datagrams.
\<close>

section \<open>The client\<close>

definition uc_main :: "(sock_call \<Rightarrow> bool) \<Rightarrow> string list \<Rightarrow> set_up" where
  "uc_main works argv =
     (if length argv \<noteq> 3 then Usage
      else set_up works [(K_socket, ''socket''), (K_pton (argv ! 1), ''inet_pton failed'')])"

text \<open>
  Its loop over the results of \<open>read\<close>, each with whether \<open>sendto\<close> works: the datagrams sent, and
  how it ends. The buffer has 8192 bytes.
\<close>

fun uc_loop :: "(rd \<times> bool) list \<Rightarrow> string list \<times> served" where
  "uc_loop [] = ([], Reading)"
| "uc_loop ((Eof, ok) # rs) = ([], Ended)"
| "uc_loop ((Rd_error, ok) # rs) = ([], Err ''read'')"
| "uc_loop ((Data d, ok) # rs) =
     (if \<not> ok then ([], Err ''sendto'') else (take 8192 d # fst (uc_loop rs), snd (uc_loop rs)))"

section \<open>The server\<close>

definition ur_main :: "(sock_call \<Rightarrow> bool) \<Rightarrow> string list \<Rightarrow> set_up" where
  "ur_main works argv =
     (if length argv \<noteq> 2 then Usage
      else set_up works [(K_socket, ''socket''), (K_bind (net_port (argv ! 1)), ''bind'')])"

text \<open>
  Its loop over the datagrams that arrive (\<^term>\<open>None\<close> where \<open>recvfrom\<close> fails): what it writes, and
  whether it still waits. Of each datagram 1024 bytes are received, and an empty one ends the loop.
\<close>

fun ur_loop :: "string option list \<Rightarrow> string \<times> served" where
  "ur_loop [] = ([], Waiting)"
| "ur_loop (None # ds) = ([], Err ''recvfrom'')"
| "ur_loop (Some d # ds) =
     (let buf = take 1024 d in
        if length buf = 0 then ([], Ended) else (buf @ fst (ur_loop ds), snd (ur_loop ds)))"

section \<open>Together\<close>

text \<open>What \<open>read\<close> can return for a buffer of 8192 bytes.\<close>

definition uc_piece :: "string \<Rightarrow> bool" where
  "uc_piece d \<longleftrightarrow> d \<noteq> [] \<and> length d \<le> 8192"

lemma uc_loop_data:
  "\<forall>d \<in> set ds. uc_piece d \<Longrightarrow> uc_loop (map (\<lambda>d. (Data d, True)) ds @ [(Eof, ok)]) = (ds, Ended)"
  by (induction ds) (auto simp: uc_piece_def)

lemma ur_loop_data:
  "\<forall>d \<in> set ds. d \<noteq> [] \<Longrightarrow> ur_loop (map Some ds) = (concat (map (take 1024) ds), Waiting)"
  by (induction ds) (auto simp: Let_def)

lemma takes_whole: "\<forall>d \<in> set ds. length d \<le> n \<Longrightarrow> concat (map (take n) ds) = concat ds"
  by (induction ds) auto

lemma takes_length: "length (concat (map (take n) ds)) \<le> length (concat ds)"
  by (induction ds) auto

lemma takes_short:
  "d \<in> set ds \<Longrightarrow> n < length d \<Longrightarrow> length (concat (map (take n) ds)) < length (concat ds)"
proof (induction ds)
  case (Cons x ds)
  with takes_length [of n ds] show ?case by auto
qed simp

text \<open>
  The client sends what it reads in datagrams of up to 8192 bytes, and whichever of them arrive,
  the server writes the first 1024 bytes of each and waits on. Even if all arrive in order, what
  it writes is what the client has read if and only if no piece was longer than 1024 bytes.
\<close>

theorem udp_truncates:
  assumes "\<forall>d \<in> set ds. uc_piece d" "subseq arrived ds"
  shows "uc_loop (map (\<lambda>d. (Data d, True)) ds @ [(Eof, ok)]) = (ds, Ended)
    \<and> ur_loop (map Some arrived) = (concat (map (take 1024) arrived), Waiting)
    \<and> (fst (ur_loop (map Some ds)) = concat ds \<longleftrightarrow> (\<forall>d \<in> set ds. length d \<le> 1024))"
proof (intro conjI)
  show "uc_loop (map (\<lambda>d. (Data d, True)) ds @ [(Eof, ok)]) = (ds, Ended)"
    using assms(1) by (rule uc_loop_data)
  have "set arrived \<subseteq> set ds" using list_emb_set [OF assms(2)] by blast
  then show "ur_loop (map Some arrived) = (concat (map (take 1024) arrived), Waiting)"
    using assms(1) by (intro ur_loop_data) (auto simp: uc_piece_def)
  have "ur_loop (map Some ds) = (concat (map (take 1024) ds), Waiting)"
    using assms(1) by (intro ur_loop_data) (auto simp: uc_piece_def)
  then show "fst (ur_loop (map Some ds)) = concat ds \<longleftrightarrow> (\<forall>d \<in> set ds. length d \<le> 1024)"
    using takes_whole [of ds 1024] takes_short [of _ ds 1024] by (metis fst_conv leI less_irrefl)
qed

theorem udp_truncates_witness:
  "ur_loop (map Some [''b'']) = (''b'', Waiting)
   \<and> fst (ur_loop (map Some [''a'', replicate 1025 CHR ''b''])) \<noteq> ''a'' @ replicate 1025 CHR ''b''"
  using udp_truncates [of "[''a'', replicate 1025 CHR ''b'']" "[replicate 1025 CHR ''b'']" True]
    udp_truncates [of "[''b'']" "[''b'']" True]
  by (simp add: uc_piece_def del: ur_loop.simps)

end
