(* ===== verification/Semaphores.thy ===== *)
theory Semaphores
  imports Prelude
begin

text \<open>
  The programs of \<open>semaphores/\<close>: \<open>talking-heads.c\<close> (processes that take turns in talking) and
  \<open>posix-unnamed-sem.c\<close> (waiting for a semaphore with and without regard to interrupted calls).
\<close>

section \<open>\<open>talking-heads.c\<close>\<close>

text \<open>\<open>H_talk k\<close>: the loop of \<open>talk()\<close> with \<open>k\<close> rounds left.\<close>

datatype th_pc = H_loop | H_wait | H_rand | H_talk nat | H_post | H_cleanup | H_exit

text \<open>
  Child \<open>i\<close> has the number \<open>Suc i\<close>. \<open>th_log\<close> is what the children have printed since they were born,
  piece by piece; \<open>th_forked\<close> of them exist so far. \<open>th_waits\<close> counts the rounds of the parent's loop
  over \<open>wait\<close> that are left, \<open>th_exit\<close> is the parent's exit status once it has exited.
\<close>

record th_state =
  th_nproc :: nat
  th_sem :: int
  th_pcs :: "nat \<Rightarrow> th_pc"
  th_run :: "nat \<Rightarrow> bool"
  th_log :: "(nat \<times> string) list"
  th_reaped :: "nat set"
  th_waits :: nat
  th_forked :: nat
  th_parent_run :: bool
  th_exit :: "int option"

definition th_goto :: "nat \<Rightarrow> th_pc \<Rightarrow> th_state \<Rightarrow> th_state" where
  "th_goto i pc s = s\<lparr>th_pcs := (th_pcs s)(i := pc)\<rparr>"

definition th_name :: "nat \<Rightarrow> string" where
  "th_name i = show_nat (Suc i)"

definition th_print :: "nat \<Rightarrow> string \<Rightarrow> th_state \<Rightarrow> th_state" where
  "th_print i t s = s\<lparr>th_log := th_log s @ [(i, t)]\<rparr>"

text \<open>\<open>r\<close> is what \<open>rand()\<close> returns; the result of \<open>sem_wait\<close> and \<open>sem_post\<close> is not looked at.\<close>

fun th_child :: "nat \<Rightarrow> nat \<Rightarrow> th_pc \<Rightarrow> th_state \<Rightarrow> th_state option" where
  "th_child i r H_loop s = Some (th_goto i (if th_run s i then H_wait else H_cleanup) s)"
| "th_child i r H_wait s =
     (if 0 < th_sem s then Some (th_goto i H_rand (s\<lparr>th_sem := th_sem s - 1\<rparr>)) else None)"
| "th_child i r H_rand s = Some (th_goto i (H_talk (r mod (7 - 1) + 1)) s)"
| "th_child i r (H_talk k) s =
     Some (if k = 0 then th_goto i H_post s
           else if k = 1 then th_goto i H_post (th_print i (''('' @ th_name i @ '')'') s)
           else th_goto i (H_talk (k - 1)) (th_print i (th_name i) s))"
| "th_child i r H_post s = Some (th_goto i H_loop (s\<lparr>th_sem := th_sem s + 1\<rparr>))"
| "th_child i r H_cleanup s = Some (th_goto i H_exit s)"
| "th_child i r H_exit s = None"

text \<open>
  The parent forks the children, each with a copy of its own \<open>run\<close>. Then one round of its second loop: \<open>wait\<close> reaps a child that has exited and fails at once when
  there is none left; after the last round the parent cleans up and exits.
\<close>

definition th_zombies :: "th_state \<Rightarrow> nat list" where
  "th_zombies s = filter (\<lambda>i. th_pcs s i = H_exit \<and> i \<notin> th_reaped s) [0..<th_nproc s]"

definition th_all_reaped :: "th_state \<Rightarrow> bool" where
  "th_all_reaped s \<longleftrightarrow> list_all (\<lambda>i. i \<in> th_reaped s) [0..<th_nproc s]"

definition th_parent :: "th_state \<Rightarrow> th_state option" where
  "th_parent s =
     (if th_exit s \<noteq> None then None
      else if th_forked s < th_nproc s
      then Some (s\<lparr>th_forked := Suc (th_forked s), th_run := (th_run s)(th_forked s := th_parent_run s)\<rparr>)
      else if th_waits s = 0 then Some (s\<lparr>th_exit := Some 0\<rparr>)
      else case th_zombies s of
        i # _ \<Rightarrow> Some (s\<lparr>th_reaped := insert i (th_reaped s), th_waits := th_waits s - 1\<rparr>)
      | [] \<Rightarrow> if th_all_reaped s then Some (s\<lparr>th_waits := th_waits s - 1\<rparr>) else None)"

text \<open>
  \<open>Th_eintr\<close> and \<open>Th_parent_eintr\<close>: a \<open>SIGINT\<close> that arrives inside a blocked \<open>sem_wait\<close> or \<open>wait\<close>,
  which then returns -1; the program goes on as if it had succeeded. \<open>Th_sigint_parent\<close>: one that the
  parent handles elsewhere. \<open>Th_fork_fails\<close>: \<open>fork()\<close> returns -1 and \<open>err(1, "fork")\<close> ends the parent, without
  its cleanup and without waiting for the children it has.
\<close>

datatype th_event = Th_child nat nat | Th_sigint nat | Th_eintr nat | Th_parent | Th_parent_eintr
  | Th_sigint_parent | Th_fork_fails

definition th_finish :: "nat \<Rightarrow> th_state \<Rightarrow> th_state" where
  "th_finish i s = s\<lparr>th_run := (th_run s)(i := False)\<rparr>"

definition th_step :: "th_event \<Rightarrow> th_state \<Rightarrow> th_state option" where
  "th_step e s =
     (case e of
        Th_child i r \<Rightarrow> if i < th_forked s then th_child i r (th_pcs s i) s else None
      | Th_sigint i \<Rightarrow> if i < th_forked s \<and> th_pcs s i \<noteq> H_exit then Some (th_finish i s) else None
      | Th_eintr i \<Rightarrow>
          if i < th_forked s \<and> th_pcs s i = H_wait \<and> th_sem s \<le> 0
          then Some (th_goto i H_rand (th_finish i s)) else None
      | Th_parent \<Rightarrow> th_parent s
      | Th_parent_eintr \<Rightarrow>
          if th_exit s = None \<and> th_parent s = None then Some (s\<lparr>th_waits := th_waits s - 1\<rparr>) else None
      | Th_sigint_parent \<Rightarrow> if th_exit s = None then Some (s\<lparr>th_parent_run := False\<rparr>) else None
      | Th_fork_fails \<Rightarrow>
          if th_exit s = None \<and> th_forked s < th_nproc s then Some (s\<lparr>th_exit := Some 1\<rparr>) else None)"

text \<open>
  \<open>main()\<close> up to the loops: \<open>sem_open\<close> makes the semaphore, or finds one of that name that is left over
  and that keeps its value, or fails, as it does for a new one with a negative value.
\<close>

datatype th_opened = Sem_new | Sem_old int | Sem_failed

definition th_first :: "th_opened \<Rightarrow> int \<Rightarrow> int option" where
  "th_first opened sinit =
     (case opened of
        Sem_new \<Rightarrow> if sinit < 0 then None else Some sinit
      | Sem_old v \<Rightarrow> Some v
      | Sem_failed \<Rightarrow> None)"

definition th_main :: "th_opened \<Rightarrow> string list \<Rightarrow> exit_info + th_state" where
  "th_main opened argv =
     (if length argv \<noteq> 3 then Inl (Exit 1 ''usage'')
      else
        let nproc = atoi (argv ! 1); sinit = atoi (argv ! 2) in
        if 10 < nproc then Inl (Exit 1 ''<n> can be up to 10 only.'')
        else if nproc < sinit then Inl (Exit 1 ''<n> must not be less than <init>'')
        else case th_first opened sinit of
          None \<Rightarrow> Inl (Exit 1 ''sem_open'')
        | Some v \<Rightarrow> Inr \<lparr>th_nproc = nat nproc, th_sem = v,
          th_pcs = (\<lambda>_. H_loop), th_run = (\<lambda>_. True), th_log = [], th_reaped = {},
          th_waits = nat nproc, th_forked = 0, th_parent_run = True, th_exit = None\<rparr>)"

fun th_talks :: "th_pc \<Rightarrow> bool" where
  "th_talks H_rand = True"
| "th_talks (H_talk k) = True"
| "th_talks H_post = True"
| "th_talks _ = False"

text \<open>A turn: the number up to five times, then once in parentheses.\<close>

definition th_turn :: "nat \<Rightarrow> nat \<Rightarrow> string list" where
  "th_turn i k = replicate k (th_name i) @ [''('' @ th_name i @ '')'']"

definition th_said :: "nat \<Rightarrow> th_state \<Rightarrow> string list" where
  "th_said i s = map snd (filter (\<lambda>(j, t). j = i) (th_log s))"

definition th_turns_ok :: "nat \<Rightarrow> th_state \<Rightarrow> bool" where
  "th_turns_ok i s \<longleftrightarrow>
     (\<exists>ks m. th_said i s = concat (map (th_turn i) ks) @ replicate m (th_name i) \<and> (\<forall>k \<in> set ks. k \<le> 5)
        \<and> (case th_pcs s i of H_talk k \<Rightarrow> 1 \<le> k \<and> m + k \<le> 6 | _ \<Rightarrow> m = 0))"

lemma th_said_print:
  "th_said i (th_goto j pc (th_print j t s)) = th_said i s @ (if i = j then [t] else [])"
  by (simp add: th_said_def th_goto_def th_print_def)

lemma th_turns_same:
  assumes "th_turns_ok i s" "th_log t = th_log s" "th_pcs t i = th_pcs s i"
  shows "th_turns_ok i t"
  using assms by (simp add: th_turns_ok_def th_said_def)

lemma th_turns_child:
  assumes ok: "th_turns_ok i s" and st: "th_child j r (th_pcs s j) s = Some t"
  shows "th_turns_ok i t"
proof (cases "i = j")
  case False
  have "th_said i t = th_said i s \<and> th_pcs t i = th_pcs s i"
    using st [symmetric] False
    by (cases "th_pcs s j") (auto simp: th_said_def th_goto_def th_print_def split: if_splits)
  with ok show ?thesis by (simp add: th_turns_ok_def)
next
  case True
  from ok obtain ks m where ks: "th_said i s = concat (map (th_turn i) ks) @ replicate m (th_name i)"
    "\<forall>k \<in> set ks. k \<le> 5" and m: "case th_pcs s i of H_talk k \<Rightarrow> 1 \<le> k \<and> m + k \<le> 6 | _ \<Rightarrow> m = 0"
    by (auto simp: th_turns_ok_def)
  show ?thesis
  proof (cases "th_pcs s i")
    case (H_talk k)
    with m have k: "1 \<le> k" "m + k \<le> 6" by auto
    show ?thesis
    proof (cases "k = 1")
      case one: True
      with st H_talk True have t: "t = th_goto i H_post (th_print i (''('' @ th_name i @ '')'') s)" by simp
      have "th_said i t = concat (map (th_turn i) (ks @ [m]))"
        unfolding t th_said_print using ks by (simp add: th_turn_def)
      moreover have "\<forall>k \<in> set (ks @ [m]). k \<le> 5" using ks(2) k one by auto
      moreover have "th_pcs t i = H_post" unfolding t by (simp add: th_goto_def)
      ultimately show ?thesis unfolding th_turns_ok_def by (intro exI [of _ "ks @ [m]"] exI [of _ 0]) simp
    next
      case more: False
      with st H_talk True k have t: "t = th_goto i (H_talk (k - 1)) (th_print i (th_name i) s)" by simp
      have "th_said i t = concat (map (th_turn i) ks) @ replicate (Suc m) (th_name i)"
        unfolding t th_said_print using ks by (simp add: replicate_append_same)
      moreover have "th_pcs t i = H_talk (k - 1)" unfolding t by (simp add: th_goto_def)
      ultimately show ?thesis using ks(2) k more unfolding th_turns_ok_def
        by (intro exI [of _ ks] exI [of _ "Suc m"]) simp
    qed
  next
    case H_rand
    with st True have t: "t = th_goto i (H_talk (r mod 6 + 1)) s" by simp
    have "r mod 6 + 1 \<le> 6" using mod_less_divisor [of 6 r] by linarith
    with ks m H_rand show ?thesis unfolding t th_turns_ok_def
      by (intro exI [of _ ks] exI [of _ m]) (simp add: th_goto_def th_said_def)
  qed (use ks m st True in \<open>auto intro!: exI [of _ ks] exI [of _ m] simp: th_turns_ok_def th_goto_def th_said_def split: if_splits\<close>)
qed

text \<open>The steps without interrupted \<open>sem_wait\<close> calls.\<close>

definition th_calm :: "th_event \<Rightarrow> th_state \<Rightarrow> th_state option" where
  "th_calm e s = (case e of Th_eintr i \<Rightarrow> None | _ \<Rightarrow> th_step e s)"

lemma th_calm_exec:
  "\<forall>i. Th_eintr i \<notin> set es \<Longrightarrow> exec th_calm es s = exec th_step es s"
proof (induction es arbitrary: s)
  case (Cons e es)
  then have "th_calm e s = th_step e s" by (auto simp: th_calm_def split: th_event.split)
  with Cons show ?case by (auto split: option.split)
qed simp

definition th_inv :: "nat \<Rightarrow> int \<Rightarrow> th_state \<Rightarrow> bool" where
  "th_inv n sinit s \<longleftrightarrow>
     th_nproc s = n \<and> th_forked s \<le> n \<and> (\<forall>i. th_turns_ok i s) \<and> 0 \<le> th_sem s \<and> cnt n th_talks (th_pcs s) + th_sem s = sinit"

lemma th_count_child:
  assumes "th_child i r (th_pcs s i) s = Some t" "i < n" "0 \<le> th_sem s"
  shows "cnt n th_talks (th_pcs t) + th_sem t = cnt n th_talks (th_pcs s) + th_sem s
    \<and> 0 \<le> th_sem t \<and> th_nproc t = th_nproc s \<and> th_forked t = th_forked s"
  using assms(1) [symmetric] assms(2,3)
  by (cases "th_pcs s i") (auto simp: th_goto_def th_print_def counting split: if_splits)

lemma th_parent_same:
  assumes "th_parent s = Some t \<or> t = s\<lparr>th_waits := k\<rparr> \<or> t = th_finish i s
    \<or> t = s\<lparr>th_parent_run := False\<rparr> \<or> t = s\<lparr>th_exit := Some 1\<rparr>" and "th_forked s \<le> th_nproc s"
  shows "th_forked t \<le> th_nproc t \<and> th_log t = th_log s \<and> th_pcs t = th_pcs s \<and> th_sem t = th_sem s \<and> th_nproc t = th_nproc s"
  using assms by (auto simp: th_parent_def th_finish_def split: if_splits list.splits)

lemma th_inv_same:
  assumes "th_inv n c s" "th_forked t \<le> th_nproc t \<and> th_log t = th_log s \<and> th_pcs t = th_pcs s \<and> th_sem t = th_sem s \<and> th_nproc t = th_nproc s"
  shows "th_inv n c t"
  using assms th_turns_same [of _ s t] by (simp add: th_inv_def)

lemma th_inv_step:
  assumes inv: "th_inv n c s" and st: "th_calm e s = Some t"
  shows "th_inv n c t"
proof (cases e)
  case (Th_child i r)
  with st inv have st': "th_child i r (th_pcs s i) s = Some t" "i < th_nproc s"
    by (auto simp: th_calm_def th_step_def th_inv_def split: if_splits)
  with inv th_count_child [of i r s t n] th_turns_child [of _ s i r t] show ?thesis
    by (simp add: th_inv_def)
next
  case (Th_sigint i)
  with st have "t = th_finish i s" by (auto simp: th_calm_def th_step_def split: if_splits)
  with inv show ?thesis by (rule_tac th_inv_same [OF inv th_parent_same]) (auto simp: th_inv_def)
next
  case Th_parent
  with st have "th_parent s = Some t" by (simp add: th_calm_def th_step_def)
  with inv show ?thesis by (rule_tac th_inv_same [OF inv th_parent_same]) (auto simp: th_inv_def)
next
  case Th_parent_eintr
  with st have "t = s\<lparr>th_waits := th_waits s - 1\<rparr>" by (auto simp: th_calm_def th_step_def split: if_splits)
  with inv show ?thesis by (rule_tac th_inv_same [OF inv th_parent_same]) (auto simp: th_inv_def)
next
  case Th_sigint_parent
  with st have "t = s\<lparr>th_parent_run := False\<rparr>" by (auto simp: th_calm_def th_step_def split: if_splits)
  with inv show ?thesis by (rule_tac th_inv_same [OF inv th_parent_same]) (auto simp: th_inv_def)
next
  case Th_fork_fails
  with st have "t = s\<lparr>th_exit := Some 1\<rparr>" by (auto simp: th_calm_def th_step_def split: if_splits)
  with inv show ?thesis by (rule_tac th_inv_same [OF inv th_parent_same]) (auto simp: th_inv_def)
qed (use st in \<open>simp add: th_calm_def\<close>)

text \<open>The initial states are those of \<open>main()\<close>, whatever the semaphore's first value.\<close>

definition th_start :: "nat \<Rightarrow> int \<Rightarrow> th_state" where
  "th_start n c = \<lparr>th_nproc = n, th_sem = c, th_pcs = (\<lambda>_. H_loop), th_run = (\<lambda>_. True), th_log = [],
     th_reaped = {}, th_waits = n, th_forked = 0, th_parent_run = True, th_exit = None\<rparr>"

lemma th_main_start:
  "th_main opened argv = Inr s \<Longrightarrow>
     \<exists>c. th_first opened (atoi (argv ! 2)) = Some c \<and> s = th_start (nat (atoi (argv ! 1))) c"
  by (auto simp: th_main_def th_start_def Let_def split: if_splits option.splits)

interpretation th: step_invariant th_calm "th_start n c" "\<lambda>s. 0 \<le> c \<longrightarrow> th_inv n c s" for n c
proof unfold_locales
  have "th_turns_ok i (th_start n c)" for i
    by (auto simp: th_turns_ok_def th_start_def th_said_def intro!: exI [of _ "[]"])
  moreover have "cnt n th_talks (th_pcs (th_start n c)) = 0" by (simp add: cnt_zero_iff th_start_def)
  ultimately show "0 \<le> c \<longrightarrow> th_inv n c (th_start n c)" by (simp add: th_inv_def) (simp add: th_start_def)
qed (auto intro: th_inv_step)

text \<open>What an exited parent has done, and that its children are none of its business any more.\<close>

lemma th_failed_step:
  assumes "th_step e s = Some t" "th_exit s = Some x"
  shows "th_exit t = Some x \<and> th_forked t = th_forked s"
proof (cases e)
  case (Th_child i r)
  with assms(1) have "Some t = th_child i r (th_pcs s i) s" by (simp add: th_step_def split: if_splits)
  with assms(2) show ?thesis by (cases "th_pcs s i") (auto simp: th_goto_def th_print_def split: if_splits)
qed (use assms in \<open>auto simp: th_step_def th_parent_def th_goto_def th_finish_def split: if_splits\<close>)

lemma th_failed_exec:
  "exec th_step es s = Some t \<Longrightarrow> th_exit s = Some x \<Longrightarrow> th_exit t = Some x \<and> th_forked t = th_forked s"
proof (induction es arbitrary: s)
  case (Cons e es)
  then obtain u where u: "th_step e s = Some u" "exec th_step es u = Some t" by (auto split: option.splits)
  from Cons.IH [OF u(2)] th_failed_step [OF u(1) Cons.prems(2)] show ?case by simp
qed simp

lemma th_nproc_exec: "exec th_step es s = Some t \<Longrightarrow> th_nproc t = th_nproc s"
proof (induction es arbitrary: s)
  case (Cons e es)
  then obtain u where u: "th_step e s = Some u" "exec th_step es u = Some t" by (auto split: option.splits)
  have "th_nproc u = th_nproc s"
  proof (cases e)
    case (Th_child i r)
    with u(1) have "Some u = th_child i r (th_pcs s i) s" by (simp add: th_step_def split: if_splits)
    then show ?thesis by (cases "th_pcs s i") (auto simp: th_goto_def th_print_def split: if_splits)
  qed (use u(1) in \<open>auto simp: th_step_def th_parent_def th_goto_def th_finish_def split: if_splits list.splits\<close>)
  with Cons.IH [OF u(2)] show ?case by simp
qed simp

lemma th_fork_failed:
  "exec th_step es s = Some t \<Longrightarrow> Th_fork_fails \<in> set es \<Longrightarrow> th_exit t = Some 1 \<and> th_forked t < th_nproc t"
proof (induction es arbitrary: s)
  case (Cons e es)
  then obtain u where u: "th_step e s = Some u" "exec th_step es u = Some t" by (auto split: option.splits)
  show ?case
  proof (cases "e = Th_fork_fails")
    case True
    with u(1) have f: "th_exit u = Some 1" "th_forked u < th_nproc u"
      by (auto simp: th_step_def split: if_splits)
    moreover have "th_nproc t = th_nproc u" by (rule th_nproc_exec [OF u(2)])
    ultimately show ?thesis using th_failed_exec [OF u(2)] by simp
  next
    case False
    with Cons show ?thesis using u by auto
  qed
qed simp

text \<open>
  C16: As long as no signal interrupts a blocked \<open>sem_wait\<close>, never more children talk at the same time
  than the semaphore's first value, and what each child has printed is a sequence of whole turns,
  its number at most five times and once in parentheses, then the beginning of one while it talks.
  That value is \<open><init>\<close> when the semaphore is new; one that an earlier run has left over keeps its own,
  whatever \<open><init>\<close> is. If a \<open>fork()\<close> fails, the parent is gone with status 1 and only some of the
  children exist, for which the same is true.
\<close>

theorem th_turns:
  assumes "th_main opened argv = Inr s0" "\<forall>v. opened = Sem_old v \<longrightarrow> 0 \<le> v"
    and "exec th_step es s0 = Some s" "\<forall>i. Th_eintr i \<notin> set es"
  shows "cnt (th_nproc s) th_talks (th_pcs s) \<le> (case opened of Sem_old v \<Rightarrow> v | _ \<Rightarrow> atoi (argv ! 2))
    \<and> (\<exists>ks m. th_said i s = concat (map (th_turn i) ks) @ replicate m (th_name i) \<and> (\<forall>k \<in> set ks. k \<le> 5)
        \<and> (th_talks (th_pcs s i) \<or> m = 0) \<and> m \<le> 5)
    \<and> (Th_fork_fails \<in> set es \<longrightarrow> th_exit s = Some 1 \<and> th_forked s < th_nproc s)"
proof -
  from th_main_start [OF assms(1)] obtain c where c: "th_first opened (atoi (argv ! 2)) = Some c"
    "s0 = th_start (nat (atoi (argv ! 1))) c" by blast
  with assms(2) have c0: "0 \<le> c" "c = (case opened of Sem_old v \<Rightarrow> v | _ \<Rightarrow> atoi (argv ! 2))"
    by (auto simp: th_first_def split: th_opened.splits if_splits)
  have "exec th_calm es s0 = Some s" using assms(3,4) by (simp add: th_calm_exec)
  from exec_reach [OF this] c c0(1) have inv: "th_inv (nat (atoi (argv ! 1))) c s"
    using th.reach_inv [of "nat (atoi (argv ! 1))" c s] by simp
  then have "th_turns_ok i s" by (simp add: th_inv_def)
  then obtain ks m where "th_said i s = concat (map (th_turn i) ks) @ replicate m (th_name i)"
      "\<forall>k \<in> set ks. k \<le> 5" "case th_pcs s i of H_talk k \<Rightarrow> 1 \<le> k \<and> m + k \<le> 6 | _ \<Rightarrow> m = 0"
    unfolding th_turns_ok_def by blast
  moreover from this(3) have "(th_talks (th_pcs s i) \<or> m = 0) \<and> m \<le> 5" by (auto split: th_pc.splits)
  ultimately show ?thesis using inv c0(2) th_fork_failed [OF assms(3)] by (fastforce simp: th_inv_def)
qed

definition th_run1 :: "th_event list" where
  "th_run1 = [Th_parent, Th_child 0 2, Th_child 0 2, Th_parent, Th_child 0 2, Th_child 1 5, Th_child 0 0, Th_fork_fails,
     Th_child 0 0, Th_child 0 0]"

theorem th_turns_witness:
  "\<exists>s. exec th_step th_run1 (th_start 3 1) = Some s \<and> th_said 0 s = [''1'', ''1'', ''(1)'']
    \<and> cnt (th_nproc s) th_talks (th_pcs s) \<le> 1 \<and> th_exit s = Some 1"
proof -
  have m: "th_main (Sem_old 1) [''a'', ''3'', ''2''] = Inr (th_start 3 1)"
    by (simp add: th_main_def th_first_def th_start_def cdefs numeral_3_eq_3)
  have "runs th_step th_run1 (th_start 3 1) (\<lambda>s. th_said 0 s = [''1'', ''1'', ''(1)''])" by code_simp
  from runs_exec [OF this] obtain s where s: "exec th_step th_run1 (th_start 3 1) = Some s"
    "th_said 0 s = [''1'', ''1'', ''(1)'']" by blast
  have "\<forall>i. Th_eintr i \<notin> set th_run1" "Th_fork_fails \<in> set th_run1" by (simp_all add: th_run1_def)
  with th_turns [OF m _ s(1), of 0] s show ?thesis by (intro exI [of _ s]) simp
qed

text \<open>
  \<open>SIGINT\<close> undoes both promises of the program: for two children and an initial value of 1 the
  signal can let both talk at the same time, since the result of the interrupted \<open>sem_wait\<close> is
  ignored; and the parent, whose \<open>wait\<close> it interrupts, can exit before its children have.
\<close>

theorem th_interrupted:
  assumes "th_main Sem_new [prog, n, c] = Inr s0" "atoi n = 2" "atoi c = 1"
  shows "\<exists>s. reach th_step s0 s \<and> cnt 2 th_talks (th_pcs s) = 2 \<and> th_exit s = Some 0"
proof -
  have s0: "s0 = th_start 2 1"
    using th_main_start [OF assms(1)] assms(2,3) by (auto simp: numeral_2_eq_2 th_first_def)
  have "runs th_step [Th_parent, Th_parent, Th_child 0 0, Th_child 1 0, Th_child 0 0, Th_eintr 1, Th_sigint 0,
      Th_parent_eintr, Th_parent_eintr, Th_parent] (th_start 2 1)
      (\<lambda>s. th_talks (th_pcs s 0) \<and> th_talks (th_pcs s 1) \<and> th_exit s = Some 0)" by code_simp
  from runs_reach [OF this] obtain s where s: "reach th_step (th_start 2 1) s" "th_talks (th_pcs s 0)"
    "th_talks (th_pcs s 1)" "th_exit s = Some 0" by blast
  have "\<forall>i < 2. th_talks (th_pcs s i)" using s(2,3) by (auto simp: less_2_cases_iff)
  then have "cnt 2 th_talks (th_pcs s) = 2" using cnt_full_iff [of 2 th_talks "th_pcs s"] by simp
  with s s0 show ?thesis by blast
qed

theorem th_interrupted_witness:
  "\<exists>s. reach th_step (th_start 2 1) s \<and> cnt 2 th_talks (th_pcs s) = 2 \<and> th_exit s = Some 0"
proof -
  have m: "th_main Sem_new [''a'', ''2'', ''1''] = Inr (th_start 2 1)" and a: "atoi ''1'' = 1" "atoi ''2'' = 2"
    by (simp_all add: th_main_def th_first_def th_start_def cdefs numeral_2_eq_2)
  from th_interrupted [OF m a(2,1)] show ?thesis .
qed

section \<open>\<open>posix-unnamed-sem.c\<close>\<close>

datatype us_usher = U_post | U_put
datatype us_main_pc = W_wait | W_put

record us_state =
  us_nointr :: bool
  us_sem :: int
  us_usher :: us_usher
  us_main_pc :: us_main_pc
  us_out :: string
  us_exit :: "int option"

text \<open>
  \<open>Alarm\<close> is \<open>SIGALRM\<close> while \<open>main()\<close> is blocked in \<open>sem_wait\<close>, which then fails with \<open>EINTR\<close>:
  \<open>sem_wait_nointr()\<close> prints \<open>S\<close> and calls it again, otherwise \<open>err\<close> ends the program.
\<close>

datatype us_event = Us_usher | Us_main | Us_alarm

definition us_step :: "us_event \<Rightarrow> us_state \<Rightarrow> us_state option" where
  "us_step e s =
     (if us_exit s \<noteq> None then None
      else case e of
        Us_usher \<Rightarrow>
          Some (case us_usher s of
             U_post \<Rightarrow> s\<lparr>us_sem := us_sem s + 1, us_usher := U_put\<rparr>
           | U_put \<Rightarrow> s\<lparr>us_usher := U_post, us_out := us_out s @ ''+''\<rparr>)
      | Us_main \<Rightarrow>
          (case us_main_pc s of
             W_wait \<Rightarrow> if 0 < us_sem s then Some (s\<lparr>us_sem := us_sem s - 1, us_main_pc := W_put\<rparr>) else None
           | W_put \<Rightarrow> Some (s\<lparr>us_main_pc := W_wait, us_out := us_out s @ ''-''\<rparr>))
      | Us_alarm \<Rightarrow>
          if us_main_pc s = W_wait \<and> us_sem s \<le> 0
          then Some (if us_nointr s then s\<lparr>us_out := us_out s @ ''S''\<rparr> else s\<lparr>us_exit := Some 1\<rparr>)
          else Some s)"

definition us_main :: "string list \<Rightarrow> us_state" where
  "us_main argv =
     \<lparr>us_nointr = (length argv = 2), us_sem = 5, us_usher = U_post, us_main_pc = W_wait, us_out = [],
      us_exit = None\<rparr>"

definition us_count :: "char \<Rightarrow> us_state \<Rightarrow> int" where
  "us_count c s = int (length (filter (\<lambda>d. d = c) (us_out s)))"

definition us_inv :: "us_state \<Rightarrow> bool" where
  "us_inv s \<longleftrightarrow>
     0 \<le> us_sem s
     \<and> us_sem s = 5 + us_count (CHR ''+'') s + (if us_usher s = U_put then 1 else 0)
         - us_count (CHR ''-'') s - (if us_main_pc s = W_put then 1 else 0)
     \<and> (us_nointr s \<longrightarrow> us_exit s = None)"

interpretation us: step_invariant us_step "us_main argv" "\<lambda>s. us_inv s \<and> us_nointr s = (length argv = 2)" for argv
proof unfold_locales
  show "us_inv (us_main argv) \<and> us_nointr (us_main argv) = (length argv = 2)"
    by (simp add: us_inv_def us_main_def us_count_def)
next
  fix s e t
  assume "us_inv s \<and> us_nointr s = (length argv = 2)" "us_step e s = Some t"
  then show "us_inv t \<and> us_nointr t = (length argv = 2)"
    by (cases e; cases "us_usher s"; cases "us_main_pc s")
      (clarsimp simp: us_step_def us_inv_def us_count_def split: if_splits)+
qed

text \<open>
  However posts, waits and alarms interleave, \<open>main()\<close> has entered at most five times more often
  than the usher has posted. With an argument no alarm ever ends the program, and the usher can
  always move; without one the first alarm that meets a blocked wait makes it exit with 1, and
  such a run exists.
\<close>

theorem us_entries:
  "(reach us_step (us_main argv) s \<longrightarrow>
      us_count (CHR ''-'') s \<le> 5 + us_count (CHR ''+'') s + 1
      \<and> (length argv = 2 \<longrightarrow> us_exit s = None \<and> us_step Us_usher s \<noteq> None))
   \<and> (length argv \<noteq> 2 \<longrightarrow> (\<exists>t. reach us_step (us_main argv) t \<and> us_exit t = Some 1 \<and> us_out t = ''-----''))"
proof (intro conjI impI)
  assume r: "reach us_step (us_main argv) s"
  then show "us_count (CHR ''-'') s \<le> 5 + us_count (CHR ''+'') s + 1"
    using us.reach_inv [OF r] by (auto simp: us_inv_def split: if_splits)
  assume "length argv = 2"
  with us.reach_inv [OF r] show "us_exit s = None" and "us_step Us_usher s \<noteq> None"
    by (simp_all add: us_inv_def us_step_def)
next
  assume "length argv \<noteq> 2"
  then have "runs us_step (replicate 10 Us_main @ [Us_alarm]) (us_main argv)
      (\<lambda>t. us_exit t = Some 1 \<and> us_out t = ''-----'')"
    by (simp add: numeral_eq_Suc us_step_def us_main_def)
  from runs_reach [OF this]
  show "\<exists>t. reach us_step (us_main argv) t \<and> us_exit t = Some 1 \<and> us_out t = ''-----''" .
qed

theorem us_entries_witness:
  "(\<exists>s. reach us_step (us_main [''a'', ''x'']) s \<and> us_out s = ''-----S+'' \<and> us_exit s = None)
   \<and> (\<exists>t. reach us_step (us_main [''a'']) t \<and> us_exit t = Some 1)"
proof -
  have "runs us_step (replicate 10 Us_main @ [Us_alarm, Us_usher, Us_usher]) (us_main [''a'', ''x''])
      (\<lambda>s. us_out s = ''-----S+'')" by code_simp
  from runs_reach [OF this] obtain s where s: "reach us_step (us_main [''a'', ''x'']) s" "us_out s = ''-----S+''"
    by blast
  have "us_exit s = None" using us_entries [of "[''a'', ''x'']" s] s(1) by simp
  moreover obtain t where "reach us_step (us_main [''a'']) t" "us_exit t = Some 1"
    using us_entries [of "[''a'']"] by auto
  ultimately show ?thesis using s by blast
qed

end
