(* ===== verification/Mutexes.thy ===== *)
theory Mutexes
  imports Getopt
begin

text \<open>
  \<open>mutexes/not-my-lock.c\<close>, which uses mutexes of the three POSIX types in ways they are not meant
  for, and \<open>pthreads/atfork.c\<close>, which forks a process while a mutex is held.
\<close>

section \<open>Mutex types\<close>

datatype mx_type = Normal | Errorcheck | Recursive

datatype mx_thread = Main_thread | Other_thread

text \<open>The owner of a mutex and how often it has locked it.\<close>

type_synonym mx = "(mx_thread \<times> nat) option"

datatype mx_error = EPERM | EDEADLK

datatype mx_result = Mx_ok mx | Mx_error mx_error | Mx_blocks

definition mx_lock :: "mx_type \<Rightarrow> mx_thread \<Rightarrow> mx \<Rightarrow> mx_result" where
  "mx_lock ty t m =
     (case m of
        None \<Rightarrow> Mx_ok (Some (t, 1))
      | Some (owner, k) \<Rightarrow>
          if owner \<noteq> t then Mx_blocks
          else case ty of
            Normal \<Rightarrow> Mx_blocks
          | Errorcheck \<Rightarrow> Mx_error EDEADLK
          | Recursive \<Rightarrow> Mx_ok (Some (t, Suc k)))"

text \<open>
  Unlocking a mutex one does not own is undefined for the normal type; on Linux and Solaris, as the
  program's comments say, it is unlocked without an error.
\<close>

definition mx_unlock :: "mx_type \<Rightarrow> mx_thread \<Rightarrow> mx \<Rightarrow> mx_result" where
  "mx_unlock ty t m =
     (case m of
        Some (owner, k) \<Rightarrow>
          if owner = t then Mx_ok (if k \<le> 1 then None else Some (t, k - 1))
          else if ty = Normal then Mx_ok None else Mx_error EPERM
      | None \<Rightarrow> if ty = Normal then Mx_ok None else Mx_error EPERM)"

section \<open>\<open>not-my-lock.c\<close>\<close>

text \<open>The option loop: the type last asked for, or \<^term>\<open>None\<close> for the usage text.\<close>

fun nm_options :: "mx_type \<Rightarrow> optval list \<Rightarrow> mx_type option" where
  "nm_options ty [] = Some ty"
| "nm_options ty (Opt c v # os) =
     (if c = CHR ''n'' then nm_options Normal os
      else if c = CHR ''r'' then nm_options Recursive os
      else if c = CHR ''e'' then nm_options Errorcheck os
      else None)"
| "nm_options ty (_ # os) = None"

definition nm_usage :: string where
  "nm_usage =
     ''Program messes up with mutexes.'' @ nl @ ''Usage: not-my-lock [-h|-e|-n|-r]'' @ nl
     @ ''-e'' @ [char_of (9 :: nat)] @ ''set mutex type to ERRORCHECK'' @ nl
     @ ''-n'' @ [char_of (9 :: nat)] @ ''set mutex type to NORMAL'' @ nl
     @ ''-r'' @ [char_of (9 :: nat)] @ ''set mutex type to RECURSIVE'' @ nl
     @ ''-h'' @ [char_of (9 :: nat)] @ ''this usage'' @ nl
     @ ''With no option: mutex type is set to DEFAULT.'' @ nl"

text \<open>What the program says of a call, by its result; \<open>strerror\<close> is the library's.\<close>

definition nm_verdict :: "(mx_error \<Rightarrow> string) \<Rightarrow> mx_result \<Rightarrow> string" where
  "nm_verdict strerror r =
     (case r of Mx_error e \<Rightarrow> strerror e @ nl @ nl | _ \<Rightarrow> ''No error detected.'' @ nl @ nl)"

text \<open>
  \<open>thread()\<close> unlocks \<open>mutex\<close>, which \<open>main()\<close> has locked unless the thread came first: what it prints
  and the mutex afterwards.
\<close>

definition nm_thread :: "(mx_error \<Rightarrow> string) \<Rightarrow> mx_type \<Rightarrow> mx \<Rightarrow> string" where
  "nm_thread strerror ty m =
     ''Attempting to unlock a mutex owned by somebody else...'' @ nl
     @ nm_verdict strerror (mx_unlock ty Other_thread m)"

text \<open>
  The result: the standard output and exit, or what \<open>main()\<close> and the thread have written to the
  error output, and whether \<open>main()\<close> returns (\<^term>\<open>True\<close>) or is blocked for ever.
\<close>

datatype nm_result = Nm_usage string | Nm_ran string string bool

definition nm_main :: "(mx_error \<Rightarrow> string) \<Rightarrow> mx_type \<Rightarrow> bool \<Rightarrow> string list \<Rightarrow> nm_result" where
  "nm_main strerror dflt main_first argv =
     (case nm_options dflt (fst (getopt_scan (optspec ''renh'') (tl argv))) of
        None \<Rightarrow> Nm_usage nm_usage
      | Some ty \<Rightarrow>
          let warn = (if length argv = 1
                then errx_line (hd argv) ''Mutex set to default type''
                  @ errx_line (hd argv) (''Run with -h to see other possible types'' @ nl) else []);
              mutex = (if main_first then Some (Main_thread, 1) else None);
              out2 = warn @ ''Locking a mutex (and sleep 1 second).'' @ nl
                @ ''Unlocking an unlocked mutex2.'' @ nl
                @ nm_verdict strerror (mx_unlock ty Main_thread None)
                @ ''Locking mutex3.'' @ nl @ ''And locking it again (will we deadlock?).'' @ nl;
              again = (case mx_lock ty Main_thread None of
                  Mx_ok m \<Rightarrow> mx_lock ty Main_thread m | r \<Rightarrow> r)
          in case again of
               Mx_blocks \<Rightarrow> Nm_ran out2 (nm_thread strerror ty mutex) False
             | r \<Rightarrow> Nm_ran (out2 @ nm_verdict strerror r) (nm_thread strerror ty mutex) True)"

text \<open>The letter of a type, for the options.\<close>

definition nm_letter :: "mx_type \<Rightarrow> char" where
  "nm_letter ty = (case ty of Normal \<Rightarrow> CHR ''n'' | Errorcheck \<Rightarrow> CHR ''e'' | Recursive \<Rightarrow> CHR ''r'')"

lemma nm_options_letters:
  "nm_options ty (map (\<lambda>t. Opt (nm_letter t) None) tys) = Some (last (ty # tys))"
  by (induction tys arbitrary: ty) (auto simp: nm_letter_def split: mx_type.splits)

lemma nm_scan:
  "getopt_scan (optspec ''renh'') (map (\<lambda>t. [CHR ''-'', nm_letter t]) tys @ [''--''])
     = (map (\<lambda>t. Opt (nm_letter t) None) tys, [])"
proof -
  have "\<forall>x \<in> set (map (\<lambda>t. (Opt (nm_letter t) None, False)) tys). opt_fits (optspec ''renh'') x"
    by (auto simp: nm_letter_def split: mx_type.splits)
  from getopt_scan_words [OF this, of "[]"] show ?thesis
    by (simp add: comp_def)
qed

text \<open>
  With any sequence of type options the last one decides, and whichever thread comes first the
  outcome is the same: for a normal mutex nobody notices the foreign unlock and \<open>main()\<close> hangs at
  its second lock; for an error checking one all three misuses are reported; for a recursive one
  the two unlocks are reported and the second lock succeeds.
\<close>

theorem nm_outcome:
  assumes "tys \<noteq> []"
  shows "\<exists>out. nm_main strerror dflt main_first (prog # map (\<lambda>t. [CHR ''-'', nm_letter t]) tys @ [''--'']) =
    Nm_ran (out @ (case last tys of
        Normal \<Rightarrow> []
      | Errorcheck \<Rightarrow> strerror EDEADLK @ nl @ nl
      | Recursive \<Rightarrow> ''No error detected.'' @ nl @ nl))
      (''Attempting to unlock a mutex owned by somebody else...'' @ nl
        @ (if last tys = Normal then ''No error detected.'' else strerror EPERM) @ nl @ nl)
      (last tys \<noteq> Normal)"
proof -
  let ?argv = "prog # map (\<lambda>t. [CHR ''-'', nm_letter t]) tys @ [''--'']"
  have o: "nm_options dflt (fst (getopt_scan (optspec ''renh'') (tl ?argv))) = Some (last tys)"
    using assms by (simp only: list.sel nm_scan fst_conv nm_options_letters) simp
  show ?thesis
    unfolding nm_main_def o
    by (cases "last tys"; cases main_first)
      (simp_all add: mx_lock_def mx_unlock_def nm_verdict_def nm_thread_def Let_def)
qed

theorem nm_outcome_witness:
  "\<exists>out. nm_main (\<lambda>e. case e of EPERM \<Rightarrow> ''perm'' | EDEADLK \<Rightarrow> ''dead'') Normal True [''a'', ''-n'', ''-e'', ''--''] =
    Nm_ran (out @ ''dead'' @ nl @ nl)
      (''Attempting to unlock a mutex owned by somebody else...'' @ nl @ ''perm'' @ nl @ nl) True"
  using nm_outcome [of "[Normal, Errorcheck]" "\<lambda>e. case e of EPERM \<Rightarrow> ''perm'' | EDEADLK \<Rightarrow> ''dead''"
      Normal True "''a''"]
  by (simp add: nm_letter_def)

section \<open>\<open>atfork.c\<close>: arguments and state\<close>

datatype af_args = Af_usage | Af_args bool int

text \<open>\<open>main()\<close>'s own option parsing: whether the handlers are installed, and the seconds to sleep.\<close>

definition af_parse :: "string list \<Rightarrow> af_args" where
  "af_parse argv =
     (if length argv \<le> 1 then Af_args True 5
      else if take 1 (argv ! 1) = ''-'' then
        (if take 1 (drop 1 (argv ! 1)) \<noteq> ''d'' then Af_usage
         else if length argv = 3 then Af_args False (atoi (argv ! 2))
         else if 3 < length argv then Af_usage
         else Af_args False 5)
      else if length argv = 2 then Af_args True (atoi (argv ! 1))
      else Af_usage)"

datatype af_main_pc = Af_lock | Af_create | Af_sleep | Af_unlock | Af_join | Af_cancel | Af_wait | Af_exit | Af_err

text \<open>
  The thread \<open>forker()\<close>, in the parent and, from \<open>fork()\<close> on, in the child. After a \<open>fork()\<close> that fails
  the parent's handler has yet to run (\<open>Fk_fail_after\<close>), then \<open>err(1, "fork")\<close> ends the process
  with all its threads (\<open>Fk_fail\<close>, \<open>Af_err\<close>).
\<close>

datatype af_pc =
  Fk_none | Fk_start | Fk_before | Fk_fork | Fk_after | Fk_who | Fk_lock | Fk_unlock | Fk_done | Fk_fail_after | Fk_fail

datatype af_owner = By_main | By_forker

text \<open>
  The parent's mutex and, once it exists, the child's copy of it. \<open>af_log\<close> holds the lines printed,
  each with the process that prints it (\<^term>\<open>True\<close> for the child).
\<close>

record af_state =
  af_atfork :: bool
  af_nsecs :: int
  af_mutex :: "af_owner option"
  af_main_pc :: af_main_pc
  af_forker :: af_pc
  af_child_mutex :: "af_owner option"
  af_child :: af_pc
  af_counting :: bool
  af_log :: "(bool \<times> string) list"

definition af_say :: "bool \<Rightarrow> string \<Rightarrow> af_state \<Rightarrow> af_state" where
  "af_say child t s = s\<lparr>af_log := af_log s @ [(child, t)]\<rparr>"

fun af_main_stmt :: "af_main_pc \<Rightarrow> af_state \<Rightarrow> af_state option" where
  "af_main_stmt Af_lock s =
     (if af_mutex s = None
      then Some (af_say False ''in main: locking mutex'' (s\<lparr>af_mutex := Some By_main, af_main_pc := Af_create\<rparr>))
      else None)"
| "af_main_stmt Af_create s = Some (s\<lparr>af_forker := Fk_start, af_counting := True, af_main_pc := Af_sleep\<rparr>)"
| "af_main_stmt Af_sleep s =
     Some (af_say False (''in main: sleeping for '' @ show_int (af_nsecs s) @ '' seconds, holding the mutex'')
       (s\<lparr>af_main_pc := Af_unlock\<rparr>))"
| "af_main_stmt Af_unlock s =
     Some (af_say False ''in main: waiting for the threads'' (af_say False ''in main: unlocking mutex''
       (s\<lparr>af_mutex := None, af_main_pc := Af_join\<rparr>)))"
| "af_main_stmt Af_join s = (if af_forker s = Fk_done then Some (s\<lparr>af_main_pc := Af_cancel\<rparr>) else None)"
| "af_main_stmt Af_cancel s =
     Some (af_say False ''in main: waiting for child to exit''
       (af_say False ''in main: terminating the counter thread'' (s\<lparr>af_counting := False, af_main_pc := Af_wait\<rparr>)))"
| "af_main_stmt Af_wait s = (if af_child s = Fk_done then Some (s\<lparr>af_main_pc := Af_exit\<rparr>) else None)"
| "af_main_stmt Af_exit s = None"
| "af_main_stmt Af_err s = None"

text \<open>
  The handlers \<open>before()\<close> and \<open>after()\<close> run in the thread that forks, \<open>after()\<close> in both processes;
  the names they print are in quotation marks.
\<close>

definition af_quoted :: "string \<Rightarrow> string" where
  "af_quoted w = [char_of (34 :: nat)] @ w @ [char_of (34 :: nat)]"

definition af_before :: "af_state \<Rightarrow> af_state option" where
  "af_before s =
     (if af_mutex s = None
      then Some (af_say False (''forker: leaving the '' @ af_quoted ''BEFORE'' @ '' handler holding the mutex'')
        (s\<lparr>af_mutex := Some By_forker, af_forker := Fk_fork\<rparr>))
      else None)"

definition af_after :: "bool \<Rightarrow> af_state \<Rightarrow> af_state" where
  "af_after child s =
     (let s' = af_say child (''forker: in the '' @ af_quoted ''AFTER'' @ '' handler, releasing the mutex'') s;
          s'' = (if child then s'\<lparr>af_child_mutex := None, af_child := Fk_who\<rparr>
                 else s'\<lparr>af_mutex := None, af_forker := (if af_forker s = Fk_fail_after then Fk_fail else Fk_who)\<rparr>)
      in af_say child (''forker: leaving the '' @ af_quoted ''AFTER'' @ '' handler with the mutex released'') s'')"

text \<open>
  \<open>fork()\<close> copies the mutex as it is; of the threads only the one that forks is in the child. A \<open>fork()\<close>
  that fails runs \<open>before()\<close> and the parent's \<open>after()\<close> like one that succeeds.
\<close>

fun af_forker_stmt :: "af_pc \<Rightarrow> af_state \<Rightarrow> af_state option" where
  "af_forker_stmt Fk_start s =
     (let s' = af_say False ''forker: forking a process'' s
      in Some (if af_atfork s
        then af_say False (''forker: in the '' @ af_quoted ''BEFORE'' @ '' handler, grabbing the mutex...'')
          (s'\<lparr>af_forker := Fk_before\<rparr>)
        else s'\<lparr>af_forker := Fk_fork\<rparr>))"
| "af_forker_stmt Fk_before s = af_before s"
| "af_forker_stmt Fk_fork s =
     (let next = (if af_atfork s then Fk_after else Fk_who)
      in Some (s\<lparr>af_forker := next, af_child_mutex := af_mutex s, af_child := next\<rparr>))"
| "af_forker_stmt Fk_after s = Some (af_after False s)"
| "af_forker_stmt Fk_fail_after s = Some (af_after False s)"
| "af_forker_stmt Fk_fail s = Some (s\<lparr>af_main_pc := Af_err, af_counting := False\<rparr>)"
| "af_forker_stmt Fk_who s =
     Some (af_say False ''forker: locking mutex'' (af_say False ''I'm parent'' (s\<lparr>af_forker := Fk_lock\<rparr>)))"
| "af_forker_stmt Fk_lock s =
     (if af_mutex s = None
      then Some (af_say False ''forker: releasing mutex'' (af_say False ''forker: mutex locked''
        (s\<lparr>af_mutex := Some By_forker, af_forker := Fk_unlock\<rparr>)))
      else None)"
| "af_forker_stmt Fk_unlock s = Some (s\<lparr>af_mutex := None, af_forker := Fk_done\<rparr>)"
| "af_forker_stmt _ s = None"

fun af_child_stmt :: "af_pc \<Rightarrow> af_state \<Rightarrow> af_state option" where
  "af_child_stmt Fk_after s = Some (af_after True s)"
| "af_child_stmt Fk_who s =
     Some (af_say True ''forker: locking mutex'' (af_say True ''I'm child'' (s\<lparr>af_child := Fk_lock\<rparr>)))"
| "af_child_stmt Fk_lock s =
     (if af_child_mutex s = None
      then Some (af_say True ''forker: releasing mutex'' (af_say True ''forker: mutex locked''
        (s\<lparr>af_child_mutex := Some By_forker, af_child := Fk_unlock\<rparr>)))
      else None)"
| "af_child_stmt Fk_unlock s = Some (s\<lparr>af_child_mutex := None, af_child := Fk_done\<rparr>)"
| "af_child_stmt _ s = None"

definition af_fork_failed :: "af_state \<Rightarrow> af_state option" where
  "af_fork_failed s =
     (if af_forker s = Fk_fork then Some (s\<lparr>af_forker := (if af_atfork s then Fk_fail_after else Fk_fail)\<rparr>) else None)"

fun af_over :: "af_main_pc \<Rightarrow> bool" where
  "af_over Af_exit = True"
| "af_over Af_err = True"
| "af_over _ = False"

datatype af_event = Af_main | Af_forker | Af_fork_fails | Af_child | Af_counter

definition af_step :: "af_event \<Rightarrow> af_state \<Rightarrow> af_state option" where
  "af_step e s =
     (case e of
        Af_main \<Rightarrow> af_main_stmt (af_main_pc s) s
      | Af_forker \<Rightarrow> if af_over (af_main_pc s) then None else af_forker_stmt (af_forker s) s
      | Af_fork_fails \<Rightarrow> if af_over (af_main_pc s) then None else af_fork_failed s
      | Af_child \<Rightarrow> af_child_stmt (af_child s) s
      | Af_counter \<Rightarrow>
          if af_counting s then Some (af_say False ''counter: just counting seconds...'' s) else None)"

definition af_init :: "bool \<Rightarrow> int \<Rightarrow> af_state" where
  "af_init handlers nsecs =
     \<lparr>af_atfork = handlers, af_nsecs = nsecs, af_mutex = None, af_main_pc = Af_lock, af_forker = Fk_none,
      af_child_mutex = None, af_child = Fk_none, af_counting = False, af_log = []\<rparr>"

section \<open>With and without the handlers\<close>

lemmas af_stmt_defs = af_say_def af_before_def af_after_def Let_def

fun af_fk_holds :: "af_pc \<Rightarrow> bool \<Rightarrow> bool" where
  "af_fk_holds Fk_fork handlers = handlers"
| "af_fk_holds Fk_after handlers = True"
| "af_fk_holds Fk_fail_after handlers = True"
| "af_fk_holds Fk_unlock handlers = True"
| "af_fk_holds _ handlers = False"

fun af_main_holds :: "af_main_pc \<Rightarrow> bool" where
  "af_main_holds Af_create = True"
| "af_main_holds Af_sleep = True"
| "af_main_holds Af_unlock = True"
| "af_main_holds _ = False"

fun af_before_create :: "af_main_pc \<Rightarrow> bool" where
  "af_before_create Af_lock = True"
| "af_before_create Af_create = True"
| "af_before_create _ = False"

fun af_forked :: "af_pc \<Rightarrow> bool" where
  "af_forked Fk_after = True"
| "af_forked Fk_who = True"
| "af_forked Fk_lock = True"
| "af_forked Fk_unlock = True"
| "af_forked Fk_done = True"
| "af_forked _ = False"

fun af_joined :: "af_main_pc \<Rightarrow> bool" where
  "af_joined Af_cancel = True"
| "af_joined Af_wait = True"
| "af_joined Af_exit = True"
| "af_joined _ = False"

fun af_fork_lost :: "af_pc \<Rightarrow> bool" where
  "af_fork_lost Fk_fail_after = True"
| "af_fork_lost Fk_fail = True"
| "af_fork_lost _ = False"

definition af_inv :: "bool \<Rightarrow> af_state \<Rightarrow> bool" where
  "af_inv handlers s \<longleftrightarrow>
     af_atfork s = handlers
     \<and> (af_main_pc s = Af_err \<longrightarrow> af_forker s = Fk_fail \<and> \<not> af_counting s)
     \<and> (af_main_pc s \<noteq> Af_err \<longrightarrow> (af_mutex s = Some By_main \<longleftrightarrow> af_main_holds (af_main_pc s)))
     \<and> (af_mutex s = Some By_forker \<longleftrightarrow> af_fk_holds (af_forker s) handlers)
     \<and> (af_forker s = Fk_none \<longleftrightarrow> af_before_create (af_main_pc s))
     \<and> (af_forker s = Fk_before \<longrightarrow> handlers)
     \<and> (af_forked (af_forker s) \<longleftrightarrow> af_child s \<noteq> Fk_none)
     \<and> (af_child s = Fk_none \<or> af_forked (af_child s))
     \<and> (handlers \<longrightarrow> (af_child_mutex s = Some By_forker \<longleftrightarrow> af_fk_holds (af_child s) True) \<and> af_child_mutex s \<noteq> Some By_main)
     \<and> (af_joined (af_main_pc s) \<longrightarrow> af_forker s = Fk_done)
     \<and> (af_main_pc s = Af_exit \<longrightarrow> af_child s = Fk_done)"

lemma af_inv_main:
  assumes "af_inv h s" "af_main_stmt (af_main_pc s) s = Some t"
  shows "af_inv h t"
  using assms(2) [symmetric] assms(1) unfolding af_inv_def
  by (cases "af_main_pc s"; simp add: af_stmt_defs split: if_splits; force)

lemma af_inv_forker:
  assumes "af_inv h s" "af_forker_stmt (af_forker s) s = Some t" "\<not> af_over (af_main_pc s)"
  shows "af_inv h t"
  using assms(2) [symmetric] assms(1,3) unfolding af_inv_def
  by (cases "af_forker s"; cases "af_main_pc s"; cases "af_mutex s"; simp add: af_stmt_defs split: if_splits)

lemma af_inv_fork_failed:
  assumes "af_inv h s" "af_fork_failed s = Some t" "\<not> af_over (af_main_pc s)"
  shows "af_inv h t"
proof -
  from assms(2) have f: "af_forker s = Fk_fork"
    and t: "t = s\<lparr>af_forker := (if af_atfork s then Fk_fail_after else Fk_fail)\<rparr>"
    by (simp_all add: af_fork_failed_def split: if_splits)
  show ?thesis
    using assms(1,3) f unfolding af_inv_def t by (cases "af_main_pc s"; cases "af_mutex s"; cases "af_atfork s"; simp; fastforce?)
qed

lemma af_inv_child:
  assumes "af_inv h s" "af_child_stmt (af_child s) s = Some t"
  shows "af_inv h t"
  using assms(2) [symmetric] assms(1) unfolding af_inv_def
  by (cases "af_child s"; simp add: af_stmt_defs split: if_splits)

lemma af_inv_step:
  assumes inv: "af_inv h s" and st: "af_step e s = Some t"
  shows "af_inv h t"
proof (cases e)
  case Af_counter
  with st have "t = af_say False ''counter: just counting seconds...'' s"
    by (simp add: af_step_def split: if_splits)
  with inv show ?thesis by (simp add: af_inv_def af_stmt_defs)
next
  case Af_main
  with inv st show ?thesis by (intro af_inv_main [OF inv]) (simp add: af_step_def)
next
  case Af_forker
  with inv st show ?thesis by (intro af_inv_forker [OF inv]) (simp_all add: af_step_def split: if_splits)
next
  case Af_fork_fails
  with inv st show ?thesis by (intro af_inv_fork_failed [OF inv]) (simp_all add: af_step_def split: if_splits)
next
  case Af_child
  with inv st show ?thesis by (intro af_inv_child [OF inv]) (simp add: af_step_def)
qed

interpretation af: step_invariant af_step "af_init h k" "af_inv h" for h k
proof unfold_locales
  show "af_inv h (af_init h k)" by (simp add: af_inv_def af_init_def)
qed (rule af_inv_step)

text \<open>Every step but the counter's brings the program closer to its end.\<close>

fun af_rank :: "af_pc \<Rightarrow> nat" where
  "af_rank Fk_none = 8"
| "af_rank Fk_start = 7"
| "af_rank Fk_before = 6"
| "af_rank Fk_fork = 5"
| "af_rank Fk_after = 4"
| "af_rank Fk_who = 3"
| "af_rank Fk_lock = 2"
| "af_rank Fk_unlock = 1"
| "af_rank Fk_done = 0"
| "af_rank Fk_fail_after = 4"
| "af_rank Fk_fail = 3"

fun af_main_rank :: "af_main_pc \<Rightarrow> nat" where
  "af_main_rank Af_lock = 7"
| "af_main_rank Af_create = 6"
| "af_main_rank Af_sleep = 5"
| "af_main_rank Af_unlock = 4"
| "af_main_rank Af_join = 3"
| "af_main_rank Af_cancel = 2"
| "af_main_rank Af_wait = 1"
| "af_main_rank Af_exit = 0"
| "af_main_rank Af_err = 0"

definition af_left :: "af_state \<Rightarrow> nat" where
  "af_left s = af_main_rank (af_main_pc s) + af_rank (af_forker s) + af_rank (af_child s)"

lemma af_left_step:
  assumes inv: "af_inv h s" and st: "af_step e s = Some t"
  shows "(if e = Af_counter then 0 else 1) + af_left t \<le> af_left s"
proof (cases e)
  case Af_main
  then have "Some t = af_main_stmt (af_main_pc s) s" using st by (simp add: af_step_def)
  with Af_main inv show ?thesis
    by (cases "af_main_pc s") (auto simp: af_left_def af_stmt_defs af_inv_def split: if_splits)
next
  case Af_forker
  then have "Some t = af_forker_stmt (af_forker s) s" using st by (simp add: af_step_def split: if_splits)
  moreover have "0 < af_main_rank (af_main_pc s)"
    using Af_forker st by (cases "af_main_pc s") (simp_all add: af_step_def)
  ultimately show ?thesis
    using Af_forker inv by (cases "af_forker s") (auto simp: af_left_def af_stmt_defs af_inv_def split: if_splits)
next
  case Af_fork_fails
  with st have "af_fork_failed s = Some t" by (simp add: af_step_def split: if_splits)
  with Af_fork_fails show ?thesis by (auto simp: af_fork_failed_def af_left_def split: if_splits)
next
  case Af_child
  then have "Some t = af_child_stmt (af_child s) s" using st by (simp add: af_step_def)
  with Af_child inv show ?thesis
    by (cases "af_child s") (auto simp: af_left_def af_stmt_defs split: if_splits)
next
  case Af_counter
  with st show ?thesis by (auto simp: af_step_def af_left_def af_stmt_defs split: if_splits)
qed

lemma af_runs_end:
  "af_inv h s \<Longrightarrow> exec af_step es s = Some t \<Longrightarrow> length (filter (\<lambda>e. e \<noteq> Af_counter) es) + af_left t \<le> af_left s"
proof (induction es arbitrary: s)
  case (Cons e es)
  then obtain u where u: "af_step e s = Some u" "exec af_step es u = Some t" by (auto split: option.splits)
  with Cons.IH [OF af_inv_step [OF Cons.prems(1) u(1)]] af_left_step [OF Cons.prems(1) u(1)]
  show ?case by auto
qed simp

fun af_main_blocks :: "af_main_pc \<Rightarrow> bool" where
  "af_main_blocks Af_lock = True"
| "af_main_blocks Af_join = True"
| "af_main_blocks Af_wait = True"
| "af_main_blocks _ = False"

fun af_fk_blocks :: "af_pc \<Rightarrow> bool" where
  "af_fk_blocks Fk_none = True"
| "af_fk_blocks Fk_before = True"
| "af_fk_blocks Fk_lock = True"
| "af_fk_blocks Fk_done = True"
| "af_fk_blocks _ = False"

lemma af_stuck_main: "af_main_stmt p s = None \<Longrightarrow> \<not> af_over p \<Longrightarrow> af_main_blocks p"
  by (cases p) simp_all

lemma af_stuck_forker: "af_forker_stmt p s = None \<Longrightarrow> af_fk_blocks p"
  by (cases p) (simp_all add: Let_def af_before_def)

lemma af_blocks_free:
  "af_inv h s \<Longrightarrow> af_main_blocks (af_main_pc s) \<Longrightarrow> af_fk_blocks (af_forker s) \<Longrightarrow> af_mutex s = None"
  unfolding af_inv_def
  by (cases "af_mutex s"; cases "the (af_mutex s)"; cases "af_main_pc s"; cases "af_forker s"; simp)

lemma af_child_stuck:
  assumes "af_inv True s" "af_child_stmt (af_child s) s = None" "af_child s \<noteq> Fk_none"
  shows "af_child s = Fk_done"
  using assms unfolding af_inv_def
  by (cases "af_child s"; cases "af_child_mutex s"; cases "the (af_child_mutex s)"; simp)

lemma af_stuck:
  assumes inv: "af_inv True s" and pc: "\<not> af_over (af_main_pc s)"
    and m: "af_main_stmt (af_main_pc s) s = None" and f: "af_forker_stmt (af_forker s) s = None"
    and c: "af_child_stmt (af_child s) s = None"
  shows False
proof -
  have free: "af_mutex s = None"
    using af_blocks_free [OF inv af_stuck_main [OF m pc] af_stuck_forker [OF f]] .
  have "af_main_pc s = Af_join \<or> af_main_pc s = Af_wait"
    using m free pc by (cases "af_main_pc s") simp_all
  then have nb: "\<not> af_before_create (af_main_pc s)" by auto
  have "af_forker s = Fk_done"
    using f free inv nb by (cases "af_forker s") (simp_all add: Let_def af_inv_def af_before_def)
  have "af_child s \<noteq> Fk_none"
    using inv \<open>af_forker s = Fk_done\<close> unfolding af_inv_def by simp
  from af_child_stuck [OF inv c this] have "af_child s = Fk_done" .
  with \<open>af_forker s = Fk_done\<close> m \<open>af_main_pc s = Af_join \<or> af_main_pc s = Af_wait\<close> show False by auto
qed

lemma af_progress:
  assumes inv: "af_inv True s"
  shows "af_over (af_main_pc s) \<or> (\<exists>e\<in>{Af_main, Af_forker, Af_child}. \<exists>t. af_step e s = Some t)"
proof (cases "af_over (af_main_pc s)")
  case False
  with af_stuck [OF inv] consider t where "af_main_stmt (af_main_pc s) s = Some t"
    | t where "af_forker_stmt (af_forker s) s = Some t" | t where "af_child_stmt (af_child s) s = Some t"
    by fastforce
  then show ?thesis
    using False by cases (auto simp: af_step_def)
qed simp

text \<open>The failure of \<open>fork()\<close> is never lost: it was an event of the schedule, and it stays.\<close>

lemma af_lost_step:
  assumes "af_inv h s" "af_step e s = Some t"
  shows "af_fork_lost (af_forker t) \<longleftrightarrow> af_fork_lost (af_forker s) \<or> e = Af_fork_fails"
proof (cases e)
  case Af_main
  then have t: "Some t = af_main_stmt (af_main_pc s) s" using assms(2) by (simp add: af_step_def)
  show ?thesis
    using t assms(1) unfolding af_inv_def Af_main
    by (cases "af_main_pc s") (auto simp: af_stmt_defs split: if_splits)
next
  case Af_forker
  then have "Some t = af_forker_stmt (af_forker s) s" using assms(2) by (simp add: af_step_def split: if_splits)
  with Af_forker show ?thesis by (cases "af_forker s") (auto simp: af_stmt_defs split: if_splits)
next
  case Af_fork_fails
  with assms(2) have "af_fork_failed s = Some t" by (simp add: af_step_def split: if_splits)
  with Af_fork_fails show ?thesis by (auto simp: af_fork_failed_def split: if_splits)
next
  case Af_child
  then have "Some t = af_child_stmt (af_child s) s" using assms(2) by (simp add: af_step_def)
  with Af_child show ?thesis by (cases "af_child s") (auto simp: af_stmt_defs split: if_splits)
next
  case Af_counter
  with assms(2) show ?thesis by (auto simp: af_step_def af_stmt_defs split: if_splits)
qed

lemma af_lost_exec:
  "af_inv h s \<Longrightarrow> exec af_step es s = Some t \<Longrightarrow>
   af_fork_lost (af_forker t) \<longleftrightarrow> af_fork_lost (af_forker s) \<or> Af_fork_fails \<in> set es"
proof (induction es arbitrary: s)
  case (Cons e es)
  then obtain u where u: "af_step e s = Some u" "exec af_step es u = Some t" by (auto split: option.splits)
  with Cons.IH [OF af_inv_step [OF Cons.prems(1) u(1)]] af_lost_step [OF Cons.prems(1) u(1)]
  show ?case by auto
qed simp

lemma af_ends:
  assumes "af_inv h s"
  shows "af_main_pc s = Af_exit \<longrightarrow> af_child s = Fk_done \<and> \<not> af_fork_lost (af_forker s)"
    and "af_main_pc s = Af_err \<longrightarrow> af_child s = Fk_none \<and> af_fork_lost (af_forker s)"
  using assms unfolding af_inv_def by auto

text \<open>
  C12: With the handlers installed the program always ends: on every schedule the threads and the
  child take at most 23 steps besides the counter's, and until the parent has ended one of them can
  move. The parent ends in one of two ways: if \<open>fork()\<close> succeeds, \<open>main()\<close> returns, and only after the
  child, which has had its mutex; if \<open>fork()\<close> fails, \<open>err(1, "fork")\<close> ends it, and there is no child.
  With \<open>-d\<close> there is a schedule that ends with \<open>main()\<close> waiting for a child that waits for a mutex
  nobody will ever release.
\<close>

theorem af_handlers:
  "(exec af_step es (af_init True k) = Some s \<longrightarrow>
      length (filter (\<lambda>e. e \<noteq> Af_counter) es) \<le> 23
      \<and> (af_over (af_main_pc s) \<or> (\<exists>e\<in>{Af_main, Af_forker, Af_child}. \<exists>t. af_step e s = Some t))
      \<and> (af_main_pc s = Af_exit \<longrightarrow> af_child s = Fk_done \<and> Af_fork_fails \<notin> set es)
      \<and> (af_main_pc s = Af_err \<longrightarrow> af_child s = Fk_none \<and> Af_fork_fails \<in> set es))
   \<and> (\<exists>s. reach af_step (af_init False k) s \<and> af_main_pc s = Af_wait \<and> af_child s = Fk_lock
        \<and> af_child_mutex s = Some By_main \<and> (\<forall>e. af_step e s = None))"
proof (rule conjI, rule impI)
  assume e: "exec af_step es (af_init True k) = Some s"
  have inv: "af_inv True s" using af.reach_inv [OF exec_reach [OF e]] .
  have "length (filter (\<lambda>e. e \<noteq> Af_counter) es) \<le> 23"
    using af_runs_end [OF af.inv_init e] by (simp add: af_left_def af_init_def)
  moreover have "af_fork_lost (af_forker s) \<longleftrightarrow> Af_fork_fails \<in> set es"
    using af_lost_exec [OF af.inv_init e] by (simp add: af_init_def)
  ultimately show "length (filter (\<lambda>e. e \<noteq> Af_counter) es) \<le> 23
      \<and> (af_over (af_main_pc s) \<or> (\<exists>e\<in>{Af_main, Af_forker, Af_child}. \<exists>t. af_step e s = Some t))
      \<and> (af_main_pc s = Af_exit \<longrightarrow> af_child s = Fk_done \<and> Af_fork_fails \<notin> set es)
      \<and> (af_main_pc s = Af_err \<longrightarrow> af_child s = Fk_none \<and> Af_fork_fails \<in> set es)"
    using af_progress [OF inv] af_ends [OF inv] by blast
next
  have "runs af_step [Af_main, Af_main, Af_forker, Af_forker, Af_child, Af_main, Af_main, Af_forker, Af_forker,
      Af_forker, Af_main, Af_main] (af_init False k)
      (\<lambda>s. af_main_pc s = Af_wait \<and> af_child s = Fk_lock \<and> af_child_mutex s = Some By_main
         \<and> af_forker s = Fk_done \<and> \<not> af_counting s)"
    by (simp add: af_step_def af_init_def af_stmt_defs)
  from runs_reach [OF this] obtain s where s: "reach af_step (af_init False k) s" "af_main_pc s = Af_wait"
    "af_child s = Fk_lock" "af_child_mutex s = Some By_main" "af_forker s = Fk_done" "\<not> af_counting s" by blast
  then have "af_step e s = None" for e by (cases e) (simp_all add: af_step_def af_fork_failed_def)
  with s show "\<exists>s. reach af_step (af_init False k) s \<and> af_main_pc s = Af_wait \<and> af_child s = Fk_lock
        \<and> af_child_mutex s = Some By_main \<and> (\<forall>e. af_step e s = None)" by blast
qed

text \<open>A run in which \<open>fork()\<close> fails, to its end: the handler of the parent runs before \<open>err()\<close>.\<close>

theorem af_handlers_witness:
  "af_parse [''atfork'', ''-d''] = Af_args False 5 \<and> af_parse [''atfork'', ''3''] = Af_args True 3
   \<and> (\<exists>s. exec af_step [Af_main, Af_main, Af_forker, Af_main, Af_main, Af_forker, Af_fork_fails, Af_forker, Af_forker]
            (af_init True 3) = Some s \<and> af_main_pc s = Af_err \<and> af_child s = Fk_none)"
proof -
  let ?es = "[Af_main, Af_main, Af_forker, Af_main, Af_main, Af_forker, Af_fork_fails, Af_forker, Af_forker]"
  have p: "af_parse [''atfork'', ''-d''] = Af_args False 5" "af_parse [''atfork'', ''3''] = Af_args True 3"
    by code_simp+
  have "runs af_step ?es (af_init True 3) (\<lambda>s. af_main_pc s = Af_err)"
    by (simp add: af_step_def af_init_def af_stmt_defs af_fork_failed_def)
  from runs_exec [OF this] obtain s where s: "exec af_step ?es (af_init True 3) = Some s" "af_main_pc s = Af_err"
    by blast
  with af_handlers [of ?es 3 s] p show ?thesis by blast
qed

end
