(* ===== verification/Rwlock.thy ===== *)
theory Rwlock
  imports Prelude
begin

text \<open>
  \<open>pthreads/pthread-rwlock.c\<close>: 32 threads, every fourth a writer, share an array of 64 properties
  protected by a read/write lock. A step is a call of the library or an access to the array; the
  sleeps are scheduling points, and which thread a free lock goes to is left to the schedule.
\<close>

section \<open>The lock\<close>

record rwlock =
  rl_readers :: nat
  rl_writer :: bool

definition rl_rdlock :: "rwlock \<Rightarrow> rwlock option" where
  "rl_rdlock l = (if rl_writer l then None else Some (l\<lparr>rl_readers := Suc (rl_readers l)\<rparr>))"

definition rl_wrlock :: "rwlock \<Rightarrow> rwlock option" where
  "rl_wrlock l = (if rl_writer l \<or> 0 < rl_readers l then None else Some (l\<lparr>rl_writer := True\<rparr>))"

definition rl_unlock :: "rwlock \<Rightarrow> rwlock" where
  "rl_unlock l = (if rl_writer l then l\<lparr>rl_writer := False\<rparr> else l\<lparr>rl_readers := rl_readers l - 1\<rparr>)"

section \<open>The threads\<close>

text \<open>A property is NULL or the pointer \<open>vals + i\<close> of the writer \<open>i\<close>.\<close>

type_synonym prop_val = "nat option"

datatype rw_pc =
    W_pick | W_lock nat | W_say nat | W_set nat | W_unlock
  | R_loop nat | R_lock nat nat | R_say nat nat | R_read nat nat | R_unlock nat nat prop_val | R_print nat nat prop_val
  | Rw_done

text \<open>The lines printed by the writers and the two of the readers.\<close>

datatype rw_line = Setting nat nat | Getting nat nat | Got nat nat prop_val

text \<open>The log has the newest line first.\<close>

record rw_state =
  rw_lock :: rwlock
  rw_pcs :: "nat \<Rightarrow> rw_pc"
  rw_props :: "nat \<Rightarrow> prop_val"
  rw_log :: "rw_line list"

definition rw_goto :: "nat \<Rightarrow> rw_pc \<Rightarrow> rw_state \<Rightarrow> rw_state" where
  "rw_goto i pc s = s\<lparr>rw_pcs := (rw_pcs s)(i := pc)\<rparr>"

definition rw_say :: "rw_line \<Rightarrow> rw_state \<Rightarrow> rw_state" where
  "rw_say l s = s\<lparr>rw_log := l # rw_log s\<rparr>"

text \<open>\<open>writer_thread()\<close> with \<open>prop_set()\<close> in thread \<open>i\<close>; \<open>r\<close> is what \<open>random()\<close> returns.\<close>

fun rw_writer :: "nat \<Rightarrow> nat \<Rightarrow> rw_pc \<Rightarrow> rw_state \<Rightarrow> rw_state option" where
  "rw_writer i r W_pick s = Some (rw_goto i (W_lock (r mod 64)) s)"
| "rw_writer i r (W_lock idx) s =
     (case rl_wrlock (rw_lock s) of
        None \<Rightarrow> None
      | Some l \<Rightarrow> Some (rw_goto i (W_say idx) (s\<lparr>rw_lock := l\<rparr>)))"
| "rw_writer i r (W_say idx) s = Some (rw_goto i (W_set idx) (rw_say (Setting i idx) s))"
| "rw_writer i r (W_set idx) s = Some (rw_goto i W_unlock (s\<lparr>rw_props := (rw_props s)(idx \<mapsto> i)\<rparr>))"
| "rw_writer i r W_unlock s = Some (rw_goto i Rw_done (s\<lparr>rw_lock := rl_unlock (rw_lock s)\<rparr>))"
| "rw_writer i r _ s = None"

text \<open>\<open>reader_thread()\<close> with \<open>prop_get()\<close>, in iteration \<open>k\<close> of its loop.\<close>

fun rw_reader :: "nat \<Rightarrow> nat \<Rightarrow> rw_pc \<Rightarrow> rw_state \<Rightarrow> rw_state option" where
  "rw_reader i r (R_loop k) s = Some (rw_goto i (if k < 100 then R_lock k (r mod 64) else Rw_done) s)"
| "rw_reader i r (R_lock k idx) s =
     (case rl_rdlock (rw_lock s) of
        None \<Rightarrow> None
      | Some l \<Rightarrow> Some (rw_goto i (R_say k idx) (s\<lparr>rw_lock := l\<rparr>)))"
| "rw_reader i r (R_say k idx) s = Some (rw_goto i (R_read k idx) (rw_say (Getting i idx) s))"
| "rw_reader i r (R_read k idx) s = Some (rw_goto i (R_unlock k idx (rw_props s idx)) s)"
| "rw_reader i r (R_unlock k idx v) s =
     Some (rw_goto i (R_print k idx v) (s\<lparr>rw_lock := rl_unlock (rw_lock s)\<rparr>))"
| "rw_reader i r (R_print k idx v) s = Some (rw_goto i (R_loop (Suc k)) (rw_say (Got i idx v) s))"
| "rw_reader i r _ s = None"

text \<open>\<open>main()\<close>: which threads read, and the threads it creates and joins.\<close>

definition rw_numthreads :: nat where
  "rw_numthreads = 32"

definition rw_reads :: "nat \<Rightarrow> bool" where
  "rw_reads i \<longleftrightarrow> i mod 4 \<noteq> 0"

definition rw_init :: rw_state where
  "rw_init =
     \<lparr>rw_lock = \<lparr>rl_readers = 0, rl_writer = False\<rparr>, rw_pcs = (\<lambda>i. if rw_reads i then R_loop 0 else W_pick),
      rw_props = (\<lambda>_. None), rw_log = []\<rparr>"

definition rw_step :: "nat \<times> nat \<Rightarrow> rw_state \<Rightarrow> rw_state option" where
  "rw_step e s =
     (case e of (i, r) \<Rightarrow>
        if rw_numthreads \<le> i then None
        else if rw_reads i then rw_reader i r (rw_pcs s i) s
        else rw_writer i r (rw_pcs s i) s)"

definition rw_all_joined :: "rw_state \<Rightarrow> bool" where
  "rw_all_joined s \<longleftrightarrow> (\<forall>i < rw_numthreads. rw_pcs s i = Rw_done)"

section \<open>What the log promises\<close>

text \<open>
  The value a log sets a property to last, and the value a reader ought to have got: the one set
  last when it announced that it was reading.
\<close>

fun rw_last :: "nat \<Rightarrow> rw_line list \<Rightarrow> prop_val" where
  "rw_last idx [] = None"
| "rw_last idx (Setting w j # ls) = (if j = idx then Some w else rw_last idx ls)"
| "rw_last idx (_ # ls) = rw_last idx ls"

fun rw_expected :: "nat \<Rightarrow> rw_line list \<Rightarrow> prop_val" where
  "rw_expected i [] = None"
| "rw_expected i (Getting t idx # ls) = (if t = i then rw_last idx ls else rw_expected i ls)"
| "rw_expected i (_ # ls) = rw_expected i ls"

fun rw_correct :: "rw_line list \<Rightarrow> bool" where
  "rw_correct [] = True"
| "rw_correct (Got i idx v # ls) = (v = rw_expected i ls \<and> rw_correct ls)"
| "rw_correct (_ # ls) = rw_correct ls"

section \<open>Invariant\<close>

fun rw_writing :: "rw_pc \<Rightarrow> bool" where
  "rw_writing (W_say _) = True"
| "rw_writing (W_set _) = True"
| "rw_writing W_unlock = True"
| "rw_writing _ = False"

fun rw_reading :: "rw_pc \<Rightarrow> bool" where
  "rw_reading (R_say _ _) = True"
| "rw_reading (R_read _ _) = True"
| "rw_reading (R_unlock _ _ _) = True"
| "rw_reading _ = False"

fun rw_writer_pc :: "rw_pc \<Rightarrow> bool" where
  "rw_writer_pc W_pick = True"
| "rw_writer_pc (W_lock _) = True"
| "rw_writer_pc (W_say _) = True"
| "rw_writer_pc (W_set _) = True"
| "rw_writer_pc W_unlock = True"
| "rw_writer_pc Rw_done = True"
| "rw_writer_pc _ = False"

fun rw_reader_pc :: "rw_pc \<Rightarrow> bool" where
  "rw_reader_pc Rw_done = True"
| "rw_reader_pc p = (\<not> rw_writer_pc p)"

text \<open>What a reader knows about the value it has, or will get, at each point.\<close>

fun rw_knows :: "nat \<Rightarrow> rw_pc \<Rightarrow> rw_state \<Rightarrow> bool" where
  "rw_knows i (R_read k idx) s = (rw_expected i (rw_log s) = rw_last idx (rw_log s))"
| "rw_knows i (R_unlock k idx v) s = (v = rw_expected i (rw_log s))"
| "rw_knows i (R_print k idx v) s = (v = rw_expected i (rw_log s))"
| "rw_knows i _ s = True"

definition rw_lock_inv :: "rw_state \<Rightarrow> bool" where
  "rw_lock_inv s \<longleftrightarrow>
     int (rl_readers (rw_lock s)) = cnt rw_numthreads rw_reading (rw_pcs s)
     \<and> (if rl_writer (rw_lock s) then 1 else 0) = cnt rw_numthreads rw_writing (rw_pcs s)
     \<and> \<not> (rl_writer (rw_lock s) \<and> 0 < rl_readers (rw_lock s))"

text \<open>The array is what the log says, but for the entry a writer is about to set.\<close>

fun rw_sets :: "rw_pc \<Rightarrow> nat option" where
  "rw_sets (W_set idx) = Some idx"
| "rw_sets _ = None"

definition rw_props_inv :: "rw_state \<Rightarrow> bool" where
  "rw_props_inv s \<longleftrightarrow>
     (\<forall>idx. (\<forall>i < rw_numthreads. rw_sets (rw_pcs s i) \<noteq> Some idx) \<longrightarrow> rw_props s idx = rw_last idx (rw_log s))
     \<and> (\<forall>i < rw_numthreads. \<forall>idx. rw_sets (rw_pcs s i) = Some idx \<longrightarrow> rw_last idx (rw_log s) = Some i)"

definition rw_inv :: "rw_state \<Rightarrow> bool" where
  "rw_inv s \<longleftrightarrow>
     rw_lock_inv s \<and> rw_props_inv s \<and> rw_correct (rw_log s)
     \<and> (\<forall>i < rw_numthreads. rw_knows i (rw_pcs s i) s
        \<and> (if rw_reads i then rw_reader_pc (rw_pcs s i) else rw_writer_pc (rw_pcs s i)))"

lemma cnt_two:
  assumes "i < n" "j < n" "i \<noteq> j" "P (f i)" "P (f j)"
  shows "2 \<le> cnt n P f"
proof -
  have "card {i, j} \<le> card {k. k < n \<and> P (f k)}" by (rule card_mono) (use assms in auto)
  with assms(3) show ?thesis by (simp add: cnt_def)
qed

lemma rw_exclusive:
  assumes "rw_lock_inv s" "i < rw_numthreads" "rw_writing (rw_pcs s i)" "j < rw_numthreads"
  shows "\<not> rw_reading (rw_pcs s j)" and "i \<noteq> j \<Longrightarrow> \<not> rw_writing (rw_pcs s j)"
proof -
  have w: "rl_writer (rw_lock s)" and one: "cnt rw_numthreads rw_writing (rw_pcs s) = 1"
    using assms(1) cnt_member [OF assms(2), of rw_writing "rw_pcs s", OF assms(3)]
    by (auto simp: rw_lock_inv_def split: if_splits)
  with assms(1) have "cnt rw_numthreads rw_reading (rw_pcs s) = 0" by (simp add: rw_lock_inv_def)
  then show "\<not> rw_reading (rw_pcs s j)" using assms(4) by (simp add: cnt_zero_iff)
  show "i \<noteq> j \<Longrightarrow> \<not> rw_writing (rw_pcs s j)"
    using cnt_two [of i rw_numthreads j rw_writing "rw_pcs s"] assms one by auto
qed

lemmas rw_step_defs = rw_goto_def rw_say_def rl_rdlock_def rl_wrlock_def rl_unlock_def

lemma rw_lock_writer:
  assumes "rw_lock_inv s" "i < rw_numthreads" "rw_writer i r (rw_pcs s i) s = Some t"
  shows "rw_lock_inv t"
proof (cases "rw_pcs s i")
  case W_unlock
  have "rl_writer (rw_lock s)"
    using assms(1) cnt_member [OF assms(2), of rw_writing "rw_pcs s"] W_unlock
    by (auto simp: rw_lock_inv_def split: if_splits)
  with W_unlock assms show ?thesis
    by (auto simp: rw_lock_inv_def rw_step_defs counting split: if_splits)
qed (use assms in \<open>auto simp: rw_lock_inv_def rw_step_defs counting split: if_splits\<close>)

lemma rw_lock_reader:
  assumes "rw_lock_inv s" "i < rw_numthreads" "rw_reader i r (rw_pcs s i) s = Some t"
  shows "rw_lock_inv t"
proof (cases "rw_pcs s i")
  case (R_unlock k idx v)
  have pos: "1 \<le> cnt rw_numthreads rw_reading (rw_pcs s)"
    by (rule cnt_member [OF assms(2)]) (simp add: R_unlock)
  with assms(1) have "\<not> rl_writer (rw_lock s)" "0 < rl_readers (rw_lock s)" by (auto simp: rw_lock_inv_def)
  with pos R_unlock assms show ?thesis
    by (auto simp: rw_lock_inv_def rw_step_defs counting split: if_splits)
qed (use assms in \<open>auto simp: rw_lock_inv_def rw_step_defs counting split: if_splits\<close>)


text \<open>
  One step changes one thread's point, the log by at most a line, and the array only at \<open>W_set\<close>.
\<close>

lemma rw_sets_writing: "rw_sets p = Some idx \<Longrightarrow> rw_writing p"
  by (cases p) auto

lemma rw_props_keep:
  assumes "rw_props_inv s" "rw_pcs t = (rw_pcs s)(i := p)" "rw_sets p = None" "rw_sets (rw_pcs s i) = None"
    and "rw_props t = rw_props s" "\<And>x. rw_last x (rw_log t) = rw_last x (rw_log s)"
  shows "rw_props_inv t"
proof -
  have "rw_sets (rw_pcs t j) = rw_sets (rw_pcs s j)" for j using assms(2-4) by simp
  with assms(1,5,6) show ?thesis unfolding rw_props_inv_def by simp
qed

lemma rw_props_writer:
  assumes inv: "rw_lock_inv s" "rw_props_inv s" and i: "i < rw_numthreads"
    and st: "rw_writer i r (rw_pcs s i) s = Some t"
  shows "rw_props_inv t"
proof -
  have no: "rw_sets (rw_pcs s j) = None" if "j < rw_numthreads" "j \<noteq> i" "rw_writing (rw_pcs s i)" for j
    using rw_exclusive(2) [OF inv(1) i that(3,1)] that(2) rw_sets_writing [of "rw_pcs s j"]
    by (cases "rw_sets (rw_pcs s j)") auto
  show ?thesis
  proof (cases "rw_pcs s i")
    case W_pick
    with st show ?thesis by (intro rw_props_keep [OF inv(2), where i = i and p = "W_lock (r mod 64)"]) (auto simp: rw_step_defs)
  next
    case (W_lock idx)
    with st show ?thesis
      by (intro rw_props_keep [OF inv(2), where i = i and p = "W_say idx"]) (auto simp: rw_step_defs split: if_splits)
  next
    case (W_say idx)
    with st have t: "t = rw_goto i (W_set idx) (rw_say (Setting i idx) s)" by simp
    have "rw_props s x = rw_last x (rw_log s)" for x
      using inv(2) no W_say by (auto simp: rw_props_inv_def) (metis option.simps(3) rw_sets.simps(4))
    then show ?thesis
      unfolding rw_props_inv_def t using no W_say i by (auto simp: rw_goto_def rw_say_def)
  next
    case (W_set idx)
    with st have t: "t = rw_goto i W_unlock (s\<lparr>rw_props := (rw_props s)(idx \<mapsto> i)\<rparr>)" by simp
    have l: "rw_last idx (rw_log s) = Some i" using inv(2) i W_set by (simp add: rw_props_inv_def)
    have "rw_sets (rw_pcs s j) \<noteq> Some x" if "j < rw_numthreads" "x \<noteq> idx" for j x
      using no [OF that(1)] W_set that(2) by (cases "j = i") auto
    then have "rw_props s x = rw_last x (rw_log s)" if "x \<noteq> idx" for x
      using inv(2) that by (auto simp: rw_props_inv_def)
    then show ?thesis
      unfolding rw_props_inv_def t using no l W_set by (auto simp: rw_goto_def)
  next
    case W_unlock
    with st show ?thesis by (intro rw_props_keep [OF inv(2), where i = i and p = Rw_done]) (auto simp: rw_step_defs)
  qed (use st in simp_all)
qed

lemma rw_props_reader:
  assumes "rw_props_inv s" "rw_reader i r (rw_pcs s i) s = Some t"
  shows "rw_props_inv t"
  using assms(2)
  by (intro rw_props_keep [OF assms(1), where i = i and p = "rw_pcs t i"])
    (cases "rw_pcs s i"; auto simp: rw_step_defs split: if_splits)+

fun rw_gets :: "nat \<Rightarrow> rw_line \<Rightarrow> bool" where
  "rw_gets i (Getting t idx) = (t = i)"
| "rw_gets i _ = False"

lemma rw_knows_log:
  assumes "rw_knows j p s" "rw_log t = l # rw_log s \<or> rw_log t = rw_log s"
    and "\<And>w idx. l = Setting w idx \<Longrightarrow> \<not> rw_reading p" "\<not> rw_gets j l"
  shows "rw_knows j p t"
  using assms by (cases p; cases l) auto

lemma rw_inv_writer:
  assumes inv: "rw_inv s" and i: "i < rw_numthreads" "\<not> rw_reads i"
    and st: "rw_writer i r (rw_pcs s i) s = Some t"
  shows "rw_inv t"
proof -
  have lk: "rw_lock_inv s" and pr: "rw_props_inv s" and co: "rw_correct (rw_log s)"
    and kn: "\<And>j. j < rw_numthreads \<Longrightarrow> rw_knows j (rw_pcs s j) s
        \<and> (if rw_reads j then rw_reader_pc (rw_pcs s j) else rw_writer_pc (rw_pcs s j))"
    using inv by (simp_all add: rw_inv_def)
  obtain idx where log: "rw_log t = (if rw_pcs s i = W_say idx then Setting i idx # rw_log s else rw_log s)"
    using st by (cases "rw_pcs s i") (auto simp: rw_step_defs split: if_splits)
  obtain p where pcs: "rw_pcs t = (rw_pcs s)(i := p)" "rw_writer_pc p" "rw_knows i p t"
    using st by (cases "rw_pcs s i") (auto simp: rw_step_defs split: if_splits)
  have others: "rw_knows j (rw_pcs s j) t" if j: "j < rw_numthreads" for j
  proof (cases "rw_pcs s i = W_say idx")
    case True
    then have "\<not> rw_reading (rw_pcs s j)" using rw_exclusive(1) [OF lk i(1) _ j] by simp
    moreover have "rw_log t = Setting i idx # rw_log s \<or> rw_log t = rw_log s" using log True by simp
    ultimately show ?thesis
      using rw_knows_log [OF kn [OF j, THEN conjunct1], of t "Setting i idx"] by simp
  next
    case False
    then have "rw_log t = rw_log s" using log by simp
    then show ?thesis
      using rw_knows_log [OF kn [OF j, THEN conjunct1], of t "Got 0 0 None"] by simp
  qed
  show ?thesis
    unfolding rw_inv_def
  proof (intro conjI allI impI)
    show "rw_lock_inv t" using lk i(1) st by (rule rw_lock_writer)
    show "rw_props_inv t" using lk pr i(1) st by (rule rw_props_writer)
    show "rw_correct (rw_log t)" using co by (simp add: log)
  next
    fix j assume j: "j < rw_numthreads"
    show "rw_knows j (rw_pcs t j) t"
      using others [OF j] pcs(3) by (simp add: pcs(1))
    show "if rw_reads j then rw_reader_pc (rw_pcs t j) else rw_writer_pc (rw_pcs t j)"
      using kn [OF j] pcs(2) i(2) by (simp add: pcs(1))
  qed
qed

lemma rw_inv_reader:
  assumes inv: "rw_inv s" and i: "i < rw_numthreads" "rw_reads i"
    and st: "rw_reader i r (rw_pcs s i) s = Some t"
  shows "rw_inv t"
proof -
  have lk: "rw_lock_inv s" and pr: "rw_props_inv s" and co: "rw_correct (rw_log s)"
    and kn: "\<And>j. j < rw_numthreads \<Longrightarrow> rw_knows j (rw_pcs s j) s
        \<and> (if rw_reads j then rw_reader_pc (rw_pcs s j) else rw_writer_pc (rw_pcs s j))"
    using inv by (simp_all add: rw_inv_def)
  have arr: "rw_props s idx = rw_last idx (rw_log s)" if "rw_reading (rw_pcs s i)" for idx
  proof -
    have "rw_sets (rw_pcs s j) \<noteq> Some idx" if "j < rw_numthreads" for j
      using rw_exclusive(1) [OF lk that _ i(1)] \<open>rw_reading (rw_pcs s i)\<close> rw_sets_writing [of "rw_pcs s j"] by blast
    then show ?thesis using pr by (simp add: rw_props_inv_def)
  qed
  define l where "l = (case rw_pcs s i of R_say k idx \<Rightarrow> Getting i idx | R_print k idx v \<Rightarrow> Got i idx v | _ \<Rightarrow> Getting i 0)"
  have log: "rw_log t = l # rw_log s \<or> rw_log t = rw_log s" "\<And>j. j \<noteq> i \<Longrightarrow> \<not> rw_gets j l"
    "\<And>w idx. l \<noteq> Setting w idx" "rw_correct (l # rw_log s)"
    using st kn [OF i(1)] co by (cases "rw_pcs s i"; auto simp: l_def rw_step_defs split: if_splits)+
  obtain p where pcs: "rw_pcs t = (rw_pcs s)(i := p)" "rw_reader_pc p" "rw_knows i p t"
    using st kn [OF i(1)] arr by (cases "rw_pcs s i") (auto simp: rw_step_defs split: if_splits)
  show ?thesis
    unfolding rw_inv_def
  proof (intro conjI allI impI)
    show "rw_lock_inv t" using lk i(1) st by (rule rw_lock_reader)
    show "rw_props_inv t" using pr st by (rule rw_props_reader)
    show "rw_correct (rw_log t)" using co log(1,4) by auto
  next
    fix j assume j: "j < rw_numthreads"
    show "rw_knows j (rw_pcs t j) t"
    proof (cases "j = i")
      case False
      then have "rw_knows j (rw_pcs s j) t"
        using rw_knows_log [OF kn [OF j, THEN conjunct1] log(1) _ log(2)] log(3) by blast
      with False show ?thesis by (simp add: pcs(1))
    qed (use pcs in simp)
    show "if rw_reads j then rw_reader_pc (rw_pcs t j) else rw_writer_pc (rw_pcs t j)"
      using kn [OF j] pcs(2) i(2) by (simp add: pcs(1))
  qed
qed


lemma rw_inv_step:
  assumes "rw_inv s" "rw_step e s = Some t"
  shows "rw_inv t"
proof -
  obtain i r where e: "e = (i, r)" by force
  show ?thesis
  proof (cases "rw_reads i")
    case True
    with assms(2) have "i < rw_numthreads \<and> rw_reader i r (rw_pcs s i) s = Some t"
      unfolding e rw_step_def by (cases "rw_numthreads \<le> i") simp_all
    then show ?thesis using rw_inv_reader [OF assms(1) _ True] by blast
  next
    case False
    with assms(2) have "i < rw_numthreads \<and> rw_writer i r (rw_pcs s i) s = Some t"
      unfolding e rw_step_def by (cases "rw_numthreads \<le> i") simp_all
    then show ?thesis using rw_inv_writer [OF assms(1) _ False] by blast
  qed
qed

interpretation rw: step_invariant rw_step rw_init rw_inv
proof unfold_locales
  have "cnt n P (\<lambda>i. if rw_reads i then R_loop 0 else W_pick) = 0" if "\<not> P (R_loop 0)" "\<not> P W_pick" for n P
    using that by (simp add: cnt_zero_iff)
  then show "rw_inv rw_init"
    by (simp add: rw_inv_def rw_lock_inv_def rw_props_inv_def rw_init_def)
qed (rule rw_inv_step)

section \<open>All threads finish\<close>

fun rw_rank :: "rw_pc \<Rightarrow> nat" where
  "rw_rank W_pick = 5"
| "rw_rank (W_lock idx) = 4"
| "rw_rank (W_say idx) = 3"
| "rw_rank (W_set idx) = 2"
| "rw_rank W_unlock = 1"
| "rw_rank (R_loop k) = 6 * (100 - k) + 1"
| "rw_rank (R_lock k idx) = 6 * (99 - k) + 6"
| "rw_rank (R_say k idx) = 6 * (99 - k) + 5"
| "rw_rank (R_read k idx) = 6 * (99 - k) + 4"
| "rw_rank (R_unlock k idx v) = 6 * (99 - k) + 3"
| "rw_rank (R_print k idx v) = 6 * (99 - k) + 2"
| "rw_rank Rw_done = 0"

definition rw_left :: "rw_state \<Rightarrow> nat" where
  "rw_left s = (\<Sum>i < rw_numthreads. rw_rank (rw_pcs s i))"

lemma rw_left_goto:
  assumes "i < rw_numthreads" "rw_pcs t = (rw_pcs s)(i := p)" "rw_rank p < rw_rank (rw_pcs s i)"
  shows "rw_left t < rw_left s"
  unfolding rw_left_def assms(2) by (rule sum_strict_mono_ex1) (use assms(1,3) in auto)

lemma rw_left_step:
  assumes "rw_step e s = Some t"
  shows "rw_left t < rw_left s"
proof -
  obtain i r where e: "e = (i, r)" by force
  with assms have i: "i < rw_numthreads"
    and "rw_reader i r (rw_pcs s i) s = Some t \<or> rw_writer i r (rw_pcs s i) s = Some t"
    by (auto simp: rw_step_def not_le split: if_splits)
  from this(2) obtain p where "rw_pcs t = (rw_pcs s)(i := p)" "rw_rank p < rw_rank (rw_pcs s i)"
  proof
    assume "rw_reader i r (rw_pcs s i) s = Some t"
    then show thesis by (intro that [of "rw_pcs t i"]) (cases "rw_pcs s i"; auto simp: rw_step_defs split: if_splits)+
  next
    assume "rw_writer i r (rw_pcs s i) s = Some t"
    then show thesis by (intro that [of "rw_pcs t i"]) (cases "rw_pcs s i"; auto simp: rw_step_defs split: if_splits)+
  qed
  with i show ?thesis by (rule rw_left_goto)
qed

lemma rw_left_exec: "exec rw_step es s = Some t \<Longrightarrow> length es + rw_left t \<le> rw_left s"
proof (induction es arbitrary: s)
  case (Cons e es)
  then obtain u where u: "rw_step e s = Some u" "exec rw_step es u = Some t" by (auto split: option.splits)
  from Cons.IH [OF u(2)] rw_left_step [OF u(1)] show ?case by simp
qed simp

fun rw_waits :: "rw_pc \<Rightarrow> bool" where
  "rw_waits (W_lock idx) = True"
| "rw_waits (R_lock k idx) = True"
| "rw_waits Rw_done = True"
| "rw_waits _ = False"

lemma rw_free:
  assumes "rw_lock_inv s" "\<forall>i < rw_numthreads. rw_waits (rw_pcs s i)"
  shows "\<not> rl_writer (rw_lock s)" "rl_readers (rw_lock s) = 0"
proof -
  have "rw_waits p \<Longrightarrow> \<not> rw_writing p \<and> \<not> rw_reading p" for p by (cases p) auto
  then have "cnt rw_numthreads rw_writing (rw_pcs s) = 0" "cnt rw_numthreads rw_reading (rw_pcs s) = 0"
    using assms(2) by (auto simp: cnt_zero_iff)
  with assms(1) show "\<not> rl_writer (rw_lock s)" "rl_readers (rw_lock s) = 0"
    by (auto simp: rw_lock_inv_def split: if_splits)
qed

lemma rw_can_step:
  assumes "if rw_reads i then rw_reader_pc p else rw_writer_pc p" "p \<noteq> Rw_done"
    and "rw_waits p \<Longrightarrow> \<not> rl_writer (rw_lock s) \<and> rl_readers (rw_lock s) = 0"
  shows "(if rw_reads i then rw_reader i 0 p s else rw_writer i 0 p s) \<noteq> None"
  using assms by (cases p) (auto simp: rl_rdlock_def rl_wrlock_def split: if_splits)

lemma rw_progress:
  assumes inv: "rw_inv s" and nd: "\<not> rw_all_joined s"
  shows "\<exists>e t. rw_step e s = Some t"
proof -
  have "\<exists>i < rw_numthreads. rw_pcs s i \<noteq> Rw_done
      \<and> (rw_waits (rw_pcs s i) \<longrightarrow> \<not> rl_writer (rw_lock s) \<and> rl_readers (rw_lock s) = 0)"
  proof (cases "\<forall>i < rw_numthreads. rw_waits (rw_pcs s i)")
    case True
    with rw_free [of s] inv nd show ?thesis by (auto simp: rw_inv_def rw_all_joined_def)
  next
    case False
    then show ?thesis by (metis rw_waits.simps(3))
  qed
  then obtain i where i: "i < rw_numthreads" "rw_pcs s i \<noteq> Rw_done"
    "rw_waits (rw_pcs s i) \<longrightarrow> \<not> rl_writer (rw_lock s) \<and> rl_readers (rw_lock s) = 0" by blast
  have "if rw_reads i then rw_reader_pc (rw_pcs s i) else rw_writer_pc (rw_pcs s i)"
    using inv i(1) unfolding rw_inv_def by blast
  from rw_can_step [OF this i(2), of s] i(1,3) have "rw_step (i, 0) s \<noteq> None"
    by (simp add: rw_step_def split del: if_split)
  then show ?thesis by blast
qed

text \<open>
  C10: On every schedule and for all random numbers: while a writer is between its locking and
  unlocking calls no other thread is between its own; every value a reader prints is the one set
  last, by the log, when the reader announced that it was reading (NULL if none was); and the
  program neither deadlocks nor runs for ever: within 14464 steps all threads have been joined, and
  until then one of them can move.
\<close>

theorem rw_reads_atomic:
  assumes "exec rw_step es rw_init = Some s"
  shows "(\<forall>i < 32. \<forall>j < 32. i \<noteq> j \<and> rw_writing (rw_pcs s i)
        \<longrightarrow> \<not> rw_writing (rw_pcs s j) \<and> \<not> rw_reading (rw_pcs s j))
    \<and> rw_correct (rw_log s)
    \<and> length es \<le> 14464
    \<and> (rw_all_joined s \<or> (\<exists>e t. rw_step e s = Some t))"
proof (intro conjI)
  have inv: "rw_inv s" using rw.reach_inv [OF exec_reach [OF assms]] .
  then have lk: "rw_lock_inv s" unfolding rw_inv_def by blast
  show "\<forall>i < 32. \<forall>j < 32. i \<noteq> j \<and> rw_writing (rw_pcs s i)
        \<longrightarrow> \<not> rw_writing (rw_pcs s j) \<and> \<not> rw_reading (rw_pcs s j)"
    using rw_exclusive [OF lk, unfolded rw_numthreads_def] by blast
  show "rw_correct (rw_log s)" using inv by (simp add: rw_inv_def)
  have "rw_left rw_init = (\<Sum>i<(32::nat). if i mod 4 = 0 then 5 else 601)"
    unfolding rw_left_def rw_numthreads_def by (rule sum.cong) (simp_all add: rw_init_def rw_reads_def)
  also have "\<dots> = 14464" by (simp add: lessThan_nat_numeral lessThan_Suc)
  finally have "rw_left rw_init = 14464" .
  with rw_left_exec [OF assms] show "length es \<le> 14464" by simp
  show "rw_all_joined s \<or> (\<exists>e t. rw_step e s = Some t)" using rw_progress [OF inv] by blast
qed

definition rw_run1 :: "(nat \<times> nat) list" where
  "rw_run1 = [(0, 71), (0, 0), (1, 7), (0, 0), (0, 0), (0, 0), (1, 0), (1, 0), (1, 0), (1, 0), (1, 0)]"

theorem rw_reads_atomic_witness:
  "\<exists>s. exec rw_step rw_run1 rw_init = Some s \<and> rw_log s = [Got 1 7 (Some 0), Getting 1 7, Setting 0 7]
     \<and> rw_correct (rw_log s) \<and> (\<exists>e t. rw_step e s = Some t)"
proof -
  have "runs rw_step rw_run1 rw_init
      (\<lambda>s. rw_log s = [Got 1 7 (Some 0), Getting 1 7, Setting 0 7] \<and> rw_pcs s 2 \<noteq> Rw_done)" by code_simp
  from runs_exec [OF this] obtain s where s: "exec rw_step rw_run1 rw_init = Some s"
    "rw_log s = [Got 1 7 (Some 0), Getting 1 7, Setting 0 7]" "rw_pcs s 2 \<noteq> Rw_done" by blast
  have "(2 :: nat) < rw_numthreads" by (simp add: rw_numthreads_def)
  with s(3) have "\<not> rw_all_joined s" unfolding rw_all_joined_def by blast
  with rw_reads_atomic [OF s(1)] s show ?thesis by blast
qed

end
