(* ===== verification/Thread_Cancellation.thy ===== *)
theory Thread_Cancellation
  imports Prelude
begin

text \<open>
  \<open>pthreads/pthread-setcanceltype.c\<close>: \<open>main()\<close> cancels a thread that computes for ten seconds and
  then opens a FIFO. A step is a call or a round of the busy loop; time passes by steps of the clock.
\<close>

section \<open>The two threads\<close>

datatype ca_pc =
    T_none | T_time | T_settype | T_say_for | T_say_unless | T_busy | T_say_passed | T_open | T_blocked
  | T_say_error | T_return | T_canceled

datatype ca_main_pc = M_start | M_create | M_poll | M_cancel | M_say | M_join | M_exit int

text \<open>
  \<open>ca_type\<close> is the cancellation type of the thread, \<^term>\<open>True\<close> for the asynchronous one,
  \<open>ca_where\<close> the point at which it was cancelled.
\<close>

record ca_state =
  ca_async :: bool
  ca_now :: nat
  ca_t :: nat
  ca_type :: bool
  ca_pending :: bool
  ca_thread :: ca_pc
  ca_where :: "ca_pc option"
  ca_main :: ca_main_pc
  ca_out :: "string list"

abbreviation NSECS :: nat where "NSECS \<equiv> 10"

definition ca_say :: "string \<Rightarrow> ca_state \<Rightarrow> ca_state" where
  "ca_say line s = s\<lparr>ca_out := ca_out s @ [line]\<rparr>"

definition ca_goto :: "ca_pc \<Rightarrow> ca_state \<Rightarrow> ca_state" where
  "ca_goto pc s = s\<lparr>ca_thread := pc\<rparr>"

definition ca_error :: string where
  "ca_error = ''THREAD: ERROR: open() finished - SHOULD NOT HAVE HAPPENED!''"

text \<open>\<open>mythread()\<close>, as long as it is not cancelled.\<close>

fun mythread :: "ca_pc \<Rightarrow> ca_state \<Rightarrow> ca_state option" where
  "mythread T_time s = Some (ca_goto T_settype (s\<lparr>ca_t := ca_now s\<rparr>))"
| "mythread T_settype s = Some (ca_goto T_say_for (s\<lparr>ca_type := ca_async s\<rparr>))"
| "mythread T_say_for s =
     Some (ca_goto T_say_unless (ca_say (''THREAD: For the next '' @ show_nat NSECS
       @ '' seconds, this thread should not be canceled.'') s))"
| "mythread T_say_unless s =
     Some (ca_goto T_busy (ca_say ''THREAD: ...unless PTHREAD_CANCEL_ASYNCHRONOUS (-a) was used'' s))"
| "mythread T_busy s = Some (if ca_now s - ca_t s < NSECS then s else ca_goto T_say_passed s)"
| "mythread T_say_passed s =
     Some (ca_goto T_open (ca_say (''THREAD: '' @ show_nat NSECS @ '' seconds passed; we should get canceled now...'') s))"
| "mythread T_open s = Some (ca_goto T_blocked s)"
| "mythread T_say_error s = Some (ca_goto T_return (ca_say ca_error s))"
| "mythread _ s = None"

text \<open>
  Where a pending request is acted upon: at \<open>open\<close> it must be, before it blocks and while it does;
  the printing functions may do so; with the asynchronous type every point will do.
\<close>

fun ca_point :: "ca_pc \<Rightarrow> bool" where
  "ca_point T_say_for = True"
| "ca_point T_say_unless = True"
| "ca_point T_say_passed = True"
| "ca_point T_open = True"
| "ca_point T_blocked = True"
| "ca_point T_say_error = True"
| "ca_point _ = False"

fun ca_alive :: "ca_pc \<Rightarrow> bool" where
  "ca_alive T_none = False"
| "ca_alive T_return = False"
| "ca_alive T_canceled = False"
| "ca_alive _ = True"

definition ca_cancel :: "ca_state \<Rightarrow> ca_state option" where
  "ca_cancel s =
     (if ca_pending s \<and> ca_alive (ca_thread s) \<and> (ca_type s \<or> ca_point (ca_thread s))
      then Some (s\<lparr>ca_thread := T_canceled, ca_where := Some (ca_thread s)\<rparr>) else None)"

text \<open>\<open>main()\<close>; the thread's result is PTHREAD_CANCELED exactly if it was cancelled.\<close>

fun ca_main_stmt :: "ca_main_pc \<Rightarrow> ca_state \<Rightarrow> ca_state option" where
  "ca_main_stmt M_start s =
     Some ((if ca_async s then s
       else ca_say (''MAIN: Deferred cancellation in use, use with '' @ [CHR 0x22] @ ''-a'' @ [CHR 0x22]
         @ '' to get async cancellation.'') s)\<lparr>ca_main := M_create\<rparr>)"
| "ca_main_stmt M_create s = Some (s\<lparr>ca_thread := T_time, ca_main := M_poll\<rparr>)"
| "ca_main_stmt M_poll s = Some (s\<lparr>ca_main := M_cancel\<rparr>)"
| "ca_main_stmt M_cancel s = Some (s\<lparr>ca_pending := True, ca_main := M_say\<rparr>)"
| "ca_main_stmt M_say s =
     Some (ca_say ''MAIN: just returned from pthread_cancel() on the thread.'' (s\<lparr>ca_main := M_join\<rparr>))"
| "ca_main_stmt M_join s =
     (case ca_thread s of
        T_canceled \<Rightarrow>
          Some (ca_say ''MAIN: pthread_join() correctly returned PTHREAD_CANCELED.'' (s\<lparr>ca_main := M_exit 0\<rparr>))
      | T_return \<Rightarrow>
          Some (ca_say ''MAIN: pthread_join() did not returned PTHREAD_CANCELED'' (s\<lparr>ca_main := M_exit 1\<rparr>))
      | _ \<Rightarrow> None)"
| "ca_main_stmt (M_exit c) s = None"

text \<open>
  The steps: the thread goes on, or is cancelled; the \<open>open\<close> it is blocked in returns; \<open>main()\<close> goes
  on; a second passes. After \<open>main()\<close> has returned there are none.
\<close>

datatype ca_event = Ca_thread | Ca_cancel | Ca_opened | Ca_main | Ca_second

fun ca_exited :: "ca_main_pc \<Rightarrow> bool" where
  "ca_exited (M_exit c) = True"
| "ca_exited _ = False"

definition ca_step :: "ca_event \<Rightarrow> ca_state \<Rightarrow> ca_state option" where
  "ca_step e s =
     (if ca_exited (ca_main s) then None
      else case e of
        Ca_thread \<Rightarrow>
          if ca_pending s \<and> ca_thread s = T_open then ca_cancel s else mythread (ca_thread s) s
      | Ca_cancel \<Rightarrow> ca_cancel s
      | Ca_opened \<Rightarrow> if ca_thread s = T_blocked then Some (ca_goto T_say_error s) else None
      | Ca_main \<Rightarrow> ca_main_stmt (ca_main s) s
      | Ca_second \<Rightarrow> Some (s\<lparr>ca_now := Suc (ca_now s)\<rparr>))"

text \<open>\<open>main()\<close> looks for \<open>-a\<close> as its first argument.\<close>

definition ca_init :: "string list \<Rightarrow> ca_state" where
  "ca_init argv =
     \<lparr>ca_async = (1 < length argv \<and> argv ! 1 = ''-a''), ca_now = 0, ca_t = 0, ca_type = False, ca_pending = False,
      ca_thread = T_none, ca_where = None, ca_main = M_start, ca_out = []\<rparr>"

section \<open>Properties\<close>

text \<open>The points after the busy loop.\<close>

fun ca_late :: "ca_pc \<Rightarrow> bool" where
  "ca_late T_say_passed = True"
| "ca_late T_open = True"
| "ca_late T_blocked = True"
| "ca_late T_say_error = True"
| "ca_late T_return = True"
| "ca_late _ = False"

fun ca_before_create :: "ca_main_pc \<Rightarrow> bool" where
  "ca_before_create M_start = True"
| "ca_before_create M_create = True"
| "ca_before_create _ = False"

fun ca_requested :: "ca_main_pc \<Rightarrow> bool" where
  "ca_requested M_say = True"
| "ca_requested M_join = True"
| "ca_requested (M_exit c) = True"
| "ca_requested _ = False"

text \<open>What is known of the point of cancellation, and of the exit status of \<open>main()\<close>.\<close>

fun ca_where_ok :: "bool \<Rightarrow> bool \<Rightarrow> ca_pc option \<Rightarrow> bool" where
  "ca_where_ok async passed None = True"
| "ca_where_ok async passed (Some p) = ((async \<or> ca_point p) \<and> (ca_late p \<longrightarrow> passed))"

fun ca_exit_ok :: "ca_main_pc \<Rightarrow> ca_pc \<Rightarrow> bool" where
  "ca_exit_ok (M_exit c) pc = (c = 0 \<and> pc = T_canceled \<or> c = 1 \<and> pc = T_return)"
| "ca_exit_ok _ pc = True"

definition ca_passed :: "ca_state \<Rightarrow> bool" where
  "ca_passed s \<longleftrightarrow> ca_t s + NSECS \<le> ca_now s"

definition ca_inv :: "ca_state \<Rightarrow> bool" where
  "ca_inv s \<longleftrightarrow>
     (ca_thread s = T_none \<longleftrightarrow> ca_before_create (ca_main s))
     \<and> (ca_pending s \<longleftrightarrow> ca_requested (ca_main s))
     \<and> (ca_type s \<longrightarrow> ca_async s)
     \<and> (ca_late (ca_thread s) \<longrightarrow> ca_passed s)
     \<and> (ca_thread s = T_canceled \<longleftrightarrow> ca_where s \<noteq> None)
     \<and> ca_where_ok (ca_async s) (ca_passed s) (ca_where s)
     \<and> ca_exit_ok (ca_main s) (ca_thread s)"

lemmas ca_defs = ca_say_def ca_goto_def

lemma ca_where_none: "ca_inv s \<Longrightarrow> ca_thread s \<noteq> T_canceled \<Longrightarrow> ca_where s = None"
  by (simp add: ca_inv_def)

lemma ca_exit_running: "\<not> ca_exited m \<Longrightarrow> ca_exit_ok m p"
  by (cases m) simp_all

lemma ca_inv_thread:
  assumes "ca_inv s" "mythread (ca_thread s) s = Some t" "\<not> ca_exited (ca_main s)"
  shows "ca_inv t"
  using assms(2) [symmetric] assms(1,3) unfolding ca_inv_def
  by (cases "ca_thread s"; simp add: ca_defs ca_exit_running ca_passed_def split: if_splits)

lemma ca_inv_cancel:
  assumes "ca_inv s" "ca_cancel s = Some t" "\<not> ca_exited (ca_main s)"
  shows "ca_inv t"
proof -
  have c: "ca_pending s" "ca_alive (ca_thread s)" "ca_type s \<or> ca_point (ca_thread s)"
    "t = s\<lparr>ca_thread := T_canceled, ca_where := Some (ca_thread s)\<rparr>"
    using assms(2) by (simp_all add: ca_cancel_def split: if_splits)
  then show ?thesis
    using assms(1,3) unfolding ca_inv_def by (simp add: ca_exit_running ca_passed_def) auto
qed

lemma ca_inv_main:
  assumes "ca_inv s" "ca_main_stmt (ca_main s) s = Some t"
  shows "ca_inv t"
proof (cases "ca_main s")
  case M_join
  with assms(2) [symmetric] assms(1) show ?thesis
    by (cases "ca_thread s"; simp add: ca_defs ca_inv_def ca_passed_def)
next
  case M_start
  then have "ca_thread s = T_none" using assms(1) by (simp add: ca_inv_def)
  with ca_where_none [OF assms(1)] have "ca_where s = None" by simp
  with M_start assms(2) [symmetric] assms(1) show ?thesis
    by (cases "ca_async s"; simp add: ca_defs ca_inv_def ca_passed_def)
next
  case M_create
  then have "ca_thread s = T_none" using assms(1) by (simp add: ca_inv_def)
  with ca_where_none [OF assms(1)] have "ca_where s = None" by simp
  with M_create assms(2) [symmetric] assms(1) show ?thesis
    by (simp add: ca_defs ca_inv_def ca_passed_def)
qed (use assms(2) [symmetric] assms(1) in \<open>simp_all add: ca_defs ca_inv_def ca_passed_def\<close>)

lemma ca_inv_step:
  assumes inv: "ca_inv s" and st: "ca_step e s = Some t"
  shows "ca_inv t"
proof -
  have ex: "\<not> ca_exited (ca_main s)" using st by (simp add: ca_step_def split: if_splits)
  show ?thesis
  proof (cases e)
    case Ca_thread
    with st ex have "ca_cancel s = Some t \<or> mythread (ca_thread s) s = Some t"
      by (cases "ca_pending s \<and> ca_thread s = T_open") (simp_all add: ca_step_def)
    with inv ex show ?thesis using ca_inv_thread ca_inv_cancel by blast
  next
    case Ca_cancel
    with st ex have "ca_cancel s = Some t" by (simp add: ca_step_def)
    then show ?thesis by (rule ca_inv_cancel [OF inv _ ex])
  next
    case Ca_opened
    with st ex have "ca_thread s = T_blocked \<and> t = ca_goto T_say_error s"
      by (cases "ca_thread s = T_blocked") (simp_all add: ca_step_def)
    with inv ex show ?thesis by (simp add: ca_inv_def ca_goto_def ca_exit_running ca_passed_def)
  next
    case Ca_main
    with st ex have "ca_main_stmt (ca_main s) s = Some t" by (simp add: ca_step_def)
    with inv show ?thesis by (rule ca_inv_main)
  next
    case Ca_second
    with st ex have "t = s\<lparr>ca_now := Suc (ca_now s)\<rparr>" by (simp add: ca_step_def)
    with inv show ?thesis by (cases "ca_where s") (auto simp: ca_inv_def ca_passed_def)
  qed
qed

interpretation ca: step_invariant ca_step "ca_init argv" ca_inv for argv
proof unfold_locales
  show "ca_inv (ca_init argv)" by (simp add: ca_inv_def ca_init_def)
qed (rule ca_inv_step)


text \<open>The line that should not appear, and the fall into \<open>main()\<close>'s other branch, need an \<open>open\<close> that returns.\<close>

fun ca_failing :: "ca_pc \<Rightarrow> bool" where
  "ca_failing T_say_error = True"
| "ca_failing T_return = True"
| "ca_failing _ = False"

definition ca_clean :: "ca_state \<Rightarrow> bool" where
  "ca_clean s \<longleftrightarrow> \<not> ca_failing (ca_thread s) \<and> ca_error \<notin> set (ca_out s)"

lemma ca_clean_thread:
  "ca_clean s \<Longrightarrow> mythread (ca_thread s) s = Some t \<Longrightarrow> ca_clean t"
  by (cases "ca_thread s") (auto simp: ca_clean_def ca_defs ca_error_def split: if_splits)

lemma ca_clean_main:
  assumes "ca_clean s" "ca_main_stmt (ca_main s) s = Some t"
  shows "ca_clean t"
proof (cases "ca_main s")
  case M_join
  with assms(2) [symmetric] assms(1) show ?thesis
    by (cases "ca_thread s"; simp add: ca_clean_def ca_defs ca_error_def)
next
  case M_start
  with assms(2) [symmetric] assms(1) show ?thesis
    by (cases "ca_async s"; simp add: ca_clean_def ca_defs ca_error_def)
qed (use assms(2) [symmetric] assms(1) in \<open>simp_all add: ca_clean_def ca_defs ca_error_def\<close>)

lemma ca_clean_step:
  assumes c: "ca_clean s" and st: "ca_step e s = Some t" and e: "e \<noteq> Ca_opened"
  shows "ca_clean t"
proof -
  have ex: "\<not> ca_exited (ca_main s)" using st by (simp add: ca_step_def split: if_splits)
  have cancel: "ca_cancel s = Some t \<Longrightarrow> ca_clean t"
    using c by (simp add: ca_cancel_def ca_clean_def split: if_splits) auto
  show ?thesis
  proof (cases e)
    case Ca_thread
    with st ex have "ca_cancel s = Some t \<or> mythread (ca_thread s) s = Some t"
      by (cases "ca_pending s \<and> ca_thread s = T_open") (simp_all add: ca_step_def)
    with cancel ca_clean_thread [OF c] show ?thesis by blast
  next
    case Ca_cancel
    with st ex have "ca_cancel s = Some t" by (simp add: ca_step_def)
    then show ?thesis by (rule cancel)
  next
    case Ca_main
    with st ex have "ca_main_stmt (ca_main s) s = Some t" by (simp add: ca_step_def)
    with c show ?thesis by (rule ca_clean_main)
  next
    case Ca_second
    with st ex have "t = s\<lparr>ca_now := Suc (ca_now s)\<rparr>" by (simp add: ca_step_def)
    with c show ?thesis by (simp add: ca_clean_def)
  qed (use e in simp)
qed

lemma ca_clean_exec:
  "ca_clean s \<Longrightarrow> exec ca_step es s = Some t \<Longrightarrow> Ca_opened \<notin> set es \<Longrightarrow> ca_clean t"
proof (induction es arbitrary: s)
  case (Cons e es)
  then obtain u where u: "ca_step e s = Some u" "exec ca_step es u = Some t" by (auto split: option.splits)
  from Cons.prems(3) have "e \<noteq> Ca_opened" "Ca_opened \<notin> set es" by auto
  with Cons.IH [OF ca_clean_step [OF Cons.prems(1) u(1)] u(2)] show ?case by blast
qed simp

text \<open>
  As long as the \<open>open\<close> does not return, whatever the schedule: \<open>main()\<close> can only exit with 0,
  the thread having been cancelled, and the line that should not appear does not. With deferred
  cancellation the thread is never cancelled in its busy loop, and later only when ten seconds are
  over; with \<open>-a\<close> a run cancels it in the loop before the first has passed. If \<open>open\<close> does
  return, even after the request, the thread may go on and \<open>main()\<close> exit with 1.
\<close>

theorem ca_cancelled:
  assumes "exec ca_step es (ca_init argv) = Some s" "Ca_opened \<notin> set es"
  shows "(ca_main s = M_exit c \<longrightarrow> c = 0 \<and> ca_thread s = T_canceled) \<and> ca_error \<notin> set (ca_out s)
    \<and> (\<not> ca_async s \<and> ca_where s = Some p \<longrightarrow> p \<noteq> T_busy \<and> (ca_late p \<longrightarrow> ca_t s + 10 \<le> ca_now s))
    \<and> (\<exists>s'. reach ca_step (ca_init [prog, ''-a'']) s' \<and> ca_where s' = Some T_busy \<and> ca_now s' = ca_t s')
    \<and> (\<exists>s'. reach ca_step (ca_init [prog]) s' \<and> ca_main s' = M_exit 1)"
proof (intro conjI impI)
  have inv: "ca_inv s" using ca.reach_inv [OF exec_reach [OF assms(1)]] .
  have clean: "ca_clean s"
    by (rule ca_clean_exec [OF _ assms]) (simp add: ca_clean_def ca_init_def)
  then show "ca_error \<notin> set (ca_out s)" by (simp add: ca_clean_def)
  assume "ca_main s = M_exit c"
  with inv clean show "c = 0" and "ca_thread s = T_canceled" by (auto simp: ca_inv_def ca_clean_def)
next
  have inv: "ca_inv s" using ca.reach_inv [OF exec_reach [OF assms(1)]] .
  assume "\<not> ca_async s \<and> ca_where s = Some p"
  with inv show "p \<noteq> T_busy" and "ca_late p \<Longrightarrow> ca_t s + 10 \<le> ca_now s"
    by (auto simp: ca_inv_def ca_passed_def)
next
  have "runs ca_step [Ca_main, Ca_main, Ca_thread, Ca_thread, Ca_thread, Ca_thread, Ca_main, Ca_main, Ca_cancel]
      (ca_init [prog, ''-a'']) (\<lambda>s. ca_where s = Some T_busy \<and> ca_now s = ca_t s)"
    by (simp add: ca_step_def ca_init_def ca_defs ca_cancel_def)
  from runs_reach [OF this]
  show "\<exists>s'. reach ca_step (ca_init [prog, ''-a'']) s' \<and> ca_where s' = Some T_busy \<and> ca_now s' = ca_t s'" .
next
  have "runs ca_step ([Ca_main, Ca_main, Ca_thread, Ca_thread, Ca_thread, Ca_thread] @ replicate 10 Ca_second
      @ [Ca_thread, Ca_thread, Ca_thread, Ca_main, Ca_main, Ca_opened, Ca_thread, Ca_main, Ca_main])
      (ca_init [prog]) (\<lambda>s. ca_main s = M_exit 1)"
    by (simp add: ca_step_def ca_init_def ca_defs ca_cancel_def numeral_eq_Suc)
  from runs_reach [OF this] show "\<exists>s'. reach ca_step (ca_init [prog]) s' \<and> ca_main s' = M_exit 1" .
qed

definition ca_run1 :: "ca_event list" where
  "ca_run1 = [Ca_main, Ca_main, Ca_thread, Ca_thread, Ca_thread, Ca_thread, Ca_main, Ca_main, Ca_main]
     @ replicate 10 Ca_second @ [Ca_thread, Ca_thread, Ca_thread, Ca_main]"

theorem ca_cancelled_witness:
  "\<exists>s. exec ca_step ca_run1 (ca_init [''a'']) = Some s \<and> ca_main s = M_exit 0 \<and> ca_thread s = T_canceled
     \<and> ca_where s = Some T_open \<and> ca_t s + 10 \<le> ca_now s \<and> ca_error \<notin> set (ca_out s)"
proof -
  have "runs ca_step ca_run1 (ca_init [''a''])
      (\<lambda>s. ca_main s = M_exit 0 \<and> ca_where s = Some T_open \<and> \<not> ca_async s)" by code_simp
  from runs_exec [OF this] obtain s where s: "exec ca_step ca_run1 (ca_init [''a'']) = Some s"
    "ca_main s = M_exit 0" "ca_where s = Some T_open" "\<not> ca_async s" by blast
  have "Ca_opened \<notin> set ca_run1" by (simp add: ca_run1_def)
  from ca_cancelled [OF s(1) this, of 0 T_open "''a''"] s show ?thesis by auto
qed

end
