(* ===== verification/Mapped_Files.thy ===== *)
theory Mapped_Files
  imports Prelude
begin

unbundle bit_operations_syntax

text \<open>
  The programs of \<open>mmap/\<close>: \<open>reverse.c\<close>, \<open>aligned.c\<close>, \<open>lseek.c\<close>, \<open>sigsegv.c\<close>, \<open>close.c\<close> and
  \<open>override.c\<close>. A shared mapping of a file is accessed through 64-bit addresses; what lies in the
  last page after the end of the file is memory, what lies in later pages cannot be accessed.
  System calls that may fail are arguments of the definitions.
\<close>

section \<open>Shared mappings\<close>

type_synonym byte = "8 word"
type_synonym addr = "64 word"

datatype mem_fault = Bus_error | Segv

datatype run_end = Exited int | Killed mem_fault

text \<open>The file, the bytes of the last page after its end, and the length asked of \<open>mmap\<close>.\<close>

record mapping =
  mp_file :: "byte list"
  mp_tail :: "nat \<Rightarrow> byte"
  mp_len :: nat

definition mp_map :: "byte list \<Rightarrow> nat \<Rightarrow> mapping" where
  "mp_map file len = \<lparr>mp_file = file, mp_tail = (\<lambda>_. 0), mp_len = len\<rparr>"

definition pages :: "nat \<Rightarrow> nat" where
  "pages n = (n + 4095) div 4096"

definition mp_fault :: "mapping \<Rightarrow> nat \<Rightarrow> mem_fault option" where
  "mp_fault m i =
     (if pages (mp_len m) * 4096 \<le> i then Some Segv
      else if pages (length (mp_file m)) * 4096 \<le> i then Some Bus_error
      else None)"

definition mp_load :: "mapping \<Rightarrow> nat \<Rightarrow> mem_fault + byte" where
  "mp_load m i =
     (case mp_fault m i of
        Some f \<Rightarrow> Inl f
      | None \<Rightarrow> Inr (if i < length (mp_file m) then mp_file m ! i else mp_tail m i))"

definition mp_store :: "mapping \<Rightarrow> nat \<Rightarrow> byte \<Rightarrow> mem_fault + mapping" where
  "mp_store m i b =
     (case mp_fault m i of
        Some f \<Rightarrow> Inl f
      | None \<Rightarrow> Inr (if i < length (mp_file m) then m\<lparr>mp_file := (mp_file m)[i := b]\<rparr>
                     else m\<lparr>mp_tail := (mp_tail m)(i := b)\<rparr>))"

lemma pages_ge: "n \<le> pages n * 4096"
proof -
  have "n + 4095 = (n + 4095) div 4096 * 4096 + (n + 4095) mod 4096" by simp
  moreover have "(n + 4095) mod 4096 < 4096" by simp
  ultimately show ?thesis unfolding pages_def by linarith
qed

lemma mp_in_file:
  assumes "i < length (mp_file m)" "length (mp_file m) \<le> mp_len m"
  shows "mp_load m i = Inr (mp_file m ! i)"
    and "mp_store m i b = Inr (m\<lparr>mp_file := (mp_file m)[i := b]\<rparr>)"
proof -
  have "i < pages (mp_len m) * 4096" "i < pages (length (mp_file m)) * 4096"
    using assms pages_ge [of "mp_len m"] pages_ge [of "length (mp_file m)"] by linarith+
  then have "mp_fault m i = None" by (simp add: mp_fault_def)
  with assms(1) show "mp_load m i = Inr (mp_file m ! i)"
    "mp_store m i b = Inr (m\<lparr>mp_file := (mp_file m)[i := b]\<rparr>)"
    by (simp_all add: mp_load_def mp_store_def)
qed

section \<open>\<open>reverse.c\<close>\<close>

text \<open>The loop over the two pointers; \<open>a\<close> is the address of the mapping.\<close>

function rv_loop :: "addr \<Rightarrow> addr \<Rightarrow> addr \<Rightarrow> mapping \<Rightarrow> mem_fault + mapping" where
  "rv_loop a p1 p2 m =
     (if p1 < p2 then
        (case mp_load m (unat (p1 - a)) of
           Inl f \<Rightarrow> Inl f
         | Inr c \<Rightarrow>
             (case mp_load m (unat (p2 - a)) of
                Inl f \<Rightarrow> Inl f
              | Inr d \<Rightarrow>
                  (case mp_store m (unat (p1 - a)) d of
                     Inl f \<Rightarrow> Inl f
                   | Inr m' \<Rightarrow>
                       (case mp_store m' (unat (p2 - a)) c of
                          Inl f \<Rightarrow> Inl f
                        | Inr m'' \<Rightarrow> rv_loop a (p1 + 1) (p2 - 1) m''))))
      else Inr m)"
  by pat_completeness auto
termination
proof (relation "measure (\<lambda>(a, p1, p2, m). unat p2 - unat p1)")
  fix a p1 p2 m c d m' m''
  assume "(p1 :: addr) < p2"
  then have "unat p1 < unat p2" by (simp add: word_less_nat_alt)
  with word_next [OF \<open>p1 < p2\<close>] word_prev [OF \<open>p1 < p2\<close>]
  show "((a, p1 + 1, p2 - 1, m''), (a, p1, p2, m)) \<in> measure (\<lambda>(a, p1, p2, m). unat p2 - unat p1)"
    by simp
qed simp

declare rv_loop.simps [simp del]

text \<open>
  \<open>addr\<close> is what \<open>mmap\<close> returns; its failure, (void *)-1, is not checked, and with it no address
  is mapped. The file and how the program ends.
\<close>

definition rv_main :: "addr option \<Rightarrow> byte list option \<Rightarrow> byte list option \<times> run_end" where
  "rv_main addr file =
     (case file of
        None \<Rightarrow> (None, Exited 1)
      | Some bytes \<Rightarrow>
          let size = length bytes;
              p1 = (case addr of None \<Rightarrow> - 1 | Some a \<Rightarrow> a);
              p2 = p1 + of_nat size - 1
          in case rv_loop p1 p1 p2 (mp_map bytes (case addr of None \<Rightarrow> 0 | Some _ \<Rightarrow> size)) of
               Inl f \<Rightarrow> (Some bytes, Killed f)
             | Inr m \<Rightarrow> (Some (mp_file m), Exited 0))"

lemma rv_loop_rev:
  assumes "mp_file m = xs @ ys @ zs" "ys \<noteq> []" "length (mp_file m) \<le> mp_len m"
    and "unat a + length (mp_file m) < 2 ^ 64"
  shows "rv_loop a (a + of_nat (length xs)) (a + of_nat (length xs + length ys - 1)) m =
    Inr (m\<lparr>mp_file := xs @ rev ys @ zs\<rparr>)"
  using assms
proof (induction "length ys" arbitrary: xs ys zs m rule: less_induct)
  case less
  let ?i = "length xs" and ?j = "length xs + length ys - 1"
  have off: "unat (a + of_nat k) = unat a + k" "unat (a + of_nat k - a) = k" if "k < length (mp_file m)" for k
    using that less.prems(4) by (simp_all add: unat_offset unat_of_nat)
  have j: "?j < length (mp_file m)" "?i < length (mp_file m)" using less.prems(1,2) by (cases ys; simp)+
  show ?case
  proof (cases "length ys = 1")
    case True
    then obtain y where "ys = [y]" by (auto simp: length_Suc_conv)
    with less.prems(1) show ?thesis by (simp add: rv_loop.simps)
  next
    case False
    with less.prems(2) obtain x y ms where ys: "ys = x # ms @ [y]"
      by (cases ys; cases "tl ys" rule: rev_cases) auto
    have lt: "a + of_nat ?i < a + of_nat ?j"
      unfolding word_less_nat_alt using off(1) [OF j(1)] off(1) [OF j(2)] by (simp add: ys)
    let ?m = "m\<lparr>mp_file := (xs @ [y]) @ ms @ (x # zs)\<rparr>"
    have swapped: "mp_file m ! ?i = x" "mp_file m ! ?j = y"
      "(mp_file m)[?i := y, ?j := x] = (xs @ [y]) @ ms @ (x # zs)"
      using less.prems(1) by (simp_all add: ys nth_append list_update_append)
    have one: "rv_loop a (a + of_nat ?i) (a + of_nat ?j) m = rv_loop a (a + of_nat ?i + 1) (a + of_nat ?j - 1) ?m"
      unfolding rv_loop.simps [of a "a + of_nat ?i" "a + of_nat ?j" m] off(2) [OF j(1)] off(2) [OF j(2)]
      using lt j less.prems(3) swapped by (simp add: mp_in_file)
    have next1: "a + of_nat ?i + 1 = a + of_nat (length (xs @ [y]))"
      "a + of_nat ?j - 1 = a + of_nat (length (xs @ [y]) + length ms - 1)" if "ms \<noteq> []"
      using that by (cases ms; simp add: ys)+
    show ?thesis
    proof (cases "ms = []")
      case True
      then have j1: "a + of_nat ?j = a + of_nat ?i + 1" by (simp add: ys)
      with lt have "a + of_nat ?i < a + of_nat ?i + 1" by (simp only:)
      then have "\<not> a + of_nat ?i + 1 < a + of_nat ?i" by (simp only: not_less order.strict_implies_order)
      with j1 have "\<not> a + of_nat ?i + 1 < a + of_nat ?j - 1" by (simp only: add_diff_cancel_right') simp
      then have "rv_loop a (a + of_nat ?i + 1) (a + of_nat ?j - 1) ?m = Inr ?m" by (simp only: rv_loop.simps if_False)
      with one show ?thesis by (simp only:) (simp add: ys True)
    next
      case False
      have "rv_loop a (a + of_nat (length (xs @ [y]))) (a + of_nat (length (xs @ [y]) + length ms - 1)) ?m =
          Inr (?m\<lparr>mp_file := (xs @ [y]) @ rev ms @ (x # zs)\<rparr>)"
        using less.prems False by (intro less.hyps) (simp_all add: ys)
      then show ?thesis unfolding one next1 [OF False] by (simp add: ys)
    qed
  qed
qed

text \<open>
  C15: The loop of \<open>reverse.c\<close> over two pointers into the mapped file computes \<^const>\<open>rev\<close>: the file
  is reversed in place, without a fault. When \<open>mmap\<close> fails, as it does for an empty file, the
  comparison of the two pointers derived from (void *)-1 fails at once, and the program reports
  success without having touched the file.
\<close>

theorem rv_reverses:
  assumes "\<And>a. addr = Some a \<Longrightarrow> bytes \<noteq> [] \<and> unat a + length bytes < 2 ^ 64"
    and "length bytes < 2 ^ 63"
  shows "rv_main addr (Some bytes) = (Some (if addr = None then bytes else rev bytes), Exited 0)"
proof (cases addr)
  case (Some a)
  with assms(1) have "bytes \<noteq> []" "unat a + length bytes < 2 ^ 64" by auto
  moreover from this(1) have e: "a + of_nat (length bytes) - 1 = a + of_nat (length ([] :: byte list) + length bytes - 1)"
    by (cases bytes) simp_all
  ultimately have "rv_loop a a (a + of_nat (length bytes) - 1) (mp_map bytes (length bytes)) =
      Inr ((mp_map bytes (length bytes))\<lparr>mp_file := rev bytes\<rparr>)"
    unfolding e using rv_loop_rev [of "mp_map bytes (length bytes)" "[]" bytes "[]" a] by (simp add: mp_map_def)
  then show ?thesis by (simp add: rv_main_def Some Let_def)
next
  case None
  have "\<not> (- 1 :: addr) < x" for x by (simp add: word_order.not_eq_extremum)
  then show ?thesis by (simp add: rv_main_def None Let_def rv_loop.simps mp_map_def)
qed

theorem rv_reverses_witness:
  "rv_main (Some 4096) (Some [48, 49, 50, 10]) = (Some [10, 50, 49, 48], Exited 0)
   \<and> rv_main None (Some []) = (Some [], Exited 0)"
  using rv_reverses [of "Some 4096" "[48, 49, 50, 10]"] rv_reverses [of None "[]"] by simp


section \<open>\<open>aligned.c\<close>\<close>

text \<open>A \<open>uint32_t\<close> in memory, in the byte order of the machine.\<close>

definition bytes32 :: "bool \<Rightarrow> 32 word \<Rightarrow> byte list" where
  "bytes32 big w =
     (if big then rev else id) [ucast w, ucast (drop_bit 8 w), ucast (drop_bit 16 w), ucast (drop_bit 24 w)]"

definition word32 :: "bool \<Rightarrow> byte list \<Rightarrow> 32 word" where
  "word32 big bs =
     (let b = (if big then rev else id) bs
      in ucast (b ! 0) OR push_bit 8 (ucast (b ! 1)) OR push_bit 16 (ucast (b ! 2)) OR push_bit 24 (ucast (b ! 3)))"

lemma length_bytes32 [simp]: "length (bytes32 big w) = 4"
  by (simp add: bytes32_def)

lemma word32_bytes32: "word32 big (bytes32 big w) = w"
proof -
  have "word32 big (bytes32 big w) =
      (ucast (ucast w :: byte) :: 32 word) OR push_bit 8 (ucast (ucast (drop_bit 8 w) :: byte))
      OR push_bit 16 (ucast (ucast (drop_bit 16 w) :: byte)) OR push_bit 24 (ucast (ucast (drop_bit 24 w) :: byte))"
    by (simp add: word32_def bytes32_def Let_def numeral_eq_Suc)
  also have "\<dots> = w"
  proof (rule bit_word_eqI)
    fix n assume "n < LENGTH(32)"
    then have "n < 8 \<or> 8 \<le> n \<and> n < 16 \<or> 16 \<le> n \<and> n < 24 \<or> 24 \<le> n \<and> n < 32" by auto
    then show "bit ((ucast (ucast w :: byte) :: 32 word) OR push_bit 8 (ucast (ucast (drop_bit 8 w) :: byte))
        OR push_bit 16 (ucast (ucast (drop_bit 16 w) :: byte)) OR push_bit 24 (ucast (ucast (drop_bit 24 w) :: byte))) n
        \<longleftrightarrow> bit w n"
      by (elim disjE) (auto simp: bit_simps)
  qed
  finally show ?thesis .
qed

definition is_aligned :: "addr \<Rightarrow> bool" where
  "is_aligned p \<longleftrightarrow> p AND 3 = 0"

text \<open>
  Loading \<open>*tag\<close>: on a machine that insists on alignment the access to another address ends the
  program.
\<close>

definition al_load :: "bool \<Rightarrow> bool \<Rightarrow> mapping \<Rightarrow> addr \<Rightarrow> addr \<Rightarrow> mem_fault + 32 word" where
  "al_load big strict m a p =
     (if strict \<and> \<not> is_aligned p then Inl Bus_error
      else let i = unat (p - a) in
        (case (mp_load m i, mp_load m (i + 1), mp_load m (i + 2), mp_load m (i + 3)) of
           (Inr b0, Inr b1, Inr b2, Inr b3) \<Rightarrow> Inr (word32 big [b0, b1, b2, b3])
         | _ \<Rightarrow> Inl Bus_error))"

text \<open>The record the two loops write: the tag and as many bytes as it says.\<close>

definition al_record :: "bool \<Rightarrow> byte \<Rightarrow> int \<Rightarrow> byte list" where
  "al_record big c len = bytes32 big (word_of_int len) @ replicate (nat len) c"

definition al_ptr_line :: "(addr \<Rightarrow> string) \<Rightarrow> addr \<Rightarrow> string" where
  "al_ptr_line ptr p =
     ''tag ptr = 0x'' @ ptr p @ '' ['' @ (if is_aligned p then ''aligned'' else ''not aligned'') @ '']'' @ nl"

definition al_tag_line :: "32 word \<Rightarrow> string" where
  "al_tag_line tag = ''tag = '' @ show_int (to_int32 (uint tag)) @ nl"

text \<open>
  What is printed, the error message and the end of the program; \<^term>\<open>None\<close> where a negative
  length, a huge \<open>size_t\<close>, keeps a loop writing without end. \<open>opened\<close> says whether \<open>open\<close> succeeds, \<open>addr\<close>
  is what \<open>mmap\<close> returns. The results of the writes are not looked at; they are taken to succeed.
\<close>

definition al_main ::
  "bool \<Rightarrow> bool \<Rightarrow> (addr \<Rightarrow> string) \<Rightarrow> bool \<Rightarrow> addr option \<Rightarrow> string list \<Rightarrow> (string \<times> string \<times> run_end) option" where
  "al_main big strict ptr opened addr argv =
     (if length argv \<noteq> 3 then Some ([], ''usage: '' @ hd argv @ '' <len1> <len2>'' @ nl, Exited 1)
      else let len1 = atoi (argv ! 1); len2 = atoi (argv ! 2) in
        if \<not> opened then Some ([], ''open'', Exited 1)
        else if len1 < 0 \<or> len2 < 0 then None
        else let bytes = al_record big 65 len1 @ al_record big 66 len2; size = nat (8 + len1 + len2) in
          (case addr of
             None \<Rightarrow> Some ([], ''mmap'', Exited 1)
           | Some a \<Rightarrow>
               let m = mp_map bytes size; eofptr = a + of_nat size in
               (case al_load big strict m a a of
                  Inl f \<Rightarrow> Some (al_ptr_line ptr a, [], Killed f)
                | Inr tag1 \<Rightarrow>
                    let p = a + 4 + ucast tag1; out1 = al_ptr_line ptr a @ al_tag_line tag1 @ al_ptr_line ptr p in
                    (case al_load big strict m a p of
                       Inl f \<Rightarrow> Some (out1, [], Killed f)
                     | Inr tag2 \<Rightarrow>
                         let q = p + 4 + ucast tag2; out2 = out1 @ al_tag_line tag2 in
                         Some (if q \<noteq> eofptr
                           then (out2, ''not reached EOF (0x'' @ ptr q @ '' != 0x'' @ ptr eofptr @ '')'', Exited 1)
                           else (out2, [], Exited 0))))))"

lemma al_load_at:
  assumes "mp_file m = xs @ bytes32 big w @ zs" "length (mp_file m) \<le> mp_len m" "length xs < 2 ^ 64"
  shows "al_load big strict m a (a + of_nat (length xs)) =
    (if strict \<and> \<not> is_aligned (a + of_nat (length xs)) then Inl Bus_error else Inr w)"
proof -
  obtain b0 b1 b2 b3 where b: "bytes32 big w = [b0, b1, b2, b3]"
    by (cases big) (simp_all add: bytes32_def)
  have i: "unat (a + of_nat (length xs) - a) = length xs" using assms(3) by (simp add: unat_of_nat)
  have at: "mp_file m ! length xs = b0" "mp_file m ! (length xs + 1) = b1" "mp_file m ! (length xs + 2) = b2"
    "mp_file m ! (length xs + 3) = b3" using assms(1) by (simp_all add: b nth_append)
  have len: "length xs + 3 < length (mp_file m)" using assms(1) by simp
  have ld: "mp_load m (length xs + k) = Inr (mp_file m ! (length xs + k))" if "k \<le> 3" for k
    using len that assms(2) by (intro mp_in_file(1)) linarith+
  have l: "mp_load m (length xs) = Inr b0" "mp_load m (length xs + 1) = Inr b1" "mp_load m (length xs + 2) = Inr b2"
    "mp_load m (length xs + 3) = Inr b3"
    using ld [of 0] ld [of 1] ld [of 2] ld [of 3] unfolding at by (simp_all add: at(1))
  show ?thesis
    unfolding al_load_def i Let_def l using word32_bytes32 [of big w] b by simp
qed


lemma is_aligned_iff: "is_aligned p \<longleftrightarrow> uint p mod 4 = 0"
proof -
  have "p AND 3 = take_bit 2 p" by (simp add: take_bit_eq_mask mask_eq_decr_exp)
  then have "is_aligned p \<longleftrightarrow> uint (take_bit 2 p) = 0" by (simp add: is_aligned_def unsigned_eq_0_iff)
  also have "uint (take_bit 2 p) = take_bit 2 (uint p)" by (simp add: unsigned_take_bit_eq)
  finally show ?thesis by (simp add: take_bit_eq_mod)
qed

lemma is_aligned_add:
  assumes "is_aligned a" "0 \<le> k"
  shows "is_aligned (a + of_nat (nat k)) \<longleftrightarrow> 4 dvd k"
proof -
  let ?b = "of_nat (nat k) :: addr"
  have "?b = word_of_int k" using assms(2) by simp
  then have "uint ?b = k mod 18446744073709551616" by (simp only: uint_word_of_int) simp
  then have b: "uint ?b mod 4 = k mod 4" by (simp only:) (simp add: mod_mod_cancel)
  have "uint (a + ?b) = (uint a + uint ?b) mod 18446744073709551616" by (simp only: uint_word_ariths) simp
  then have "uint (a + ?b) mod 4 = (uint a + uint ?b) mod 4" by (simp only:) (simp add: mod_mod_cancel)
  also have "\<dots> = (uint a mod 4 + k mod 4) mod 4" by (simp only: b [symmetric] mod_add_eq)
  also have "\<dots> = k mod 4" using assms(1) by (simp add: is_aligned_iff)
  finally show ?thesis by (simp only: is_aligned_iff dvd_eq_mod_eq_0)
qed

lemma ucast_tag:
  assumes "0 \<le> x" "x \<le> INT_MAX"
  shows "(ucast (word_of_int x :: 32 word) :: addr) = of_nat (nat x)"
  using assms by (simp add: ucast_eq uint_word_of_int)

text \<open>
  C21: What \<open>aligned.c\<close> writes with its loops it reads back with its pointers: for lengths that are
  not negative, on a mapping at a page boundary, it prints both lengths as the tags and arrives at
  the end of the file, whatever the byte order. The second tag is aligned exactly if the first
  length is a multiple of 4; a machine that insists on alignment kills the program there otherwise.
  If the file cannot be opened or mapped it exits with 1 and prints only the error. (The writes are
  taken to succeed.)
\<close>

theorem al_roundtrip:
  assumes "0 \<le> atoi l1" "0 \<le> atoi l2" "\<forall>a. addr = Some a \<longrightarrow> is_aligned a"
  shows "al_main big strict ptr opened addr [prog, l1, l2] =
    (if \<not> opened then Some ([], ''open'', Exited 1)
     else if addr = None then Some ([], ''mmap'', Exited 1)
     else let a = the addr; out = al_ptr_line ptr a @ ''tag = '' @ show_int (atoi l1) @ nl @ al_ptr_line ptr (a + of_nat (nat (4 + atoi l1)))
     in Some (if strict \<and> \<not> 4 dvd atoi l1 then (out, [], Killed Bus_error)
              else (out @ ''tag = '' @ show_int (atoi l2) @ nl, [], Exited 0)))"
proof (cases "opened \<and> addr \<noteq> None")
  case False
  with assms(1,2) show ?thesis by (auto simp: al_main_def)
next
  case True
  then obtain a where open_ok: opened and addr: "addr = Some a" by auto
  with assms(3) have al: "is_aligned a" by simp
  define n1 n2 where "n1 = atoi l1" and "n2 = atoi l2"
  have range: "n1 \<le> INT_MAX" "n2 \<le> INT_MAX" "0 \<le> n1" "0 \<le> n2"
    using atoi_range [of l1] atoi_range [of l2] assms(1,2) by (simp_all add: n1_def n2_def)
  let ?m = "mp_map (al_record big 65 n1 @ al_record big 66 n2) (nat (8 + n1 + n2))"
  have m: "mp_file ?m = [] @ bytes32 big (word_of_int n1) @ replicate (nat n1) 65 @ al_record big 66 n2"
    "mp_file ?m = al_record big 65 n1 @ bytes32 big (word_of_int n2) @ replicate (nat n2) 66"
    "length (mp_file ?m) \<le> mp_len ?m" "length (al_record big 65 n1) = nat (4 + n1)"
    using range by (simp_all add: mp_map_def al_record_def nat_add_distrib)
  have t1: "al_load big strict ?m a a = Inr (word_of_int n1)"
    using al_load_at [OF m(1,3), of strict a] al by simp
  define P E where "P = a + of_nat (nat (4 + n1))" and "E = a + of_nat (nat (8 + n1 + n2))"
  have p: "a + 4 + ucast (word_of_int n1 :: 32 word) = P"
    using range by (simp add: ucast_tag nat_add_distrib P_def)
  have t2: "al_load big strict ?m a P =
      (if strict \<and> \<not> 4 dvd n1 then Inl Bus_error else Inr (word_of_int n2))"
    using al_load_at [OF m(2,3), of strict a] is_aligned_add [OF al, of "4 + n1"] range m(4)
    unfolding P_def by simp
  have q: "P + 4 + ucast (word_of_int n2 :: 32 word) = E"
    using range by (simp add: ucast_tag nat_add_distrib P_def E_def)
  have tag: "al_tag_line (word_of_int n1) = ''tag = '' @ show_int n1 @ nl"
    "al_tag_line (word_of_int n2) = ''tag = '' @ show_int n2 @ nl"
    using range by (simp_all add: al_tag_line_def uint_word_of_int to_int32_id)
  have ge: "\<not> n1 < 0" "\<not> n2 < 0" using range by simp_all
  show ?thesis
    using ge open_ok addr unfolding al_main_def Let_def
    by (simp add: n1_def [symmetric] n2_def [symmetric] P_def [symmetric] E_def [symmetric] t1 t2 p q tag
        del: of_nat_nat)
qed

theorem al_roundtrip_witness:
  "al_main False True (\<lambda>p. []) True (Some 4096) [''a'', ''16'', ''2''] =
      Some (al_ptr_line (\<lambda>p. []) 4096 @ ''tag = '' @ show_int 16 @ nl @ al_ptr_line (\<lambda>p. []) 4116 @ ''tag = '' @ show_int 2 @ nl,
        [], Exited 0)
   \<and> snd (the (al_main True True (\<lambda>p. []) True (Some 4096) [''a'', ''17'', ''16''])) = ([], Killed Bus_error)"
proof -
  have a: "atoi ''16'' = 16" "atoi ''17'' = 17" "atoi ''2'' = 2" by code_simp+
  have "is_aligned 4096" by (simp add: is_aligned_iff)
  with al_roundtrip [of "''16''" "''2''" "Some 4096" False True "\<lambda>p. []" True "''a''"]
    al_roundtrip [of "''17''" "''16''" "Some 4096" True True "\<lambda>p. []" True "''a''"]
  show ?thesis by (simp add: a Let_def)
qed

end
