(* ===== verification/Mapping_Limits.thy ===== *)
theory Mapping_Limits
  imports Mapped_Files
begin

text \<open>
  What lies at the borders of a mapping: \<open>mmap/lseek.c\<close> and \<open>mmap/sigsegv.c\<close> write after the end
  of the file, \<open>mmap/close.c\<close> reads a file that has been removed, and \<open>mmap/override.c\<close> maps a
  file over an anonymous mapping.
\<close>

section \<open>\<open>lseek.c\<close>\<close>

text \<open>
  The standard output, the error output, the file (\<^term>\<open>None\<close> if it could not be opened) and the
  end. With \<open>NDEBUG\<close> the calls of \<open>write\<close>, which stand inside \<open>assert\<close>, are not compiled.
\<close>

definition ml_main :: "(string \<Rightarrow> bool) \<Rightarrow> bool \<Rightarrow> string list \<Rightarrow> string \<times> string \<times> byte list option \<times> run_end" where
  "ml_main works ndebug argv =
     (if length argv \<noteq> 2 then ([], ''usage: '' @ hd argv @ '' <num>'' @ nl, None, Exited 1)
      else if \<not> works ''open'' then ([], ''open'', None, Exited 1)
      else if \<not> works ''lseek'' then ([], ''lseek'', Some [], Exited 1)
      else let mode = atoi (argv ! 1);
               extended = replicate 100 0 @ [97];
               out1 = (if mode = 1 then ''extending before mmap()'' @ nl else []);
               m1 = mp_map (if mode = 1 \<and> \<not> ndebug then extended else []) 100
        in if \<not> works ''mmap'' then (out1, ''mmap'', Some (mp_file m1), Exited 1)
           else let out2 = out1 @ (if mode = 2 then ''extending after mmap()'' @ nl else []);
                    m2 = (if mode = 2 \<and> \<not> ndebug then m1\<lparr>mp_file := extended\<rparr> else m1)
             in case mp_store m2 99 0 of
                  Inl f \<Rightarrow> (out2, [], Some (mp_file m2), Killed f)
                | Inr m3 \<Rightarrow> (out2, [], Some (mp_file m3), Exited 0))"

section \<open>\<open>sigsegv.c\<close>\<close>

definition sg_digit :: "nat \<Rightarrow> char" where
  "sg_digit d = char_of (if d < 10 then 48 + d else 87 + d)"

text \<open>The conversion \<open>%02x\<close> of a \<open>char\<close>, which is signed: a negative one shows as a 32-bit number.\<close>

definition sg_hex :: "byte \<Rightarrow> string" where
  "sg_hex b = (if 128 \<le> unat b then ''ffffff'' else []) @ [sg_digit (unat b div 16), sg_digit (unat b mod 16)]"

text \<open>
  The loop from index \<open>i\<close>. What lies behind the mapping is not under the program's control: \<open>rd\<close>
  says what reading there gives, \<open>wr\<close> whether writing is a fault.
\<close>

function sg_loop ::
  "(nat \<Rightarrow> mem_fault + byte) \<Rightarrow> (nat \<Rightarrow> mem_fault option) \<Rightarrow> nat \<Rightarrow> mapping \<Rightarrow> string list \<times> mapping \<times> run_end" where
  "sg_loop rd wr i m =
     (if 16384 \<le> i then ([], m, Exited 0)
      else let inside = i < pages (mp_len m) * 4096 in
        (case (if inside then mp_load m i else rd i) of
           Inl f \<Rightarrow> ([], m, Killed f)
         | Inr b \<Rightarrow>
             let line = show_nat i @ '' byte 0x'' @ sg_hex b @ nl in
             (case (if inside then mp_store m i 0 else (case wr i of Some f \<Rightarrow> Inl f | None \<Rightarrow> Inr m)) of
                Inl f \<Rightarrow> ([line], m, Killed f)
              | Inr m' \<Rightarrow> (case sg_loop rd wr (i + 1) m' of (ls, r) \<Rightarrow> (line # ls, r)))))"
  by pat_completeness auto
termination by (relation "measure (\<lambda>(rd, wr, i, m). 16384 - i)") auto

declare sg_loop.simps [simp del]

definition sg_main ::
  "(string \<Rightarrow> bool) \<Rightarrow> (nat \<Rightarrow> mem_fault + byte) \<Rightarrow> (nat \<Rightarrow> mem_fault option) \<Rightarrow> exit_info + string list \<times> mapping \<times> run_end"
where
  "sg_main works rd wr =
     (if \<not> works ''open'' then Inl Abort
      else if \<not> works ''mmap'' then Inl (Exit 1 ''mmap'')
      else Inr (case sg_loop rd wr 4090 (mp_map (replicate 99 0 @ [97]) 100) of
        (ls, r) \<Rightarrow> ((''pagesize = 4096 bytes'' @ nl) # ls, r)))"

text \<open>
  In \<open>mp_fault\<close> a mapping of up to one page of a file with at least one byte faults nowhere in that
  page.
\<close>

lemma pages_one: "0 < n \<Longrightarrow> n \<le> 4096 \<Longrightarrow> pages n = 1"
  by (simp add: pages_def div_nat_eqI)

lemma sg_tail:
  assumes "length bytes = 100" "100 \<le> i" "i < 4096"
  shows "mp_load (mp_map bytes 100) i = Inr 0" "mp_store (mp_map bytes 100) i 0 = Inr (mp_map bytes 100)"
proof -
  have "mp_fault (mp_map bytes 100) i = None" using assms by (simp add: mp_fault_def mp_map_def pages_one)
  then show "mp_load (mp_map bytes 100) i = Inr 0" "mp_store (mp_map bytes 100) i 0 = Inr (mp_map bytes 100)"
    using assms by (simp_all add: mp_load_def mp_store_def mp_map_def fun_upd_idem)
qed

definition sg_line :: "nat \<Rightarrow> string" where
  "sg_line i = show_nat i @ '' byte 0x00'' @ nl"

lemma sg_hex_0: "sg_hex 0 = ''00''"
  by code_simp

lemma sg_loop_page:
  assumes "length bytes = 100" "100 \<le> i" "i \<le> 4096"
  shows "sg_loop rd wr i (mp_map bytes 100) =
    (case sg_loop rd wr 4096 (mp_map bytes 100) of (ls, r) \<Rightarrow> (map sg_line [i..<4096] @ ls, r))"
  using assms
proof (induction "4096 - i" arbitrary: i)
  case 0
  then show ?case by (simp split: prod.splits)
next
  case (Suc k)
  then have lt: "i < 4096" by simp
  from Suc have "sg_loop rd wr (i + 1) (mp_map bytes 100) =
      (case sg_loop rd wr 4096 (mp_map bytes 100) of (ls, r) \<Rightarrow> (map sg_line [i + 1..<4096] @ ls, r))"
    by (intro Suc.hyps(1)) auto
  moreover have "pages (mp_len (mp_map bytes 100)) = 1" by (simp add: mp_map_def pages_one)
  moreover have "[i..<4096] = i # [i + 1..<4096]" using Suc.hyps(2) by (simp add: upt_conv_Cons)
  ultimately show ?case
    using lt Suc.prems sg_tail [OF _ _ lt, of bytes]
    by (subst sg_loop.simps) (simp add: Let_def sg_hex_0 sg_line_def split: prod.splits)
qed

lemma sg_loop_beyond:
  "pages (mp_len m) * 4096 \<le> i \<Longrightarrow> fst (snd (sg_loop rd wr i m)) = m"
proof (induction "16384 - i" arbitrary: i)
  case 0
  then show ?case by (subst sg_loop.simps) simp
next
  case (Suc k)
  then have "fst (snd (sg_loop rd wr (i + 1) m)) = m" by (intro Suc.hyps(1)) auto
  with Suc.hyps(2) Suc.prems show ?case
    by (subst sg_loop.simps) (auto simp: Let_def split: sum.splits option.splits prod.splits)
qed

text \<open>
  Writing after the end of a mapped file. \<open>lseek.c\<close> survives if and only if one of its modes 1
  and 2 has extended the file before the store, which it then has to 101 bytes without changing
  them; compiled with \<open>NDEBUG\<close> it never does. \<open>sigsegv.c\<close> always reads zeroes up to the end of the
  page the file lies in and leaves the file as it is; it is stopped at the first byte of the next
  page exactly if that page cannot be read or written.
\<close>

theorem page_limits:
  "ml_main (\<lambda>_. True) ndebug [prog, s] =
     (if atoi s = 1 then ''extending before mmap()'' @ nl else if atoi s = 2 then ''extending after mmap()'' @ nl else [], [],
      if \<not> ndebug \<and> (atoi s = 1 \<or> atoi s = 2) then (Some (replicate 100 0 @ [97]), Exited 0)
      else (Some [], Killed Bus_error))
   \<and> (\<exists>ls m end. sg_main (\<lambda>_. True) rd wr = Inr ((''pagesize = 4096 bytes'' @ nl) # map sg_line [4090..<4096] @ ls, m, end)
        \<and> mp_file m = replicate 99 0 @ [97]
        \<and> (\<forall>f. rd 4096 = Inl f \<longrightarrow> ls = [] \<and> end = Killed f)
        \<and> (\<forall>b f. rd 4096 = Inr b \<and> wr 4096 = Some f \<longrightarrow> length ls = 1 \<and> end = Killed f)
        \<and> (\<forall>b. rd 4096 = Inr b \<and> wr 4096 = None \<longrightarrow> 1 \<le> length ls))"
proof (intro conjI)
  have "mp_store (mp_map [] 100) 99 0 = Inl Bus_error"
    by (simp add: mp_store_def mp_fault_def mp_map_def pages_def)
  moreover have "mp_store (mp_map (replicate 100 0 @ [97]) 100) 99 0 = Inr (mp_map (replicate 100 0 @ [97]) 100)"
  proof -
    have "(replicate 100 0 @ [97 :: byte])[99 := 0] = replicate 100 0 @ [97]"
      by (rule list_update_same_conv [THEN iffD2]) (simp_all add: nth_append)
    then show ?thesis by (simp add: mp_store_def mp_fault_def pages_def mp_map_def)
  qed
  moreover have "(mp_map f n)\<lparr>mp_file := g\<rparr> = mp_map g n" "mp_file (mp_map f n) = f" for f g n
    by (simp_all add: mp_map_def)
  ultimately show "ml_main (\<lambda>_. True) ndebug [prog, s] =
     (if atoi s = 1 then ''extending before mmap()'' @ nl else if atoi s = 2 then ''extending after mmap()'' @ nl else [], [],
      if \<not> ndebug \<and> (atoi s = 1 \<or> atoi s = 2) then (Some (replicate 100 0 @ [97]), Exited 0)
      else (Some [], Killed Bus_error))"
    by (simp add: ml_main_def Let_def)
next
  let ?m = "mp_map (replicate 99 0 @ [97]) 100"
  obtain ls m "end" where l: "sg_loop rd wr 4096 ?m = (ls, m, end)" by (cases "sg_loop rd wr 4096 ?m") auto
  have p: "pages (mp_len ?m) = 1" by (simp add: mp_map_def pages_one)
  have "fst (snd (sg_loop rd wr 4096 ?m)) = ?m" by (rule sg_loop_beyond) (simp add: p)
  then have m: "m = ?m" by (simp add: l)
  have "sg_main (\<lambda>_. True) rd wr = Inr ((''pagesize = 4096 bytes'' @ nl) # map sg_line [4090..<4096] @ ls, m, end)"
    using sg_loop_page [of "replicate 99 0 @ [97]" 4090 rd wr] by (simp add: sg_main_def l del: upt.simps)
  moreover have "mp_file m = replicate 99 0 @ [97]" by (simp add: m) (simp add: mp_map_def)
  moreover have "\<forall>f. rd 4096 = Inl f \<longrightarrow> ls = [] \<and> end = Killed f"
    using l p by (subst (asm) sg_loop.simps) auto
  moreover have "\<forall>b f. rd 4096 = Inr b \<and> wr 4096 = Some f \<longrightarrow> length ls = 1 \<and> end = Killed f"
    using l p by (subst (asm) sg_loop.simps) (auto simp: Let_def)
  moreover have "\<forall>b. rd 4096 = Inr b \<and> wr 4096 = None \<longrightarrow> 1 \<le> length ls"
    using l p by (subst (asm) sg_loop.simps) (auto simp: Let_def split: prod.splits)
  ultimately show "\<exists>ls m end. sg_main (\<lambda>_. True) rd wr = Inr ((''pagesize = 4096 bytes'' @ nl) # map sg_line [4090..<4096] @ ls, m, end)
        \<and> mp_file m = replicate 99 0 @ [97]
        \<and> (\<forall>f. rd 4096 = Inl f \<longrightarrow> ls = [] \<and> end = Killed f)
        \<and> (\<forall>b f. rd 4096 = Inr b \<and> wr 4096 = Some f \<longrightarrow> length ls = 1 \<and> end = Killed f)
        \<and> (\<forall>b. rd 4096 = Inr b \<and> wr 4096 = None \<longrightarrow> 1 \<le> length ls)" by blast
qed

theorem page_limits_witness:
  "snd (ml_main (\<lambda>_. True) False [''a'', ''2'']) = ([], Some (replicate 100 0 @ [97]), Exited 0)
   \<and> snd (ml_main (\<lambda>_. True) True [''a'', ''2'']) = ([], Some [], Killed Bus_error)
   \<and> (\<exists>m. sg_main (\<lambda>_. True) (\<lambda>_. Inl Segv) (\<lambda>_. None) =
        Inr ((''pagesize = 4096 bytes'' @ nl) # map sg_line [4090..<4096], m, Killed Segv))"
proof -
  have a: "atoi ''2'' = 2" by code_simp
  from page_limits [of False "''a''" "''2''" "\<lambda>_. Inl Segv" "\<lambda>_. None"]
  obtain ls m "end" where "sg_main (\<lambda>_. True) (\<lambda>_. Inl Segv) (\<lambda>_. None) =
      Inr ((''pagesize = 4096 bytes'' @ nl) # map sg_line [4090..<4096] @ ls, m, end)" "ls = []" "end = Killed Segv"
    by blast
  with page_limits [of False "''a''" "''2''" "\<lambda>_. Inl Segv" "\<lambda>_. None"]
    page_limits [of True "''a''" "''2''" "\<lambda>_. Inl Segv" "\<lambda>_. None"] a
  show ?thesis by simp
qed

section \<open>\<open>close.c\<close>\<close>

text \<open>The characters at the offsets of a mapping, up to a fault.\<close>

fun cl_read :: "mapping \<Rightarrow> nat list \<Rightarrow> string \<times> mem_fault option" where
  "cl_read m [] = ([], None)"
| "cl_read m (i # is) =
     (case mp_load m i of
        Inl f \<Rightarrow> ([], Some f)
      | Inr b \<Rightarrow> (char_of (unat b) # fst (cl_read m is), snd (cl_read m is)))"

text \<open>
  The results of \<open>open\<close>, \<open>mmap\<close> (the address \<open>addr\<close>, when it works) and \<open>unlink\<close> are not looked at;
  the mapping keeps the file after its name is gone. The standard output, the files and the end.
\<close>

definition cl_main ::
  "addr option \<Rightarrow> (addr \<Rightarrow> string) \<Rightarrow> (string \<Rightarrow> byte list option) \<Rightarrow> string list
    \<Rightarrow> string \<times> (string \<Rightarrow> byte list option) \<times> run_end"
where
  "cl_main addr ptr files argv =
     (if length argv \<noteq> 2 then ([], files, Exited 1)
      else let size = 10;
               a = (if files (argv ! 1) = None then None else addr);
               m = (case (files (argv ! 1), a) of (Some bytes, Some _) \<Rightarrow> mp_map bytes size | _ \<Rightarrow> mp_map [] 0);
               out = ptr (case a of None \<Rightarrow> - 1 | Some p \<Rightarrow> p) @ nl @ ''---'' @ nl;
               data = cl_read m [0..<size]
        in case snd data of
             Some f \<Rightarrow> (out @ fst data, files(argv ! 1 := None), Killed f)
           | None \<Rightarrow> (out @ fst data @ nl @ ''---'' @ nl, files(argv ! 1 := None), Exited 0))"

lemma cl_read_ok:
  "\<forall>i \<in> set is. mp_load m i = Inr (b i) \<Longrightarrow> cl_read m is = (map (\<lambda>i. char_of (unat (b i))) is, None)"
  by (induction "is") auto

text \<open>
  The file can be read through the mapping after its name and descriptor are gone: \<open>close.c\<close>
  prints the first ten bytes, padded with zeroes if it is shorter, and leaves no such name. An empty
  file is removed as well, but the program is killed; so it is when the file does not exist, which
  it does not notice before it reads at the address (void *)-1.
\<close>

theorem cl_survives_unlink:
  "(bytes \<noteq> [] \<longrightarrow> cl_main (Some p) ptr (files(name \<mapsto> bytes)) [prog, name] =
      (ptr p @ nl @ ''---'' @ nl @ map (\<lambda>b. char_of (unat b)) (take 10 (bytes @ replicate 10 0)) @ nl @ ''---'' @ nl,
       files(name := None), Exited 0))
   \<and> cl_main (Some p) ptr (files(name \<mapsto> [])) [prog, name] =
      (ptr p @ nl @ ''---'' @ nl, files(name := None), Killed Bus_error)
   \<and> cl_main addr ptr (files(name := None)) [prog, name] =
      (ptr (- 1) @ nl @ ''---'' @ nl, files(name := None), Killed Segv)"
proof (intro conjI impI)
  assume b: "bytes \<noteq> []"
  let ?m = "mp_map bytes 10" and ?b = "bytes @ replicate 10 0"
  have "mp_load ?m i = Inr (?b ! i)" if "i < 10" for i
  proof -
    have "0 < pages (length bytes)" using b pages_ge [of "length bytes"] by (cases "pages (length bytes)") auto
    then have "mp_fault ?m i = None" using that by (simp add: mp_fault_def mp_map_def pages_one)
    then show ?thesis using that by (simp add: mp_load_def mp_map_def nth_append)
  qed
  then have "cl_read ?m [0..<10] = (map (\<lambda>i. char_of (unat (?b ! i))) [0..<10], None)"
    by (intro cl_read_ok) auto
  also have "map (\<lambda>i. char_of (unat (?b ! i))) [0..<10] = map (\<lambda>b. char_of (unat b)) (map (\<lambda>i. ?b ! i) [0..<10])"
    by (simp only: map_map comp_def)
  also have "map (\<lambda>i. ?b ! i) [0..<10] = take 10 ?b" by (rule nth_equalityI) (auto simp: nth_append)
  finally show "cl_main (Some p) ptr (files(name \<mapsto> bytes)) [prog, name] =
      (ptr p @ nl @ ''---'' @ nl @ map (\<lambda>b. char_of (unat b)) (take 10 ?b) @ nl @ ''---'' @ nl,
       files(name := None), Exited 0)"
    by (simp add: cl_main_def Let_def del: upt.simps)
next
  have "[0..<10] = 0 # [1..<10 :: nat]" by (simp add: upt_conv_Cons)
  then have r: "cl_read (mp_map [] n) [0..<10] = ([], Some (if n = 0 then Segv else Bus_error))" for n
    using pages_ge [of n] by (auto simp: mp_load_def mp_fault_def mp_map_def pages_def)
  show "cl_main (Some p) ptr (files(name \<mapsto> [])) [prog, name] =
      (ptr p @ nl @ ''---'' @ nl, files(name := None), Killed Bus_error)"
    using r by (simp add: cl_main_def Let_def del: upt.simps)
  show "cl_main addr ptr (files(name := None)) [prog, name] =
      (ptr (- 1) @ nl @ ''---'' @ nl, files(name := None), Killed Segv)"
    using r by (simp add: cl_main_def Let_def del: upt.simps)
qed

theorem cl_survives_unlink_witness:
  "cl_main (Some 4096) (\<lambda>_. []) (Map.empty(''f'' \<mapsto> [97, 98])) [''a'', ''f''] =
     (nl @ ''---'' @ nl @ ''ab'' @ replicate 8 (char_of (0 :: nat)) @ nl @ ''---'' @ nl, Map.empty, Exited 0)"
proof -
  have "map (\<lambda>b. char_of (unat b)) (take 10 ([97, 98] @ replicate 10 0 :: byte list)) = ''ab'' @ replicate 8 (char_of (0 :: nat))"
    by code_simp
  with cl_survives_unlink [of "[97, 98]" 4096 "\<lambda>_. []" Map.empty "''f''" "''a''" None] show ?thesis
    by (simp only: append_assoc append_Nil) simp
qed


section \<open>\<open>override.c\<close>\<close>

text \<open>
  What the pages of a process hold, the file that all processes share, the lines written, and the
  end of the process that \<open>main()\<close> started in.
\<close>

datatype region = Anonymous | File_data

type_synonym space = "nat \<Rightarrow> region option"
type_synonym ov_proc = "space \<Rightarrow> byte list option \<Rightarrow> string list \<times> space \<times> byte list option \<times> run_end"

definition ov_say :: "string list \<Rightarrow> ov_proc \<Rightarrow> ov_proc" where
  "ov_say ls k sp f = (case k sp f of (out, r) \<Rightarrow> (ls @ out, r))"

text \<open>
  \<open>pmapme()\<close>: the child runs \<open>pmap\<close>, which prints its lines \<open>table\<close>, while the parent waits. If
  \<open>execl\<close> fails (\<^term>\<open>pmap = False\<close>) the child returns from the function and does all that follows
  itself, on a copy of the address space, before the parent goes on.
\<close>

definition pmapme :: "bool \<Rightarrow> (space \<Rightarrow> string list) \<Rightarrow> ov_proc \<Rightarrow> ov_proc" where
  "pmapme pmap table k sp f =
     (if pmap then ov_say (table sp) k sp f
      else case k sp f of (out, sp', f', e) \<Rightarrow> ov_say out k sp f')"

text \<open>\<open>create_file()\<close>.\<close>

definition ov_create_file :: "(string \<Rightarrow> bool) \<Rightarrow> ov_proc \<Rightarrow> ov_proc" where
  "ov_create_file works k sp f =
     (if \<not> works ''open'' then ([''open''], sp, f, Exited 1)
      else if \<not> works ''lseek'' then ([''lseek''], sp, Some [], Exited 1)
      else k sp (Some (replicate 99 0 @ [97])))"

text \<open>The store through \<open>newaddr\<close>, at index 98 of the file.\<close>

definition ov_store :: ov_proc where
  "ov_store sp f =
     (case f of
        None \<Rightarrow> ([], sp, f, Killed Bus_error)
      | Some bytes \<Rightarrow>
          (case mp_store (mp_map bytes 100) 98 0 of
             Inl e \<Rightarrow> ([], sp, f, Killed e)
           | Inr m \<Rightarrow> ([], sp, Some (mp_file m), Exited 0)))"

text \<open>
  \<open>mmap\<close> of the file over or near \<open>addr + off\<close>: a fixed address has to be that of a page; otherwise
  the kernel chooses a place.
\<close>

definition ov_mmap :: "(string \<Rightarrow> bool) \<Rightarrow> (addr \<Rightarrow> addr) \<Rightarrow> bool \<Rightarrow> addr \<Rightarrow> addr option" where
  "ov_mmap works place fixed a =
     (if \<not> works ''mmap'' \<or> fixed \<and> \<not> 4096 dvd unat a then None else Some (if fixed then a else place a))"

definition ov_line :: "(addr \<Rightarrow> string) \<Rightarrow> addr \<Rightarrow> addr \<Rightarrow> string" where
  "ov_line ptr a na = ''file segment: wanted: '' @ ptr a @ '' got: '' @ ptr na @ nl"

definition ov_main ::
  "bool \<Rightarrow> (space \<Rightarrow> string list) \<Rightarrow> (string \<Rightarrow> bool) \<Rightarrow> (addr \<Rightarrow> addr) \<Rightarrow> (addr \<Rightarrow> string) \<Rightarrow> addr \<Rightarrow> string list \<Rightarrow> ov_proc"
where
  "ov_main pmap table works place ptr a argv sp f =
     (if length argv \<noteq> 3 then ([''usage: '' @ hd argv @ '' <0|1> <addr_offset>'' @ nl], sp, f, Exited 1)
      else
        let off = (if 0 < atoi (argv ! 2) then atoi (argv ! 2) else 0);
            store = pmapme pmap table ov_store;
            map_file = (\<lambda>sp f.
              case ov_mmap works place (0 < atoi (argv ! 1)) (a + word_of_int off) of
                None \<Rightarrow> ([''mmap''], sp, f, Exited 1)
              | Some na \<Rightarrow> ov_say [ov_line ptr a na] store (sp(unat na div 4096 \<mapsto> File_data)) f);
            segment = pmapme pmap table (ov_create_file works map_file);
            anon = (\<lambda>sp f. ov_say [''anon segment: '' @ ptr a @ nl] segment (sp(unat a div 4096 \<mapsto> Anonymous)) f)
        in ov_say [''original:'' @ nl] (pmapme pmap table anon) sp f)"

lemma ov_store_file:
  "ov_store sp (Some (replicate 99 0 @ [97])) = ([], sp, Some (replicate 99 0 @ [97]), Exited 0)"
proof -
  have "(replicate 99 0 @ [97 :: byte])[98 := 0] = replicate 99 0 @ [97]"
    by (rule list_update_same_conv [THEN iffD2]) (simp_all add: nth_append)
  then show ?thesis by (simp add: ov_store_def mp_store_def mp_fault_def pages_def mp_map_def)
qed

lemmas ov_defs = ov_main_def ov_mmap_def ov_create_file_def ov_say_def pmapme_def Let_def

lemma page_add:
  assumes "4096 dvd unat (a :: addr)"
  shows "4096 dvd unat (a + word_of_int k) \<longleftrightarrow> 4096 dvd k"
proof -
  have d: "(4096 dvd unat x) = (uint x mod 4096 = 0)" for x :: addr
  proof -
    have "4096 dvd unat x \<longleftrightarrow> (4096 :: int) dvd int (unat x)" using int_dvd_int_iff [of 4096 "unat x"] by simp
    also have "int (unat x) = uint x" by simp
    finally show ?thesis by (simp only: dvd_eq_mod_eq_0)
  qed
  have "uint (word_of_int k :: addr) = k mod 18446744073709551616" by (simp only: uint_word_of_int) simp
  then have b: "uint (word_of_int k :: addr) mod 4096 = k mod 4096" by (simp only:) (simp add: mod_mod_cancel)
  have "uint (a + word_of_int k) = (uint a + uint (word_of_int k :: addr)) mod 18446744073709551616"
    by (simp only: uint_word_ariths) simp
  then have "uint (a + word_of_int k) mod 4096 = (uint a + uint (word_of_int k :: addr)) mod 4096"
    by (simp only:) (simp add: mod_mod_cancel)
  also have "\<dots> = (uint a mod 4096 + k mod 4096) mod 4096" by (simp only: b [symmetric] mod_add_eq)
  also have "\<dots> = k mod 4096" using assms d [of a] by simp
  finally show ?thesis unfolding d by (simp only: dvd_eq_mod_eq_0)
qed

text \<open>
  When \<open>pmap\<close> can be run: a fixed mapping at a multiple of the page size replaces what was
  there, at an offset of 0 the anonymous segment; a fixed one at any other offset fails after the
  file has been created, and the segment is still anonymous; without \<open>MAP_FIXED\<close> the segment stays
  and the file lies where the kernel chose. When \<open>pmap\<close> cannot be run, each of the three forks doubles the
  processes: the anonymous segment is mapped twice and the file four times.
\<close>

theorem ov_override:
  assumes "4096 dvd unat a" "unat (place (a + word_of_int (max 0 (atoi off)))) div 4096 \<noteq> unat a div 4096"
  shows "(case ov_main True table (\<lambda>_. True) place ptr a [prog, fixed, off] (\<lambda>_. None) None of (out, sp, f, e) \<Rightarrow>
      f = Some (replicate 99 0 @ [97])
      \<and> (if 0 < atoi fixed
         then if 4096 dvd max 0 (atoi off)
           then e = Exited 0 \<and> sp (unat (a + word_of_int (max 0 (atoi off))) div 4096) = Some File_data
           else e = Exited 1 \<and> sp (unat a div 4096) = Some Anonymous
         else e = Exited 0 \<and> sp (unat a div 4096) = Some Anonymous
           \<and> sp (unat (place (a + word_of_int (max 0 (atoi off)))) div 4096) = Some File_data))
    \<and> (case ov_main False table (\<lambda>_. True) place ptr a [prog, fixed, off] (\<lambda>_. None) None of (out, r) \<Rightarrow>
      length (filter (\<lambda>l. take 4 l = ''anon'') out) = 2
      \<and> length (filter (\<lambda>l. take 4 l = ''file'') out) =
          (if 0 < atoi fixed \<and> \<not> 4096 dvd max 0 (atoi off) then 0 else 4))"
proof -
  define k fx where "k = max 0 (atoi off)" and "fx = (0 < atoi fixed)"
  define q where "q = (if fx then a + word_of_int k else place (a + word_of_int k))"
  have o: "(if 0 < atoi off then atoi ([prog, fixed, off] ! 2) else 0) = k" by (simp add: k_def)
  have m: "ov_mmap (\<lambda>_. True) place fx (a + word_of_int k) = (if fx \<and> \<not> 4096 dvd k then None else Some q)"
    using page_add [OF assms(1), of k] by (simp add: ov_mmap_def q_def)
  have l: "take 4 (ov_line ptr a na) = ''file''" for na by (simp add: ov_line_def)
  have anon: "unat (place (a + word_of_int k)) div 4096 \<noteq> unat a div 4096" using assms(2) by (simp add: k_def)
  show ?thesis
    unfolding k_def [symmetric] fx_def [symmetric]
    using anon m
    by (cases fx; cases "4096 dvd k")
      (simp_all add: ov_main_def fx_def [symmetric] o ov_store_file ov_create_file_def ov_say_def pmapme_def Let_def l q_def
        split del: if_split)
qed


theorem ov_override_witness:
  "(case ov_main True (\<lambda>_. []) (\<lambda>_. True) (\<lambda>p. 8192) (\<lambda>_. []) 4096 [''a'', ''1'', ''100''] (\<lambda>_. None) None of
      (out, sp, f, e) \<Rightarrow> e = Exited 1 \<and> sp 1 = Some Anonymous)
   \<and> (case ov_main True (\<lambda>_. []) (\<lambda>_. True) (\<lambda>p. 8192) (\<lambda>_. []) 4096 [''a'', ''1'', ''0''] (\<lambda>_. None) None of
      (out, sp, f, e) \<Rightarrow> e = Exited 0 \<and> sp 1 = Some File_data)
   \<and> (case ov_main True (\<lambda>_. []) (\<lambda>_. True) (\<lambda>p. 8192) (\<lambda>_. []) 4096 [''a'', ''0'', ''0''] (\<lambda>_. None) None of
      (out, sp, f, e) \<Rightarrow> e = Exited 0 \<and> sp 1 = Some Anonymous \<and> sp 2 = Some File_data)"
proof -
  have a: "atoi ''0'' = 0" "atoi ''1'' = 1" "atoi ''100'' = 100" by code_simp+
  have d: "\<not> (4096 :: int) dvd 100" by simp
  show ?thesis
    using ov_override [where a = 4096 and place = "\<lambda>p. 8192" and off = "''100''" and table = "\<lambda>_. []" and ptr = "\<lambda>_. []"
        and prog = "''a''" and fixed = "''1''"]
      ov_override [where a = 4096 and place = "\<lambda>p. 8192" and off = "''0''" and table = "\<lambda>_. []" and ptr = "\<lambda>_. []"
        and prog = "''a''" and fixed = "''1''"]
      ov_override [where a = 4096 and place = "\<lambda>p. 8192" and off = "''0''" and table = "\<lambda>_. []" and ptr = "\<lambda>_. []"
        and prog = "''a''" and fixed = "''0''"]
    by (auto simp: a d split: prod.splits)
qed

end
