(* ===== verification/File_Descriptors.thy ===== *)
theory File_Descriptors
  imports Getopt
begin

text \<open>
  The programs of \<open>read/\<close> on files and descriptors: \<open>cat.c\<close>, which copies files to its output,
  \<open>redirect.c\<close> and \<open>redirect2.c\<close>, which arrange the descriptors for a program they execute, and
  \<open>lseek.c\<close>.
\<close>

section \<open>\<open>cat.c\<close>\<close>

text \<open>A file that \<open>open\<close> can open: its content, or one that \<open>read\<close> refuses, as a directory.\<close>

datatype cat_file = Regular string | Unreadable

record cat_state =
  ct_out :: string
  ct_err :: string
  ct_ret :: int

text \<open>
  The results of \<open>read(fd, buf, bufsize)\<close> for a regular file up to the one that is 0, which the
  first is for a size of 0: the pieces the loop writes.
\<close>

function ct_loop :: "nat \<Rightarrow> string \<Rightarrow> string list" where
  "ct_loop bufsize data =
     (let buf = take bufsize data in
        if 0 < length buf then buf # ct_loop bufsize (drop bufsize data) else [])"
  by pat_completeness auto
termination by (relation "measure (\<lambda>(bufsize, data). length data)") (auto simp: Let_def)

declare ct_loop.simps [simp del]

definition ct_warn :: "string \<Rightarrow> string \<Rightarrow> cat_state \<Rightarrow> cat_state" where
  "ct_warn argv0 msg s = s\<lparr>ct_err := ct_err s @ errx_line argv0 msg, ct_ret := 1\<rparr>"

text \<open>
  \<open>do_cat()\<close>; \<open>malloc\<close> says whether a number of bytes can be allocated. Both \<open>malloc\<close> and \<open>read\<close> are given
  \<open>bufsize\<close> as a \<open>size_t\<close>, so that a negative one is huge; \<open>read\<close> fails for counts that are no \<open>ssize_t\<close>. The messages
  of \<open>warn\<close> are shown without the reason the system gives; as the comment says, \<open>write\<close> is taken not to fail.
\<close>

definition c_size_t :: "int \<Rightarrow> int" where
  "c_size_t n = n mod 2 ^ 64"

definition do_cat ::
  "(int \<Rightarrow> bool) \<Rightarrow> (string \<Rightarrow> cat_file option) \<Rightarrow> string \<Rightarrow> int \<Rightarrow> string \<Rightarrow> cat_state \<Rightarrow> string + cat_state"
where
  "do_cat malloc files argv0 bufsize file s =
     (if \<not> malloc (c_size_t bufsize) then Inl ''malloc''
      else Inr (case files file of
          None \<Rightarrow> ct_warn argv0 ''open'' s
        | Some Unreadable \<Rightarrow> ct_warn argv0 ''read'' s
        | Some (Regular data) \<Rightarrow>
            if 2 ^ 63 \<le> c_size_t bufsize then ct_warn argv0 ''read'' s
            else s\<lparr>ct_out := ct_out s @ concat (ct_loop (nat (c_size_t bufsize)) data)\<rparr>))"

fun ct_files ::
  "(int \<Rightarrow> bool) \<Rightarrow> (string \<Rightarrow> cat_file option) \<Rightarrow> string \<Rightarrow> int \<Rightarrow> string list \<Rightarrow> cat_state \<Rightarrow> outcome"
where
  "ct_files malloc files argv0 bufsize [] s = \<lparr>oc_out = ct_out s, oc_err = ct_err s, oc_status = ct_ret s\<rparr>"
| "ct_files malloc files argv0 bufsize (f # fs) s =
     (case do_cat malloc files argv0 bufsize f s of
        Inl msg \<Rightarrow> \<lparr>oc_out = ct_out s, oc_err = ct_err s @ errx_line argv0 msg, oc_status = 1\<rparr>
      | Inr s' \<Rightarrow> ct_files malloc files argv0 bufsize fs s')"

definition ct_usage :: "string \<Rightarrow> outcome" where
  "ct_usage argv0 =
     \<lparr>oc_out = [], oc_err = errx_line argv0 (''usage: '' @ c_basename argv0 @ '' [-b bufsize] <file> [<file2> ...]''),
      oc_status = 1\<rparr>"

fun ct_options :: "int \<Rightarrow> optval list \<Rightarrow> int option" where
  "ct_options bufsize [] = Some bufsize"
| "ct_options bufsize (Opt c v # os) =
     (case v of Some a \<Rightarrow> ct_options (atoi a) os | None \<Rightarrow> ct_options bufsize os)"
| "ct_options bufsize (_ # os) = None"

definition ct_main :: "(int \<Rightarrow> bool) \<Rightarrow> (string \<Rightarrow> cat_file option) \<Rightarrow> string list \<Rightarrow> outcome" where
  "ct_main malloc files argv =
     (if length argv = 1 then ct_usage (hd argv)
      else let scan = getopt_scan (optspec ''b:'') (tl argv) in
        (case ct_options 4096 (fst scan) of
           None \<Rightarrow> ct_usage (hd argv)
         | Some bufsize \<Rightarrow>
             ct_files malloc files (hd argv) bufsize (snd scan) \<lparr>ct_out = [], ct_err = [], ct_ret = 0\<rparr>))"

lemma ct_loop_concat: "concat (ct_loop n data) = (if n = 0 then [] else data)"
proof (induction n data rule: ct_loop.induct)
  case (1 n data)
  then show ?case by (subst ct_loop.simps) (auto simp: Let_def)
qed

text \<open>The copy that is promised: what can be read, in order.\<close>

definition ct_content :: "(string \<Rightarrow> cat_file option) \<Rightarrow> string \<Rightarrow> string" where
  "ct_content files f = (case files f of Some (Regular data) \<Rightarrow> data | _ \<Rightarrow> [])"

definition ct_readable :: "(string \<Rightarrow> cat_file option) \<Rightarrow> string \<Rightarrow> bool" where
  "ct_readable files f \<longleftrightarrow> (case files f of Some (Regular data) \<Rightarrow> True | _ \<Rightarrow> False)"

lemma c_size_t_nonneg: "0 \<le> n \<Longrightarrow> n \<le> INT_MAX \<Longrightarrow> c_size_t n = n"
  and c_size_t_neg: "n < 0 \<Longrightarrow> INT_MIN \<le> n \<Longrightarrow> 2 ^ 63 \<le> c_size_t n"
proof -
  show "0 \<le> n \<Longrightarrow> n \<le> INT_MAX \<Longrightarrow> c_size_t n = n" by (simp add: c_size_t_def)
  assume n: "n < 0" "INT_MIN \<le> n"
  then have "(n + 2 ^ 64) mod 2 ^ 64 = n + 2 ^ 64" by (intro mod_pos_pos_trivial) simp_all
  then have "c_size_t n = n + 2 ^ 64" by (simp add: c_size_t_def)
  with n show "2 ^ 63 \<le> c_size_t n" by simp
qed

lemma ct_files_ok:
  assumes "malloc (c_size_t n)" "0 \<le> n" "n \<le> INT_MAX"
  shows "oc_out (ct_files malloc files argv0 n fs s) =
      ct_out s @ (if n = 0 then [] else concat (map (ct_content files) fs))
    \<and> oc_status (ct_files malloc files argv0 n fs s) = (if \<forall>f \<in> set fs. ct_readable files f then ct_ret s else 1)"
proof (induction fs arbitrary: s)
  case (Cons f fs)
  then show ?case
    using assms
    by (cases "files f"; cases "the (files f)")
      (auto simp: do_cat_def ct_warn_def ct_loop_concat ct_content_def ct_readable_def c_size_t_nonneg)
qed simp

lemma ct_files_huge:
  assumes "malloc (c_size_t n)" "n < 0" "INT_MIN \<le> n"
  shows "oc_out (ct_files malloc files argv0 n fs s) = ct_out s
    \<and> oc_status (ct_files malloc files argv0 n fs s) = (if fs = [] then ct_ret s else 1)"
proof (induction fs arbitrary: s)
  case (Cons f fs)
  then show ?case
    using assms c_size_t_neg [OF assms(2,3)]
    by (cases "files f"; cases "the (files f)") (auto simp: do_cat_def ct_warn_def)
qed simp

lemma ct_files_no_memory:
  assumes "\<not> malloc (c_size_t n)"
  shows "ct_files malloc files argv0 n (f # fs) s =
    \<lparr>oc_out = ct_out s, oc_err = ct_err s @ errx_line argv0 ''malloc'', oc_status = 1\<rparr>"
  using assms by (simp add: do_cat_def)

text \<open>The options \<open>-b\<close> with these values, each attached or not.\<close>

definition ct_sizes :: "(string \<times> bool) list \<Rightarrow> (optval \<times> bool) list" where
  "ct_sizes vs = map (\<lambda>(v, att). (Opt (CHR ''b'') (Some v), att)) vs"

lemma ct_options_sizes:
  "ct_options n (map fst (ct_sizes vs)) = Some (if vs = [] then n else atoi (fst (last vs)))"
  by (induction vs arbitrary: n) (auto simp: ct_sizes_def)

lemma ct_main_words:
  assumes "\<forall>(v, att) \<in> set vs. att \<longrightarrow> v \<noteq> []"
  shows "ct_main malloc files (prog # concat (map opt_words (ct_sizes vs)) @ ''--'' # fs) =
    ct_files malloc files prog (if vs = [] then 4096 else atoi (fst (last vs))) fs \<lparr>ct_out = [], ct_err = [], ct_ret = 0\<rparr>"
proof -
  have "\<forall>x \<in> set (ct_sizes vs). opt_fits (optspec ''b:'') x"
    using assms by (auto simp: ct_sizes_def)
  from getopt_scan_words [OF this, of fs] show ?thesis
    by (simp add: ct_main_def ct_options_sizes Let_def)
qed

text \<open>
  C23: With a buffer of any positive size \<open>cat.c\<close> writes the contents of all files that can be read,
  in order and whole, whatever the size, and exits with 0 exactly if they all can. A size of 0, or
  one that is not a number, writes nothing at all and reports the same status. A negative one asks
  for an enormous buffer: nothing is written and the status is 1, since the buffer is refused or
  else every \<open>read\<close> fails. (Writing to the output is taken to succeed, as the code's comment says.)
\<close>

theorem ct_copies:
  assumes "\<forall>(v, att) \<in> set vs. att \<longrightarrow> v \<noteq> []" "n = (if vs = [] then 4096 else atoi (fst (last vs)))"
    and "run = ct_main malloc files (prog # concat (map opt_words (ct_sizes vs)) @ ''--'' # fs)" "fs \<noteq> []"
  shows "(0 \<le> n \<and> malloc (c_size_t n) \<longrightarrow>
      oc_out run = (if 0 < n then concat (map (ct_content files) fs) else [])
      \<and> (oc_status run = 0 \<longleftrightarrow> (\<forall>f \<in> set fs. ct_readable files f)))
    \<and> (n < 0 \<or> \<not> malloc (c_size_t n) \<longrightarrow> oc_out run = [] \<and> oc_status run = 1)"
proof -
  let ?s = "\<lparr>ct_out = [], ct_err = [], ct_ret = 0\<rparr>"
  have r: "run = ct_files malloc files prog n fs ?s"
    using ct_main_words [OF assms(1), of malloc files prog fs, folded assms(2,3)] .
  have range: "INT_MIN \<le> n" "n \<le> INT_MAX"
    unfolding assms(2) using atoi_range [of "fst (last vs)"] by auto
  obtain f gs where fs: "fs = f # gs" using assms(4) by (cases fs) auto
  show ?thesis
  proof (cases "malloc (c_size_t n)")
    case False
    then show ?thesis unfolding r fs ct_files_no_memory [of malloc n, OF False] by simp
  next
    case True
    show ?thesis
    proof (cases "n < 0")
      case neg: True
      from ct_files_huge [of malloc n, OF True neg range(1)] show ?thesis using neg True assms(4) unfolding r by simp
    next
      case False
      then have "0 \<le> n" by simp
      from ct_files_ok [of malloc n, OF True this range(2)] False True show ?thesis unfolding r by auto
    qed
  qed
qed

theorem ct_copies_witness:
  "oc_out (ct_main (\<lambda>k. k < 2 ^ 40) (Map.empty(''x'' \<mapsto> Regular ''hello'', ''d'' \<mapsto> Unreadable))
      [''cat'', ''-b'', ''2'', ''--'', ''x'', ''d'', ''x'']) = ''hellohello''
   \<and> oc_out (ct_main (\<lambda>k. k < 2 ^ 40) (Map.empty(''x'' \<mapsto> Regular ''hello'')) [''cat'', ''-bzero'', ''--'', ''x'']) = []
   \<and> oc_status (ct_main (\<lambda>k. True) (Map.empty(''x'' \<mapsto> Regular ''hello'')) [''cat'', ''-b-1'', ''--'', ''x'']) = 1"
proof -
  have a: "atoi ''2'' = 2" "atoi ''zero'' = 0" "atoi ''-1'' = - 1" by code_simp+
  show ?thesis
    using ct_copies [of "[(''2'', False)]" 2 _ "\<lambda>k. k < 2 ^ 40" "Map.empty(''x'' \<mapsto> Regular ''hello'', ''d'' \<mapsto> Unreadable)"
        "''cat''" "[''x'', ''d'', ''x'']", OF _ _ refl]
      ct_copies [of "[(''zero'', True)]" 0 _ "\<lambda>k. k < 2 ^ 40" "Map.empty(''x'' \<mapsto> Regular ''hello'')"
        "''cat''" "[''x'']", OF _ _ refl]
      ct_copies [of "[(''-1'', True)]" "- 1" _ "\<lambda>k. True" "Map.empty(''x'' \<mapsto> Regular ''hello'')"
        "''cat''" "[''x'']", OF _ _ refl]
    by (simp add: a ct_sizes_def ct_content_def c_size_t_def)
qed

section \<open>Descriptors\<close>

text \<open>
  An open file: its name, whether it is open for writing, and its offset. Descriptors refer to open
  files by a number, so that \<open>dup\<close> shares them.
\<close>

record open_file =
  of_name :: string
  of_write :: bool
  of_offset :: nat

record fd_state =
  fd_table :: "nat \<Rightarrow> nat option"
  fd_open :: "open_file list"
  fd_files :: "string \<Rightarrow> string option"

text \<open>The lowest free descriptor, of the 1024 a process can have.\<close>

definition fd_lowest :: "fd_state \<Rightarrow> nat option" where
  "fd_lowest s = List.find (\<lambda>i. fd_table s i = None) [0..<1024]"

definition fd_close :: "nat \<Rightarrow> fd_state \<Rightarrow> fd_state" where
  "fd_close fd s = s\<lparr>fd_table := (fd_table s)(fd := None)\<rparr>"

text \<open>\<open>open(name, O_RDONLY)\<close>, and \<open>open(name, O_CREAT | O_TRUNC | O_WRONLY, 0666)\<close> or \<open>creat\<close>.\<close>

definition fd_open_read :: "string \<Rightarrow> fd_state \<Rightarrow> (nat \<times> fd_state) option" where
  "fd_open_read name s =
     (case fd_lowest s of
        Some fd \<Rightarrow>
          if fd_files s name = None then None
          else Some (fd, s\<lparr>fd_table := (fd_table s)(fd \<mapsto> length (fd_open s)),
            fd_open := fd_open s @ [\<lparr>of_name = name, of_write = False, of_offset = 0\<rparr>]\<rparr>)
      | None \<Rightarrow> None)"

definition fd_creat :: "(string \<Rightarrow> bool) \<Rightarrow> string \<Rightarrow> fd_state \<Rightarrow> (nat \<times> fd_state) option" where
  "fd_creat allowed name s =
     (case fd_lowest s of
        Some fd \<Rightarrow>
          if \<not> allowed name then None
          else Some (fd, s\<lparr>fd_table := (fd_table s)(fd \<mapsto> length (fd_open s)),
            fd_open := fd_open s @ [\<lparr>of_name = name, of_write = True, of_offset = 0\<rparr>],
            fd_files := (fd_files s)(name \<mapsto> [])\<rparr>)
      | None \<Rightarrow> None)"

text \<open>\<open>dup\<close>, whose result the programs do not look at.\<close>

definition fd_dup :: "nat \<Rightarrow> fd_state \<Rightarrow> fd_state" where
  "fd_dup fd s =
     (case (fd_table s fd, fd_lowest s) of
        (Some k, Some new) \<Rightarrow> s\<lparr>fd_table := (fd_table s)(new \<mapsto> k)\<rparr>
      | _ \<Rightarrow> s)"

text \<open>
  The programs up to \<open>execl\<close>: how they end before it, or the program and arguments they execute
  with the descriptors and files it finds.
\<close>

definition rd_main :: "(string \<Rightarrow> bool) \<Rightarrow> string list \<Rightarrow> fd_state \<Rightarrow> exit_info + string list \<times> fd_state" where
  "rd_main allowed argv s =
     (if length argv \<noteq> 3 then Inl Abort
      else case fd_open_read (argv ! 1) s of
        None \<Rightarrow> Inl (Exit 1 ''open'')
      | Some (fd, s1) \<Rightarrow>
          let s2 = fd_close 1 (fd_close fd (fd_dup fd (fd_close 0 s1))) in
          (case fd_creat allowed (argv ! 2) s2 of
             None \<Rightarrow> Inl (Exit 1 ''open'')
           | Some (_, s3) \<Rightarrow> Inr ([''cat''], s3)))"

definition rd2_main :: "(string \<Rightarrow> bool) \<Rightarrow> string list \<Rightarrow> fd_state \<Rightarrow> exit_info + string list \<times> fd_state" where
  "rd2_main allowed argv s =
     (if length argv \<noteq> 2 then Inl Abort
      else case fd_creat allowed ''out'' (fd_close 1 s) of
        None \<Rightarrow> Inl (Exit 1 ''creat'')
      | Some (_, s1) \<Rightarrow> Inr ([''cat'', argv ! 1], fd_dup 1 (fd_close 2 s1)))"

lemma fd_lowest_eq:
  assumes "k < 1024" "fd_table s k = None" "\<forall>j < k. fd_table s j \<noteq> None"
  shows "fd_lowest s = Some k"
  unfolding fd_lowest_def find_Some_iff using assms by (intro exI [of _ k]) simp

lemma fd_lowest_free: "fd_lowest s = Some k \<Longrightarrow> fd_table s k = None \<and> k < 1024"
  by (auto simp: fd_lowest_def find_Some_iff)

text \<open>Descriptor \<open>fd\<close> refers to an open file of this name and direction, at its beginning.\<close>

definition fd_is :: "nat \<Rightarrow> string \<Rightarrow> bool \<Rightarrow> fd_state \<Rightarrow> bool" where
  "fd_is fd name wr s \<longleftrightarrow>
     (case fd_table s fd of
        Some k \<Rightarrow> k < length (fd_open s) \<and> fd_open s ! k = \<lparr>of_name = name, of_write = wr, of_offset = 0\<rparr>
      | None \<Rightarrow> False)"

text \<open>
  With the standard descriptors present and one more available, \<open>redirect.c\<close> executes \<open>cat\<close>
  with descriptor 0 reading the first file and descriptor 1 writing the second, truncated one, and
  all others as they were; if both are the same file, it is empty by then. \<open>redirect2.c\<close> gives
  \<open>cat\<close> one open file, the truncated \<open>out\<close>, as both 1 and 2; but with descriptor 0 closed \<open>out\<close>
  becomes its standard input, and it has neither output nor error output.
\<close>

theorem rd_descriptors:
  assumes "\<forall>i \<in> {1, 2}. fd_table s i \<noteq> None" "allowed f2" "allowed ''out''"
  shows "(fd_table s 0 \<noteq> None \<and> fd_files s f1 \<noteq> None \<and> fd_lowest s \<noteq> None \<longrightarrow>
      (case rd_main allowed [prog, f1, f2] s of
         Inl e \<Rightarrow> False
       | Inr (cmd, t) \<Rightarrow>
           cmd = [''cat''] \<and> fd_is 0 f1 False t \<and> fd_is 1 f2 True t \<and> (\<forall>i \<ge> 2. fd_table t i = fd_table s i)
           \<and> fd_files t = (fd_files s)(f2 \<mapsto> [])))
    \<and> (case rd2_main allowed [prog, f1] s of
         Inl e \<Rightarrow> False
       | Inr (cmd, t) \<Rightarrow>
           cmd = [''cat'', f1] \<and> (\<forall>i \<ge> 3. fd_table t i = fd_table s i)
           \<and> (if fd_table s 0 \<noteq> None then fd_is 1 ''out'' True t \<and> fd_table t 2 = fd_table t 1 \<and> fd_table t 0 = fd_table s 0
              else fd_is 0 ''out'' True t \<and> fd_table t 1 = None \<and> fd_table t 2 = None))"
proof (intro conjI impI)
  assume a: "fd_table s 0 \<noteq> None \<and> fd_files s f1 \<noteq> None \<and> fd_lowest s \<noteq> None"
  then obtain fd where fd: "fd_lowest s = Some fd" by blast
  have free: "fd_table s fd = None" using fd_lowest_free [OF fd] by blast
  with a assms(1) have ne: "fd \<noteq> 0" "fd \<noteq> 1" "fd \<noteq> 2" by (cases "fd = 0"; cases "fd = 1"; cases "fd = 2"; simp)+
  define A where "A = length (fd_open s)"
  define s1 where "s1 = s\<lparr>fd_table := (fd_table s)(fd \<mapsto> A),
      fd_open := fd_open s @ [\<lparr>of_name = f1, of_write = False, of_offset = 0\<rparr>]\<rparr>"
  define s2 where "s2 = fd_close 1 (fd_close fd (fd_dup fd (fd_close 0 s1)))"
  have "fd_lowest (fd_close 0 s1) = Some 0" by (rule fd_lowest_eq) (simp_all add: fd_close_def)
  then have t2: "fd_table s2 = (fd_table s)(0 \<mapsto> A, 1 := None)" "fd_files s2 = fd_files s"
    "fd_open s2 = fd_open s @ [\<lparr>of_name = f1, of_write = False, of_offset = 0\<rparr>]"
    using ne free by (auto simp: s2_def s1_def fd_close_def fd_dup_def fun_eq_iff)
  have "fd_lowest s2 = Some 1" by (rule fd_lowest_eq) (simp_all add: t2)
  then have "fd_creat allowed f2 s2 = Some (1, s2\<lparr>fd_table := (fd_table s2)(1 \<mapsto> Suc A),
      fd_open := fd_open s2 @ [\<lparr>of_name = f2, of_write = True, of_offset = 0\<rparr>],
      fd_files := (fd_files s2)(f2 \<mapsto> [])\<rparr>)"
    using assms(2) by (simp add: fd_creat_def t2 A_def)
  moreover have "fd_open_read f1 s = Some (fd, s1)" using a fd by (auto simp: fd_open_read_def s1_def A_def)
  ultimately show "case rd_main allowed [prog, f1, f2] s of
         Inl e \<Rightarrow> False
       | Inr (cmd, t) \<Rightarrow>
           cmd = [''cat''] \<and> fd_is 0 f1 False t \<and> fd_is 1 f2 True t \<and> (\<forall>i \<ge> 2. fd_table t i = fd_table s i)
           \<and> fd_files t = (fd_files s)(f2 \<mapsto> [])"
    by (simp add: rd_main_def s2_def [symmetric, unfolded One_nat_def]) (simp add: t2 fd_is_def A_def nth_append)
next
  define B where "B = \<lparr>of_name = ''out'', of_write = True, of_offset = 0\<rparr>"
  have creat: "fd_creat allowed ''out'' u = Some (k, u\<lparr>fd_table := (fd_table u)(k \<mapsto> length (fd_open u)),
      fd_open := fd_open u @ [B], fd_files := (fd_files u)(''out'' \<mapsto> [])\<rparr>)" if "fd_lowest u = Some k" for u k
    using that assms(3) by (simp add: fd_creat_def B_def)
  show "case rd2_main allowed [prog, f1] s of
         Inl e \<Rightarrow> False
       | Inr (cmd, t) \<Rightarrow>
           cmd = [''cat'', f1] \<and> (\<forall>i \<ge> 3. fd_table t i = fd_table s i)
           \<and> (if fd_table s 0 \<noteq> None then fd_is 1 ''out'' True t \<and> fd_table t 2 = fd_table t 1 \<and> fd_table t 0 = fd_table s 0
              else fd_is 0 ''out'' True t \<and> fd_table t 1 = None \<and> fd_table t 2 = None)"
  proof (cases "fd_table s 0 = None")
    case True
    have "fd_lowest (fd_close 1 s) = Some 0" by (rule fd_lowest_eq) (simp_all add: fd_close_def True)
    from creat [OF this] show ?thesis
      by (simp add: rd2_main_def True) (simp add: fd_close_def fd_dup_def fd_is_def B_def)
  next
    case False
    have l1: "fd_lowest (fd_close 1 s) = Some 1" by (rule fd_lowest_eq) (simp_all add: fd_close_def False)
    define u where "u = fd_close 2 (s\<lparr>fd_table := (fd_table s)(1 \<mapsto> length (fd_open s)), fd_open := fd_open s @ [B],
        fd_files := (fd_files s)(''out'' \<mapsto> [])\<rparr>)"
    have "fd_lowest u = Some 2"
      by (rule fd_lowest_eq) (use False in \<open>auto simp: u_def fd_close_def less_Suc_eq numeral_2_eq_2\<close>)
    moreover have "fd_table u 1 = Some (length (fd_open s))" "fd_open u = fd_open s @ [B]"
      "\<And>i. i \<noteq> 1 \<Longrightarrow> i \<noteq> 2 \<Longrightarrow> fd_table u i = fd_table s i" by (simp_all add: u_def fd_close_def)
    moreover have "rd2_main allowed [prog, f1] s = Inr ([''cat'', f1], fd_dup 1 u)"
      using creat [OF l1] by (simp add: rd2_main_def u_def) (simp add: fd_close_def)
    ultimately show ?thesis using False by (simp add: fd_dup_def fd_is_def B_def)
  qed
qed

text \<open>The descriptors of a shell's child: a terminal on 0, 1 and 2.\<close>

definition fd_shell :: "(string \<Rightarrow> string option) \<Rightarrow> fd_state" where
  "fd_shell files =
     \<lparr>fd_table = (\<lambda>i. if i < 3 then Some 0 else None), fd_open = [\<lparr>of_name = ''tty'', of_write = True, of_offset = 0\<rparr>],
      fd_files = files\<rparr>"

theorem rd_descriptors_witness:
  "(case rd_main (\<lambda>_. True) [''a'', ''f'', ''f''] (fd_shell (Map.empty(''f'' \<mapsto> ''text''))) of
      Inl e \<Rightarrow> False | Inr (cmd, t) \<Rightarrow> fd_is 0 ''f'' False t \<and> fd_is 1 ''f'' True t \<and> fd_files t ''f'' = Some [])
   \<and> (case rd2_main (\<lambda>_. True) [''a'', ''f''] (fd_close 0 (fd_shell Map.empty)) of
      Inl e \<Rightarrow> False | Inr (cmd, t) \<Rightarrow> fd_is 0 ''out'' True t \<and> fd_table t 1 = None \<and> fd_table t 2 = None)"
proof -
  let ?s = "fd_shell (Map.empty(''f'' \<mapsto> ''text''))" and ?u = "fd_close 0 (fd_shell Map.empty)"
  have "fd_lowest ?s = Some 3" by (rule fd_lowest_eq) (simp_all add: fd_shell_def)
  then show ?thesis
    using rd_descriptors [of ?s "\<lambda>_. True" "''f''" "''f''" "''a''"] rd_descriptors [of ?u "\<lambda>_. True" "''f''" "''f''" "''a''"]
    by (auto simp: fd_shell_def fd_close_def split: sum.splits)
qed

section \<open>\<open>lseek.c\<close>\<close>

text \<open>
  The two \<open>lseek\<close> calls and the byte read there: the error message (of \<open>err\<close> or \<open>errx\<close>, the exit
  status is 1), or the line printed. An offset before the beginning is an error, one after the end
  is not.
\<close>

definition ls_main :: "(string \<Rightarrow> cat_file option) \<Rightarrow> string list \<Rightarrow> string + string" where
  "ls_main files argv =
     (if length argv \<noteq> 4
      then Inl (''usage: '' @ c_basename (hd argv) @ '' <file> <position> <offset-from-position>'')
      else case files (argv ! 1) of
        None \<Rightarrow> Inl ''open''
      | Some file \<Rightarrow>
          let pos = atoi (argv ! 2); pos2 = pos + atoi (argv ! 3) in
          if pos < 0 then Inl ''lseek''
          else if pos2 < 0 then Inl ''lseek''
          else (case file of
              Unreadable \<Rightarrow> Inl ''read''
            | Regular data \<Rightarrow>
                if int (length data) \<le> pos2 then Inl ''Tried to read beyond the end of the file.''
                else Inr (''Character read: '' @ [CHR 0x27] @ [data ! nat pos2] @ [CHR 0x27] @ nl)))"

text \<open>The three runs its comment describes, and what decides between them.\<close>

lemma ls_examples:
  assumes "files ''file'' = Some (Regular ''123456'')"
  shows "ls_main files [''a'', ''file'', ''3'', ''0''] = Inr (''Character read: '' @ [CHR 0x27] @ ''4'' @ [CHR 0x27] @ nl)"
    and "ls_main files [''a'', ''file'', ''3'', ''-1''] = Inr (''Character read: '' @ [CHR 0x27] @ ''3'' @ [CHR 0x27] @ nl)"
    and "ls_main files [''a'', ''file'', ''0'', ''-1''] = Inl ''lseek''"
proof -
  have a: "atoi ''3'' = 3" "atoi ''0'' = 0" "atoi ''-1'' = - 1" by code_simp+
  show "ls_main files [''a'', ''file'', ''3'', ''0''] = Inr (''Character read: '' @ [CHR 0x27] @ ''4'' @ [CHR 0x27] @ nl)"
    "ls_main files [''a'', ''file'', ''3'', ''-1''] = Inr (''Character read: '' @ [CHR 0x27] @ ''3'' @ [CHR 0x27] @ nl)"
    "ls_main files [''a'', ''file'', ''0'', ''-1''] = Inl ''lseek''"
    using assms by (simp_all add: ls_main_def a numeral_eq_Suc)
qed

lemma ls_reads:
  assumes "files f = Some (Regular data)"
  shows "(\<exists>line. ls_main files [prog, f, p, o1] = Inr line) \<longleftrightarrow>
    0 \<le> atoi p \<and> 0 \<le> atoi p + atoi o1 \<and> atoi p + atoi o1 < int (length data)"
  using assms by (auto simp: ls_main_def Let_def numeral_eq_Suc)

end
