(* ===== verification/Process_Status.thy ===== *)
theory Process_Status
  imports Prelude
begin

unbundle bit_operations_syntax

text \<open>
  How a process learns what became of its child: \<open>wait/wait.c\<close>, which reports every change of
  state, and \<open>signals/sigqueue.c\<close>, whose child returns the value it got with a signal. The status
  word of \<open>waitpid\<close> is a 32-bit word, taken apart by the macros of \<open><sys/wait.h>\<close>.
\<close>

section \<open>Status words\<close>

datatype change = Exited_with int | Killed_by nat bool | Stopped_by nat | Resumed

text \<open>The word the kernel makes: only the low eight bits of the argument of \<open>exit\<close> are kept.\<close>

fun st_word :: "change \<Rightarrow> 32 word" where
  "st_word (Exited_with c) = push_bit 8 (word_of_int c AND 255)"
| "st_word (Killed_by sig core) = of_nat sig OR (if core then 128 else 0)"
| "st_word (Stopped_by sig) = push_bit 8 (of_nat sig) OR 127"
| "st_word Resumed = 65535"

definition WIFEXITED :: "32 word \<Rightarrow> bool" where
  "WIFEXITED s \<longleftrightarrow> s AND 127 = 0"

definition WEXITSTATUS :: "32 word \<Rightarrow> int" where
  "WEXITSTATUS s = uint (drop_bit 8 (s AND 65280))"

definition WTERMSIG :: "32 word \<Rightarrow> int" where
  "WTERMSIG s = uint (s AND 127)"

text \<open>\<open>((signed char) (((status) & 0x7f) + 1) >> 1) > 0\<close>\<close>

definition WIFSIGNALED :: "32 word \<Rightarrow> bool" where
  "WIFSIGNALED s \<longleftrightarrow> 0 < sint (ucast (s AND 127) + 1 :: 8 word) div 2"

definition WIFSTOPPED :: "32 word \<Rightarrow> bool" where
  "WIFSTOPPED s \<longleftrightarrow> s AND 255 = 127"

definition WIFCONTINUED :: "32 word \<Rightarrow> bool" where
  "WIFCONTINUED s \<longleftrightarrow> s = 65535"

lemmas st_macros = WIFEXITED_def WEXITSTATUS_def WTERMSIG_def WIFSIGNALED_def WIFSTOPPED_def WIFCONTINUED_def

lemma and_mask: "s AND 127 = take_bit 7 s" "s AND 255 = take_bit 8 s" for s :: "32 word"
  by (simp_all add: take_bit_eq_mask mask_eq_decr_exp)

lemma exit_bits: "drop_bit 8 (s AND 65280) = take_bit 8 (drop_bit 8 s)" for s :: "32 word"
proof -
  have m: "(65280 :: 32 word) = push_bit 8 (mask 8)" by (simp add: mask_eq_decr_exp)
  show ?thesis unfolding m by (rule bit_word_eqI) (auto simp: bit_simps)
qed

lemma st_exited: "WIFEXITED (st_word (Exited_with c))" "WEXITSTATUS (st_word (Exited_with c)) = c mod 256"
proof -
  show "WIFEXITED (st_word (Exited_with c))"
    unfolding WIFEXITED_def st_word.simps by (rule bit_word_eqI) (auto simp: and_mask bit_simps)
  have "take_bit 8 (drop_bit 8 (push_bit 8 (take_bit 8 w))) = take_bit 8 w" for w :: "32 word"
    by (rule bit_word_eqI) (auto simp: bit_simps)
  then have "WEXITSTATUS (st_word (Exited_with c)) = uint (take_bit 8 (word_of_int c) :: 32 word)"
    by (simp add: WEXITSTATUS_def exit_bits and_mask)
  also have "\<dots> = take_bit 8 (uint (word_of_int c :: 32 word))" by (simp add: unsigned_take_bit_eq)
  also have "\<dots> = c mod 256" by (simp add: take_bit_eq_mod uint_word_of_int mod_mod_cancel)
  finally show "WEXITSTATUS (st_word (Exited_with c)) = c mod 256" .
qed

lemma sig_bits:
  assumes "sig < 128"
  shows "take_bit 7 (of_nat sig :: 32 word) = of_nat sig" "uint (of_nat sig :: 32 word) = int sig"
  using assms by (simp_all add: take_bit_of_nat take_bit_nat_eq_self unsigned_of_nat)

lemma st_killed_low:
  assumes "sig < 128"
  shows "st_word (Killed_by sig core) AND 127 = of_nat sig"
proof -
  have "take_bit 7 ((w :: 32 word) OR (if core then 128 else 0)) = take_bit 7 w" for w
  proof (rule bit_word_eqI)
    fix n assume "n < LENGTH(32)"
    have "bit (128 :: 32 word) n \<longleftrightarrow> n = 7" if "n < 32"
      using that bit_exp_iff [where 'a = "32 word", of 7 n] by simp
    then show "bit (take_bit 7 (w OR (if core then 128 else 0))) n = bit (take_bit 7 w) n"
      by (auto simp: bit_simps)
  qed
  then show ?thesis using sig_bits [OF assms] by (simp add: and_mask)
qed

lemma sint_small: "- 128 \<le> k \<Longrightarrow> k < 128 \<Longrightarrow> sint (word_of_int k :: 8 word) = k"
  by (simp add: signed_of_int signed_take_bit_int_eq_self)

lemma st_killed:
  assumes "0 < sig" "sig < 127"
  shows "\<not> WIFEXITED (st_word (Killed_by sig core))" "WIFSIGNALED (st_word (Killed_by sig core))"
    "WTERMSIG (st_word (Killed_by sig core)) = int sig"
proof -
  have low: "st_word (Killed_by sig core) AND 127 = of_nat sig" using assms by (intro st_killed_low) simp
  have u: "uint (of_nat sig :: 32 word) = int sig" using assms sig_bits [of sig] by simp
  show "WTERMSIG (st_word (Killed_by sig core)) = int sig" unfolding WTERMSIG_def low u ..
  show "\<not> WIFEXITED (st_word (Killed_by sig core))"
    unfolding WIFEXITED_def low using u assms(1) by auto
  have "(ucast (of_nat sig :: 32 word) + 1 :: 8 word) = word_of_int (int sig + 1)"
    using u by (simp add: ucast_eq)
  moreover have "sint (word_of_int (int sig + 1) :: 8 word) = int sig + 1"
    using assms by (intro sint_small) simp_all
  ultimately have "sint (ucast (of_nat sig :: 32 word) + 1 :: 8 word) = int sig + 1" by (simp only:)
  then show "WIFSIGNALED (st_word (Killed_by sig core))"
    unfolding WIFSIGNALED_def low using assms(1) by simp
qed

lemma st_stopped_low: "st_word (Stopped_by sig) AND 255 = 127" "st_word (Stopped_by sig) AND 127 = 127"
proof -
  have m: "(127 :: 32 word) = mask 7" by (simp add: mask_eq_decr_exp)
  show "st_word (Stopped_by sig) AND 255 = 127" "st_word (Stopped_by sig) AND 127 = 127"
    unfolding and_mask st_word.simps m by (rule bit_word_eqI, auto simp: bit_simps)+
qed

lemma st_stopped:
  assumes "sig < 255"
  shows "\<not> WIFEXITED (st_word (Stopped_by sig))" "\<not> WIFSIGNALED (st_word (Stopped_by sig))"
    "WIFSTOPPED (st_word (Stopped_by sig))" "\<not> WIFCONTINUED (st_word (Stopped_by sig))"
proof -
  note low = st_stopped_low [of sig]
  show "\<not> WIFEXITED (st_word (Stopped_by sig))" unfolding WIFEXITED_def low by simp
  show "\<not> WIFSIGNALED (st_word (Stopped_by sig))" unfolding WIFSIGNALED_def low by simp
  show "WIFSTOPPED (st_word (Stopped_by sig))" unfolding WIFSTOPPED_def low by simp
  show "\<not> WIFCONTINUED (st_word (Stopped_by sig))" unfolding WIFCONTINUED_def using low(1) by auto
qed

lemma st_resumed:
  "\<not> WIFEXITED (st_word Resumed)" "\<not> WIFSIGNALED (st_word Resumed)" "\<not> WIFSTOPPED (st_word Resumed)"
  "WIFCONTINUED (st_word Resumed)"
  by (simp_all add: st_macros)

section \<open>\<open>wait.c\<close>\<close>

text \<open>
  The loop of the parent over the changes \<open>waitpid\<close> reports with its flags: the lines printed, and
  whether the loop has ended.
\<close>

fun wt_loop :: "32 word list \<Rightarrow> string list \<times> bool" where
  "wt_loop [] = ([], False)"
| "wt_loop (s # ss) =
     (if WIFEXITED s then ([''Child called exit with: '' @ show_int (WEXITSTATUS s)], True)
      else if WIFSIGNALED s then ([''Child killed by signal '' @ show_int (WTERMSIG s) @ ''.''], True)
      else ((if WIFSTOPPED s then [''Child stopped.''] else [])
          @ (if WIFCONTINUED s then [''Child continued.''] else []) @ fst (wt_loop ss), snd (wt_loop ss)))"

text \<open>What ought to be said of a change, and which changes are the last.\<close>

fun wt_says :: "change \<Rightarrow> string" where
  "wt_says (Exited_with c) = ''Child called exit with: '' @ show_int (c mod 256)"
| "wt_says (Killed_by sig core) = ''Child killed by signal '' @ show_int (int sig) @ ''.''"
| "wt_says (Stopped_by sig) = ''Child stopped.''"
| "wt_says Resumed = ''Child continued.''"

fun wt_final :: "change \<Rightarrow> bool" where
  "wt_final (Exited_with c) = True"
| "wt_final (Killed_by sig core) = True"
| "wt_final _ = False"

fun wt_valid :: "change \<Rightarrow> bool" where
  "wt_valid (Killed_by sig core) = (0 < sig \<and> sig < 127)"
| "wt_valid (Stopped_by sig) = (0 < sig \<and> sig < 127)"
| "wt_valid _ = True"

text \<open>
  C20: Each change of the child is reported once and as what it was, whatever its exit code, signal
  or core flag: \<open>wait.c\<close> prints one line for each stop and continuation, in order, then one for
  the end, with the exit code modulo 256 or the signal, and stops exactly there; until then it
  goes on waiting.
\<close>

theorem wt_reports:
  assumes "\<forall>c \<in> set (cs @ [e]). wt_valid c" "\<forall>c \<in> set cs. \<not> wt_final c"
  shows "wt_loop (map st_word cs) = (map wt_says cs, False)
    \<and> (wt_final e \<longrightarrow> wt_loop (map st_word (cs @ e # rest)) = (map wt_says (cs @ [e]), True))"
  using assms
proof (induction cs)
  case Nil
  then show ?case by (cases e) (simp_all add: st_exited st_killed del: st_word.simps)
next
  case (Cons c cs)
  then show ?case by (cases c) (simp_all add: st_stopped st_resumed del: st_word.simps)
qed

theorem wt_reports_witness:
  "wt_loop (map st_word [Stopped_by 19, Resumed, Killed_by 9 True, Resumed]) =
     ([''Child stopped.'', ''Child continued.'', ''Child killed by signal 9.''], True)
   \<and> wt_loop (map st_word [Exited_with 256]) = ([''Child called exit with: 0''], True)"
proof -
  have s: "show_int 9 = ''9''" "show_int 0 = ''0''" by code_simp+
  show ?thesis
    using wt_reports [of "[Stopped_by 19, Resumed]" "Killed_by 9 True" "[Resumed]"]
      wt_reports [of "[]" "Exited_with 256" "[]"]
    by (simp add: s del: st_word.simps wt_loop.simps)
qed

text \<open>
  The whole of \<open>wait.c\<close>. \<open>cs\<close> are the changes of the child after \<open>execl\<close>, or before it fails. The child prints into a
  buffer, which \<open>execl\<close> discards unless standard output is a terminal, and the \<open>exit\<close> in \<open>err\<close> writes. The result is
  what the child prints, what the parent prints after its own number, and whether the parent ends.
\<close>

definition wt_child :: "bool \<Rightarrow> bool \<Rightarrow> string list" where
  "wt_child tty exec_ok = (if tty \<or> \<not> exec_ok then [''Child's PID'', ''Child exec'ing 'sleep 30''] else [])"

definition wt_main :: "bool \<Rightarrow> bool \<Rightarrow> bool \<Rightarrow> change list \<Rightarrow> exit_info + string list \<times> string list \<times> bool" where
  "wt_main fork_ok exec_ok tty cs =
     (if \<not> fork_ok then Inl (Exit 1 ''fork'')
      else Inr (wt_child tty exec_ok, wt_loop (map st_word (cs @ (if exec_ok then [] else [Exited_with 1])))))"

text \<open>If \<open>sleep\<close> cannot be executed the parent reports an exit with 1; the messages of the child are lost when it can be
  executed and standard output is a file or pipe.\<close>

theorem wt_exec_fails:
  "wt_main True False tty [] = Inr ([''Child's PID'', ''Child exec'ing 'sleep 30''], [''Child called exit with: 1''], True)
    \<and> wt_main True True False cs = Inr ([], wt_loop (map st_word cs))"
proof -
  have "wt_loop (map st_word [Exited_with 1]) = ([''Child called exit with: 1''], True)" by code_simp
  then show ?thesis by (simp add: wt_main_def wt_child_def)
qed

section \<open>\<open>sigqueue.c\<close>\<close>

text \<open>
  The child sets its handler, waits for the signal and exits; the parent sends it one, which the
  one-second sleep is to delay until the child waits, but nothing guarantees it.
\<close>

datatype sq_child = Q_sigaction | Q_say | Q_pause | Q_print | Q_exit | Q_ended change
datatype sq_parent = P_sleep | P_send | P_wait | P_exited int

record sq_state =
  sq_val :: int
  sq_num :: int
  sq_child :: sq_child
  sq_parent :: sq_parent
  sq_out :: "string list"

text \<open>\<open>main()\<close> before \<open>fork\<close>, which is taken to succeed; the value sent is that of the argument.\<close>

definition sq_main :: "string list \<Rightarrow> exit_info + sq_state" where
  "sq_main argv =
     (if length argv \<noteq> 2 then Inl (Exit 1 ''One small numerical argument required'')
      else Inr \<lparr>sq_val = atoi (argv ! 1), sq_num = 0, sq_child = Q_sigaction, sq_parent = P_sleep, sq_out = []\<rparr>)"

fun sq_child_stmt :: "sq_child \<Rightarrow> sq_state \<Rightarrow> sq_state option" where
  "sq_child_stmt Q_sigaction s = Some (s\<lparr>sq_child := Q_say\<rparr>)"
| "sq_child_stmt Q_say s = Some (s\<lparr>sq_child := Q_pause, sq_out := sq_out s @ [''waiting'']\<rparr>)"
| "sq_child_stmt Q_pause s = None"
| "sq_child_stmt Q_print s =
     Some (s\<lparr>sq_child := Q_exit, sq_out := sq_out s @ [''exiting with received value of '' @ show_int (sq_num s)]\<rparr>)"
| "sq_child_stmt Q_exit s = Some (s\<lparr>sq_child := Q_ended (Exited_with (to_int32 (sq_num s + 1)))\<rparr>)"
| "sq_child_stmt (Q_ended c) s = None"

text \<open>
  The arrival of the signal: without a handler it kills; \<open>handler()\<close> stores the value, and a child
  in \<open>pause\<close> continues.
\<close>

fun sq_deliver :: "sq_child \<Rightarrow> sq_state \<Rightarrow> sq_state" where
  "sq_deliver Q_sigaction s = s\<lparr>sq_child := Q_ended (Killed_by 2 False)\<rparr>"
| "sq_deliver Q_pause s = s\<lparr>sq_num := sq_val s, sq_child := Q_print\<rparr>"
| "sq_deliver (Q_ended c) s = s"
| "sq_deliver _ s = s\<lparr>sq_num := sq_val s\<rparr>"

fun sq_parent_stmt :: "sq_parent \<Rightarrow> sq_state \<Rightarrow> sq_state option" where
  "sq_parent_stmt P_sleep s = Some (s\<lparr>sq_parent := P_send, sq_out := sq_out s @ [''sleeping 1 second'']\<rparr>)"
| "sq_parent_stmt P_send s =
     Some ((sq_deliver (sq_child s) s)\<lparr>sq_parent := P_wait, sq_out := sq_out s @ [''sending SIGINT signal'']\<rparr>)"
| "sq_parent_stmt P_wait s =
     (case sq_child s of
        Q_ended c \<Rightarrow> Some (s\<lparr>sq_parent := P_exited (WEXITSTATUS (st_word c))\<rparr>)
      | _ \<Rightarrow> None)"
| "sq_parent_stmt (P_exited e) s = None"

text \<open>\<^term>\<open>True\<close> is a step of the child.\<close>

definition sq_step :: "bool \<Rightarrow> sq_state \<Rightarrow> sq_state option" where
  "sq_step child s = (if child then sq_child_stmt (sq_child s) s else sq_parent_stmt (sq_parent s) s)"

definition sq_start :: "int \<Rightarrow> sq_state" where
  "sq_start v = \<lparr>sq_val = v, sq_num = 0, sq_child = Q_sigaction, sq_parent = P_sleep, sq_out = []\<rparr>"

fun sq_unsent :: "sq_parent \<Rightarrow> bool" where
  "sq_unsent P_sleep = True"
| "sq_unsent P_send = True"
| "sq_unsent _ = False"

text \<open>The child has been woken by the signal; it has been killed; it has not got it yet or has missed it.\<close>

fun sq_woken :: "sq_child \<Rightarrow> bool" where
  "sq_woken Q_print = True"
| "sq_woken Q_exit = True"
| "sq_woken (Q_ended (Exited_with c)) = True"
| "sq_woken _ = False"

fun sq_end_ok :: "int \<Rightarrow> sq_child \<Rightarrow> bool" where
  "sq_end_ok v (Q_ended c) = (c = Killed_by 2 False \<or> c = Exited_with (to_int32 (v + 1)))"
| "sq_end_ok v _ = True"

fun sq_exit_ok :: "sq_child \<Rightarrow> sq_parent \<Rightarrow> bool" where
  "sq_exit_ok pc (P_exited e) = (\<exists>c. pc = Q_ended c \<and> e = WEXITSTATUS (st_word c))"
| "sq_exit_ok pc _ = True"

fun sq_before :: "sq_child \<Rightarrow> bool" where
  "sq_before Q_sigaction = True"
| "sq_before Q_say = True"
| "sq_before Q_pause = True"
| "sq_before _ = False"

definition sq_inv :: "int \<Rightarrow> sq_state \<Rightarrow> bool" where
  "sq_inv v s \<longleftrightarrow>
     sq_val s = v
     \<and> (sq_unsent (sq_parent s) \<longrightarrow> sq_before (sq_child s))
     \<and> (sq_woken (sq_child s) \<longrightarrow> sq_num s = v)
     \<and> sq_end_ok v (sq_child s)
     \<and> sq_exit_ok (sq_child s) (sq_parent s)"

lemma sq_exit_wait: "sq_exit_ok pc p \<Longrightarrow> (\<And>c. pc \<noteq> Q_ended c) \<Longrightarrow> sq_exit_ok pc' p"
  by (cases p) auto

lemma sq_inv_step:
  assumes inv: "sq_inv v s" and st: "sq_step e s = Some t"
  shows "sq_inv v t"
proof (cases e)
  case True
  then have "Some t = sq_child_stmt (sq_child s) s" using st by (simp add: sq_step_def)
  with inv sq_exit_wait [of "sq_child s" "sq_parent s"] show ?thesis
    unfolding sq_inv_def by (cases "sq_child s"; simp)
next
  case False
  then have "Some t = sq_parent_stmt (sq_parent s) s" using st by (simp add: sq_step_def)
  with inv show ?thesis
    unfolding sq_inv_def by (cases "sq_parent s"; cases "sq_child s"; simp)
qed

interpretation sq: step_invariant sq_step "sq_start v" "sq_inv v" for v
proof unfold_locales
  show "sq_inv v (sq_start v)" by (simp add: sq_inv_def sq_start_def)
qed (rule sq_inv_step)

lemma killed_exitstatus: "WEXITSTATUS (st_word (Killed_by 2 False)) = 0"
  by (simp add: WEXITSTATUS_def)

text \<open>
  The parent exits with one more than its argument, modulo 256, if the signal meets the child
  waiting. But it may come too early: before the handler is set it kills the child, and the parent,
  which does not look how the child ended, exits with 0; between setting the handler and \<open>pause\<close>
  it is handled and lost, and both processes wait for ever. These are all the outcomes, and all occur.
\<close>

theorem sq_outcomes:
  assumes "sq_main [prog, n] = Inr s0"
  shows "(reach sq_step s0 s \<and> sq_parent s = P_exited e \<longrightarrow>
      (sq_child s = Q_ended (Killed_by 2 False) \<and> e = 0)
      \<or> (sq_child s = Q_ended (Exited_with (to_int32 (atoi n + 1))) \<and> sq_num s = atoi n \<and> e = (atoi n + 1) mod 256))
    \<and> (\<exists>t. reach sq_step s0 t \<and> sq_parent t = P_exited ((atoi n + 1) mod 256))
    \<and> (\<exists>t. reach sq_step s0 t \<and> sq_parent t = P_exited 0 \<and> sq_child t = Q_ended (Killed_by 2 False))
    \<and> (\<exists>t. reach sq_step s0 t \<and> sq_num t = atoi n \<and> sq_child t = Q_pause \<and> (\<forall>b. sq_step b t = None))"
proof -
  have s0: "s0 = sq_start (atoi n)" using assms by (simp add: sq_main_def sq_start_def numeral_2_eq_2)
  have m: "to_int32 x mod 256 = x mod 256" for x
  proof -
    have "to_int32 x = x - 4294967296 * ((x + 2147483648) div 4294967296)"
      unfolding to_int32_def by (simp add: minus_div_mult_eq_mod [symmetric])
    also have "\<dots> = x + (- 16777216 * ((x + 2147483648) div 4294967296)) * 256" by simp
    finally show ?thesis by (simp only: mod_mult_self1)
  qed
  have x: "WEXITSTATUS (st_word (Exited_with (to_int32 (atoi n + 1)))) = (atoi n + 1) mod 256"
    unfolding st_exited(2) m ..
  show ?thesis
  proof (intro conjI impI)
    assume "reach sq_step s0 s \<and> sq_parent s = P_exited e"
    then have r: "reach sq_step (sq_start (atoi n)) s" and p: "sq_parent s = P_exited e" using s0 by auto
    from sq.reach_inv [OF r] p obtain c where c: "sq_child s = Q_ended c" "e = WEXITSTATUS (st_word c)"
      "c = Killed_by 2 False \<or> c = Exited_with (to_int32 (atoi n + 1))" "sq_woken (Q_ended c) \<longrightarrow> sq_num s = atoi n"
      by (auto simp: sq_inv_def simp del: st_word.simps)
    from c(3) show "(sq_child s = Q_ended (Killed_by 2 False) \<and> e = 0)
      \<or> (sq_child s = Q_ended (Exited_with (to_int32 (atoi n + 1))) \<and> sq_num s = atoi n \<and> e = (atoi n + 1) mod 256)"
    proof
      assume "c = Killed_by 2 False"
      with c killed_exitstatus show ?thesis by (simp del: st_word.simps)
    next
      assume "c = Exited_with (to_int32 (atoi n + 1))"
      with c x show ?thesis by (simp del: st_word.simps)
    qed
  next
    have "runs sq_step [True, True, False, False, True, True, False] s0 (\<lambda>t. sq_parent t = P_exited ((atoi n + 1) mod 256))"
      using x by (simp add: sq_step_def s0 sq_start_def del: st_word.simps)
    from runs_reach [OF this] show "\<exists>t. reach sq_step s0 t \<and> sq_parent t = P_exited ((atoi n + 1) mod 256)" .
  next
    have "runs sq_step [False, False, False] s0 (\<lambda>t. sq_parent t = P_exited 0 \<and> sq_child t = Q_ended (Killed_by 2 False))"
      using killed_exitstatus by (simp add: sq_step_def s0 sq_start_def del: st_word.simps)
    from runs_reach [OF this]
    show "\<exists>t. reach sq_step s0 t \<and> sq_parent t = P_exited 0 \<and> sq_child t = Q_ended (Killed_by 2 False)" .
  next
    have "runs sq_step [True, False, False, True] s0
        (\<lambda>t. sq_num t = atoi n \<and> sq_child t = Q_pause \<and> sq_parent t = P_wait)"
      by (simp add: sq_step_def s0 sq_start_def)
    from runs_reach [OF this] obtain t where t: "reach sq_step s0 t" "sq_num t = atoi n" "sq_child t = Q_pause"
      "sq_parent t = P_wait" by blast
    then have "sq_step b t = None" for b by (simp add: sq_step_def)
    with t show "\<exists>t. reach sq_step s0 t \<and> sq_num t = atoi n \<and> sq_child t = Q_pause \<and> (\<forall>b. sq_step b t = None)"
      by blast
  qed
qed

theorem sq_outcomes_witness:
  "\<exists>t. reach sq_step (sq_start 300) t \<and> sq_parent t = P_exited 45"
proof -
  have a: "atoi ''300'' = 300" by code_simp
  have "sq_main [''a'', ''300''] = Inr (sq_start 300)" by (simp add: sq_main_def sq_start_def a numeral_2_eq_2)
  from sq_outcomes [OF this] a show ?thesis by simp
qed

end
