(* ===== verification/Resolver.thy ===== *)
theory Resolver
  imports Getopt
begin

text \<open>
  The programs of \<open>resolving/\<close> that walk the list \<open>getaddrinfo\<close> returns (\<open>getaddrinfo.c\<close>,
  \<open>getnameinfo.c\<close>, \<open>hname-resolver.c\<close>, \<open>passive.c\<close>). The resolver and the conversions are arguments.
\<close>

section \<open>Walking a list of addresses\<close>

record addrinfo =
  ai_family :: int
  ai_addr :: string
  ai_protocol :: int

abbreviation AF_INET :: int where "AF_INET \<equiv> 2"
abbreviation AF_INET6 :: int where "AF_INET6 \<equiv> 10"

text \<open>
  One round of such a loop skips an address, prints a line, or ends the program with a message
  (the calls of \<open>err\<close> and \<open>errx\<close>, all with status 1).
\<close>

datatype round = Skip | Line string | Fail string

fun walk :: "(addrinfo \<Rightarrow> round) \<Rightarrow> addrinfo list \<Rightarrow> string list \<times> string option" where
  "walk f [] = ([], None)"
| "walk f (a # as) =
     (case f a of
        Skip \<Rightarrow> walk f as
      | Line l \<Rightarrow> (l # fst (walk f as), snd (walk f as))
      | Fail msg \<Rightarrow> ([], Some msg))"

text \<open>What the whole program leaves: lines, error message, status.\<close>

record walked =
  wk_out :: "string list"
  wk_err :: "string option"
  wk_status :: int

definition wk_end :: "string list \<times> string option \<Rightarrow> walked" where
  "wk_end r = \<lparr>wk_out = fst r, wk_err = snd r, wk_status = (if snd r = None then 0 else 1)\<rparr>"

definition wk_fail :: "string \<Rightarrow> walked" where
  "wk_fail msg = \<lparr>wk_out = [], wk_err = Some msg, wk_status = 1\<rparr>"

definition quoted :: "string \<Rightarrow> string" where
  "quoted s = [CHR 0x27] @ s @ [CHR 0x27]"

section \<open>\<open>getaddrinfo.c\<close>\<close>

definition gi_round ::
  "(int \<Rightarrow> string) \<Rightarrow> (addrinfo \<Rightarrow> int + string \<times> string) \<Rightarrow> (int \<Rightarrow> string option) \<Rightarrow> addrinfo \<Rightarrow> round"
where
  "gi_round gai nameinfo proto a =
     (if ai_family a \<noteq> AF_INET \<and> ai_family a \<noteq> AF_INET6 then Skip
      else case nameinfo a of
        Inl e \<Rightarrow> Fail (gai e)
      | Inr (ip, port) \<Rightarrow>
          (case proto (ai_protocol a) of
             None \<Rightarrow> Fail (''cannot get protocol entry for '' @ show_int (ai_protocol a))
           | Some p \<Rightarrow> Line (''address '' @ quoted ip @ '' port '' @ quoted port @ '' protocol '' @ quoted p)))"

definition gi_main ::
  "(int \<Rightarrow> string) \<Rightarrow> (string \<Rightarrow> string \<Rightarrow> int + addrinfo list) \<Rightarrow> (addrinfo \<Rightarrow> int + string \<times> string)
    \<Rightarrow> (int \<Rightarrow> string option) \<Rightarrow> string list \<Rightarrow> walked"
where
  "gi_main gai resolve nameinfo proto argv =
     (if length argv \<noteq> 3 then wk_fail (''usage: '' @ c_basename (hd argv) @ '' <hostname> <service>'')
      else case resolve (argv ! 1) (argv ! 2) of
        Inl e \<Rightarrow> wk_fail (gai e)
      | Inr as \<Rightarrow> wk_end (walk (gi_round gai nameinfo proto) as))"

section \<open>\<open>getnameinfo.c\<close>\<close>

definition gn_round ::
  "(int \<Rightarrow> string) \<Rightarrow> (addrinfo \<Rightarrow> int + string) \<Rightarrow> (addrinfo \<Rightarrow> int + string) \<Rightarrow> addrinfo \<Rightarrow> round"
where
  "gn_round gai numeric name a =
     (case numeric a of
        Inl e \<Rightarrow> Fail (''A: '' @ gai e)
      | Inr num \<Rightarrow>
          (case name a of
             Inl e \<Rightarrow> Fail (''B: '' @ gai e)
           | Inr host \<Rightarrow> Line (''host '' @ num @ '' resolves to '' @ host)))"

definition gn_main ::
  "(int \<Rightarrow> string) \<Rightarrow> (string \<Rightarrow> int + addrinfo list) \<Rightarrow> (addrinfo \<Rightarrow> int + string) \<Rightarrow> (addrinfo \<Rightarrow> int + string)
    \<Rightarrow> string list \<Rightarrow> walked"
where
  "gn_main gai resolve numeric name argv =
     (if length argv \<noteq> 2 then wk_fail (''usage: '' @ c_basename (hd argv) @ '' <hostname>'')
      else case resolve (argv ! 1) of
        Inl e \<Rightarrow> wk_fail (gai e)
      | Inr as \<Rightarrow> wk_end (walk (gn_round gai numeric name) as))"

section \<open>\<open>hname-resolver.c\<close>\<close>

text \<open>An IPv6 address may be given in brackets; what follows the closing one is dropped.\<close>

definition hr_name :: "string \<Rightarrow> string option" where
  "hr_name s =
     (if s \<noteq> [] \<and> hd s = CHR ''['' then
        if CHR '']'' \<in> set (tl s) then Some (takeWhile (\<lambda>c. c \<noteq> CHR '']'') (tl s)) else None
      else Some s)"

definition hr_round :: "(addrinfo \<Rightarrow> string option) \<Rightarrow> addrinfo \<Rightarrow> round" where
  "hr_round ntop a =
     (if ai_family a \<noteq> AF_INET \<and> ai_family a \<noteq> AF_INET6 then Skip
      else case ntop a of None \<Rightarrow> Fail ''inet_ntop'' | Some dst \<Rightarrow> Line dst)"

definition hr_main ::
  "(int \<Rightarrow> string) \<Rightarrow> (string \<Rightarrow> int + addrinfo list) \<Rightarrow> (addrinfo \<Rightarrow> string option) \<Rightarrow> string list \<Rightarrow> walked"
where
  "hr_main gai resolve ntop argv =
     (if length argv \<noteq> 2 then wk_fail (''usage: '' @ c_basename (hd argv) @ '' <hostname>'')
      else case hr_name (argv ! 1) of
        None \<Rightarrow> wk_fail (''missing '' @ quoted '']'')
      | Some s \<Rightarrow>
          (case resolve s of
             Inl e \<Rightarrow> wk_fail (gai e)
           | Inr as \<Rightarrow> wk_end (walk (hr_round ntop) as)))"

section \<open>What the three print\<close>

fun fails :: "round \<Rightarrow> bool" where
  "fails (Fail msg) = True"
| "fails _ = False"

fun line_of :: "round \<Rightarrow> string list" where
  "line_of (Line l) = [l]"
| "line_of _ = []"

lemma walk_spec:
  "walk f as = (concat (map (line_of \<circ> f) (takeWhile (\<lambda>a. \<not> fails (f a)) as)),
     case dropWhile (\<lambda>a. \<not> fails (f a)) as of [] \<Rightarrow> None | a # _ \<Rightarrow> (case f a of Fail msg \<Rightarrow> Some msg | _ \<Rightarrow> None))"
  by (induction as) (auto split: round.splits)

lemma walk_status: "snd (walk f as) = None \<longleftrightarrow> (\<forall>a \<in> set as. \<not> fails (f a))"
  by (induction as) (auto split: round.splits)

lemma hr_name_brackets: "CHR '']'' \<notin> set s \<Longrightarrow> hr_name (CHR ''['' # s @ CHR '']'' # rest) = Some s"
  by (simp add: hr_name_def takeWhile_append)

definition internet :: "addrinfo \<Rightarrow> bool" where
  "internet a \<longleftrightarrow> ai_family a = AF_INET \<or> ai_family a = AF_INET6"

lemma fails_gi:
  "\<not> fails (gi_round gai ni proto a) \<longleftrightarrow>
     (internet a \<longrightarrow> (\<exists>x. ni a = Inr x) \<and> proto (ai_protocol a) \<noteq> None)"
  by (cases "ni a") (auto simp: gi_round_def internet_def split: option.splits)

lemma fails_hr: "fails (hr_round ntop a) \<longleftrightarrow> internet a \<and> ntop a = None"
  by (auto simp: hr_round_def internet_def split: option.splits)

lemma line_hr: "line_of (hr_round ntop a) = (if internet a then (case ntop a of None \<Rightarrow> [] | Some d \<Rightarrow> [d]) else [])"
  by (auto simp: hr_round_def internet_def split: option.splits)

lemma walk_all_ok: "\<forall>a \<in> set as. \<not> fails (f a) \<Longrightarrow> walk f as = (concat (map (line_of \<circ> f) as), None)"
  by (induction as) (auto split: round.splits)

lemma walk_append:
  "\<forall>a \<in> set as. \<not> fails (f a) \<Longrightarrow>
     walk f (as @ bs) = (concat (map (line_of \<circ> f) as) @ fst (walk f bs), snd (walk f bs))"
  by (induction as) (auto split: round.splits)

lemma hr_lines:
  "\<forall>a \<in> set as. internet a \<longrightarrow> ntop a \<noteq> None \<Longrightarrow>
     concat (map (line_of \<circ> hr_round ntop) as) = map (the \<circ> ntop) (filter internet as)"
  by (induction as) (auto simp: line_hr)

lemma gn_lines:
  "\<forall>a \<in> set as. numeric a = Inr (num a) \<and> name a = Inr (host a) \<Longrightarrow>
     concat (map (line_of \<circ> gn_round gai numeric name) as) = map (\<lambda>a. ''host '' @ num a @ '' resolves to '' @ host a) as
     \<and> (\<forall>a \<in> set as. \<not> fails (gn_round gai numeric name a))"
  by (induction as) (auto simp: gn_round_def)

text \<open>
  The lists are walked in order and up to the first address a library call fails for.
  \<open>getaddrinfo.c\<close> succeeds exactly if every Internet address has numeric strings and a protocol
  entry, other families being passed over; \<open>hname-resolver.c\<close> prints, for a name in brackets as
  for the plain one, just the converted Internet addresses; \<open>getnameinfo.c\<close>, which asks about any
  family, prints the lines of the addresses before the first it cannot get a number for, and
  exits with 1.
\<close>

theorem rs_lists:
  assumes "resolve host serv = Inr as" "lookup name = Inr as" "CHR '']'' \<notin> set name"
    and "as = pre @ bad # post" "\<forall>a \<in> set pre. numeric a = Inr (num a) \<and> rev_name a = Inr (hname a)"
    and "numeric bad = Inl e"
  shows "(wk_status (gi_main gai resolve ni proto [prog, host, serv]) = 0 \<longleftrightarrow>
      (\<forall>a \<in> set as. internet a \<longrightarrow> (\<exists>x. ni a = Inr x) \<and> proto (ai_protocol a) \<noteq> None))
    \<and> ((\<forall>a \<in> set as. internet a \<longrightarrow> ntop a \<noteq> None) \<longrightarrow>
      hr_main gai lookup ntop [prog, CHR ''['' # name @ '']''] =
        \<lparr>wk_out = map (the \<circ> ntop) (filter internet as), wk_err = None, wk_status = 0\<rparr>
      \<and> (hd name \<noteq> CHR ''['' \<longrightarrow>
        hr_main gai lookup ntop [prog, name] = hr_main gai lookup ntop [prog, CHR ''['' # name @ '']'']))
    \<and> gn_main gai lookup numeric rev_name [prog, name] =
        \<lparr>wk_out = map (\<lambda>a. ''host '' @ num a @ '' resolves to '' @ hname a) pre, wk_err = Some (''A: '' @ gai e),
         wk_status = 1\<rparr>"
proof (intro conjI impI)
  show "wk_status (gi_main gai resolve ni proto [prog, host, serv]) = 0 \<longleftrightarrow>
      (\<forall>a \<in> set as. internet a \<longrightarrow> (\<exists>x. ni a = Inr x) \<and> proto (ai_protocol a) \<noteq> None)"
    using walk_status [of "gi_round gai ni proto" as] assms(1)
    by (simp add: gi_main_def wk_end_def fails_gi)
  assume ok: "\<forall>a \<in> set as. internet a \<longrightarrow> ntop a \<noteq> None"
  then have w: "walk (hr_round ntop) as = (map (the \<circ> ntop) (filter internet as), None)"
    using walk_all_ok [of as "hr_round ntop"] hr_lines [of as ntop] by (simp add: fails_hr)
  show b: "hr_main gai lookup ntop [prog, CHR ''['' # name @ '']''] =
        \<lparr>wk_out = map (the \<circ> ntop) (filter internet as), wk_err = None, wk_status = 0\<rparr>"
    using hr_name_brackets [OF assms(3), of "[]"] w assms(2) by (simp add: hr_main_def wk_end_def)
  assume "hd name \<noteq> CHR ''[''"
  then have "hr_name name = Some name" by (simp add: hr_name_def)
  then show "hr_main gai lookup ntop [prog, name] = hr_main gai lookup ntop [prog, CHR ''['' # name @ '']'']"
    unfolding b using w assms(2) by (simp add: hr_main_def wk_end_def)
next
  have g: "concat (map (line_of \<circ> gn_round gai numeric rev_name) pre) = map (\<lambda>a. ''host '' @ num a @ '' resolves to '' @ hname a) pre"
    "\<forall>a \<in> set pre. \<not> fails (gn_round gai numeric rev_name a)"
    using gn_lines [OF assms(5), of gai] by blast+
  have "walk (gn_round gai numeric rev_name) (bad # post) = ([], Some (''A: '' @ gai e))"
    using assms(6) by (simp add: gn_round_def)
  with walk_append [OF g(2), of "bad # post"] g(1)
  have "walk (gn_round gai numeric rev_name) as =
      (map (\<lambda>a. ''host '' @ num a @ '' resolves to '' @ hname a) pre, Some (''A: '' @ gai e))"
    unfolding assms(4) by simp
  then show "gn_main gai lookup numeric rev_name [prog, name] =
        \<lparr>wk_out = map (\<lambda>a. ''host '' @ num a @ '' resolves to '' @ hname a) pre, wk_err = Some (''A: '' @ gai e),
         wk_status = 1\<rparr>"
    using assms(2) by (simp add: gn_main_def wk_end_def)
qed

definition rs_example :: "addrinfo list" where
  "rs_example =
     [\<lparr>ai_family = AF_INET6, ai_addr = ''::1'', ai_protocol = 6\<rparr>, \<lparr>ai_family = 1, ai_addr = ''/sock'', ai_protocol = 0\<rparr>]"

theorem rs_lists_witness:
  "hr_main (\<lambda>_. []) (\<lambda>_. Inr rs_example) (\<lambda>a. Some (ai_addr a)) [''a'', ''[h]''] =
     \<lparr>wk_out = [''::1''], wk_err = None, wk_status = 0\<rparr>
   \<and> wk_status (gi_main (\<lambda>_. []) (\<lambda>h s. Inr rs_example) (\<lambda>a. Inr (ai_addr a, ''80''))
        (\<lambda>p. if p = 6 then Some ''tcp'' else None) [''a'', ''h'', ''http'']) = 0
   \<and> wk_status (gn_main (\<lambda>_. []) (\<lambda>_. Inr rs_example) (\<lambda>a. if ai_family a = 1 then Inl 5 else Inr (ai_addr a))
        (\<lambda>a. Inr ''localhost'') [''a'', ''h'']) = 1"
  using rs_lists [where resolve = "\<lambda>h s. Inr rs_example" and host = "''h''" and serv = "''http''" and as = rs_example
      and lookup = "\<lambda>_. Inr rs_example" and name = "''h''" and pre = "[hd rs_example]" and bad = "rs_example ! 1"
      and post = "[]" and numeric = "\<lambda>a. if ai_family a = 1 then Inl 5 else Inr (ai_addr a)"
      and rev_name = "\<lambda>a. Inr ''localhost''" and num = ai_addr and hname = "\<lambda>_. ''localhost''" and e = 5
      and gai = "\<lambda>_. []" and ni = "\<lambda>a. Inr (ai_addr a, ''80'')" and proto = "\<lambda>p. if p = 6 then Some ''tcp'' else None"
      and prog = "''a''" and ntop = "\<lambda>a. Some (ai_addr a)"]
  by (simp add: rs_example_def internet_def)

section \<open>\<open>passive.c\<close>\<close>

text \<open>
  For each address the results of \<open>socket\<close> (a descriptor) and \<open>bind\<close>: the lines printed and the
  sockets left open. A socket that cannot be bound is not closed.
\<close>

fun pv_loop :: "(int \<times> nat option \<times> bool) list \<Rightarrow> string list \<times> nat list" where
  "pv_loop [] = ([], [])"
| "pv_loop ((af, None, b) # as) = (''socket'' # fst (pv_loop as), snd (pv_loop as))"
| "pv_loop ((af, Some s, b) # as) =
     (if b then ((''got successful bind for AF '' @ show_int af) # fst (pv_loop as), snd (pv_loop as))
      else (''bind'' # fst (pv_loop as), s # snd (pv_loop as)))"

text \<open>
  In memory the pointers of \<open>argv\<close> are followed by NULL, the environment, and NULL. With \<open>-P\<close> the
  program moves \<open>argv\<close> by one without looking whether anything follows. \<open>resolve\<close> gets the host
  name, the service and whether the passive flag is set.
\<close>

definition pv_memory :: "string list \<Rightarrow> string list \<Rightarrow> string option list" where
  "pv_memory argv env = map Some argv @ [None] @ map Some env @ [None]"

definition pv_main ::
  "(string option \<Rightarrow> string option \<Rightarrow> bool \<Rightarrow> string + (int \<times> nat option \<times> bool) list)
    \<Rightarrow> string list \<Rightarrow> string list \<Rightarrow> (string + nat list) \<times> string list"
where
  "pv_main resolve env argv =
     (if length argv < 2 then (Inl (''usage: '' @ c_basename (hd argv) @ '' [-P] <service> [<hostname>]''), [])
      else
        let passive = (take 2 (argv ! 1) = ''-P'');
            mem = (if passive then tl else id) (pv_memory argv env);
            hostname = mem ! 2;
            lines = (if passive then [''passive mode''] else [])
              @ (case hostname of None \<Rightarrow> [] | Some h \<Rightarrow> [''hostname = '' @ h])
        in case resolve hostname (mem ! 1) passive of
             Inl msg \<Rightarrow> (Inl msg, lines)
           | Inr as \<Rightarrow> (Inr (snd (pv_loop as)), lines @ fst (pv_loop as)))"

lemma pv_leaks: "snd (pv_loop as) = map (\<lambda>(af, s, b). the s) (filter (\<lambda>(af, s, b). s \<noteq> None \<and> \<not> b) as)"
  by (induction as rule: pv_loop.induct) auto

text \<open>
  \<open>passive.c\<close> leaves open every socket it could not bind, although it means not to leak any;
  and started with nothing but \<open>-P\<close> it takes the first string of its environment for the host name
  and passes no service, whereas with a service, and with or without a host name, it passes what it
  was given.
\<close>

theorem pv_passive:
  "(resolve (Some v) None True = Inr as \<longrightarrow>
      pv_main resolve (v # env) [prog, ''-P''] =
        (Inr (map (\<lambda>(af, s, b). the s) (filter (\<lambda>(af, s, b). s \<noteq> None \<and> \<not> b) as)),
         [''passive mode'', ''hostname = '' @ v] @ fst (pv_loop as)))
   \<and> (resolve None (Some serv) True = Inr as \<longrightarrow>
      pv_main resolve env [prog, ''-P'', serv] =
        (Inr (map (\<lambda>(af, s, b). the s) (filter (\<lambda>(af, s, b). s \<noteq> None \<and> \<not> b) as)),
         ''passive mode'' # fst (pv_loop as)))
   \<and> (resolve (Some h) (Some serv) False = Inr as \<and> take 2 serv \<noteq> ''-P'' \<longrightarrow>
      pv_main resolve env [prog, serv, h] =
        (Inr (map (\<lambda>(af, s, b). the s) (filter (\<lambda>(af, s, b). s \<noteq> None \<and> \<not> b) as)),
         (''hostname = '' @ h) # fst (pv_loop as)))"
  by (simp add: pv_main_def pv_memory_def pv_leaks Let_def numeral_2_eq_2)

theorem pv_passive_witness:
  "pv_main (\<lambda>h s p. Inr [(10, Some 3, False), (2, Some 4, True), (2, None, True)]) [''HOME=/root''] [''a'', ''-P''] =
     (Inr [3], [''passive mode'', ''hostname = HOME=/root'', ''bind'', ''got successful bind for AF 2'', ''socket''])"
proof -
  have "show_int 2 = ''2''" by code_simp
  then show ?thesis
    using pv_passive [where resolve = "\<lambda>h s p. Inr [(10, Some 3, False), (2, Some 4, True), (2, None, True)]"
        and v = "''HOME=/root''" and as = "[(10, Some 3, False), (2, Some 4, True), (2, None, True)]" and env = "[]"
        and prog = "''a''"]
    by simp
qed


section \<open>\<open>addresses.c\<close>\<close>

text \<open>
  \<open>inet_pton\<close> returns 1, 0 for a string that is no address, or -1; the program takes the last for
  impossible. \<open>ntop\<close> may fail. The output, the error output and the end.
\<close>

definition ad_usage :: "string \<Rightarrow> string" where
  "ad_usage argv0 =
     ''Usage: '' @ argv0 @ '' <ip4-or-ipv6-address>'' @ nl @ ''Examples:'' @ nl
     @ ''    ./a.out 0:0:2001:1508:1003:4::'' @ [CHR 0x09] @ ''# OK'' @ nl
     @ ''    ./a.out 0:0:0:0:0:0:0:0:1'' @ replicate 2 (CHR 0x09) @ ''# bad (18B)'' @ nl
     @ ''    ./a.out 127.0.0.1'' @ replicate 3 (CHR 0x09) @ ''# OK'' @ nl
     @ ''    ./a.out 10.0.0.299'' @ replicate 3 (CHR 0x09) @ ''# bad'' @ nl
     @ ''    ./a.out 01.01.01.01'' @ replicate 3 (CHR 0x09) @ ''# OK/bad, it's system dependent''"

definition ad_convert ::
  "string \<Rightarrow> (string \<Rightarrow> int \<times> 'a) \<Rightarrow> ('a \<Rightarrow> string option) \<Rightarrow> string \<Rightarrow> (string list \<times> string option) option"
where
  "ad_convert version pton ntop s =
     (if fst (pton s) \<noteq> 1 then None
      else Some (
        let first = ''Succesfully converted an '' @ version @ '' address string to a binary form.'' in
        case ntop (snd (pton s)) of
          None \<Rightarrow> ([first], None)
        | Some dst \<Rightarrow>
            ([first, ''Succesfully converted a binary '' @ version @ '' address back to a string.''], Some dst)))"

datatype ad_end = Ad_abort | Ad_exit int "string list" "string option" "string list"

text \<open>\<open>Ad_exit\<close> has the status, the lines, the address printed last and the lines of the error output.\<close>

definition ad_main ::
  "(string \<Rightarrow> int \<times> 'a) \<Rightarrow> ('a \<Rightarrow> string option) \<Rightarrow> (string \<Rightarrow> int \<times> 'b) \<Rightarrow> ('b \<Rightarrow> string option) \<Rightarrow> string list \<Rightarrow> ad_end"
where
  "ad_main pton4 ntop4 pton6 ntop6 argv =
     (if length argv \<noteq> 2 then Ad_exit 1 [] None [ad_usage (hd argv)]
      else case ad_convert ''IPv4'' pton4 ntop4 (argv ! 1) of
        Some (lines, None) \<Rightarrow> Ad_exit 1 lines None [''inet_ntop'']
      | Some (lines, Some dst) \<Rightarrow> Ad_exit 0 lines (Some dst) []
      | None \<Rightarrow>
          if fst (pton4 (argv ! 1)) \<noteq> 0 then Ad_abort
          else
            let warning = ''inet_pton with AF_INET failed for '' @ quoted (argv ! 1) @ ''.'' @ nl @ ''Will try INET6 now.'' in
            (case ad_convert ''IPv6'' pton6 ntop6 (argv ! 1) of
               Some (lines, None) \<Rightarrow> Ad_exit 1 lines None [warning, ''inet_ntop'']
             | Some (lines, Some dst) \<Rightarrow> Ad_exit 0 lines (Some dst) [warning]
             | None \<Rightarrow>
                 if fst (pton6 (argv ! 1)) \<noteq> 0 then Ad_abort
                 else Ad_exit 1 [] None [warning, ''inet_pton with AF_INET6 failed for '' @ quoted (argv ! 1) @ ''.'']))"

text \<open>
  With conversions that never return -1 and invert each other up to a normal form, the program
  accepts exactly the addresses of either version and prints the normal form.
\<close>

lemma ad_accepts:
  assumes "\<And>s. fst (pton4 s) = 1 \<or> fst (pton4 s) = 0" "\<And>s. fst (pton6 s) = 1 \<or> fst (pton6 s) = 0"
    and "\<And>s. fst (pton4 s) = 1 \<Longrightarrow> ntop4 (snd (pton4 s)) = Some (norm s)"
    and "\<And>s. fst (pton6 s) = 1 \<Longrightarrow> ntop6 (snd (pton6 s)) = Some (norm s)"
  shows "(\<exists>lines errs. ad_main pton4 ntop4 pton6 ntop6 [prog, s] = Ad_exit 0 lines (Some (norm s)) errs)
      \<longleftrightarrow> fst (pton4 s) = 1 \<or> fst (pton6 s) = 1"
  using assms(1,2) [of s] assms(3,4) [of s] by (auto simp: ad_main_def ad_convert_def Let_def)

end
