(* ===== verification/Pipes.thy ===== *)
theory Pipes
  imports Prelude
begin

text \<open>
  The programs of \<open>pipe/\<close>, \<open>fifo/\<close> and \<open>dead-lock/\<close>: descriptor tables whose entries are the ends of
  one pipe or other files, \<open>pipe-and-fork.c\<close>, which arranges them for two programs, \<open>countdown.c\<close>,
  whose parent waits for the last writer to close its end, and the programs that have no reader
  or no other writer.
\<close>

section \<open>Descriptor tables and pipes\<close>

text \<open>
  A descriptor refers to the reading or the writing end of the pipe, or to some other file. A new
  descriptor is the lowest free one.
\<close>

datatype pd_obj = Pipe_r | Pipe_w | File string

type_synonym pd_table = "pd_obj option list"

fun pd_alloc :: "pd_obj \<Rightarrow> pd_table \<Rightarrow> nat \<times> pd_table" where
  "pd_alloc x [] = (0, [Some x])"
| "pd_alloc x (None # t) = (0, Some x # t)"
| "pd_alloc x (Some y # t) = (case pd_alloc x t of (k, t') \<Rightarrow> (Suc k, Some y # t'))"

fun pd_at :: "pd_table \<Rightarrow> nat \<Rightarrow> pd_obj option" where
  "pd_at [] fd = None"
| "pd_at (x # t) 0 = x"
| "pd_at (x # t) (Suc fd) = pd_at t fd"

definition pd_close :: "nat \<Rightarrow> pd_table \<Rightarrow> pd_table" where
  "pd_close fd t = t[fd := None]"

definition pd_dup :: "nat \<Rightarrow> pd_table \<Rightarrow> pd_table" where
  "pd_dup fd t = (case pd_at t fd of None \<Rightarrow> t | Some x \<Rightarrow> snd (pd_alloc x t))"

text \<open>\<open>pipe(pd)\<close>: \<open>pd[0]\<close>, \<open>pd[1]\<close> and the new table.\<close>

definition pd_pipe :: "pd_table \<Rightarrow> nat \<times> nat \<times> pd_table" where
  "pd_pipe t = (case pd_alloc Pipe_r t of (r, t1) \<Rightarrow> (case pd_alloc Pipe_w t1 of (w, t2) \<Rightarrow> (r, w, t2)))"

definition pd_holds :: "pd_obj \<Rightarrow> pd_table \<Rightarrow> bool" where
  "pd_holds x t \<longleftrightarrow> Some x \<in> set t"

text \<open>
  \<open>read\<close> on the pipe: what is in it, at most \<open>n\<close> bytes; the end of the file (no bytes) if it is empty
  and no process holds the writing end; otherwise it blocks (\<^term>\<open>None\<close>).
\<close>

definition pd_read :: "pd_table list \<Rightarrow> string \<Rightarrow> nat \<Rightarrow> string option" where
  "pd_read tables buf n =
     (if buf \<noteq> [] then Some (take n buf)
      else if list_ex (pd_holds Pipe_w) tables then None else Some [])"

lemma pd_at_close [simp]: "pd_at (pd_close k t) fd = (if fd = k then None else pd_at t fd)"
  unfolding pd_close_def
proof (induction t fd arbitrary: k rule: pd_at.induct)
  case (2 x t)
  then show ?case by (cases k) simp_all
next
  case (3 x t fd)
  then show ?case by (cases k) simp_all
qed simp

lemma pd_holds_at: "pd_holds x t \<longleftrightarrow> (\<exists>fd. pd_at t fd = Some x)"
  unfolding pd_holds_def
proof (induction t)
  case (Cons y t)
  have "(\<exists>fd. pd_at (y # t) fd = Some x) \<longleftrightarrow> y = Some x \<or> (\<exists>fd. pd_at t fd = Some x)"
    by (metis (full_types) old.nat.exhaust pd_at.simps(2,3))
  then show ?case using Cons.IH by auto
qed simp

lemma pd_at_alloc_free: "pd_at t (fst (pd_alloc x t)) = None"
  by (induction x t rule: pd_alloc.induct) (simp_all add: case_prod_beta)

lemma pd_at_alloc: "pd_at (snd (pd_alloc x t)) fd = (if fd = fst (pd_alloc x t) then Some x else pd_at t fd)"
proof (induction x t arbitrary: fd rule: pd_alloc.induct)
  case (1 x)
  then show ?case by (cases fd) simp_all
next
  case (2 x t)
  then show ?case by (cases fd) simp_all
next
  case (3 x y t)
  then show ?case by (cases fd) (simp_all add: case_prod_beta)
qed

lemma pd_alloc_lowest: "pd_at t j = None \<Longrightarrow> fst (pd_alloc x t) \<le> j"
proof (induction x t arbitrary: j rule: pd_alloc.induct)
  case (3 x y t)
  then show ?case by (cases j) (simp_all add: case_prod_beta)
qed simp_all

lemma pd_alloc_eq:
  assumes "pd_at t k = None" "\<And>j. j < k \<Longrightarrow> pd_at t j \<noteq> None"
  shows "fst (pd_alloc x t) = k"
  using pd_alloc_lowest [OF assms(1), of x] assms(2) [of "fst (pd_alloc x t)"] pd_at_alloc_free [of t x]
  by linarith

text \<open>What \<open>pipe()\<close> does to a table.\<close>

lemma pd_pipe_props:
  assumes "pd_pipe t = (r, w, t')"
  shows "r \<noteq> w \<and> pd_at t r = None \<and> pd_at t w = None
    \<and> (\<forall>fd. pd_at t' fd = (if fd = w then Some Pipe_w else if fd = r then Some Pipe_r else pd_at t fd))"
proof -
  obtain t1 where t1: "pd_alloc Pipe_r t = (r, t1)" "pd_alloc Pipe_w t1 = (w, t')"
    using assms by (auto simp: pd_pipe_def split: prod.splits)
  then show ?thesis
    using pd_at_alloc_free [of t Pipe_r] pd_at_alloc [of Pipe_r t]
      pd_at_alloc_free [of t1 Pipe_w] pd_at_alloc [of Pipe_w t1]
    by (auto split: if_splits)
qed

section \<open>\<open>pipe-and-fork.c\<close>\<close>

text \<open>
  Parent and child run the statements of their branch of the \<open>switch\<close> and become \<open>less\<close> and \<open>ls\<close>.
  What \<open>ls\<close> has to write is a parameter; it writes to its descriptor 1 in pieces of any size, and
  \<open>less\<close> reads from its descriptor 0 in pieces of any size until the end, or quits before. The pipe
  has room for \<open>cap\<close> bytes. A process that ended has no descriptors.
\<close>

datatype pf_pc = P_close | P_dup | P_close_r | P_close_w | P_exec | P_run | P_complete | P_exit | P_sigpipe

record pf_state =
  pf_prod :: pf_pc
  pf_cons :: pf_pc
  pf_ptab :: pd_table
  pf_ctab :: pd_table
  pf_pd :: "nat \<times> nat"
  pf_buf :: string
  pf_todo :: string
  pf_got :: string

datatype pf_event = Producer nat | Consumer nat | Producer_no_exec | Consumer_no_exec | Consumer_quits

text \<open>The statements before \<open>execl\<close>: \<open>close(std)\<close>, \<open>dup\<close> of an end, and the two \<open>close\<close>.\<close>

fun pf_setup :: "nat \<Rightarrow> nat \<Rightarrow> nat \<times> nat \<Rightarrow> pf_pc \<Rightarrow> pd_table \<Rightarrow> (pf_pc \<times> pd_table) option" where
  "pf_setup std src pd P_close t = Some (P_dup, pd_close std t)"
| "pf_setup std src pd P_dup t = Some (P_close_r, pd_dup src t)"
| "pf_setup std src pd P_close_r t = Some (P_close_w, pd_close (fst pd) t)"
| "pf_setup std src pd P_close_w t = Some (P_exec, pd_close (snd pd) t)"
| "pf_setup std src pd P_exec t = Some (P_run, t)"
| "pf_setup std src pd _ t = None"

text \<open>\<open>ls\<close> writes \<open>n\<close> bytes; if its descriptor 1 is not the pipe, nothing of it reaches the pipe.\<close>

definition pf_write :: "nat \<Rightarrow> nat \<Rightarrow> pf_state \<Rightarrow> pf_state option" where
  "pf_write cap n s =
     (if pf_todo s = [] then Some (s\<lparr>pf_prod := P_complete, pf_ptab := []\<rparr>)
      else if pd_at (pf_ptab s) 1 \<noteq> Some Pipe_w then Some (s\<lparr>pf_prod := P_exit, pf_ptab := []\<rparr>)
      else if \<not> pd_holds Pipe_r (pf_ptab s) \<and> \<not> pd_holds Pipe_r (pf_ctab s)
        then Some (s\<lparr>pf_prod := P_sigpipe, pf_ptab := []\<rparr>)
      else if 0 < n \<and> n \<le> length (pf_todo s) \<and> length (pf_buf s) + n \<le> cap
        then Some (s\<lparr>pf_buf := pf_buf s @ take n (pf_todo s), pf_todo := drop n (pf_todo s)\<rparr>)
      else None)"

definition pf_read :: "nat \<Rightarrow> pf_state \<Rightarrow> pf_state option" where
  "pf_read n s =
     (if pd_at (pf_ctab s) 0 \<noteq> Some Pipe_r then Some (s\<lparr>pf_cons := P_exit, pf_ctab := []\<rparr>)
      else if n = 0 then None
      else case pd_read [pf_ptab s, pf_ctab s] (pf_buf s) n of
        None \<Rightarrow> None
      | Some d \<Rightarrow>
          if d = [] then Some (s\<lparr>pf_cons := P_complete, pf_ctab := []\<rparr>)
          else Some (s\<lparr>pf_got := pf_got s @ d, pf_buf := drop n (pf_buf s)\<rparr>))"

fun pf_step :: "nat \<Rightarrow> pf_event \<Rightarrow> pf_state \<Rightarrow> pf_state option" where
  "pf_step cap (Producer n) s =
     (if pf_prod s = P_run then pf_write cap n s
      else map_option (\<lambda>(pc, t). s\<lparr>pf_prod := pc, pf_ptab := t\<rparr>)
        (pf_setup 1 (snd (pf_pd s)) (pf_pd s) (pf_prod s) (pf_ptab s)))"
| "pf_step cap (Consumer n) s =
     (if pf_cons s = P_run then pf_read n s
      else map_option (\<lambda>(pc, t). s\<lparr>pf_cons := pc, pf_ctab := t\<rparr>)
        (pf_setup 0 (fst (pf_pd s)) (pf_pd s) (pf_cons s) (pf_ctab s)))"
| "pf_step cap Producer_no_exec s =
     (if pf_prod s = P_exec then Some (s\<lparr>pf_prod := P_exit, pf_ptab := []\<rparr>) else None)"
| "pf_step cap Consumer_no_exec s =
     (if pf_cons s = P_exec then Some (s\<lparr>pf_cons := P_exit, pf_ctab := []\<rparr>) else None)"
| "pf_step cap Consumer_quits s =
     (if pf_cons s = P_run then Some (s\<lparr>pf_cons := P_exit, pf_ctab := []\<rparr>) else None)"

definition pf_start :: "string \<Rightarrow> pd_table \<Rightarrow> pf_state" where
  "pf_start data tbl =
     (case pd_pipe tbl of (r, w, t) \<Rightarrow>
        \<lparr>pf_prod = P_close, pf_cons = P_close, pf_ptab = t, pf_ctab = t, pf_pd = (r, w),
         pf_buf = [], pf_todo = data, pf_got = []\<rparr>)"

definition pf_main :: "bool \<Rightarrow> bool \<Rightarrow> string \<Rightarrow> pd_table \<Rightarrow> exit_info + pf_state" where
  "pf_main pipe_ok fork_ok data tbl =
     (if \<not> pipe_ok then Inl (Exit 1 ''pipe'')
      else if \<not> fork_ok then Inl (Exit 1 ''fork'')
      else Inr (pf_start data tbl))"

fun pf_ended :: "pf_pc \<Rightarrow> bool" where
  "pf_ended P_complete = True"
| "pf_ended P_exit = True"
| "pf_ended P_sigpipe = True"
| "pf_ended _ = False"

text \<open>The descriptors a process has at each of its statements, \<open>std\<close> standing for the end \<open>e\<close>.\<close>

fun pf_expect :: "nat \<Rightarrow> pd_obj \<Rightarrow> nat \<times> nat \<Rightarrow> (nat \<Rightarrow> pd_obj option) \<Rightarrow> pf_pc \<Rightarrow> nat \<Rightarrow> pd_obj option" where
  "pf_expect std e pd base P_close = base"
| "pf_expect std e pd base P_dup = base(std := None)"
| "pf_expect std e pd base P_close_r = base(std := Some e)"
| "pf_expect std e pd base P_close_w = base(std := Some e, fst pd := None)"
| "pf_expect std e pd base P_exec = base(std := Some e, fst pd := None, snd pd := None)"
| "pf_expect std e pd base P_run = base(std := Some e, fst pd := None, snd pd := None)"
| "pf_expect std e pd base _ = (\<lambda>_. None)"

definition pf_base :: "nat \<times> nat \<Rightarrow> pd_table \<Rightarrow> nat \<Rightarrow> pd_obj option" where
  "pf_base pd tbl fd =
     (if fd = snd pd then Some Pipe_w else if fd = fst pd then Some Pipe_r else pd_at tbl fd)"

text \<open>A usual table: the descriptors 0 and 1 are open, and none is a pipe.\<close>

definition pf_usual :: "pd_table \<Rightarrow> bool" where
  "pf_usual tbl \<longleftrightarrow> pd_at tbl 0 \<noteq> None \<and> pd_at tbl 1 \<noteq> None \<and> \<not> pd_holds Pipe_r tbl \<and> \<not> pd_holds Pipe_w tbl"

text \<open>Where the pair \<open>pd\<close> lies in a usual table.\<close>

definition pf_pair :: "nat \<times> nat \<Rightarrow> pd_table \<Rightarrow> bool" where
  "pf_pair pd tbl \<longleftrightarrow> fst pd \<noteq> snd pd \<and> 1 < fst pd \<and> 1 < snd pd
     \<and> pd_at tbl (fst pd) = None \<and> pd_at tbl (snd pd) = None"

lemma pf_pair_pipe: "pf_usual tbl \<Longrightarrow> pd_pipe tbl = (r, w, t) \<Longrightarrow> pf_pair (r, w) tbl \<and> pd_at t = pf_base (r, w) tbl"
  using pd_pipe_props [of tbl r w t]
  by (cases "r = 0"; cases "r = 1"; cases "w = 0"; cases "w = 1"; auto simp: pf_usual_def pf_pair_def pf_base_def)

lemma pf_setup_expect:
  assumes "pf_usual tbl" "pf_pair pd tbl"
    and "(std = 1 \<and> src = snd pd \<and> e = Pipe_w) \<or> (std = 0 \<and> src = fst pd \<and> e = Pipe_r)"
    and "pd_at t = pf_expect std e pd (pf_base pd tbl) pc" "pf_setup std src pd pc t = Some (pc', t')"
  shows "pd_at t' = pf_expect std e pd (pf_base pd tbl) pc'"
proof (cases pc)
  case P_dup
  have at: "pd_at t = (pf_base pd tbl)(std := None)" using assms(4) P_dup by simp
  have src: "pd_at t src = Some e" using at assms(2,3) by (auto simp: pf_base_def pf_pair_def)
  have "fst (pd_alloc e t) = std"
    by (rule pd_alloc_eq) (use at assms(1-3) in \<open>auto simp: pf_base_def pf_pair_def pf_usual_def\<close>)
  moreover have "t' = snd (pd_alloc e t)" "pc' = P_close_r"
    using assms(5) P_dup by (simp_all add: pd_dup_def src)
  ultimately show ?thesis by (simp add: pd_at_alloc fun_eq_iff at)
qed (use assms(4,5) in \<open>auto simp: fun_eq_iff\<close>)

text \<open>Which ends a process holds at each statement.\<close>

lemma pf_expect_holds:
  assumes "pf_usual tbl" "pf_pair pd tbl" "pd_at t = pf_expect std e pd (pf_base pd tbl) pc"
    and "(std = 1 \<and> e = Pipe_w) \<or> (std = 0 \<and> e = Pipe_r)"
  shows "pd_holds e t \<longleftrightarrow> \<not> pf_ended pc"
    and "x \<noteq> e \<Longrightarrow> pc \<in> {P_exec, P_run} \<Longrightarrow> pd_holds x t \<Longrightarrow> x \<notin> {Pipe_r, Pipe_w}"
proof -
  have no: "pd_at tbl fd \<noteq> Some Pipe_r" "pd_at tbl fd \<noteq> Some Pipe_w" for fd
    using assms(1) by (auto simp: pf_usual_def pd_holds_at)
  have "pf_expect std e pd (pf_base pd tbl) pc
      (if pc \<in> {P_close, P_dup} then if e = Pipe_w then snd pd else fst pd else std) = Some e" if "\<not> pf_ended pc"
    using assms(2,4) that by (cases pc) (auto simp: pf_base_def pf_pair_def)
  moreover have "pf_expect std e pd (pf_base pd tbl) pc fd \<noteq> Some e" if "pf_ended pc" for fd
    using that by (cases pc) simp_all
  ultimately show "pd_holds e t \<longleftrightarrow> \<not> pf_ended pc"
    unfolding pd_holds_at assms(3) by blast
  show "x \<notin> {Pipe_r, Pipe_w}" if "x \<noteq> e" "pc \<in> {P_exec, P_run}" "pd_holds x t"
    using that(3) unfolding pd_holds_at assms(3) using assms(2,4) no that(1,2)
    by (auto simp: pf_base_def pf_pair_def split: if_splits)
qed

definition pf_inv :: "nat \<Rightarrow> pd_table \<Rightarrow> string \<Rightarrow> pf_state \<Rightarrow> bool" where
  "pf_inv cap tbl data s \<longleftrightarrow>
     pf_pair (pf_pd s) tbl
     \<and> pd_at (pf_ptab s) = pf_expect 1 Pipe_w (pf_pd s) (pf_base (pf_pd s) tbl) (pf_prod s)
     \<and> pd_at (pf_ctab s) = pf_expect 0 Pipe_r (pf_pd s) (pf_base (pf_pd s) tbl) (pf_cons s)
     \<and> pf_got s @ pf_buf s @ pf_todo s = data
     \<and> length (pf_buf s) \<le> cap
     \<and> (pf_prod s \<notin> {P_run, P_complete, P_sigpipe} \<longrightarrow> pf_todo s = data)
     \<and> (pf_prod s = P_complete \<longrightarrow> pf_todo s = [])
     \<and> (pf_prod s = P_sigpipe \<longrightarrow> pf_cons s = P_exit)
     \<and> pf_cons s \<noteq> P_sigpipe
     \<and> (pf_cons s = P_complete \<longrightarrow> pf_buf s = [] \<and> pf_ended (pf_prod s))"

lemma pf_inv_init: "pf_usual tbl \<Longrightarrow> pf_inv cap tbl data (pf_start data tbl)"
  using pf_pair_pipe [of tbl] by (auto simp: pf_start_def pf_inv_def split: prod.splits)

lemma pf_setup_running: "pf_setup std src pd pc t = Some (pc', t') \<Longrightarrow> \<not> pf_ended pc' \<and> pc \<noteq> P_run \<and> \<not> pf_ended pc"
  by (cases pc) auto

lemma pd_at_Nil: "pd_at [] = (\<lambda>_. None)"
  by (simp add: fun_eq_iff)

lemma pf_inv_holds:
  assumes "pf_usual tbl" "pf_inv cap tbl data s"
  shows "pd_holds Pipe_w (pf_ptab s) \<longleftrightarrow> \<not> pf_ended (pf_prod s)"
    and "pd_holds Pipe_r (pf_ctab s) \<longleftrightarrow> \<not> pf_ended (pf_cons s)"
    and "pf_prod s = P_run \<Longrightarrow> pd_at (pf_ptab s) 1 = Some Pipe_w \<and> \<not> pd_holds Pipe_r (pf_ptab s)"
    and "pf_cons s = P_run \<Longrightarrow> pd_at (pf_ctab s) 0 = Some Pipe_r \<and> \<not> pd_holds Pipe_w (pf_ctab s)"
proof -
  note i = assms(2) [unfolded pf_inv_def]
  note h = pf_expect_holds [OF assms(1), of "pf_pd s"]
  show "pd_holds Pipe_w (pf_ptab s) \<longleftrightarrow> \<not> pf_ended (pf_prod s)"
    using h(1) [of "pf_ptab s" 1 Pipe_w "pf_prod s"] i by blast
  show "pd_holds Pipe_r (pf_ctab s) \<longleftrightarrow> \<not> pf_ended (pf_cons s)"
    using h(1) [of "pf_ctab s" 0 Pipe_r "pf_cons s"] i by blast
  show "pd_at (pf_ptab s) 1 = Some Pipe_w \<and> \<not> pd_holds Pipe_r (pf_ptab s)" if "pf_prod s = P_run"
    using h(2) [of "pf_ptab s" 1 Pipe_w "pf_prod s" Pipe_r] i that by (auto simp: pf_pair_def)
  show "pd_at (pf_ctab s) 0 = Some Pipe_r \<and> \<not> pd_holds Pipe_w (pf_ctab s)" if "pf_cons s = P_run"
    using h(2) [of "pf_ctab s" 0 Pipe_r "pf_cons s" Pipe_w] i that by (auto simp: pf_pair_def)
qed

lemma pf_ended_cases: "pf_ended pc \<longleftrightarrow> pc \<in> {P_complete, P_exit, P_sigpipe}"
  by (cases pc) simp_all

lemma pf_write_inv:
  assumes "pf_usual tbl" "pf_inv cap tbl data s" "pf_prod s = P_run" "pf_write cap n s = Some t"
  shows "pf_inv cap tbl data t"
proof -
  note i = assms(2) [unfolded pf_inv_def] and h = pf_inv_holds [OF assms(1,2)]
  have "pf_cons s \<noteq> P_complete" using i assms(3) by auto
  then show ?thesis
    using assms(4) i h(2) h(3) [OF assms(3)] assms(3)
    by (auto simp: pf_write_def pf_inv_def pd_at_Nil pf_ended_cases split: if_splits)
qed

lemma pf_read_inv:
  assumes "pf_usual tbl" "pf_inv cap tbl data s" "pf_cons s = P_run" "pf_read n s = Some t"
  shows "pf_inv cap tbl data t"
proof -
  note i = assms(2) [unfolded pf_inv_def] and h = pf_inv_holds [OF assms(1,2)]
  have n: "n \<noteq> 0" and at0: "pd_at (pf_ctab s) 0 = Some Pipe_r"
    using assms(4) h(4) [OF assms(3)] by (auto simp: pf_read_def split: if_splits)
  show ?thesis
  proof (cases "pf_buf s = []")
    case True
    then have "t = s\<lparr>pf_cons := P_complete, pf_ctab := []\<rparr>" "pf_ended (pf_prod s)"
      using assms(4) n at0 h(1) h(4) [OF assms(3)] by (auto simp: pf_read_def pd_read_def split: if_splits)
    then show ?thesis using i True by (auto simp: pf_inv_def pd_at_Nil assms(3))
  next
    case False
    then have "t = s\<lparr>pf_got := pf_got s @ take n (pf_buf s), pf_buf := drop n (pf_buf s)\<rparr>"
      using assms(4) n at0 by (auto simp: pf_read_def pd_read_def)
    then show ?thesis using i assms(3) by (auto simp: pf_inv_def) 
  qed
qed

lemma pf_inv_step:
  assumes "pf_usual tbl" "pf_inv cap tbl data s" "pf_step cap e s = Some t"
  shows "pf_inv cap tbl data t"
proof -
  note i = assms(2) [unfolded pf_inv_def]
  show ?thesis
  proof (cases e)
    case (Producer n)
    show ?thesis
    proof (cases "pf_prod s = P_run")
      case True
      with assms Producer show ?thesis by (auto intro: pf_write_inv)
    next
      case False
      with assms(3) Producer obtain pc' u where u: "pf_setup 1 (snd (pf_pd s)) (pf_pd s) (pf_prod s) (pf_ptab s) = Some (pc', u)"
        "t = s\<lparr>pf_prod := pc', pf_ptab := u\<rparr>" by auto
      have "pd_at u = pf_expect 1 Pipe_w (pf_pd s) (pf_base (pf_pd s) tbl) pc'"
        by (rule pf_setup_expect [OF assms(1) _ _ _ u(1)]) (use i in blast)+
      then show ?thesis using i pf_setup_running [OF u(1)] unfolding u(2) pf_inv_def by auto
    qed
  next
    case (Consumer n)
    show ?thesis
    proof (cases "pf_cons s = P_run")
      case True
      with assms Consumer show ?thesis by (auto intro: pf_read_inv)
    next
      case False
      with assms(3) Consumer obtain pc' u where u: "pf_setup 0 (fst (pf_pd s)) (pf_pd s) (pf_cons s) (pf_ctab s) = Some (pc', u)"
        "t = s\<lparr>pf_cons := pc', pf_ctab := u\<rparr>" by auto
      have "pd_at u = pf_expect 0 Pipe_r (pf_pd s) (pf_base (pf_pd s) tbl) pc'"
        by (rule pf_setup_expect [OF assms(1) _ _ _ u(1)]) (use i in blast)+
      then show ?thesis using i pf_setup_running [OF u(1)] unfolding u(2) pf_inv_def by auto
    qed
  qed (use assms(3) i in \<open>auto simp: pf_inv_def pd_at_Nil split: if_splits\<close>)
qed

text \<open>Every step brings the two processes nearer to their end.\<close>

fun pf_rank :: "pf_pc \<Rightarrow> nat" where
  "pf_rank P_close = 6"
| "pf_rank P_dup = 5"
| "pf_rank P_close_r = 4"
| "pf_rank P_close_w = 3"
| "pf_rank P_exec = 2"
| "pf_rank P_run = 1"
| "pf_rank _ = 0"

definition pf_left :: "pf_state \<Rightarrow> nat" where
  "pf_left s = pf_rank (pf_prod s) + pf_rank (pf_cons s) + 2 * length (pf_todo s) + length (pf_buf s)"

lemma pf_setup_rank: "pf_setup std src pd pc t = Some (pc', t') \<Longrightarrow> pf_rank pc' < pf_rank pc"
  by (cases pc) auto

lemma pf_left_step: "pf_step cap e s = Some t \<Longrightarrow> pf_left t < pf_left s"
proof (cases e)
  case (Producer n)
  assume "pf_step cap e s = Some t"
  then show ?thesis
    using Producer by (auto simp: pf_left_def pf_write_def dest!: pf_setup_rank split: if_splits)
next
  case (Consumer n)
  assume "pf_step cap e s = Some t"
  then show ?thesis
    using Consumer by (auto simp: pf_left_def pf_read_def pd_read_def dest!: pf_setup_rank split: if_splits)
qed (auto simp: pf_left_def split: if_splits)

lemma pf_left_exec: "exec (pf_step cap) es s = Some t \<Longrightarrow> length es + pf_left t \<le> pf_left s"
proof (induction es arbitrary: s)
  case (Cons e es)
  then obtain u where "pf_step cap e s = Some u" "exec (pf_step cap) es u = Some t"
    by (auto split: option.splits)
  with Cons.IH [of u] pf_left_step [of cap e s u] show ?case by simp
qed simp

interpretation pf: step_invariant "pf_step cap" "pf_start data tbl" "\<lambda>s. pf_usual tbl \<longrightarrow> pf_inv cap tbl data s"
  for cap tbl data
  by unfold_locales (auto intro: pf_inv_init pf_inv_step)

lemma pf_setup_none [simp]: "pf_setup std src pd pc t = None \<longleftrightarrow> pf_ended pc \<or> pc = P_run"
  by (cases pc) simp_all

lemma pf_progress:
  assumes "pf_usual tbl" "pf_inv cap tbl data s" "0 < cap" "\<not> pf_ended (pf_prod s) \<or> \<not> pf_ended (pf_cons s)"
  shows "(\<exists>t. pf_step cap (Producer 1) s = Some t) \<or> (\<exists>t. pf_step cap (Consumer 1) s = Some t)"
proof (rule ccontr)
  note h = pf_inv_holds [OF assms(1,2)]
  assume "\<not> ?thesis"
  then have no: "pf_step cap (Producer 1) s = None" "pf_step cap (Consumer 1) s = None" by auto
  have c: "pf_ended (pf_cons s) \<or> pf_cons s = P_run" and p: "pf_ended (pf_prod s) \<or> pf_prod s = P_run"
    using no by (auto split: if_splits)
  show False
  proof (cases "pf_cons s = P_run")
    case True
    with no h(4) have "pf_buf s = []" "pd_holds Pipe_w (pf_ptab s)"
      by (auto simp: pf_read_def pd_read_def split: if_splits)
    with p h(1) have "pf_prod s = P_run" by blast
    with no h(3) \<open>pf_buf s = []\<close> assms(3) show False
      by (auto simp: pf_write_def Suc_le_eq split: if_splits)
  next
    case False
    with c p assms(4) have "pf_prod s = P_run" by blast
    with no h(3) h(2) c False show False by (auto simp: pf_write_def split: if_splits)
  qed
qed

text \<open>
  C4: The pipeline of \<open>pipe-and-fork.c\<close>, started with descriptors 0 and 1 open: on every schedule the
  bytes read, those in the pipe and those still to write are together what \<open>ls\<close> has to write; \<open>less\<close>
  sees the end of its input only after \<open>ls\<close> has ended, and then has all of it (nothing, if \<open>ls\<close>
  could not be executed); \<open>SIGPIPE\<close> kills \<open>ls\<close> only if \<open>less\<close> ended before the end or could not be
  executed. Until both have ended one of them can move, so that neither waits for ever, and they
  have after at most 12 steps besides the reads and writes of at least one byte each.
\<close>

theorem pf_pipeline:
  assumes "pf_usual tbl" "0 < cap" "pf_main True True data tbl = Inr s0" "exec (pf_step cap) es s0 = Some s"
  shows "pf_got s @ pf_buf s @ pf_todo s = data
    \<and> (pf_cons s = P_complete \<longrightarrow> (pf_prod s = P_complete \<and> pf_got s = data) \<or> (pf_prod s = P_exit \<and> pf_got s = []))
    \<and> (pf_prod s = P_sigpipe \<longrightarrow> pf_cons s = P_exit)
    \<and> (pf_ended (pf_prod s) \<and> pf_ended (pf_cons s)
       \<or> (\<exists>t. pf_step cap (Producer 1) s = Some t) \<or> (\<exists>t. pf_step cap (Consumer 1) s = Some t))
    \<and> length es \<le> 12 + 2 * length data"
proof -
  have s0: "s0 = pf_start data tbl" using assms(3) by (simp add: pf_main_def)
  have inv: "pf_inv cap tbl data s"
    using pf.exec_inv [of tbl cap data s0 es s] pf_inv_init [OF assms(1)] assms(1,4) s0 by simp
  note i = inv [unfolded pf_inv_def]
  have "pf_left s0 \<le> 12 + 2 * length data" by (auto simp: s0 pf_start_def pf_left_def split: prod.splits)
  with pf_left_exec [OF assms(4)] have "length es \<le> 12 + 2 * length data" by simp
  moreover have "pf_prod s = P_complete \<and> pf_got s = data \<or> pf_prod s = P_exit \<and> pf_got s = []" if "pf_cons s = P_complete"
    using i that by (auto simp: pf_ended_cases)
  moreover have "pf_ended (pf_prod s) \<and> pf_ended (pf_cons s)
       \<or> (\<exists>t. pf_step cap (Producer 1) s = Some t) \<or> (\<exists>t. pf_step cap (Consumer 1) s = Some t)"
    using pf_progress [OF assms(1) inv assms(2)] by blast
  ultimately show ?thesis using i by blast
qed

theorem pf_pipeline_witness:
  "let tbl = [Some (File ''tty''), Some (File ''tty''), Some (File ''tty'')];
       es = replicate 5 (Producer 0) @ replicate 5 (Consumer 0)
         @ [Producer 3, Consumer 9, Producer 2, Producer 1, Consumer 2, Consumer 1]
   in \<exists>s :: pf_state. pf_got s @ pf_buf s @ pf_todo s = ''hello'' \<and> pf_got s = ''hello''
     \<and> (pf_cons s = P_complete \<longrightarrow> (pf_prod s = P_complete \<and> pf_got s = ''hello'') \<or> (pf_prod s = P_exit \<and> pf_got s = []))"
proof -
  let ?tbl = "[Some (File ''tty''), Some (File ''tty''), Some (File ''tty'')]"
  let ?es = "replicate 5 (Producer 0) @ replicate 5 (Consumer 0)
         @ [Producer 3, Consumer 9, Producer 2, Producer 1, Consumer 2, Consumer 1]"
  have u: "pf_usual ?tbl" by code_simp
  have "case exec (pf_step 4) ?es (pf_start ''hello'' ?tbl) of None \<Rightarrow> False | Some s \<Rightarrow> pf_got s = ''hello''" by code_simp
  then obtain s where s: "exec (pf_step 4) ?es (pf_start ''hello'' ?tbl) = Some s" "pf_got s = ''hello''"
    by (auto split: option.splits)
  from pf_pipeline [OF u _ _ s(1), of "''hello''"] s(2)
  have "pf_got s @ pf_buf s @ pf_todo s = ''hello''"
    "pf_cons s = P_complete \<longrightarrow> (pf_prod s = P_complete \<and> pf_got s = ''hello'') \<or> (pf_prod s = P_exit \<and> pf_got s = [])"
    by (simp_all add: pf_main_def)
  with s(2) show ?thesis unfolding Let_def by blast
qed

lemma pd_at_all_None: "set t \<subseteq> {None} \<Longrightarrow> pd_at t fd = None"
  by (induction t fd rule: pd_at.induct) auto

text \<open>
  C40: The descriptors the two programs start with: \<open>ls\<close> finds the writing end as descriptor 1 and
  neither end anywhere else, \<open>less\<close> the reading end as descriptor 0 and neither end anywhere else,
  and every other descriptor of both is the one the program was started with. (If descriptors 0 and
  1 were closed, \<open>pipe()\<close> hands them out, \<open>close(1)\<close> and \<open>close(0)\<close> then destroy the ends, and \<open>less\<close>
  gets no input at all.)
\<close>

theorem pf_descriptors:
  "(pf_usual tbl \<and> reach (pf_step cap) (pf_start data tbl) s \<longrightarrow>
      (pf_prod s = P_run \<longrightarrow> (\<forall>fd. pd_at (pf_ptab s) fd = (if fd = 1 then Some Pipe_w else pd_at tbl fd)))
    \<and> (pf_cons s = P_run \<longrightarrow> (\<forall>fd. pd_at (pf_ctab s) fd = (if fd = 0 then Some Pipe_r else pd_at tbl fd))))
    \<and> (case exec (pf_step cap) (replicate 5 (Consumer n)) (pf_start data []) of
         None \<Rightarrow> False
       | Some t \<Rightarrow> pf_cons t = P_run \<and> (\<forall>fd. pd_at (pf_ctab t) fd = None))"
proof (intro conjI impI)
  assume a: "pf_usual tbl \<and> reach (pf_step cap) (pf_start data tbl) s"
  with pf.reach_inv have i: "pf_inv cap tbl data s" by blast
  show "\<forall>fd. pd_at (pf_ptab s) fd = (if fd = 1 then Some Pipe_w else pd_at tbl fd)" if "pf_prod s = P_run"
    using i that by (simp add: pf_inv_def pf_pair_def pf_base_def)
  show "\<forall>fd. pd_at (pf_ctab s) fd = (if fd = 0 then Some Pipe_r else pd_at tbl fd)" if "pf_cons s = P_run"
    using i that by (simp add: pf_inv_def pf_pair_def pf_base_def)
next
  show "case exec (pf_step cap) (replicate 5 (Consumer n)) (pf_start data []) of
         None \<Rightarrow> False
       | Some t \<Rightarrow> pf_cons t = P_run \<and> (\<forall>fd. pd_at (pf_ctab t) fd = None)"
    by (simp add: eval_nat_numeral pf_start_def pd_pipe_def pd_close_def pd_dup_def pd_at_all_None)
qed

theorem pf_descriptors_witness:
  "\<exists>s :: pf_state. pf_prod s = P_run \<and> pd_at (pf_ptab s) 1 = Some Pipe_w \<and> pd_at (pf_ptab s) 3 = None"
proof -
  let ?tbl = "[Some (File ''tty''), Some (File ''tty''), Some (File ''tty'')]"
  have u: "pf_usual ?tbl" by code_simp
  have "case exec (pf_step 4) (replicate 5 (Producer 0)) (pf_start ''hello'' ?tbl) of
      None \<Rightarrow> False | Some s \<Rightarrow> pf_prod s = P_run" by code_simp
  then obtain s where s: "exec (pf_step 4) (replicate 5 (Producer 0)) (pf_start ''hello'' ?tbl) = Some s" "pf_prod s = P_run"
    by (auto split: option.splits)
  from pf_descriptors [of ?tbl 4 "''hello''" s 0] u exec_reach [OF s(1)] s(2)
  have "pd_at (pf_ptab s) 1 = Some Pipe_w" "pd_at (pf_ptab s) 3 = None" by (auto simp: eval_nat_numeral)
  with s(2) show ?thesis by blast
qed

section \<open>\<open>countdown.c\<close>\<close>

text \<open>
  The parent forks \<open>CHILDREN\<close> children, each of which holds the writing end until it ends, and reads
  from the pipe nobody writes to. \<open>printf\<close> writes a line at once if the output is a terminal, else
  into the buffer of the process, which \<open>fork\<close> copies, the return from \<open>main()\<close> writes out and
  \<open>_exit\<close> drops. The process numbers in the lines are left out.
\<close>

definition CHILDREN :: nat where "CHILDREN = 3"

datatype cd_msg = Child_exiting nat | Parent_forked nat bool | Parent_reading | Parent_got_EOF

datatype cd_ppc =
    D_fork nat | D_say_forked nat bool | D_close | D_say_reading | D_read | D_assert | D_say_EOF
  | D_return | D_done | D_abort

datatype cd_kpc = K_none | K_close | K_sleep | K_say | K_exit | K_gone

record cd_state =
  cd_pc :: cd_ppc
  cd_tab :: pd_table
  cd_buf :: "cd_msg list"
  cd_n :: "int option"
  cd_kid :: "nat \<Rightarrow> cd_kpc"
  cd_ktab :: "nat \<Rightarrow> pd_table"
  cd_kbuf :: "nat \<Rightarrow> cd_msg list"
  cd_out :: "cd_msg list"

datatype cd_event = Parent | Fork_fails | Kid nat

definition cd_loop :: "nat \<Rightarrow> cd_ppc" where
  "cd_loop i = (if i \<le> CHILDREN then D_fork i else D_close)"

definition cd_print :: "bool \<Rightarrow> cd_msg \<Rightarrow> cd_state \<Rightarrow> cd_state" where
  "cd_print tty m s = (if tty then s\<lparr>cd_out := cd_out s @ [m]\<rparr> else s\<lparr>cd_buf := cd_buf s @ [m]\<rparr>)"

fun cd_parent :: "bool \<Rightarrow> nat \<times> nat \<Rightarrow> cd_ppc \<Rightarrow> cd_state \<Rightarrow> cd_state option" where
  "cd_parent tty p (D_fork i) s =
     Some (s\<lparr>cd_pc := D_say_forked i True, cd_kid := (cd_kid s)(i := K_close),
       cd_ktab := (cd_ktab s)(i := cd_tab s), cd_kbuf := (cd_kbuf s)(i := cd_buf s)\<rparr>)"
| "cd_parent tty p (D_say_forked i ok) s = Some ((cd_print tty (Parent_forked i ok) s)\<lparr>cd_pc := cd_loop (Suc i)\<rparr>)"
| "cd_parent tty p D_close s = Some (s\<lparr>cd_pc := D_say_reading, cd_tab := pd_close (snd p) (cd_tab s)\<rparr>)"
| "cd_parent tty p D_say_reading s = Some ((cd_print tty Parent_reading s)\<lparr>cd_pc := D_read\<rparr>)"
| "cd_parent tty p D_read s =
     (if pd_at (cd_tab s) (fst p) \<noteq> Some Pipe_r then Some (s\<lparr>cd_pc := D_assert, cd_n := Some (- 1)\<rparr>)
      else case pd_read (cd_tab s # map (cd_ktab s) [1..<Suc CHILDREN]) [] 1 of
        None \<Rightarrow> None
      | Some d \<Rightarrow> Some (s\<lparr>cd_pc := D_assert, cd_n := Some (int (length d))\<rparr>))"
| "cd_parent tty p D_assert s = Some (s\<lparr>cd_pc := (if cd_n s = Some 0 then D_say_EOF else D_abort)\<rparr>)"
| "cd_parent tty p D_say_EOF s = Some ((cd_print tty Parent_got_EOF s)\<lparr>cd_pc := D_return\<rparr>)"
| "cd_parent tty p D_return s =
     Some (s\<lparr>cd_pc := D_done, cd_tab := [], cd_out := cd_out s @ cd_buf s, cd_buf := []\<rparr>)"
| "cd_parent tty p _ s = None"

fun cd_child :: "bool \<Rightarrow> nat \<times> nat \<Rightarrow> nat \<Rightarrow> cd_kpc \<Rightarrow> cd_state \<Rightarrow> cd_state option" where
  "cd_child tty p i K_close s =
     Some (s\<lparr>cd_kid := (cd_kid s)(i := K_sleep), cd_ktab := (cd_ktab s)(i := pd_close (fst p) (cd_ktab s i))\<rparr>)"
| "cd_child tty p i K_sleep s = Some (s\<lparr>cd_kid := (cd_kid s)(i := K_say)\<rparr>)"
| "cd_child tty p i K_say s =
     Some (if tty then s\<lparr>cd_kid := (cd_kid s)(i := K_exit), cd_out := cd_out s @ [Child_exiting i]\<rparr>
       else s\<lparr>cd_kid := (cd_kid s)(i := K_exit), cd_kbuf := (cd_kbuf s)(i := cd_kbuf s i @ [Child_exiting i])\<rparr>)"
| "cd_child tty p i K_exit s =
     Some (s\<lparr>cd_kid := (cd_kid s)(i := K_gone), cd_ktab := (cd_ktab s)(i := []), cd_kbuf := (cd_kbuf s)(i := [])\<rparr>)"
| "cd_child tty p i _ s = None"

fun cd_step :: "bool \<Rightarrow> nat \<times> nat \<Rightarrow> cd_event \<Rightarrow> cd_state \<Rightarrow> cd_state option" where
  "cd_step tty p Parent s = cd_parent tty p (cd_pc s) s"
| "cd_step tty p Fork_fails s =
     (case cd_pc s of D_fork i \<Rightarrow> Some (s\<lparr>cd_pc := D_say_forked i False\<rparr>) | _ \<Rightarrow> None)"
| "cd_step tty p (Kid i) s = cd_child tty p i (cd_kid s i) s"

definition cd_start :: "pd_table \<Rightarrow> cd_state" where
  "cd_start t = \<lparr>cd_pc = cd_loop 1, cd_tab = t, cd_buf = [], cd_n = None, cd_kid = (\<lambda>_. K_none),
     cd_ktab = (\<lambda>_. []), cd_kbuf = (\<lambda>_. []), cd_out = []\<rparr>"

definition cd_main :: "bool \<Rightarrow> pd_table \<Rightarrow> exit_info + (nat \<times> nat) \<times> cd_state" where
  "cd_main pipe_ok tbl =
     (if \<not> pipe_ok then Inl (Exit 1 ''pipe'')
      else case pd_pipe tbl of (r, w, t) \<Rightarrow> Inr ((r, w), cd_start t))"

fun cd_early :: "cd_ppc \<Rightarrow> bool" where
  "cd_early (D_fork i) = True"
| "cd_early (D_say_forked i ok) = True"
| "cd_early D_close = True"
| "cd_early _ = False"

fun cd_late :: "cd_ppc \<Rightarrow> bool" where
  "cd_late D_assert = True"
| "cd_late D_say_EOF = True"
| "cd_late D_return = True"
| "cd_late D_done = True"
| "cd_late D_abort = True"
| "cd_late _ = False"

text \<open>The children that can exist at a statement of the parent.\<close>

fun cd_forked :: "cd_ppc \<Rightarrow> nat" where
  "cd_forked (D_fork i) = i - 1"
| "cd_forked (D_say_forked i ok) = i"
| "cd_forked _ = CHILDREN"

fun cd_in_range :: "cd_ppc \<Rightarrow> bool" where
  "cd_in_range (D_fork i) \<longleftrightarrow> 1 \<le> i \<and> i \<le> CHILDREN"
| "cd_in_range (D_say_forked i ok) \<longleftrightarrow> 1 \<le> i \<and> i \<le> CHILDREN"
| "cd_in_range pc \<longleftrightarrow> pc \<noteq> D_abort"

text \<open>A table with both ends of the pipe, at \<open>p\<close> only.\<close>

definition cd_table :: "nat \<times> nat \<Rightarrow> pd_table \<Rightarrow> bool" where
  "cd_table p t \<longleftrightarrow> fst p \<noteq> snd p \<and> pd_at t (fst p) = Some Pipe_r \<and> (\<forall>fd. pd_at t fd = Some Pipe_w \<longleftrightarrow> fd = snd p)"

text \<open>What holds of a child, and of the parent.\<close>

definition cd_kid_inv :: "bool \<Rightarrow> nat \<times> nat \<Rightarrow> pd_table \<Rightarrow> cd_state \<Rightarrow> nat \<Rightarrow> bool" where
  "cd_kid_inv tty p t s i \<longleftrightarrow>
     (cd_kid s i \<noteq> K_none \<longrightarrow> 1 \<le> i \<and> i \<le> cd_forked (cd_pc s))
     \<and> cd_ktab s i = (if cd_kid s i = K_none \<or> cd_kid s i = K_gone then []
         else if cd_kid s i = K_close then t else pd_close (fst p) t)
     \<and> (cd_late (cd_pc s) \<longrightarrow> cd_kid s i = K_none \<or> cd_kid s i = K_gone)
     \<and> (if tty then Child_exiting i \<in> set (cd_out s) \<longleftrightarrow> cd_kid s i = K_exit \<or> cd_kid s i = K_gone
        else Child_exiting i \<notin> set (cd_out s) \<and> Child_exiting i \<notin> set (cd_buf s))"

definition cd_parent_inv :: "bool \<Rightarrow> nat \<times> nat \<Rightarrow> pd_table \<Rightarrow> cd_state \<Rightarrow> bool" where
  "cd_parent_inv tty p t s \<longleftrightarrow>
     cd_in_range (cd_pc s)
     \<and> (cd_pc s \<noteq> D_done \<longrightarrow> cd_tab s = (if cd_early (cd_pc s) then t else pd_close (snd p) t))
     \<and> cd_n s = (if cd_late (cd_pc s) then Some 0 else None)
     \<and> (tty \<or> cd_pc s = D_done \<longrightarrow> cd_buf s = [])
     \<and> (cd_pc s = D_return \<or> cd_pc s = D_done \<longrightarrow> (\<exists>ms. cd_out s @ cd_buf s = ms @ [Parent_got_EOF]))"

definition cd_inv :: "bool \<Rightarrow> nat \<times> nat \<Rightarrow> pd_table \<Rightarrow> cd_state \<Rightarrow> bool" where
  "cd_inv tty p t s \<longleftrightarrow> cd_parent_inv tty p t s \<and> (\<forall>i. cd_kid_inv tty p t s i)"

lemma cd_holds:
  assumes "cd_table p t"
  shows "pd_holds Pipe_w t" "pd_holds Pipe_w (pd_close (fst p) t)" "\<not> pd_holds Pipe_w (pd_close (snd p) t)"
    "\<not> pd_holds Pipe_w []" "pd_at (pd_close (snd p) t) (fst p) = Some Pipe_r"
proof -
  have w: "pd_at t (snd p) = Some Pipe_w" and ne: "snd p \<noteq> fst p" using assms by (auto simp: cd_table_def)
  show "pd_holds Pipe_w t" unfolding pd_holds_at using w by blast
  show "pd_holds Pipe_w (pd_close (fst p) t)" unfolding pd_holds_at by (rule exI [of _ "snd p"]) (simp add: w ne)
qed (use assms in \<open>auto simp: cd_table_def pd_holds_at\<close>)

lemma cd_read_EOF:
  assumes "cd_table p t" "cd_inv tty p t s" "cd_pc s = D_read"
  shows "pd_at (cd_tab s) (fst p) = Some Pipe_r"
    and "pd_read (cd_tab s # map (cd_ktab s) [1..<Suc CHILDREN]) [] 1
      = (if \<forall>i. cd_kid s i = K_none \<or> cd_kid s i = K_gone then Some [] else None)"
proof -
  have tab: "cd_tab s = pd_close (snd p) t" using assms(2,3) by (simp add: cd_inv_def cd_parent_inv_def)
  then show "pd_at (cd_tab s) (fst p) = Some Pipe_r" using cd_holds(5) [OF assms(1)] by simp
  have ki: "cd_kid_inv tty p t s j" for j using assms(2) by (simp add: cd_inv_def)
  have k: "pd_holds Pipe_w (cd_ktab s j) \<longleftrightarrow> \<not> (cd_kid s j = K_none \<or> cd_kid s j = K_gone)" for j
    using ki [of j] cd_holds [OF assms(1)] by (simp add: cd_kid_inv_def)
  have "\<not> (cd_kid s j = K_none \<or> cd_kid s j = K_gone) \<longrightarrow> j \<in> {1..<Suc CHILDREN}" for j
    using ki [of j] assms(3) by (auto simp: cd_kid_inv_def)
  then have "list_ex (pd_holds Pipe_w) (map (cd_ktab s) [1..<Suc CHILDREN])
      \<longleftrightarrow> (\<exists>j. \<not> (cd_kid s j = K_none \<or> cd_kid s j = K_gone))"
    unfolding list_ex_iff set_map set_upt using k by blast
  then show "pd_read (cd_tab s # map (cd_ktab s) [1..<Suc CHILDREN]) [] 1
      = (if \<forall>i. cd_kid s i = K_none \<or> cd_kid s i = K_gone then Some [] else None)"
    using cd_holds(3) [OF assms(1)] by (auto simp: pd_read_def tab)
qed

lemma cd_kid_inv_parent:
  assumes "cd_table p t" "cd_inv tty p t s" "cd_parent tty p (cd_pc s) s = Some u"
  shows "cd_kid_inv tty p t u j"
proof -
  have ki: "cd_kid_inv tty p t s j" and pi: "cd_parent_inv tty p t s" using assms(2) by (simp_all add: cd_inv_def)
  show ?thesis
  proof (cases "cd_pc s")
    case (D_fork i)
    have "1 \<le> i" using pi D_fork by (simp add: cd_parent_inv_def)
    moreover have "cd_kid_inv tty p t s i" using assms(2) by (simp add: cd_inv_def)
    ultimately have "cd_kid s i = K_none" using D_fork by (auto simp: cd_kid_inv_def)
    then show ?thesis using ki pi assms(3) D_fork
      by (cases "j = i") (auto simp: cd_kid_inv_def cd_parent_inv_def)
  next
    case D_read
    have "cd_kid s j = K_none \<or> cd_kid s j = K_gone" "u = s\<lparr>cd_pc := D_assert, cd_n := Some 0\<rparr>"
      using cd_read_EOF [OF assms(1,2) D_read] assms(3) D_read by (auto split: if_splits)
    then show ?thesis using ki D_read by (auto simp: cd_kid_inv_def)
  next
    case (D_say_forked i ok)
    have le: "i \<le> cd_forked (cd_loop (Suc i))" and nl: "\<not> cd_late (cd_loop (Suc i))"
      using pi D_say_forked by (auto simp: cd_parent_inv_def cd_loop_def)
    have "u = (cd_print tty (Parent_forked i ok) s)\<lparr>cd_pc := cd_loop (Suc i)\<rparr>" using assms(3) D_say_forked by simp
    then show ?thesis using ki D_say_forked le nl
      by (cases tty) (auto simp: cd_kid_inv_def cd_print_def)
  next
    case D_return
    then have "u = s\<lparr>cd_pc := D_done, cd_tab := [], cd_out := cd_out s @ cd_buf s, cd_buf := []\<rparr>" using assms(3) by simp
    then show ?thesis using ki pi D_return by (cases tty) (auto simp: cd_kid_inv_def cd_parent_inv_def)
  qed (use ki assms(3) [symmetric] in \<open>simp add: cd_kid_inv_def cd_print_def\<close>)+
qed

lemma cd_parent_inv_parent:
  assumes "cd_table p t" "cd_inv tty p t s" "cd_parent tty p (cd_pc s) s = Some u"
  shows "cd_parent_inv tty p t u"
proof -
  have pi: "cd_parent_inv tty p t s" using assms(2) by (simp_all add: cd_inv_def)
  show ?thesis
  proof (cases "cd_pc s")
    case D_read
    have "u = s\<lparr>cd_pc := D_assert, cd_n := Some 0\<rparr>"
      using cd_read_EOF [OF assms(1,2) D_read] assms(3) D_read by (auto split: if_splits)
    then show ?thesis using pi D_read by (auto simp: cd_parent_inv_def)
  next
    case D_return
    then have "u = s\<lparr>cd_pc := D_done, cd_tab := [], cd_out := cd_out s @ cd_buf s, cd_buf := []\<rparr>" using assms(3) by simp
    then show ?thesis using pi D_return by (simp add: cd_parent_inv_def)
  next
    case D_abort
    then show ?thesis using assms(3) by simp
  qed (use pi assms(3) [symmetric] in \<open>simp add: cd_parent_inv_def cd_print_def cd_loop_def\<close>)+
qed

lemma cd_child_frame:
  "cd_child tty p i k s = Some u \<Longrightarrow> cd_pc u = cd_pc s \<and> cd_tab u = cd_tab s \<and> cd_n u = cd_n s \<and> cd_buf u = cd_buf s"
  by (cases k) auto

lemma cd_child_step:
  assumes "cd_inv tty p t s" "cd_child tty p i (cd_kid s i) s = Some u"
  shows "cd_inv tty p t u"
proof -
  have ki: "cd_kid_inv tty p t s j" for j using assms(1) by (simp add: cd_inv_def)
  have pi: "cd_parent_inv tty p t s" using assms(1) by (simp add: cd_inv_def)
  have early: "\<not> cd_late (cd_pc s)" using ki [of i] assms(2) by (auto simp: cd_kid_inv_def)
  then have "cd_pc s \<noteq> D_return \<and> cd_pc s \<noteq> D_done" by auto
  with pi cd_child_frame [OF assms(2)] have "cd_parent_inv tty p t u" by (simp add: cd_parent_inv_def)
  moreover have "cd_kid_inv tty p t u j" for j
  proof (cases "cd_kid s i")
    case K_close
    then show ?thesis using ki [of j] assms(2) early by (cases "j = i") (auto simp: cd_kid_inv_def)
  next
    case K_sleep
    then show ?thesis using ki [of j] assms(2) early by (cases "j = i") (auto simp: cd_kid_inv_def)
  next
    case K_say
    then show ?thesis using ki [of j] assms(2) early by (cases tty; cases "j = i") (auto simp: cd_kid_inv_def)
  next
    case K_exit
    then show ?thesis using ki [of j] assms(2) early by (cases "j = i") (auto simp: cd_kid_inv_def)
  qed (use assms(2) in simp_all)
  ultimately show ?thesis by (simp add: cd_inv_def)
qed

lemma cd_inv_step:
  assumes "cd_table p t" "cd_inv tty p t s" "cd_step tty p e s = Some u"
  shows "cd_inv tty p t u"
proof (cases e)
  case Parent
  with assms(3) have st: "cd_parent tty p (cd_pc s) s = Some u" by simp
  show ?thesis
    unfolding cd_inv_def [of tty p t u]
    using cd_kid_inv_parent [OF assms(1,2) st] cd_parent_inv_parent [OF assms(1,2) st] by blast
next
  case Fork_fails
  then obtain i where i: "cd_pc s = D_fork i" "u = s\<lparr>cd_pc := D_say_forked i False\<rparr>"
    using assms(3) by (auto split: cd_ppc.splits)
  have "cd_kid_inv tty p t u j" for j
  proof -
    have "cd_kid_inv tty p t s j" using assms(2) by (simp add: cd_inv_def)
    then show ?thesis using i by (cases tty) (auto simp: cd_kid_inv_def)
  qed
  moreover have "cd_parent_inv tty p t u" using assms(2) i by (simp add: cd_inv_def cd_parent_inv_def)
  ultimately show ?thesis by (simp add: cd_inv_def)
next
  case (Kid i)
  with assms show ?thesis by (auto intro: cd_child_step)
qed

lemma cd_inv_init: "cd_table p t \<Longrightarrow> cd_inv tty p t (cd_start t)"
  by (simp add: cd_inv_def cd_kid_inv_def cd_parent_inv_def cd_start_def cd_loop_def CHILDREN_def)

interpretation cd: step_invariant "cd_step tty p" "cd_start t" "\<lambda>s. cd_table p t \<longrightarrow> cd_inv tty p t s"
  for tty p t
  by unfold_locales (auto intro: cd_inv_init cd_inv_step)

fun cd_rank :: "cd_ppc \<Rightarrow> nat" where
  "cd_rank (D_fork i) = 6 * (CHILDREN - i) + 12"
| "cd_rank (D_say_forked i ok) = 6 * (CHILDREN - i) + 7"
| "cd_rank D_close = 6"
| "cd_rank D_say_reading = 5"
| "cd_rank D_read = 4"
| "cd_rank D_assert = 3"
| "cd_rank D_say_EOF = 2"
| "cd_rank D_return = 1"
| "cd_rank D_done = 0"
| "cd_rank D_abort = 0"

fun cd_krank :: "cd_kpc \<Rightarrow> nat" where
  "cd_krank K_close = 4"
| "cd_krank K_sleep = 3"
| "cd_krank K_say = 2"
| "cd_krank K_exit = 1"
| "cd_krank _ = 0"

definition cd_left :: "cd_state \<Rightarrow> nat" where
  "cd_left s = cd_rank (cd_pc s) + (\<Sum>i \<le> CHILDREN. cd_krank (cd_kid s i))"

lemma sum_krank_upd:
  "i \<le> (n :: nat) \<Longrightarrow> (\<Sum>j \<le> n. cd_krank ((f(i := v)) j)) + cd_krank (f i) = (\<Sum>j \<le> n. cd_krank (f j)) + cd_krank v"
proof -
  assume i: "i \<le> n"
  have "(\<Sum>j \<in> {..n} - {i}. cd_krank ((f(i := v)) j)) = (\<Sum>j \<in> {..n} - {i}. cd_krank (f j))"
    by (rule sum.cong) auto
  then show ?thesis
    using i sum.remove [of "{..n}" i "\<lambda>j. cd_krank ((f(i := v)) j)"] sum.remove [of "{..n}" i "\<lambda>j. cd_krank (f j)"]
    by simp
qed

lemma cd_child_left:
  assumes "cd_child tty p i (cd_kid s i) s = Some u" "i \<le> CHILDREN"
  shows "cd_left u < cd_left s"
proof -
  obtain v where v: "cd_kid u = (cd_kid s)(i := v)" "cd_pc u = cd_pc s" "cd_krank v < cd_krank (cd_kid s i)"
    using assms(1) by (cases "cd_kid s i") (auto split: if_splits)
  then show ?thesis using sum_krank_upd [OF assms(2), of "cd_kid s" v] by (simp add: cd_left_def)
qed

lemma cd_left_step:
  assumes "cd_table p t" "cd_inv tty p t s" "cd_step tty p e s = Some u"
  shows "cd_left u < cd_left s"
proof (cases e)
  case (Kid i)
  have "cd_kid_inv tty p t s i" using assms(2) by (simp add: cd_inv_def)
  moreover have "cd_kid s i \<noteq> K_none" using assms(3) Kid by auto
  moreover have "cd_forked (cd_pc s) \<le> CHILDREN"
    using assms(2) by (cases "cd_pc s") (auto simp: cd_inv_def cd_parent_inv_def)
  ultimately have "i \<le> CHILDREN" by (auto simp: cd_kid_inv_def)
  with cd_child_left assms(3) Kid show ?thesis by simp
next
  case Fork_fails
  then show ?thesis using assms(3) by (auto simp: cd_left_def split: cd_ppc.splits)
next
  case Parent
  have r: "cd_in_range (cd_pc s)" using assms(2) by (simp add: cd_inv_def cd_parent_inv_def)
  show ?thesis
  proof (cases "cd_pc s")
    case (D_fork i)
    then show ?thesis
      using assms(3) Parent r sum_krank_upd [of i CHILDREN "cd_kid s" K_close] by (auto simp: cd_left_def)
  next
    case (D_say_forked i ok)
    then show ?thesis using assms(3) Parent r by (auto simp: cd_left_def cd_print_def cd_loop_def)
  qed (use assms(3) Parent in \<open>auto simp: cd_left_def cd_print_def split: if_splits option.splits\<close>)
qed

lemma cd_left_exec:
  "cd_table p t \<Longrightarrow> cd_inv tty p t s \<Longrightarrow> exec (cd_step tty p) es s = Some u \<Longrightarrow> length es + cd_left u \<le> cd_left s"
proof (induction es arbitrary: s)
  case (Cons e es)
  then obtain v where v: "cd_step tty p e s = Some v" "exec (cd_step tty p) es v = Some u"
    by (auto split: option.splits)
  from Cons.IH [OF Cons.prems(1) cd_inv_step [OF Cons.prems(1,2) v(1)] v(2)] cd_left_step [OF Cons.prems(1,2) v(1)]
  show ?case by simp
qed simp

lemma cd_progress:
  assumes "cd_table p t" "cd_inv tty p t s" "cd_pc s \<noteq> D_done"
  shows "(\<exists>u. cd_step tty p Parent s = Some u) \<or> (\<exists>i u. cd_step tty p (Kid i) s = Some u)"
proof (cases "cd_pc s = D_read")
  case True
  show ?thesis
  proof (cases "\<forall>i. cd_kid s i = K_none \<or> cd_kid s i = K_gone")
    case False
    then obtain i where "cd_kid s i \<noteq> K_none" "cd_kid s i \<noteq> K_gone" by blast
    then have "\<exists>u. cd_step tty p (Kid i) s = Some u" by (cases "cd_kid s i") auto
    then show ?thesis by blast
  qed (use cd_read_EOF [OF assms(1,2) True] True in simp)
next
  case False
  have "cd_pc s \<noteq> D_abort" using assms(2) by (auto simp: cd_inv_def cd_parent_inv_def)
  then show ?thesis using assms(3) False by (cases "cd_pc s") auto
qed

lemma cd_table_pipe:
  assumes "pd_pipe tbl = (r, w, t)" "\<not> pd_holds Pipe_w tbl"
  shows "cd_table (r, w) t"
proof -
  have none: "pd_at tbl fd \<noteq> Some Pipe_w" for fd using assms(2) by (auto simp: pd_holds_at)
  show ?thesis using pd_pipe_props [OF assms(1)] none by (auto simp: cd_table_def)
qed

text \<open>
  C8: \<open>countdown.c\<close>, whichever forks fail and however the processes are scheduled: \<open>read\<close> returns to the
  parent only after every child there is has ended, and always with 0, so that the assertion never
  fails; until the parent has ended some process can move, and after at most 24 steps it has. On a
  terminal the line about the end of the file is the last one, and exactly the lines of the children
  that were forked stand before it. If the output is a file or a pipe, no child's line appears at
  all: \<open>_exit\<close> does not write the buffer out.
\<close>

theorem cd_countdown:
  assumes "\<not> pd_holds Pipe_w tbl" "cd_main True tbl = Inr (p, s0)" "exec (cd_step tty p) es s0 = Some s"
  shows "(cd_n s \<noteq> None \<longrightarrow> cd_n s = Some 0 \<and> (\<forall>i. cd_kid s i = K_none \<or> cd_kid s i = K_gone))
    \<and> cd_pc s \<noteq> D_abort
    \<and> (cd_pc s \<noteq> D_done \<longrightarrow>
         (\<exists>u. cd_step tty p Parent s = Some u) \<or> (\<exists>i u. cd_step tty p (Kid i) s = Some u))
    \<and> length es \<le> 24
    \<and> (cd_pc s = D_done \<longrightarrow> (\<exists>ms. cd_out s = ms @ [Parent_got_EOF]
         \<and> (\<forall>i. Child_exiting i \<in> set ms \<longleftrightarrow> tty \<and> cd_kid s i = K_gone)))"
proof -
  obtain t where t: "pd_pipe tbl = (fst p, snd p, t)" "s0 = cd_start t"
    using assms(2) by (auto simp: cd_main_def split: prod.splits)
  have tab: "cd_table p t" using cd_table_pipe [OF t(1) assms(1)] by simp
  have inv: "cd_inv tty p t s"
    using cd.exec_inv [of p t tty s0 es s] cd_inv_init [OF tab] assms(3) t(2) tab by simp
  then have pi: "cd_parent_inv tty p t s" and ki: "\<And>i. cd_kid_inv tty p t s i" by (simp_all add: cd_inv_def)
  have "cd_left s0 \<le> 24" by (simp add: t(2) cd_start_def cd_left_def cd_loop_def CHILDREN_def)
  then have "length es \<le> 24"
    using cd_left_exec [OF tab _ assms(3)] cd_inv_init [OF tab] t(2) by fastforce
  moreover have "cd_n s = Some 0 \<and> (\<forall>i. cd_kid s i = K_none \<or> cd_kid s i = K_gone)" if "cd_n s \<noteq> None"
    using pi ki that by (auto simp: cd_parent_inv_def cd_kid_inv_def split: if_splits)
  moreover have "\<exists>ms. cd_out s = ms @ [Parent_got_EOF] \<and> (\<forall>i. Child_exiting i \<in> set ms \<longleftrightarrow> tty \<and> cd_kid s i = K_gone)"
    if "cd_pc s = D_done"
  proof -
    obtain ms where ms: "cd_out s = ms @ [Parent_got_EOF]" using pi \<open>cd_pc s = D_done\<close> by (auto simp: cd_parent_inv_def)
    have "Child_exiting i \<in> set ms \<longleftrightarrow> tty \<and> cd_kid s i = K_gone" for i
      using ki [of i] that by (cases tty) (auto simp: cd_kid_inv_def ms)
    with ms show ?thesis by blast
  qed
  ultimately show ?thesis using cd_progress [OF tab inv] pi by (auto simp: cd_parent_inv_def)
qed

theorem cd_countdown_witness:
  "\<exists>s :: cd_state. cd_out s = [Parent_forked 1 True, Parent_forked 2 False, Parent_forked 3 True, Parent_reading, Parent_got_EOF]
     \<and> cd_kid s 1 = K_gone \<and> cd_n s = Some 0"
proof -
  let ?es = "[Parent, Parent, Fork_fails, Parent, Parent, Parent, Parent] @ replicate 4 (Kid 3) @ [Parent]
    @ replicate 4 (Kid 1) @ replicate 4 Parent"
  have tbl: "\<not> pd_holds Pipe_w [Some (File ''tty'')]" by code_simp
  have m: "cd_main True [Some (File ''tty'')] = Inr ((1, 2), cd_start [Some (File ''tty''), Some Pipe_r, Some Pipe_w])"
    by (simp add: cd_main_def pd_pipe_def)
  have "case exec (cd_step False (1, 2)) ?es (cd_start [Some (File ''tty''), Some Pipe_r, Some Pipe_w]) of
      None \<Rightarrow> False
    | Some s \<Rightarrow> cd_out s = [Parent_forked 1 True, Parent_forked 2 False, Parent_forked 3 True, Parent_reading, Parent_got_EOF]
        \<and> cd_kid s 1 = K_gone \<and> cd_n s \<noteq> None"
    by code_simp
  then obtain s where s: "exec (cd_step False (1, 2)) ?es (cd_start [Some (File ''tty''), Some Pipe_r, Some Pipe_w]) = Some s"
    "cd_out s = [Parent_forked 1 True, Parent_forked 2 False, Parent_forked 3 True, Parent_reading, Parent_got_EOF]"
    "cd_kid s 1 = K_gone" "cd_n s \<noteq> None" by (auto split: option.splits)
  from cd_countdown [OF tbl m s(1)] s(2-4) show ?thesis by blast
qed

section \<open>Readers and writers that are alone\<close>

text \<open>
  \<open>broken-pipe.c\<close> and \<open>deadlock-in-read.c\<close>; no other process holds an end of their pipe. Whether
  \<open>SIGPIPE\<close> is ignored is inherited from the shell. \<open>fifo/open-sleep-read.c\<close>, whose \<open>printf\<close> is
  buffered unless the output is a terminal while \<open>write\<close> is not.
\<close>

datatype lone_result = Exits int string | Killed_by_SIGPIPE | Blocks_for_ever

definition bp_main :: "bool \<Rightarrow> bool \<Rightarrow> pd_table \<Rightarrow> lone_result" where
  "bp_main pipe_ok sigpipe_ignored tbl =
     (if \<not> pipe_ok then Exits 1 ''pipe''
      else case pd_pipe tbl of (r, w, t) \<Rightarrow>
        let t1 = pd_close r t in
        if pd_at t1 w \<noteq> Some Pipe_w then Exits 1 ''write''
        else if pd_holds Pipe_r t1 then Exits 0 []
        else if sigpipe_ignored then Exits 1 ''write''
        else Killed_by_SIGPIPE)"

definition dr_main :: "bool \<Rightarrow> bool \<Rightarrow> pd_table \<Rightarrow> lone_result" where
  "dr_main close_write_end pipe_ok tbl =
     (if \<not> pipe_ok then Exits 1 ''pipe''
      else case pd_pipe tbl of (r, w, t) \<Rightarrow>
        let t1 = (if close_write_end then pd_close w t else t) in
        (case pd_read [t1] [] 4 of None \<Rightarrow> Blocks_for_ever | Some d \<Rightarrow> Exits 0 []))"

definition fo_main :: "bool \<Rightarrow> nat \<Rightarrow> int option \<Rightarrow> string option \<Rightarrow> string option \<Rightarrow> exit_info + string" where
  "fo_main tty argc opened read1 read2 =
     (if argc \<noteq> 2 then Inl Abort
      else case opened of
        None \<Rightarrow> Inl (Exit 1 ''open'')
      | Some fd \<Rightarrow>
         (case read1 of
            None \<Rightarrow> Inl (Exit 1 ''read'')
          | Some d \<Rightarrow>
              let now = ''Reading now from fd '' @ show_int fd @ ''.'' @ nl;
                  again = ''Reading again from fd '' @ show_int fd @ ''.'' @ nl;
                  n = (case read2 of None \<Rightarrow> - 1 | Some e \<Rightarrow> int (length e));
                  ret = ''Read returned '' @ show_int n @ ''.'' @ nl
              in Inr (if tty then now @ d @ again @ ret else d @ now @ again @ ret)))"

text \<open>
  A process that is alone with its pipe, whatever else it has open: with the reading end closed
  its \<open>write\<close> kills it, or fails if \<open>SIGPIPE\<close> is ignored; with the writing end open its own \<open>read\<close>
  waits for ever, with it closed \<open>read\<close> returns at once. Reading a FIFO left by a writer that is
  gone, \<open>open-sleep-read.c\<close> sees the whole of up to 128 bytes and then the end; the bytes come
  before all messages if the output is not a terminal.
\<close>

theorem lone_ends:
  "(\<not> pd_holds Pipe_r tbl \<and> \<not> pd_holds Pipe_w tbl \<longrightarrow>
      bp_main True ignored tbl = (if ignored then Exits 1 ''write'' else Killed_by_SIGPIPE)
      \<and> dr_main closed True tbl = (if closed then Exits 0 [] else Blocks_for_ever))
   \<and> (d \<noteq> [] \<and> length d \<le> 128 \<longrightarrow>
      (\<exists>now again. fo_main tty 2 (Some fd) (pd_read [] d 128) (pd_read [] (drop 128 d) 128)
        = Inr (if tty then now @ d @ again @ ''Read returned 0.'' @ nl else d @ now @ again @ ''Read returned 0.'' @ nl)))"
proof (intro conjI impI)
  assume "\<not> pd_holds Pipe_r tbl \<and> \<not> pd_holds Pipe_w tbl"
  then have no: "pd_at tbl fd \<noteq> Some Pipe_r" "pd_at tbl fd \<noteq> Some Pipe_w" for fd by (auto simp: pd_holds_at)
  obtain r w t where p: "pd_pipe tbl = (r, w, t)" by (cases "pd_pipe tbl") auto
  note at = pd_pipe_props [OF p]
  have "\<not> pd_holds Pipe_r (pd_close r t)" "pd_at (pd_close r t) w = Some Pipe_w"
    using at no by (auto simp: pd_holds_at)
  then show "bp_main True ignored tbl = (if ignored then Exits 1 ''write'' else Killed_by_SIGPIPE)"
    by (simp add: bp_main_def p)
  have "pd_holds Pipe_w t" unfolding pd_holds_at by (rule exI [of _ w]) (use at in simp)
  moreover have "\<not> pd_holds Pipe_w (pd_close w t)" using at no by (auto simp: pd_holds_at)
  ultimately show "dr_main closed True tbl = (if closed then Exits 0 [] else Blocks_for_ever)"
    by (simp add: dr_main_def p pd_read_def)
next
  assume "d \<noteq> [] \<and> length d \<le> 128"
  moreover have "show_int 0 = ''0''" by code_simp
  ultimately show "\<exists>now again. fo_main tty 2 (Some fd) (pd_read [] d 128) (pd_read [] (drop 128 d) 128)
        = Inr (if tty then now @ d @ again @ ''Read returned 0.'' @ nl else d @ now @ again @ ''Read returned 0.'' @ nl)"
    by (rule_tac x = "''Reading now from fd '' @ show_int fd @ ''.'' @ nl" in exI,
        rule_tac x = "''Reading again from fd '' @ show_int fd @ ''.'' @ nl" in exI)
      (simp add: fo_main_def pd_read_def)
qed

theorem lone_ends_witness:
  "bp_main True False [] = Killed_by_SIGPIPE \<and> dr_main False True [Some (File ''tty'')] = Blocks_for_ever
   \<and> (\<exists>now again. fo_main True 2 (Some 3) (pd_read [] ''hello'' 128) (pd_read [] (drop 128 ''hello'') 128)
      = Inr (now @ ''hello'' @ again @ ''Read returned 0.'' @ nl))"
  using lone_ends [of "[]" False False "''hello''" True 3] lone_ends [of "[Some (File ''tty'')]" False False]
  by (simp add: pd_holds_def)

end
