(* ===== verification/Signals.thy ===== *)
theory Signals
  imports Prelude
begin

text \<open>
  The programs of \<open>signals/\<close> (\<open>sigqueue.c\<close> is in \<open>Process_Status\<close>): what the kernel keeps about one
  signal of one process, and the programs as machines whose environment sends signals and input at
  any moment.
\<close>

section \<open>One signal of a process\<close>

text \<open>
  Its disposition, whether it is blocked and whether it is pending. A signal sent again while it is
  pending is merged with the first.
\<close>

datatype disposition = Default | Caught | Ignored

record sig_state =
  sg_disp :: disposition
  sg_blocked :: bool
  sg_pending :: bool

datatype sig_effect = No_effect | Run_handler | Kill

definition sig_fresh :: sig_state where
  "sig_fresh = \<lparr>sg_disp = Default, sg_blocked = False, sg_pending = False\<rparr>"

text \<open>
  Delivery of a signal whose default action ends the process. A handler installed by \<open>sigaction\<close>
  runs with the signal blocked.
\<close>

definition sig_deliver :: "sig_state \<Rightarrow> sig_state \<times> sig_effect" where
  "sig_deliver g =
     (case sg_disp g of
        Default \<Rightarrow> (g\<lparr>sg_pending := False\<rparr>, Kill)
      | Ignored \<Rightarrow> (g\<lparr>sg_pending := False\<rparr>, No_effect)
      | Caught \<Rightarrow> (g\<lparr>sg_pending := False, sg_blocked := True\<rparr>, Run_handler))"

definition sig_send :: "sig_state \<Rightarrow> sig_state \<times> sig_effect" where
  "sig_send g = (if sg_blocked g then (g\<lparr>sg_pending := True\<rparr>, No_effect) else sig_deliver g)"

text \<open>Unblocking, by \<open>sigprocmask\<close> or by the return of a handler, delivers a pending signal.\<close>

definition sig_unblock :: "sig_state \<Rightarrow> sig_state \<times> sig_effect" where
  "sig_unblock g = (if sg_pending g then sig_deliver (g\<lparr>sg_blocked := False\<rparr>) else (g\<lparr>sg_blocked := False\<rparr>, No_effect))"

lemmas sig_defs = sig_fresh_def sig_deliver_def sig_send_def sig_unblock_def

section \<open>\<open>sigpending.c\<close>\<close>

text \<open>The handler only writes its message, so its runs are single steps.\<close>

datatype sp_pc =
    G_block | G_install | G_say | G_read | G_pending | G_assert | G_say_pending | G_say_unblock | G_unblock
  | G_say_send | G_pause | G_exit int | G_abort | G_killed

datatype sp_msg = Sp_caught | Sp_say string

record sp_state =
  sp_pc :: sp_pc
  sp_sig :: sig_state
  sp_fresh :: bool
  sp_out :: "sp_msg list"

datatype sp_event = Main | Term | Enter | Read_fails

text \<open>What a delivery does: \<open>pause()\<close> returns after a handler has run, and \<open>main()\<close> with it.\<close>

fun sp_effect :: "sig_state \<times> sig_effect \<Rightarrow> sp_state \<Rightarrow> sp_state" where
  "sp_effect (g, No_effect) s = s\<lparr>sp_sig := g\<rparr>"
| "sp_effect (g, Kill) s = s\<lparr>sp_sig := g, sp_pc := G_killed\<rparr>"
| "sp_effect (g, Run_handler) s =
     s\<lparr>sp_sig := g\<lparr>sg_blocked := False\<rparr>, sp_out := sp_out s @ [Sp_caught],
       sp_pc := (if sp_pc s = G_pause then G_exit 0 else sp_pc s)\<rparr>"

definition sp_print :: "sp_pc \<Rightarrow> string \<Rightarrow> sp_state \<Rightarrow> sp_state" where
  "sp_print p m s = s\<lparr>sp_pc := p, sp_out := sp_out s @ [Sp_say m]\<rparr>"

fun sp_main_stmt :: "sp_pc \<Rightarrow> sp_state \<Rightarrow> sp_state option" where
  "sp_main_stmt G_block s = Some (s\<lparr>sp_pc := G_install, sp_sig := (sp_sig s)\<lparr>sg_blocked := True\<rparr>\<rparr>)"
| "sp_main_stmt G_install s = Some (s\<lparr>sp_pc := G_say, sp_sig := (sp_sig s)\<lparr>sg_disp := Caught\<rparr>\<rparr>)"
| "sp_main_stmt G_say s = Some (sp_print G_read ''send me a SIGTERM, then pres Enter'' s)"
| "sp_main_stmt G_pending s = Some (s\<lparr>sp_pc := G_assert, sp_fresh := sg_pending (sp_sig s)\<rparr>)"
| "sp_main_stmt G_assert s = Some (s\<lparr>sp_pc := (if sp_fresh s then G_say_pending else G_abort)\<rparr>)"
| "sp_main_stmt G_say_pending s = Some (sp_print G_say_unblock ''Yes, we have a pending SIGTERM.'' s)"
| "sp_main_stmt G_say_unblock s = Some (sp_print G_unblock ''Ublocking SIGTERM'' s)"
| "sp_main_stmt G_unblock s = Some (sp_effect (sig_unblock (sp_sig s)) (s\<lparr>sp_pc := G_say_send\<rparr>))"
| "sp_main_stmt G_say_send s = Some (sp_print G_pause ''Send another signal to terminate the program'' s)"
| "sp_main_stmt _ s = None"

fun sp_over :: "sp_pc \<Rightarrow> bool" where
  "sp_over (G_exit n) = True"
| "sp_over G_abort = True"
| "sp_over G_killed = True"
| "sp_over _ = False"

fun sp_step :: "sp_event \<Rightarrow> sp_state \<Rightarrow> sp_state option" where
  "sp_step Main s = sp_main_stmt (sp_pc s) s"
| "sp_step Term s = (if sp_over (sp_pc s) then None else Some (sp_effect (sig_send (sp_sig s)) s))"
| "sp_step Enter s = (if sp_pc s = G_read then Some (s\<lparr>sp_pc := G_pending\<rparr>) else None)"
| "sp_step Read_fails s = (if sp_pc s = G_read then Some (s\<lparr>sp_pc := G_exit 1\<rparr>) else None)"

definition sp_init :: sp_state where
  "sp_init = \<lparr>sp_pc = G_block, sp_sig = sig_fresh, sp_fresh = False, sp_out = []\<rparr>"

definition sp_caught :: "sp_state \<Rightarrow> nat" where
  "sp_caught s = count_list (sp_out s) Sp_caught"

text \<open>What holds at each statement, given whether a \<open>SIGTERM\<close> was sent.\<close>

fun sp_inv :: "sp_event list \<Rightarrow> sp_state \<Rightarrow> bool" where
  "sp_inv es s =
     (case sp_pc s of
        G_block \<Rightarrow> es = [] \<and> sp_sig s = sig_fresh \<and> sp_caught s = 0
      | G_killed \<Rightarrow> es = [Term]
      | G_exit n \<Rightarrow> True
      | G_abort \<Rightarrow> sp_caught s = 0
      | p \<Rightarrow>
          (if p = G_say_send \<or> p = G_pause
           then sp_sig s = \<lparr>sg_disp = Caught, sg_blocked = False, sg_pending = False\<rparr> \<and> 1 \<le> sp_caught s
           else sg_blocked (sp_sig s) \<and> sg_pending (sp_sig s) = (Term \<in> set es) \<and> sp_caught s = 0
             \<and> (p \<noteq> G_install \<longrightarrow> sg_disp (sp_sig s) = Caught)
             \<and> (p = G_assert \<and> sp_fresh s \<or> p \<in> {G_say_pending, G_say_unblock, G_unblock} \<longrightarrow> Term \<in> set es)))"

lemma sp_effect_pending:
  assumes "sg_blocked (sp_sig s)"
  shows "sp_effect (sig_send (sp_sig s)) s = s\<lparr>sp_sig := (sp_sig s)\<lparr>sg_pending := True\<rparr>\<rparr>"
  using assms by (simp add: sig_send_def)

lemma sp_effect_caught:
  assumes "sp_sig s = \<lparr>sg_disp = Caught, sg_blocked = False, sg_pending = False\<rparr>"
  shows "sp_effect (sig_send (sp_sig s)) s =
    s\<lparr>sp_out := sp_out s @ [Sp_caught], sp_pc := (if sp_pc s = G_pause then G_exit 0 else sp_pc s)\<rparr>"
  using assms by (simp add: sig_defs)

lemma sp_inv_step: "sp_inv es s \<Longrightarrow> sp_step e s = Some t \<Longrightarrow> sp_inv (es @ [e]) t"
proof (cases e)
  case Main
  assume "sp_inv es s" "sp_step e s = Some t"
  then show ?thesis
    using Main by (cases "sp_pc s") (auto simp: sp_print_def sp_caught_def sig_defs)
next
  case Term
  assume "sp_inv es s" "sp_step e s = Some t"
  then show ?thesis
    using Term by (cases "sp_pc s") (auto simp: sp_effect_pending sp_effect_caught sp_caught_def sig_defs)
next
  case Enter
  assume "sp_inv es s" "sp_step e s = Some t"
  then show ?thesis using Enter by (auto simp: sp_caught_def split: if_splits)
next
  case Read_fails
  assume "sp_inv es s" "sp_step e s = Some t"
  then show ?thesis using Read_fails by (auto split: if_splits)
qed

lemma sp_inv_exec: "exec sp_step es sp_init = Some s \<Longrightarrow> sp_inv es s"
  by (induction rule: exec_snoc_induct) (simp add: sp_init_def sp_caught_def, rule sp_inv_step)

text \<open>
  \<open>sigpending.c\<close>: only a \<open>SIGTERM\<close> before the very first call kills it. However many are sent
  while the signal is blocked, the handler does not run; after Enter the assertion holds exactly if
  there was one; unblocking runs the handler once, however many there were; and a \<open>SIGTERM\<close> during
  \<open>pause()\<close> runs it once more and ends the program with status 0.
\<close>

theorem sp_pending_once:
  assumes "exec sp_step es sp_init = Some s"
  shows "(sp_pc s = G_killed \<longrightarrow> es = [Term])
    \<and> (sp_pc s = G_pending \<longrightarrow> sp_caught s = 0
        \<and> runs sp_step [Main, Main] s (\<lambda>t. sp_pc t = (if Term \<in> set es then G_say_pending else G_abort)))
    \<and> (sp_pc s = G_unblock \<longrightarrow> sp_caught s = 0
        \<and> runs sp_step [Main] s (\<lambda>t. sp_pc t = G_say_send \<and> sp_caught t = 1))
    \<and> (sp_pc s = G_pause \<longrightarrow> runs sp_step [Term] s (\<lambda>t. sp_pc t = G_exit 0 \<and> sp_caught t = Suc (sp_caught s)))"
proof -
  have "sp_inv es s" using assms by (rule sp_inv_exec)
  then show ?thesis
    by (cases "sp_pc s") (auto simp: sp_effect_caught sp_caught_def sig_defs)
qed

theorem sp_pending_once_witness:
  "\<exists>s :: sp_state. sp_pc s = G_unblock \<and> sp_caught s = 0 \<and> runs sp_step [Main] s (\<lambda>t. sp_pc t = G_say_send \<and> sp_caught t = 1)"
proof -
  let ?es = "[Main, Term, Main, Main, Term, Term, Enter, Main, Main, Main, Term, Main]"
  have "case exec sp_step ?es sp_init of None \<Rightarrow> False | Some s \<Rightarrow> sp_pc s = G_unblock" by code_simp
  then obtain s where "exec sp_step ?es sp_init = Some s" "sp_pc s = G_unblock" by (auto split: option.splits)
  with sp_pending_once [of ?es s] show ?thesis by blast
qed

section \<open>\<open>ping-pong.c\<close>\<close>

text \<open>
  Parent and child are each at a statement of \<open>main()\<close> or in the handler, which writes \<open>msg\<close>, sleeps
  and sends the signal to \<open>pid\<close>. A handler that finds \<open>msg\<close> not yet set crashes. \<open>timely\<close> says that
  the parent's \<open>sleep(1)\<close> lasts until the child is in its loop. \<open>printf\<close> goes to a terminal.
\<close>

datatype pp_pc = Q_sigaction | Q_getppid | Q_msg | Q_say | Q_kill | Q_pause | Q_killed | Q_crashed

datatype pp_stage = H_none | H_write | H_kill

datatype pp_who = Parent | Child

datatype pp_msg = Initiating | Killing pp_who

record pp_proc =
  pp_pc :: pp_pc
  pp_stage :: pp_stage
  pp_sig :: sig_state
  pp_has_pid :: bool
  pp_has_msg :: bool

record pp_state =
  pp_proc :: "pp_who \<Rightarrow> pp_proc"
  pp_out :: "pp_msg list"

fun pp_peer :: "pp_who \<Rightarrow> pp_who" where
  "pp_peer Parent = Child"
| "pp_peer Child = Parent"

fun pp_dead :: "pp_pc \<Rightarrow> bool" where
  "pp_dead Q_killed = True"
| "pp_dead Q_crashed = True"
| "pp_dead _ = False"

definition pp_set :: "pp_who \<Rightarrow> pp_proc \<Rightarrow> pp_state \<Rightarrow> pp_state" where
  "pp_set w p s = s\<lparr>pp_proc := (pp_proc s)(w := p)\<rparr>"

fun pp_effect :: "sig_state \<times> sig_effect \<Rightarrow> pp_proc \<Rightarrow> pp_proc" where
  "pp_effect (g, No_effect) p = p\<lparr>pp_sig := g\<rparr>"
| "pp_effect (g, Kill) p = p\<lparr>pp_sig := g, pp_pc := Q_killed\<rparr>"
| "pp_effect (g, Run_handler) p = p\<lparr>pp_sig := g, pp_stage := H_write\<rparr>"

text \<open>\<open>kill(pid, SIGTERM)\<close> to the process \<open>w\<close>; one that is dead is not affected.\<close>

definition pp_send :: "pp_who \<Rightarrow> pp_state \<Rightarrow> pp_state" where
  "pp_send w s =
     (let p = pp_proc s w in if pp_dead (pp_pc p) then s else pp_set w (pp_effect (sig_send (pp_sig p)) p) s)"

text \<open>In the child \<open>pid\<close> is 0 until it is set: the signal then goes to the whole process group.\<close>

definition pp_kill :: "pp_who \<Rightarrow> pp_state \<Rightarrow> pp_state" where
  "pp_kill w s = (if pp_has_pid (pp_proc s w) then pp_send (pp_peer w) s else pp_send Parent (pp_send Child s))"

fun pp_handler :: "pp_who \<Rightarrow> pp_stage \<Rightarrow> pp_state \<Rightarrow> pp_state option" where
  "pp_handler w H_none s = None"
| "pp_handler w H_write s =
     (let p = pp_proc s w in
        if pp_has_msg p then Some ((pp_set w (p\<lparr>pp_stage := H_kill\<rparr>) s)\<lparr>pp_out := pp_out s @ [Killing w]\<rparr>)
        else Some (pp_set w (p\<lparr>pp_pc := Q_crashed\<rparr>) s))"
| "pp_handler w H_kill s =
     (let t = pp_kill w s; p = pp_proc t w in
        Some (pp_set w (pp_effect (sig_unblock (pp_sig p)) (p\<lparr>pp_stage := H_none\<rparr>)) t))"

text \<open>
  The statements of \<open>main()\<close> after \<open>fork()\<close>. The call of \<open>sigaction\<close>, which has a valid signal and a valid address, is taken to
  succeed; what happens if \<open>fork()\<close> fails is in \<open>pp_main\<close>.
\<close>

fun pp_main_stmt :: "bool \<Rightarrow> pp_who \<Rightarrow> pp_pc \<Rightarrow> pp_state \<Rightarrow> pp_state option" where
  "pp_main_stmt timely w Q_sigaction s =
     (let p = pp_proc s w in
        Some (pp_set w (p\<lparr>pp_sig := (pp_sig p)\<lparr>sg_disp := Caught\<rparr>, pp_pc := (if w = Child then Q_getppid else Q_msg)\<rparr>) s))"
| "pp_main_stmt timely w Q_getppid s = Some (pp_set w ((pp_proc s w)\<lparr>pp_has_pid := True, pp_pc := Q_msg\<rparr>) s)"
| "pp_main_stmt timely w Q_msg s =
     Some (pp_set w ((pp_proc s w)\<lparr>pp_has_msg := True, pp_pc := (if w = Child then Q_pause else Q_say)\<rparr>) s)"
| "pp_main_stmt timely w Q_say s =
     Some ((pp_set w ((pp_proc s w)\<lparr>pp_pc := Q_kill\<rparr>) s)\<lparr>pp_out := pp_out s @ [Initiating]\<rparr>)"
| "pp_main_stmt timely w Q_kill s =
     (if timely \<and> pp_pc (pp_proc s Child) \<noteq> Q_pause then None
      else Some (pp_kill w (pp_set w ((pp_proc s w)\<lparr>pp_pc := Q_pause\<rparr>) s)))"
| "pp_main_stmt timely w _ s = None"

definition pp_step :: "bool \<Rightarrow> pp_who \<Rightarrow> pp_state \<Rightarrow> pp_state option" where
  "pp_step timely w s =
     (let p = pp_proc s w in
        if pp_dead (pp_pc p) then None
        else if pp_stage p \<noteq> H_none then pp_handler w (pp_stage p) s
        else pp_main_stmt timely w (pp_pc p) s)"

definition pp_start :: pp_state where
  "pp_start = \<lparr>pp_proc = (\<lambda>w. \<lparr>pp_pc = Q_sigaction, pp_stage = H_none, pp_sig = sig_fresh,
     pp_has_pid = (w = Parent), pp_has_msg = False\<rparr>), pp_out = []\<rparr>"

definition pp_main :: "bool \<Rightarrow> exit_info + pp_state" where
  "pp_main fork_ok = (if \<not> fork_ok then Inl (Exit 1 ''fork'') else Inr pp_start)"

fun pp_rally :: "nat \<Rightarrow> pp_msg list" where
  "pp_rally 0 = []"
| "pp_rally (Suc n) = pp_rally n @ [Killing (if even n then Child else Parent)]"

definition pp_calm :: sig_state where
  "pp_calm = \<lparr>sg_disp = Caught, sg_blocked = False, sg_pending = False\<rparr>"

text \<open>A process outside its handler, and in it.\<close>

definition pp_at :: "pp_who \<Rightarrow> pp_pc \<Rightarrow> pp_proc" where
  "pp_at w pc = \<lparr>pp_pc = pc, pp_stage = H_none, pp_sig = (if pc = Q_sigaction then sig_fresh else pp_calm),
     pp_has_pid = (w = Parent \<or> pc \<noteq> Q_sigaction \<and> pc \<noteq> Q_getppid),
     pp_has_msg = (pc \<noteq> Q_sigaction \<and> pc \<noteq> Q_getppid \<and> pc \<noteq> Q_msg)\<rparr>"

definition pp_in :: "pp_who \<Rightarrow> pp_stage \<Rightarrow> pp_proc" where
  "pp_in w st = (pp_at w Q_pause)\<lparr>pp_stage := st, pp_sig := pp_calm\<lparr>sg_blocked := True\<rparr>\<rparr>"

definition pp_setup :: "pp_state \<Rightarrow> bool" where
  "pp_setup s \<longleftrightarrow> (\<exists>p c. pp_proc s Parent = pp_at Parent p \<and> pp_proc s Child = pp_at Child c
     \<and> p \<in> {Q_sigaction, Q_msg, Q_say, Q_kill} \<and> c \<in> {Q_sigaction, Q_getppid, Q_msg, Q_pause}
     \<and> pp_out s = (if p = Q_kill then [Initiating] else []))"

definition pp_play :: "pp_who \<Rightarrow> pp_stage \<Rightarrow> nat \<Rightarrow> pp_state \<Rightarrow> bool" where
  "pp_play w st n s \<longleftrightarrow> pp_proc s w = pp_in w st \<and> pp_proc s (pp_peer w) = pp_at (pp_peer w) Q_pause
     \<and> pp_out s = Initiating # pp_rally n
     \<and> (st = H_write \<and> w = (if even n then Child else Parent) \<or> st = H_kill \<and> w = (if even n then Parent else Child))"

definition pp_inv :: "pp_state \<Rightarrow> bool" where
  "pp_inv s \<longleftrightarrow> pp_setup s \<or> (\<exists>w st n. pp_play w st n s)"

lemmas pp_defs = pp_at_def pp_in_def pp_calm_def sig_defs pp_set_def pp_send_def pp_kill_def

lemma pp_peer_simps [simp]: "pp_peer w \<noteq> w" "w \<noteq> pp_peer w" "pp_peer (pp_peer w) = w"
  by (cases w; simp)+

fun pp_next :: "pp_who \<Rightarrow> pp_pc \<Rightarrow> pp_pc" where
  "pp_next w Q_sigaction = (if w = Child then Q_getppid else Q_msg)"
| "pp_next w Q_getppid = Q_msg"
| "pp_next w Q_msg = (if w = Child then Q_pause else Q_say)"
| "pp_next w Q_say = Q_kill"
| "pp_next w p = p"

lemma pp_setup_stmt:
  assumes "pp_proc s w = pp_at w c" "pp_step timely w s = Some t" "c \<noteq> Q_kill"
    "w = Child \<longrightarrow> c \<noteq> Q_say" "w = Parent \<longrightarrow> c \<noteq> Q_getppid"
  shows "c \<noteq> Q_pause \<and> pp_proc t = (pp_proc s)(w := pp_at w (pp_next w c))
    \<and> pp_out t = (if c = Q_say then pp_out s @ [Initiating] else pp_out s)"
proof -
  have "pp_main_stmt timely w c s = Some t"
    using assms(1,2) by (cases c) (simp_all add: pp_step_def pp_at_def Let_def)
  then have st: "Some t = pp_main_stmt timely w c s" by simp
  show ?thesis
  proof (cases w)
    case Parent
    then have at: "pp_proc s Parent = pp_at Parent c" using assms(1) by simp
    show ?thesis
      using st assms(3-5) unfolding Parent
      by (cases c; simp add: at pp_set_def Let_def; simp add: pp_at_def pp_calm_def sig_fresh_def)
  next
    case Child
    then have at: "pp_proc s Child = pp_at Child c" using assms(1) by simp
    show ?thesis
      using st assms(3-5) unfolding Child
      by (cases c; simp add: at pp_set_def Let_def; simp add: pp_at_def pp_calm_def sig_fresh_def)
  qed
qed

lemma pp_setup_step:
  assumes "pp_setup s" "pp_step True w s = Some t"
  shows "pp_setup t \<or> pp_play Child H_write 0 t"
proof -
  obtain p c where i: "pp_proc s Parent = pp_at Parent p" "pp_proc s Child = pp_at Child c"
    "p \<in> {Q_sigaction, Q_msg, Q_say, Q_kill}" "c \<in> {Q_sigaction, Q_getppid, Q_msg, Q_pause}"
    "pp_out s = (if p = Q_kill then [Initiating] else [])"
    using assms(1) unfolding pp_setup_def by blast
  show ?thesis
  proof (cases "w = Parent \<and> p = Q_kill")
    case True
    with i assms(2) show ?thesis
      by (intro disjI2) (auto simp: pp_play_def pp_step_def pp_defs Let_def split: if_splits)
  next
    case False
    show ?thesis
    proof (cases w)
      case Child
      from pp_setup_stmt [of s w c True t] assms(2) i Child
      have "c \<noteq> Q_pause" "pp_proc t = (pp_proc s)(Child := pp_at Child (pp_next Child c))" "pp_out t = pp_out s" by auto
      moreover have "pp_next Child c \<in> {Q_getppid, Q_msg, Q_pause}" using i(4) calculation(1) by auto
      ultimately show ?thesis unfolding pp_setup_def using i
        by (intro disjI1 exI [of _ p] exI [of _ "pp_next Child c"]) auto
    next
      case Parent
      from pp_setup_stmt [of s w p True t] assms(2) i Parent False
      have "pp_proc t = (pp_proc s)(Parent := pp_at Parent (pp_next Parent p))"
        "pp_out t = (if p = Q_say then [Initiating] else [])" by auto
      moreover have "pp_next Parent p \<in> {Q_msg, Q_say, Q_kill}" "pp_next Parent p = Q_kill \<longleftrightarrow> p = Q_say"
        using i(3) False Parent by auto
      ultimately show ?thesis unfolding pp_setup_def using i
        by (intro disjI1 exI [of _ "pp_next Parent p"] exI [of _ c]) auto
    qed
  qed
qed

lemma pp_play_step:
  assumes "pp_play w st n s" "pp_step timely v s = Some t"
  shows "v = w \<and> (if st = H_write then pp_play w H_kill (Suc n) t else pp_play (pp_peer w) H_write n t)"
proof -
  have v: "v = w"
  proof (rule ccontr)
    assume "v \<noteq> w"
    then have "v = pp_peer w" by (cases v; cases w) auto
    with assms show False by (simp add: pp_play_def pp_step_def pp_at_def)
  qed
  consider "st = H_write" | "st = H_kill" using assms(1) by (auto simp: pp_play_def)
  then show ?thesis
  proof cases
    case 1
    with assms v show ?thesis by (auto simp: pp_play_def pp_step_def pp_defs Let_def)
  next
    case 2
    with assms v show ?thesis
      by (cases w) (auto simp: pp_play_def pp_step_def pp_defs Let_def split: if_splits)
  qed
qed

lemma pp_inv_step: "pp_inv s \<Longrightarrow> pp_step True w s = Some t \<Longrightarrow> pp_inv t"
proof -
  assume i: "pp_inv s" and st: "pp_step True w s = Some t"
  show "pp_inv t"
  proof (cases "pp_setup s")
    case True
    with pp_setup_step [OF _ st] show ?thesis unfolding pp_inv_def by blast
  next
    case False
    with i obtain v h n where "pp_play v h n s" unfolding pp_inv_def by blast
    from pp_play_step [OF this st] show ?thesis unfolding pp_inv_def by (cases "h = H_write") auto
  qed
qed

lemma pp_inv_init: "pp_inv pp_start"
  by (simp add: pp_inv_def pp_setup_def pp_start_def pp_at_def)

interpretation pp: step_invariant "pp_step True" pp_start pp_inv
  by unfold_locales (auto intro: pp_inv_init pp_inv_step)

lemma pp_progress: "pp_inv s \<Longrightarrow> \<exists>w t. pp_step True w s = Some t"
proof -
  assume "pp_inv s"
  then consider "pp_setup s" | w st n where "pp_play w st n s" unfolding pp_inv_def by blast
  then show ?thesis
  proof cases
    case 1
    then obtain p c where i: "pp_proc s Parent = pp_at Parent p" "pp_proc s Child = pp_at Child c"
      "p \<in> {Q_sigaction, Q_msg, Q_say, Q_kill}" "c \<in> {Q_sigaction, Q_getppid, Q_msg, Q_pause}"
      unfolding pp_setup_def by blast
    show ?thesis
    proof (cases "c = Q_pause")
      case True
      with i have "\<exists>t. pp_step True Parent s = Some t" by (auto simp: pp_step_def pp_at_def Let_def)
      then show ?thesis by blast
    next
      case False
      with i have "\<exists>t. pp_step True Child s = Some t" by (auto simp: pp_step_def pp_at_def Let_def)
      then show ?thesis by blast
    qed
  next
    case 2
    then have "\<exists>t. pp_step True w s = Some t"
      by (auto simp: pp_play_def pp_step_def pp_in_def pp_at_def Let_def)
    then show ?thesis by blast
  qed
qed

text \<open>
  C17: \<open>ping-pong.c\<close>: if \<open>sleep(1)\<close> lets the child finish its set-up, then on every schedule the output
  is the parent's announcement followed by the strictly alternating messages, the child's first; no
  process is killed, and one of the two can always move, so that the exchange never ends. If it does
  not, the child can be killed by the signal, before the handler is installed, or crash in it, before
  \<open>msg\<close> is set; the parent then waits for ever.
\<close>

theorem pp_alternates:
  "(reach (pp_step True) pp_start s \<longrightarrow>
      (\<exists>n. pp_out s \<in> {[], [Initiating], Initiating # pp_rally n})
      \<and> (\<forall>w. \<not> pp_dead (pp_pc (pp_proc s w))) \<and> (\<exists>w t. pp_step True w s = Some t))
    \<and> runs (pp_step False) (replicate 4 Parent) pp_start
        (\<lambda>t. pp_pc (pp_proc t Child) = Q_killed \<and> (\<forall>w. pp_step False w t = None))
    \<and> runs (pp_step False) (Child # replicate 4 Parent @ [Child]) pp_start
        (\<lambda>t. pp_pc (pp_proc t Child) = Q_crashed \<and> (\<forall>w. pp_step False w t = None))"
proof (intro conjI impI)
  assume "reach (pp_step True) pp_start s"
  then have inv: "pp_inv s" by (rule pp.reach_inv)
  then consider "pp_setup s" | w st n where "pp_play w st n s" unfolding pp_inv_def by blast
  note c = this
  show "\<exists>n. pp_out s \<in> {[], [Initiating], Initiating # pp_rally n}"
    by (rule c) (auto simp: pp_setup_def pp_play_def split: if_splits)
  have "pp_pc (pp_proc s Parent) \<notin> {Q_killed, Q_crashed} \<and> pp_pc (pp_proc s Child) \<notin> {Q_killed, Q_crashed}"
  proof (rule c)
    assume "pp_setup s"
    then show ?thesis by (auto simp: pp_setup_def pp_at_def)
  next
    fix w st n assume "pp_play w st n s"
    then show ?thesis by (cases w) (auto simp: pp_play_def pp_in_def pp_at_def)
  qed
  then have "\<not> pp_dead (pp_pc (pp_proc s w))" for w
    by (cases w; cases "pp_pc (pp_proc s w)") auto
  then show "\<forall>w. \<not> pp_dead (pp_pc (pp_proc s w))" by blast
  show "\<exists>w t. pp_step True w s = Some t" using inv by (rule pp_progress)
next
  have all: "(\<forall>w. P w) \<longleftrightarrow> P Parent \<and> P Child" for P by (metis pp_who.exhaust)
  show "runs (pp_step False) (replicate 4 Parent) pp_start
        (\<lambda>t. pp_pc (pp_proc t Child) = Q_killed \<and> (\<forall>w. pp_step False w t = None))"
    unfolding all by code_simp
  show "runs (pp_step False) (Child # replicate 4 Parent @ [Child]) pp_start
        (\<lambda>t. pp_pc (pp_proc t Child) = Q_crashed \<and> (\<forall>w. pp_step False w t = None))"
    unfolding all by code_simp
qed

theorem pp_alternates_witness:
  "\<exists>s :: pp_state. pp_out s = [Initiating, Killing Child, Killing Parent] \<and> (\<exists>w t. pp_step True w s = Some t)"
proof -
  let ?es = "replicate 3 Parent @ replicate 3 Child @ [Parent, Child, Child, Parent]"
  have "case exec (pp_step True) ?es pp_start of None \<Rightarrow> False | Some s \<Rightarrow> pp_out s = [Initiating, Killing Child, Killing Parent]"
    by code_simp
  then obtain s where s: "exec (pp_step True) ?es pp_start = Some s" "pp_out s = [Initiating, Killing Child, Killing Parent]"
    by (auto split: option.splits)
  from pp_alternates [of s] exec_reach [OF s(1)] s(2) show ?thesis by blast
qed

end
