(* ===== verification/Signal_Programs.thy ===== *)
theory Signal_Programs
  imports Signals
begin

text \<open>
  More programs of \<open>signals/\<close>: the difference between \<open>signal()\<close> and \<open>sigaction()\<close>, two processes
  that hand over a character with \<open>sigwait()\<close>, input with a time limit, an event loop, an interrupted
  \<open>read()\<close>, and a check whether a process exists.
\<close>

section \<open>\<open>signal-vs-sigaction.c\<close>\<close>

text \<open>
  \<open>posix\<close> says that the program is compiled with \<open>-DPOSIX_SIGNALS\<close>, \<open>sysv\<close> that \<open>signal()\<close> has its
  System V semantics: the disposition is reset when the handler starts, and nothing is blocked.
\<close>

datatype vs_pc = V_say | V_install | V_wait | V_killed

datatype vs_stage = S_none | S_got | S_sleep | S_returning

datatype vs_msg = Got_signal | Returning

record vs_state =
  vs_pc :: vs_pc
  vs_stage :: vs_stage
  vs_sig :: sig_state
  vs_out :: "vs_msg list"

datatype vs_event = Interrupt | Step

definition vs_run :: "bool \<Rightarrow> sig_state \<Rightarrow> vs_state \<Rightarrow> vs_state" where
  "vs_run reliable g s = s\<lparr>vs_stage := S_got, vs_sig := (if reliable then g else g\<lparr>sg_disp := Default, sg_blocked := False\<rparr>)\<rparr>"

fun vs_effect :: "bool \<Rightarrow> sig_state \<times> sig_effect \<Rightarrow> vs_state \<Rightarrow> vs_state" where
  "vs_effect reliable (g, No_effect) s = s\<lparr>vs_sig := g\<rparr>"
| "vs_effect reliable (g, Kill) s = s\<lparr>vs_sig := g, vs_pc := V_killed\<rparr>"
| "vs_effect reliable (g, Run_handler) s = vs_run reliable g s"

fun vs_handler :: "bool \<Rightarrow> vs_stage \<Rightarrow> vs_state \<Rightarrow> vs_state option" where
  "vs_handler reliable S_none s = None"
| "vs_handler reliable S_got s = Some (s\<lparr>vs_stage := S_sleep, vs_out := vs_out s @ [Got_signal]\<rparr>)"
| "vs_handler reliable S_sleep s = Some (s\<lparr>vs_stage := S_returning\<rparr>)"
| "vs_handler reliable S_returning s =
     Some (vs_effect reliable (sig_unblock (vs_sig s)) (s\<lparr>vs_stage := S_none, vs_out := vs_out s @ [Returning]\<rparr>))"

fun vs_main_stmt :: "vs_pc \<Rightarrow> vs_state \<Rightarrow> vs_state option" where
  "vs_main_stmt V_say s = Some (s\<lparr>vs_pc := V_install\<rparr>)"
| "vs_main_stmt V_install s = Some (s\<lparr>vs_pc := V_wait, vs_sig := (vs_sig s)\<lparr>sg_disp := Caught\<rparr>\<rparr>)"
| "vs_main_stmt _ s = None"

fun vs_step :: "bool \<Rightarrow> bool \<Rightarrow> vs_event \<Rightarrow> vs_state \<Rightarrow> vs_state option" where
  "vs_step posix sysv Interrupt s =
     (if vs_pc s = V_killed then None else Some (vs_effect (posix \<or> \<not> sysv) (sig_send (vs_sig s)) s))"
| "vs_step posix sysv Step s =
     (if vs_pc s = V_killed then None
      else if vs_stage s \<noteq> S_none then vs_handler (posix \<or> \<not> sysv) (vs_stage s) s
      else vs_main_stmt (vs_pc s) s)"

definition vs_init :: vs_state where
  "vs_init = \<lparr>vs_pc = V_say, vs_stage = S_none, vs_sig = sig_fresh, vs_out = []\<rparr>"

text \<open>What the handler has written after \<open>n\<close> complete runs and in this stage of the next.\<close>

definition vs_written :: "nat \<Rightarrow> vs_stage \<Rightarrow> vs_msg list" where
  "vs_written n st = concat (replicate n [Got_signal, Returning])
     @ (if st = S_sleep \<or> st = S_returning then [Got_signal] else [])"

definition vs_started :: "nat \<Rightarrow> vs_stage \<Rightarrow> nat" where
  "vs_started n st = (if st = S_none then n else Suc n)"

text \<open>With the handler installed reliably, after \<open>k\<close> signals and \<open>n\<close> complete runs.\<close>

definition vs_inv :: "nat \<Rightarrow> nat \<Rightarrow> vs_state \<Rightarrow> bool" where
  "vs_inv k n s \<longleftrightarrow> vs_pc s = V_wait \<and> sg_disp (vs_sig s) = Caught
     \<and> sg_blocked (vs_sig s) = (vs_stage s \<noteq> S_none) \<and> (sg_pending (vs_sig s) \<longrightarrow> vs_stage s \<noteq> S_none)
     \<and> vs_out s = vs_written n (vs_stage s)
     \<and> vs_started n (vs_stage s) + of_bool (sg_pending (vs_sig s)) \<le> k
     \<and> (0 < k \<longrightarrow> 0 < vs_started n (vs_stage s))"

lemma vs_written_simps [simp]:
  "vs_written n S_got = vs_written n S_none"
  "vs_written n S_sleep = vs_written n S_none @ [Got_signal]"
  "vs_written n S_returning = vs_written n S_none @ [Got_signal]"
  "vs_written (Suc n) S_none = vs_written n S_none @ [Got_signal, Returning]"
  by (simp_all add: vs_written_def replicate_append_same [symmetric])

lemma vs_inv_interrupt:
  assumes "vs_inv k n s" "vs_step posix sysv Interrupt s = Some t" "posix \<or> \<not> sysv"
  shows "vs_inv (Suc k) n t"
  using assms
  by (cases "vs_stage s") (auto simp: vs_inv_def vs_run_def sig_defs vs_started_def)

lemma vs_inv_Step:
  assumes "vs_inv k n s" "vs_step posix sysv Step s = Some t" "posix \<or> \<not> sysv"
  shows "vs_inv k (if vs_stage s = S_returning then Suc n else n) t"
proof (cases "vs_stage s")
  case S_returning
  then show ?thesis
    using assms by (cases "sg_pending (vs_sig s)") (auto simp: vs_inv_def vs_run_def sig_defs vs_started_def)
qed (use assms in \<open>auto simp: vs_inv_def vs_started_def\<close>)

definition vs_ready :: "vs_state \<Rightarrow> bool" where
  "vs_ready s \<longleftrightarrow> vs_pc s = V_wait \<and> vs_stage s = S_none \<and> vs_out s = []
     \<and> vs_sig s = \<lparr>sg_disp = Caught, sg_blocked = False, sg_pending = False\<rparr>"

lemma vs_inv_ready: "vs_ready s \<Longrightarrow> vs_inv 0 0 s"
  by (simp add: vs_ready_def vs_inv_def vs_written_def vs_started_def)

lemma vs_inv_exec:
  assumes "vs_ready s0" "posix \<or> \<not> sysv" "exec (vs_step posix sysv) es s0 = Some s"
  shows "\<exists>n. vs_inv (count_list es Interrupt) n s"
  using assms(3)
proof (induction rule: exec_snoc_induct)
  case Nil
  show ?case using vs_inv_ready [OF assms(1)] by auto
next
  case (snoc es s e t)
  then obtain n where n: "vs_inv (count_list es Interrupt) n s" by blast
  show ?case
  proof (cases e)
    case Interrupt
    with vs_inv_interrupt [OF n _ assms(2)] snoc(2) show ?thesis by auto
  next
    case Step
    with vs_inv_Step [OF n _ assms(2)] snoc(2) show ?thesis by auto
  qed
qed

lemma vs_coalesce:
  assumes "vs_pc s = V_wait" "vs_stage s \<noteq> S_none" "sg_blocked (vs_sig s)" "sg_pending (vs_sig s)"
  shows "exec (vs_step posix sysv) (replicate j Interrupt) s = Some s"
proof -
  have "vs_sig s\<lparr>sg_pending := True\<rparr> = vs_sig s" using assms(4) by (cases "vs_sig s") simp
  then have "vs_step posix sysv Interrupt s = Some s" using assms(1,3) by (simp add: sig_send_def)
  then show ?thesis by (induction j) simp_all
qed

text \<open>With the unreliable semantics a second signal is fatal.\<close>

definition vs_unreliable :: "nat \<Rightarrow> vs_state \<Rightarrow> bool" where
  "vs_unreliable k s \<longleftrightarrow> (vs_pc s = V_wait \<or> vs_pc s = V_killed) \<and> (vs_pc s = V_killed \<longleftrightarrow> 2 \<le> k)
     \<and> (vs_pc s = V_wait \<longrightarrow> \<not> sg_blocked (vs_sig s) \<and> \<not> sg_pending (vs_sig s)
          \<and> sg_disp (vs_sig s) = (if k = 0 then Caught else Default) \<and> (k = 0 \<longrightarrow> vs_stage s = S_none))"

lemma vs_unreliable_step:
  assumes "vs_unreliable k s" "vs_step False True e s = Some t"
  shows "vs_unreliable (if e = Interrupt then Suc k else k) t"
proof (cases e)
  case Interrupt
  then show ?thesis
    using assms by (cases "k = 0") (auto simp: vs_unreliable_def vs_run_def sig_defs split: if_splits)
next
  case Step
  then show ?thesis
    using assms by (cases "vs_stage s") (auto simp: vs_unreliable_def vs_run_def sig_defs split: if_splits)
qed

lemma vs_unreliable_exec:
  assumes "vs_ready s0" "exec (vs_step False True) es s0 = Some s"
  shows "vs_unreliable (count_list es Interrupt) s"
  using assms(2)
proof (induction rule: exec_snoc_induct)
  case Nil
  show ?case using assms(1) by (simp add: vs_unreliable_def vs_ready_def)
next
  case (snoc es s e t)
  from vs_unreliable_step [OF snoc(3,2)] show ?case by (cases e) auto
qed

text \<open>
  C26: \<open>signal-vs-sigaction.c\<close> once its handler is installed. With \<open>sigaction\<close>, or a \<open>signal()\<close> with the
  same semantics, no number of \<open>SIGINT\<close>s kills it; the handler's two messages alternate, there are
  at most as many runs as signals and at least one if there was a signal, and all signals that
  arrive during a run together cause one more. With System V semantics the second signal kills it,
  whenever it comes.
\<close>

theorem vs_semantics:
  assumes "vs_ready s0"
  shows "(posix \<or> \<not> sysv \<longrightarrow>
      (exec (vs_step posix sysv) es s0 = Some s \<longrightarrow>
        vs_pc s = V_wait \<and> (\<exists>n. vs_out s = vs_written n (vs_stage s) \<and> vs_started n (vs_stage s) \<le> count_list es Interrupt
          \<and> (Interrupt \<in> set es \<longrightarrow> 0 < vs_started n (vs_stage s))))
      \<and> runs (vs_step posix sysv) (replicate (Suc (Suc j)) Interrupt @ replicate 6 Step) s0
          (\<lambda>t. vs_stage t = S_none \<and> vs_out t = vs_written 2 S_none))
    \<and> (exec (vs_step False True) es s0 = Some s \<longrightarrow> (vs_pc s = V_killed \<longleftrightarrow> 2 \<le> count_list es Interrupt))"
proof (intro conjI impI)
  assume r: "posix \<or> \<not> sysv" and ex: "exec (vs_step posix sysv) es s0 = Some s"
  from vs_inv_exec [OF assms r ex] obtain n where n: "vs_inv (count_list es Interrupt) n s" ..
  then show "vs_pc s = V_wait" by (simp add: vs_inv_def)
  show "\<exists>n. vs_out s = vs_written n (vs_stage s) \<and> vs_started n (vs_stage s) \<le> count_list es Interrupt
          \<and> (Interrupt \<in> set es \<longrightarrow> 0 < vs_started n (vs_stage s))"
    using n count_list_0_iff [of es Interrupt] by (intro exI [of _ n]) (auto simp: vs_inv_def)
next
  assume r: "posix \<or> \<not> sysv"
  let ?s = "s0\<lparr>vs_stage := S_got, vs_sig := \<lparr>sg_disp = Caught, sg_blocked = True, sg_pending = True\<rparr>\<rparr>"
  have two: "exec (vs_step posix sysv) [Interrupt, Interrupt] s0 = Some ?s"
    using assms r by (simp add: vs_ready_def vs_run_def sig_defs)
  have "exec (vs_step posix sysv) (replicate j Interrupt) ?s = Some ?s"
    using assms by (intro vs_coalesce) (simp_all add: vs_ready_def)
  with two have many: "exec (vs_step posix sysv) (replicate (Suc (Suc j)) Interrupt) s0 = Some ?s"
    using exec_append [of "vs_step posix sysv" "[Interrupt, Interrupt]" "replicate j Interrupt" s0] by simp
  have "runs (vs_step posix sysv) (replicate 6 Step) ?s (\<lambda>t. vs_stage t = S_none \<and> vs_out t = vs_written 2 S_none)"
    using assms r by (simp add: eval_nat_numeral vs_ready_def vs_run_def sig_defs) (simp add: vs_written_def)
  with many show "runs (vs_step posix sysv) (replicate (Suc (Suc j)) Interrupt @ replicate 6 Step) s0
          (\<lambda>t. vs_stage t = S_none \<and> vs_out t = vs_written 2 S_none)"
    unfolding runs_append unfolding runs_def [of _ "replicate (Suc (Suc j)) Interrupt"] by simp
next
  assume "exec (vs_step False True) es s0 = Some s"
  from vs_unreliable_exec [OF assms this] show "vs_pc s = V_killed \<longleftrightarrow> 2 \<le> count_list es Interrupt"
    by (simp add: vs_unreliable_def)
qed

theorem vs_semantics_witness:
  "\<exists>s0 s. exec (vs_step True True) [Step, Step] vs_init = Some s0
     \<and> runs (vs_step True True) (replicate (Suc (Suc 1)) Interrupt @ replicate 6 Step) s0
         (\<lambda>t. vs_stage t = S_none \<and> vs_out t = vs_written 2 S_none)
     \<and> exec (vs_step False True) [Interrupt, Step, Interrupt] s0 = Some s \<and> vs_pc s = V_killed"
proof -
  let ?s0 = "vs_init\<lparr>vs_pc := V_wait, vs_sig := \<lparr>sg_disp = Caught, sg_blocked = False, sg_pending = False\<rparr>\<rparr>"
  have r: "vs_ready ?s0" by (simp add: vs_ready_def vs_init_def)
  have st: "exec (vs_step True True) [Step, Step] vs_init = Some ?s0" by (simp add: vs_init_def sig_defs)
  obtain s where s: "exec (vs_step False True) [Interrupt, Step, Interrupt] ?s0 = Some s"
    by (simp add: vs_init_def vs_run_def sig_defs)
  from vs_semantics [OF r, of True True "[]" s 1]
  have A: "runs (vs_step True True) (replicate (Suc (Suc 1)) Interrupt @ replicate 6 Step) ?s0
      (\<lambda>t. vs_stage t = S_none \<and> vs_out t = vs_written 2 S_none)" by (simp only: simp_thms)
  have "2 \<le> count_list [Interrupt, Step, Interrupt] Interrupt" by simp
  with vs_semantics [OF r, of False False "[Interrupt, Step, Interrupt]" s 0] s have B: "vs_pc s = V_killed"
    by (simp only: simp_thms)
  show ?thesis by (rule exI [of _ ?s0], rule exI [of _ s]) (intro conjI st A s B)
qed

section \<open>\<open>sigwait.c\<close>\<close>

text \<open>
  Parent and child share one byte. The child blocks \<open>SIGUSR1\<close> and waits for it with \<open>sigwait\<close>; the
  parent stores the character it reads and sends the signal. \<open>timely\<close> says that the child has
  blocked the signal by the time the character is typed.
\<close>

datatype sw_cpc = W_say | W_mask | W_wait | W_print | W_end | W_gone | W_killed

datatype sw_ppc = U_say | U_read | U_store | U_kill | U_wait | U_end | U_exit_0 | U_exit_1

record sw_state =
  sw_cpc :: sw_cpc
  sw_ppc :: sw_ppc
  sw_sig :: sig_state
  sw_c :: char
  sw_addr :: char
  sw_out :: "char list"

datatype sw_event = Sw_child | Sw_parent | Sw_type char | Sw_no_input

fun sw_child :: "sw_cpc \<Rightarrow> sw_state \<Rightarrow> sw_state option" where
  "sw_child W_say s = Some (s\<lparr>sw_cpc := W_mask\<rparr>)"
| "sw_child W_mask s = Some (s\<lparr>sw_cpc := W_wait, sw_sig := (sw_sig s)\<lparr>sg_blocked := True\<rparr>\<rparr>)"
| "sw_child W_wait s =
     (if sg_pending (sw_sig s) then Some (s\<lparr>sw_cpc := W_print, sw_sig := (sw_sig s)\<lparr>sg_pending := False\<rparr>\<rparr>) else None)"
| "sw_child W_print s = Some (s\<lparr>sw_cpc := W_end, sw_out := sw_out s @ [sw_addr s]\<rparr>)"
| "sw_child W_end s = Some (s\<lparr>sw_cpc := W_gone\<rparr>)"
| "sw_child _ s = None"

text \<open>\<open>kill\<close>: the child has no handler, so the signal is blocked or fatal.\<close>

definition sw_kill :: "sw_state \<Rightarrow> sw_state" where
  "sw_kill s =
     (if sw_cpc s = W_gone \<or> sw_cpc s = W_killed then s
      else case sig_send (sw_sig s) of
        (g, Kill) \<Rightarrow> s\<lparr>sw_sig := g, sw_cpc := W_killed\<rparr>
      | (g, _) \<Rightarrow> s\<lparr>sw_sig := g\<rparr>)"

fun sw_parent :: "sw_ppc \<Rightarrow> sw_state \<Rightarrow> sw_state option" where
  "sw_parent U_say s = Some (s\<lparr>sw_ppc := U_read\<rparr>)"
| "sw_parent U_store s = Some (s\<lparr>sw_ppc := U_kill, sw_addr := sw_c s\<rparr>)"
| "sw_parent U_kill s = Some ((sw_kill s)\<lparr>sw_ppc := U_wait\<rparr>)"
| "sw_parent U_wait s = (if sw_cpc s = W_gone \<or> sw_cpc s = W_killed then Some (s\<lparr>sw_ppc := U_end\<rparr>) else None)"
| "sw_parent U_end s = Some (s\<lparr>sw_ppc := U_exit_0\<rparr>)"
| "sw_parent _ s = None"

fun sw_step :: "bool \<Rightarrow> sw_event \<Rightarrow> sw_state \<Rightarrow> sw_state option" where
  "sw_step timely Sw_child s = sw_child (sw_cpc s) s"
| "sw_step timely Sw_parent s = sw_parent (sw_ppc s) s"
| "sw_step timely (Sw_type c) s =
     (if sw_ppc s = U_read \<and> (timely \<longrightarrow> sg_blocked (sw_sig s)) then Some (s\<lparr>sw_ppc := U_store, sw_c := c\<rparr>) else None)"
| "sw_step timely Sw_no_input s = (if sw_ppc s = U_read then Some (s\<lparr>sw_ppc := U_exit_1\<rparr>) else None)"

text \<open>\<open>main()\<close> up to the \<open>fork\<close>, with the calls that can fail; the byte of the extended file is 0.\<close>

definition sw_start :: sw_state where
  "sw_start = \<lparr>sw_cpc = W_say, sw_ppc = U_say, sw_sig = sig_fresh, sw_c = char_of (0 :: nat),
     sw_addr = char_of (0 :: nat), sw_out = []\<rparr>"

definition sw_main :: "bool \<Rightarrow> bool \<Rightarrow> bool \<Rightarrow> bool \<Rightarrow> exit_info + sw_state" where
  "sw_main open_ok write_ok mmap_ok fork_ok =
     (if \<not> open_ok then Inl (Exit 1 ''open'')
      else if \<not> write_ok then Inl (Exit 1 ''write'')
      else if \<not> mmap_ok then Inl (Exit 1 ''mmap'')
      else if \<not> fork_ok then Inl (Exit 1 ''fork'')
      else Inr sw_start)"

fun sw_typed :: "sw_event list \<Rightarrow> char option" where
  "sw_typed [] = None"
| "sw_typed (Sw_type c # es) = Some c"
| "sw_typed (_ # es) = sw_typed es"

text \<open>
  Which statements of the two go together, whether a character was typed and whether the signal is
  pending.
\<close>

fun sw_fits :: "bool \<Rightarrow> bool \<Rightarrow> sw_cpc \<Rightarrow> bool \<Rightarrow> sw_ppc \<Rightarrow> bool" where
  "sw_fits timely typed cpc pending U_store \<longleftrightarrow> typed \<and> \<not> pending \<and> (cpc = W_wait \<or> \<not> timely \<and> (cpc = W_say \<or> cpc = W_mask))"
| "sw_fits timely typed cpc pending U_kill \<longleftrightarrow> typed \<and> \<not> pending \<and> (cpc = W_wait \<or> \<not> timely \<and> (cpc = W_say \<or> cpc = W_mask))"
| "sw_fits timely typed cpc pending U_wait \<longleftrightarrow> typed \<and>
     (if cpc = W_wait then pending
      else \<not> pending \<and> (cpc = W_print \<or> cpc = W_end \<or> cpc = W_gone \<or> \<not> timely \<and> cpc = W_killed))"
| "sw_fits timely typed cpc pending U_end \<longleftrightarrow> typed \<and> \<not> pending \<and> (cpc = W_gone \<or> \<not> timely \<and> cpc = W_killed)"
| "sw_fits timely typed cpc pending U_exit_0 \<longleftrightarrow> typed \<and> \<not> pending \<and> (cpc = W_gone \<or> \<not> timely \<and> cpc = W_killed)"
| "sw_fits timely typed cpc pending _ \<longleftrightarrow> \<not> typed \<and> \<not> pending \<and> (cpc = W_say \<or> cpc = W_mask \<or> cpc = W_wait)"

definition sw_inv :: "bool \<Rightarrow> char option \<Rightarrow> sw_state \<Rightarrow> bool" where
  "sw_inv timely c s \<longleftrightarrow>
     sw_fits timely (c \<noteq> None) (sw_cpc s) (sg_pending (sw_sig s)) (sw_ppc s)
     \<and> sg_disp (sw_sig s) = Default
     \<and> (sw_cpc s \<noteq> W_killed \<longrightarrow> sg_blocked (sw_sig s) = (sw_cpc s \<noteq> W_say \<and> sw_cpc s \<noteq> W_mask))
     \<and> (c \<noteq> None \<longrightarrow> sw_c s = the c \<and> (sw_ppc s \<noteq> U_store \<longrightarrow> sw_addr s = the c))
     \<and> sw_out s = (if sw_cpc s = W_end \<or> sw_cpc s = W_gone then [the c] else [])"

lemma sw_inv_child:
  assumes "sw_inv timely c s" "sw_child (sw_cpc s) s = Some t"
  shows "sw_inv timely c t"
  using assms by (cases "sw_cpc s"; cases "sw_ppc s") (auto simp: sw_inv_def split: if_splits)

lemma sw_inv_parent:
  assumes "sw_inv timely c s" "sw_parent (sw_ppc s) s = Some t"
  shows "sw_inv timely c t"
  using assms
  by (cases "sw_cpc s"; cases "sw_ppc s") (auto simp: sw_inv_def sw_kill_def sig_defs split: if_splits)

lemma sw_inv_init: "sw_inv timely None sw_start"
  by (simp add: sw_inv_def sw_start_def sig_fresh_def)

lemma sw_typed_snoc: "sw_typed (es @ [e]) = (case sw_typed es of None \<Rightarrow> sw_typed [e] | Some c \<Rightarrow> Some c)"
  by (induction es rule: sw_typed.induct) auto

lemma sw_inv_exec: "exec (sw_step timely) es sw_start = Some s \<Longrightarrow> sw_inv timely (sw_typed es) s"
proof (induction rule: exec_snoc_induct)
  case Nil
  show ?case by (simp add: sw_inv_init)
next
  case (snoc es s e t)
  show ?case
  proof (cases e)
    case Sw_child
    with sw_inv_child snoc show ?thesis by (auto simp: sw_typed_snoc split: option.splits)
  next
    case Sw_parent
    with sw_inv_parent snoc show ?thesis by (auto simp: sw_typed_snoc split: option.splits)
  next
    case (Sw_type c)
    with snoc(2) have "sw_ppc s = U_read" "t = s\<lparr>sw_ppc := U_store, sw_c := c\<rparr>" "timely \<longrightarrow> sg_blocked (sw_sig s)"
      by (auto split: if_splits)
    moreover from this snoc(3) have "sw_typed es = None" by (simp add: sw_inv_def)
    ultimately show ?thesis using snoc(3) Sw_type by (auto simp: sw_inv_def sw_typed_snoc)
  next
    case Sw_no_input
    with snoc(2) have "sw_ppc s = U_read" "t = s\<lparr>sw_ppc := U_exit_1\<rparr>" by (auto split: if_splits)
    moreover from this snoc(3) have "sw_typed es = None" by (simp add: sw_inv_def)
    ultimately show ?thesis using snoc(3) Sw_no_input by (auto simp: sw_inv_def sw_typed_snoc)
  qed
qed

text \<open>
  The two processes of \<open>sigwait.c\<close>: the child prints nothing but the character the parent read,
  at most once and never before it was stored. If the child has blocked the signal when the
  character is typed, it is never killed, the parent exits with 0 only after the character was
  printed, and from the typing on some process can move until then. Without that, a schedule exists
  in which the signal kills the child, nothing is printed, and the parent still exits with 0.
\<close>

theorem sw_hand_over:
  "(exec (sw_step timely) es sw_start = Some s \<longrightarrow>
      (sw_out s = [] \<or> (\<exists>c. sw_typed es = Some c \<and> sw_out s = [c]))
      \<and> (timely \<and> sw_typed es = Some c \<longrightarrow>
           sw_cpc s \<noteq> W_killed \<and> (sw_ppc s = U_exit_0 \<longrightarrow> sw_out s = [c])
           \<and> (sw_ppc s = U_exit_0 \<or> (\<exists>t. sw_step timely Sw_child s = Some t) \<or> (\<exists>t. sw_step timely Sw_parent s = Some t))))
    \<and> runs (sw_step False) [Sw_parent, Sw_type c, Sw_parent, Sw_parent, Sw_parent, Sw_parent] sw_start
        (\<lambda>t. sw_cpc t = W_killed \<and> sw_out t = [] \<and> sw_ppc t = U_exit_0)"
proof (intro conjI impI)
  assume ex: "exec (sw_step timely) es sw_start = Some s"
  note i = sw_inv_exec [OF ex, unfolded sw_inv_def]
  show "sw_out s = [] \<or> (\<exists>c. sw_typed es = Some c \<and> sw_out s = [c])"
    using i by (cases "sw_typed es"; cases "sw_ppc s") (auto split: if_splits)
  assume a: "timely \<and> sw_typed es = Some c"
  with i show "sw_cpc s \<noteq> W_killed" by (cases "sw_ppc s") auto
  from a i show "sw_out s = [c]" if "sw_ppc s = U_exit_0" using that by auto
  show "sw_ppc s = U_exit_0 \<or> (\<exists>t. sw_step timely Sw_child s = Some t) \<or> (\<exists>t. sw_step timely Sw_parent s = Some t)"
    using a i by (cases "sw_ppc s"; cases "sw_cpc s") auto
next
  show "runs (sw_step False) [Sw_parent, Sw_type c, Sw_parent, Sw_parent, Sw_parent, Sw_parent] sw_start
        (\<lambda>t. sw_cpc t = W_killed \<and> sw_out t = [] \<and> sw_ppc t = U_exit_0)"
    by (simp add: sw_start_def sw_kill_def sig_defs)
qed

theorem sw_hand_over_witness:
  "\<exists>s :: sw_state. sw_ppc s = U_exit_0 \<and> sw_out s = ''x''"
proof -
  let ?es = "[Sw_parent, Sw_child, Sw_child, Sw_type (CHR ''x''), Sw_parent, Sw_parent, Sw_child, Sw_child, Sw_child, Sw_parent, Sw_parent]"
  have "runs (sw_step True) ?es sw_start (\<lambda>s. sw_ppc s = U_exit_0)"
    by (simp add: sw_start_def sw_kill_def sig_defs)
  from runs_exec [OF this] obtain s where "exec (sw_step True) ?es sw_start = Some s" "sw_ppc s = U_exit_0" by blast
  with sw_hand_over [of True ?es s "CHR ''x''", THEN conjunct1] have "sw_out s = ''x''" by simp
  with \<open>sw_ppc s = U_exit_0\<close> show ?thesis by blast
qed

section \<open>\<open>alarm.c\<close>\<close>

text \<open>
  Input with a time limit. \<open>T_call\<close> is just before the call of \<open>read()\<close>, \<open>T_reading\<close> inside it; the
  timer is armed by \<open>alarm(SECS)\<close> and can expire at any time after that.
\<close>

datatype at_pc = T_install | T_prompt | T_alarm | T_call | T_reading | T_warn | T_disarm | T_print | T_exit int

datatype at_msg = At_prompt | At_timeout | At_warning | At_data string

record at_state =
  at_pc :: at_pc
  at_armed :: bool
  at_size :: int
  at_buf :: string
  at_out :: "at_msg list"

datatype at_event = At_main | At_alarm | At_input string | At_error

definition BUFSIZE :: nat where "BUFSIZE = 4096"

fun at_main_stmt :: "at_pc \<Rightarrow> at_state \<Rightarrow> at_state option" where
  "at_main_stmt T_install s = Some (s\<lparr>at_pc := T_prompt\<rparr>)"
| "at_main_stmt T_prompt s = Some (s\<lparr>at_pc := T_alarm, at_out := at_out s @ [At_prompt]\<rparr>)"
| "at_main_stmt T_alarm s = Some (s\<lparr>at_pc := T_call, at_armed := True\<rparr>)"
| "at_main_stmt T_call s = Some (s\<lparr>at_pc := T_reading\<rparr>)"
| "at_main_stmt T_warn s = Some (s\<lparr>at_pc := T_disarm, at_out := at_out s @ [At_warning]\<rparr>)"
| "at_main_stmt T_disarm s = Some (s\<lparr>at_pc := T_print, at_armed := False\<rparr>)"
| "at_main_stmt T_print s =
     Some (s\<lparr>at_pc := T_exit 0, at_out := at_out s @ (if 0 < at_size s then [At_data (at_buf s)] else [])\<rparr>)"
| "at_main_stmt _ s = None"

fun at_step :: "at_event \<Rightarrow> at_state \<Rightarrow> at_state option" where
  "at_step At_main s = at_main_stmt (at_pc s) s"
| "at_step At_alarm s =
     (if at_armed s then
        Some (s\<lparr>at_armed := False, at_out := at_out s @ [At_timeout],
          at_pc := (if at_pc s = T_reading then T_warn else at_pc s),
          at_size := (if at_pc s = T_reading then - 1 else at_size s)\<rparr>)
      else None)"
| "at_step (At_input d) s =
     (if at_pc s = T_reading
      then Some (s\<lparr>at_pc := T_disarm, at_buf := take BUFSIZE d, at_size := int (length (take BUFSIZE d))\<rparr>) else None)"
| "at_step At_error s = (if at_pc s = T_reading then Some (s\<lparr>at_pc := T_exit 1\<rparr>) else None)"

definition at_init :: at_state where
  "at_init = \<lparr>at_pc = T_install, at_armed = False, at_size = 0, at_buf = [], at_out = []\<rparr>"

text \<open>What can have been written when the program ends with status 0; \<open>d\<close> is what \<open>read()\<close> stored.\<close>

definition at_data :: "string \<Rightarrow> at_msg list" where
  "at_data d = (if d = [] then [] else [At_data d])"

fun at_inv :: "at_state \<Rightarrow> bool" where
  "at_inv s \<longleftrightarrow>
     (case at_pc s of
        T_install \<Rightarrow> at_out s = [] \<and> \<not> at_armed s
      | T_prompt \<Rightarrow> at_out s = [] \<and> \<not> at_armed s
      | T_alarm \<Rightarrow> at_out s = [At_prompt] \<and> \<not> at_armed s
      | T_call \<Rightarrow> at_out s = (if at_armed s then [At_prompt] else [At_prompt, At_timeout])
      | T_reading \<Rightarrow> at_out s = (if at_armed s then [At_prompt] else [At_prompt, At_timeout])
      | T_warn \<Rightarrow> at_out s = [At_prompt, At_timeout] \<and> at_size s = - 1 \<and> \<not> at_armed s
      | T_disarm \<Rightarrow>
          (at_size s = - 1 \<and> at_out s = [At_prompt, At_timeout, At_warning] \<and> \<not> at_armed s)
          \<or> (at_size s = int (length (at_buf s)) \<and> at_out s = (if at_armed s then [At_prompt] else [At_prompt, At_timeout]))
      | T_print \<Rightarrow>
          \<not> at_armed s \<and>
          ((at_size s = - 1 \<and> at_out s = [At_prompt, At_timeout, At_warning])
           \<or> (at_size s = int (length (at_buf s)) \<and> (at_out s = [At_prompt] \<or> at_out s = [At_prompt, At_timeout])))
      | T_exit n \<Rightarrow> n = 0 \<longrightarrow>
          \<not> at_armed s \<and>
          (at_out s = [At_prompt, At_timeout, At_warning] \<or> at_out s = At_prompt # at_data (at_buf s)
           \<or> at_out s = At_prompt # At_timeout # at_data (at_buf s)))"

lemma at_inv_step: "at_inv s \<Longrightarrow> at_step e s = Some t \<Longrightarrow> at_inv t"
proof (cases e)
  case At_main
  assume "at_inv s" "at_step e s = Some t"
  then show ?thesis using At_main by (cases "at_pc s") (auto simp: at_data_def split: if_splits)
next
  case At_alarm
  assume "at_inv s" "at_step e s = Some t"
  then show ?thesis using At_alarm by (cases "at_pc s") (auto split: if_splits)
qed (auto split: if_splits)

interpretation at: step_invariant at_step at_init at_inv
  by unfold_locales (simp add: at_init_def, erule at_inv_step)

text \<open>
  \<open>alarm.c\<close> ends with status 0 after writing the prompt and then one of three things: the input
  (nothing, if it was the end of the file); the time-out and the warning about the interrupted call;
  or the time-out and nevertheless the input. The last happens if the timer expires after \<open>read()\<close>
  has returned, but also just before it is called: then nothing limits the time any more, only input
  or an error ends the program.
\<close>

theorem at_outcomes:
  "(reach at_step at_init s \<and> at_pc s = T_exit 0 \<longrightarrow>
      at_out s \<in> {At_prompt # at_data (at_buf s), [At_prompt, At_timeout, At_warning], At_prompt # At_timeout # at_data (at_buf s)})
    \<and> runs at_step [At_main, At_main, At_main, At_alarm, At_main] at_init
        (\<lambda>t. at_pc t = T_reading \<and> at_step At_main t = None \<and> at_step At_alarm t = None
           \<and> runs at_step [At_input d, At_main, At_main] t
               (\<lambda>u. at_pc u = T_exit 0 \<and> at_out u = At_prompt # At_timeout # at_data (take BUFSIZE d)))"
proof (intro conjI impI)
  assume "reach at_step at_init s \<and> at_pc s = T_exit 0"
  then show "at_out s \<in> {At_prompt # at_data (at_buf s), [At_prompt, At_timeout, At_warning],
      At_prompt # At_timeout # at_data (at_buf s)}"
    using at.reach_inv [of s] by auto
next
  show "runs at_step [At_main, At_main, At_main, At_alarm, At_main] at_init
        (\<lambda>t. at_pc t = T_reading \<and> at_step At_main t = None \<and> at_step At_alarm t = None
           \<and> runs at_step [At_input d, At_main, At_main] t
               (\<lambda>u. at_pc u = T_exit 0 \<and> at_out u = At_prompt # At_timeout # at_data (take BUFSIZE d)))"
    by (simp add: at_init_def at_data_def BUFSIZE_def)
qed

theorem at_outcomes_witness:
  "\<exists>s :: at_state. at_pc s = T_exit 0 \<and> at_out s \<in> {At_prompt # at_data (at_buf s), [At_prompt, At_timeout, At_warning],
      At_prompt # At_timeout # at_data (at_buf s)}"
proof -
  have "runs at_step [At_main, At_main, At_main, At_main, At_alarm, At_main, At_main, At_main] at_init (\<lambda>s. at_pc s = T_exit 0)"
    by (simp add: at_init_def)
  from runs_reach [OF this] obtain s where "reach at_step at_init s" "at_pc s = T_exit 0" by blast
  with at_outcomes [of s "[]", THEN conjunct1] show ?thesis by blast
qed

section \<open>\<open>event-loop.c\<close>\<close>

text \<open>
  The handler sets \<open>delivered\<close>; the loop sleeps in \<open>poll()\<close>, which a signal interrupts, and tests and
  resets the flag.
\<close>

datatype el_pc = L_say | L_poll | L_warn | L_test | L_report | L_reset

record el_state =
  el_pc :: el_pc
  el_delivered :: bool
  el_reports :: nat

datatype el_event = El_main | El_signal

fun el_main_stmt :: "el_pc \<Rightarrow> el_state \<Rightarrow> el_state" where
  "el_main_stmt L_say s = s\<lparr>el_pc := L_poll\<rparr>"
| "el_main_stmt L_poll s = s\<lparr>el_pc := L_test\<rparr>"
| "el_main_stmt L_warn s = s\<lparr>el_pc := L_test\<rparr>"
| "el_main_stmt L_test s = s\<lparr>el_pc := (if el_delivered s then L_report else L_say)\<rparr>"
| "el_main_stmt L_report s = s\<lparr>el_pc := L_reset, el_reports := Suc (el_reports s)\<rparr>"
| "el_main_stmt L_reset s = s\<lparr>el_pc := L_say, el_delivered := False\<rparr>"

fun el_step :: "el_event \<Rightarrow> el_state \<Rightarrow> el_state option" where
  "el_step El_main s = Some (el_main_stmt (el_pc s) s)"
| "el_step El_signal s = Some (s\<lparr>el_delivered := True, el_pc := (if el_pc s = L_poll then L_warn else el_pc s)\<rparr>)"

definition el_init :: el_state where
  "el_init = \<lparr>el_pc = L_say, el_delivered = False, el_reports = 0\<rparr>"

definition el_inv :: "nat \<Rightarrow> el_state \<Rightarrow> bool" where
  "el_inv signals s \<longleftrightarrow> (el_pc s = L_warn \<or> el_pc s = L_report \<or> el_pc s = L_reset \<longrightarrow> el_delivered s)
     \<and> el_reports s + of_bool (el_delivered s \<and> el_pc s \<noteq> L_reset) \<le> signals"

lemma el_inv_exec: "exec el_step es el_init = Some s \<Longrightarrow> el_inv (count_list es El_signal) s"
proof (induction rule: exec_snoc_induct)
  case Nil
  show ?case by (simp add: el_inv_def el_init_def)
next
  case (snoc es s e t)
  then show ?case by (cases e; cases "el_pc s") (auto simp: el_inv_def split: if_splits)
qed

text \<open>
  \<open>event-loop.c\<close> never reports more signals than there were, and a signal that arrives anywhere
  but between the report and the reset of the flag is reported within the next five statements, one
  of which may be the rest of a sleep. A signal in that gap is forgotten: without another one there
  is no further report, however long the program runs.
\<close>

theorem el_reports_signals:
  "(exec el_step es el_init = Some s \<longrightarrow> el_reports s \<le> count_list es El_signal
      \<and> (el_pc s \<noteq> L_reset \<longrightarrow>
          (\<exists>k \<le> 5. runs el_step (El_signal # replicate k El_main) s (\<lambda>t. el_reports t = Suc (el_reports s))))
      \<and> (el_pc s = L_reset \<longrightarrow>
          runs el_step (El_signal # replicate n El_main) s (\<lambda>t. el_reports t = el_reports s)))"
proof (intro impI conjI)
  assume ex: "exec el_step es el_init = Some s"
  have inv: "el_inv (count_list es El_signal) s" using el_inv_exec [OF ex] .
  then show "el_reports s \<le> count_list es El_signal" by (simp add: el_inv_def)
  show "\<exists>k \<le> 5. runs el_step (El_signal # replicate k El_main) s (\<lambda>t. el_reports t = Suc (el_reports s))" if "el_pc s \<noteq> L_reset"
  proof (cases "el_pc s")
    case L_say
    then show ?thesis by (intro exI [of _ 4]) (simp add: eval_nat_numeral)
  next
    case L_poll
    then show ?thesis by (intro exI [of _ 3]) (simp add: eval_nat_numeral)
  next
    case L_warn
    then show ?thesis by (intro exI [of _ 3]) (simp add: eval_nat_numeral)
  next
    case L_test
    then show ?thesis by (intro exI [of _ 2]) (simp add: eval_nat_numeral)
  next
    case L_report
    then show ?thesis by (intro exI [of _ 1]) simp
  qed (use that in simp)
  have quiet: "runs el_step (replicate m El_main) u (\<lambda>t. el_reports t = r)"
    if "\<not> el_delivered u" "el_pc u \<in> {L_say, L_poll, L_test}" "el_reports u = r" for m u r
    using that
  proof (induction m arbitrary: u)
    case (Suc m)
    then show ?case by auto
  qed simp
  show "runs el_step (El_signal # replicate n El_main) s (\<lambda>t. el_reports t = el_reports s)" if "el_pc s = L_reset"
    using that quiet by (cases n) auto
qed

theorem el_reports_signals_witness:
  "let s = \<lparr>el_pc = L_reset, el_delivered = True, el_reports = 1\<rparr>
   in exec el_step [El_main, El_signal, El_main, El_main, El_main] el_init = Some s
     \<and> runs el_step (El_signal # replicate 100 El_main) s (\<lambda>t. el_reports t = el_reports s)"
proof -
  let ?s = "\<lparr>el_pc = L_reset, el_delivered = True, el_reports = 1\<rparr>"
  have e: "exec el_step [El_main, El_signal, El_main, El_main, El_main] el_init = Some ?s" by (simp add: el_init_def)
  from el_reports_signals [of "[El_main, El_signal, El_main, El_main, El_main]" ?s 100] e
  show ?thesis unfolding Let_def by (metis el_state.select_convs(1))
qed

section \<open>\<open>interrupted-read.c\<close>, \<open>sigchld.c\<close>, \<open>siginfo.c\<close> and \<open>check-existence.c\<close>\<close>

text \<open>
  What \<open>interrupted-read.c\<close> writes while \<open>n\<close> signals arrive, and its exit status if it ends: it holds
  the writing end of its pipe itself, so \<open>read()\<close> has nothing else to wait for.
\<close>

fun ir_read :: "bool \<Rightarrow> nat \<Rightarrow> string \<times> int option" where
  "ir_read restart 0 = ([], None)"
| "ir_read restart (Suc n) =
     (if restart then (case ir_read restart n of (out, r) \<Rightarrow> (''INT signal caught !'' @ nl @ out, r))
      else (''INT signal caught !'' @ nl, Some 1))"

definition ir_main :: "bool \<Rightarrow> string list \<Rightarrow> nat \<Rightarrow> exit_info + string \<times> int option" where
  "ir_main pipe_ok argv n =
     (if \<not> pipe_ok then Inl (Exit 1 ''pipe'')
      else Inr (ir_read (1 < length argv \<and> argv ! 1 = ''-r'') n))"

lemma ir_read_eq:
  "ir_read restart n = (let k = (if 0 < n \<and> \<not> restart then 1 else n) in
     (concat (replicate k (''INT signal caught !'' @ nl)), if 0 < n \<and> \<not> restart then Some 1 else None))"
  by (induction restart n rule: ir_read.induct) (simp_all add: Let_def)

text \<open>
  \<open>sigchld.c\<close> up to its \<open>pause()\<close>, which nothing but a caught signal ends: what has become of the child
  that was sent \<open>SIGTERM\<close>.
\<close>

datatype sc_child = Zombie | Reaped

definition sc_main :: "nat \<Rightarrow> bool \<Rightarrow> char option \<Rightarrow> exit_info + sc_child" where
  "sc_main argc fork_ok input =
     (if \<not> fork_ok then Inl (Exit 1 ''fork'')
      else if input = None then Inl (Exit 1 ''read'')
      else let sigchld = (if 1 < argc then Ignored else Default) in
        Inr (if sigchld = Ignored then Reaped else Zombie))"

text \<open>
  The handler of \<open>siginfo.c\<close>: what it prints; \<^term>\<open>None\<close> if it reads through the null pointer that
  \<open>getpwuid()\<close> returns for an unknown user. \<open>SI_USER\<close> is 0.
\<close>

record siginfo =
  si_signo :: int
  si_code :: int
  si_pid :: int
  si_uid :: int

definition si_handler :: "(int \<Rightarrow> string) \<Rightarrow> (int \<Rightarrow> string option) \<Rightarrow> int \<Rightarrow> siginfo option \<Rightarrow> string option" where
  "si_handler strsignal getpwuid sig info =
     (case info of
        None \<Rightarrow> Some (''NULL signal info, we only know the signal number'' @ nl @ ''sig received: '' @ strsignal sig @ nl)
      | Some i \<Rightarrow>
          if si_code i = 0 then
            (case getpwuid (si_uid i) of
               None \<Rightarrow> None
             | Some name \<Rightarrow>
                 Some (''sig received: '' @ strsignal (si_signo i) @ nl
                   @ ''signalled by PID: '' @ show_int (si_pid i) @ nl
                   @ ''and process was owned by: '' @ name @ nl))
          else Some (''signal not generated from a user process.'' @ nl
                 @ ''that means there is no PID nor UID.'' @ nl
                 @ ''info->sig_code was '' @ show_int (si_code i) @ ''.'' @ nl))"

lemma si_handler_crash:
  "si_handler strsignal getpwuid sig info = None \<longleftrightarrow> (\<exists>i. info = Some i \<and> si_code i = 0 \<and> getpwuid (si_uid i) = None)"
  by (auto simp: si_handler_def split: option.splits)

text \<open>
  The program: the signals that arrive during \<open>pause()\<close>, one after the other, with what the kernel tells of each. It keeps a buffer \<open>b\<close> unless its output is a
  terminal; the handler flushes it only if it has got an information, and a signal that kills loses it. The result is what has been
  written, what is in the buffer, and the signal that has killed it: SIGSEGV if the handler crashes, or any other that kills by default.
\<close>

definition si_put :: "bool \<Rightarrow> string \<Rightarrow> string \<times> string \<Rightarrow> string \<times> string" where
  "si_put tty m io = (if tty then (fst io @ m, snd io) else (fst io, snd io @ m))"

fun si_loop ::
  "bool \<Rightarrow> (int \<Rightarrow> bool) \<Rightarrow> (int \<Rightarrow> string) \<Rightarrow> (int \<Rightarrow> string option) \<Rightarrow> (int \<times> siginfo option) list \<Rightarrow> string \<times> string \<Rightarrow> (string \<times> string) \<times> int option"
where
  "si_loop tty kills strsignal getpwuid [] io = (io, None)"
| "si_loop tty kills strsignal getpwuid ((sig, info) # sigs) io =
     (if sig = 2
      then (case si_handler strsignal getpwuid sig info of
              None \<Rightarrow> ((fst io, []), Some 11)
            | Some m \<Rightarrow>
                let io = si_put tty m io;
                    io = (if info = None then io else (fst io @ snd io, []))
                in si_loop tty kills strsignal getpwuid sigs io)
      else if kills sig then ((fst io, []), Some sig)
      else si_loop tty kills strsignal getpwuid sigs io)"

definition si_main ::
  "bool \<Rightarrow> (int \<Rightarrow> bool) \<Rightarrow> (int \<Rightarrow> string) \<Rightarrow> (int \<Rightarrow> string option) \<Rightarrow> int \<Rightarrow> (int \<times> siginfo option) list \<Rightarrow> (string \<times> string) \<times> int option"
where
  "si_main tty kills strsignal getpwuid pid sigs =
     si_loop tty kills strsignal getpwuid sigs (si_put tty (''PID '' @ show_int pid @ '' started, kill me with SIGINT...'' @ nl) ([], []))"

text \<open>While every SIGINT comes with an information, a file gets the same text as a terminal, once the first has come. The message for a missing information
  stays in the buffer, and is lost if the next signal kills.\<close>

lemma si_loop_file:
  "\<forall>x \<in> set sigs. fst x = 2 \<longrightarrow> snd x \<noteq> None \<Longrightarrow>
     si_loop False kills strsignal getpwuid sigs (w, []) = si_loop True kills strsignal getpwuid sigs (w, [])"
proof (induction sigs arbitrary: w)
  case (Cons x sigs)
  obtain sig info where x: "x = (sig, info)" by (cases x)
  with Cons show ?case by (cases "si_handler strsignal getpwuid sig info") (auto simp: si_put_def Let_def)
qed simp

theorem si_output:
  assumes "\<forall>x \<in> set sigs. fst x = 2 \<longrightarrow> snd x \<noteq> None" "si_handler strsignal getpwuid 2 (Some i) \<noteq> None"
  shows "si_main False kills strsignal getpwuid pid ((2, Some i) # sigs) = si_main True kills strsignal getpwuid pid ((2, Some i) # sigs)"
    and "kills k \<Longrightarrow> k \<noteq> 2 \<Longrightarrow> si_main False kills strsignal getpwuid pid [(2, None), (k, None)] = (([], []), Some k)"
proof -
  from assms(2) obtain m where m: "si_handler strsignal getpwuid 2 (Some i) = Some m" by auto
  show "si_main False kills strsignal getpwuid pid ((2, Some i) # sigs) = si_main True kills strsignal getpwuid pid ((2, Some i) # sigs)"
    using si_loop_file [OF assms(1)] by (simp add: si_main_def si_put_def m Let_def)
  show "kills k \<Longrightarrow> k \<noteq> 2 \<Longrightarrow> si_main False kills strsignal getpwuid pid [(2, None), (k, None)] = (([], []), Some k)"
    by (simp add: si_main_def si_handler_def si_put_def Let_def)
qed

text \<open>\<open>kill(pid, 0)\<close> as \<open>check-existence.c\<close> uses it.\<close>

datatype kill_result = Kill_ok | Kill_EPERM | Kill_ESRCH

definition ck_main :: "(int \<Rightarrow> kill_result) \<Rightarrow> string list \<Rightarrow> outcome" where
  "ck_main kill argv =
     (if length argv \<noteq> 2 then \<lparr>oc_out = [], oc_err = errx_line (hd argv) ''Need a PID as argument.'', oc_status = 1\<rparr>
      else let pid = atoi (argv ! 1) in
        if kill pid = Kill_ESRCH
        then \<lparr>oc_out = [], oc_err = errx_line (hd argv) (''Failed signalling pid '' @ show_int pid @ ''.''), oc_status = 1\<rparr>
        else \<lparr>oc_out = ''Process with pid '' @ show_int pid @ '' exists.'' @ nl, oc_err = [], oc_status = 0\<rparr>)"

text \<open>
  The status tells whether a process with that number exists, also one the caller may not signal.
  An argument that is no number is taken for 0, which stands for the caller's own process group, so
  that the program reports that process 0 exists.
\<close>

lemma ck_main_status: "oc_status (ck_main kill [prog, p]) = (if kill (atoi p) = Kill_ESRCH then 1 else 0)"
  by (simp add: ck_main_def Let_def)

lemma ck_main_not_a_number:
  assumes "kill 0 = Kill_ok"
  shows "oc_out (ck_main kill [prog, ''init'']) = ''Process with pid 0 exists.'' @ nl"
proof -
  have "atoi ''init'' = 0" "show_int 0 = ''0''" by code_simp+
  with assms show ?thesis by (simp add: ck_main_def)
qed

end
