(* ===== verification/Thread_Arguments.thy ===== *)
theory Thread_Arguments
  imports Prelude
begin

text \<open>
  Three ways to give a thread its number: a pointer to a variable of its own
  (\<open>pthreads/correct-use-of-args.c\<close>), a pointer to the loop counter of \<open>main()\<close>
  (\<open>pthreads/wrong-use-of-arg.c\<close>) and the number itself, cast to a pointer (\<open>pthreads/int-as-arg.c\<close>).
  All threads and \<open>main()\<close> share one memory; the end of \<open>main()\<close> ends the process.
\<close>

section \<open>Threads, memory and joining\<close>

text \<open>
  The argument of a thread is a \<open>void *\<close>: the address of \<open>i\<close> or of \<open>id[k]\<close>, or 64 bits that are no
  address.
\<close>

datatype ta_addr = Addr_i | Addr_id nat
datatype ta_arg = Ptr ta_addr | Raw "64 word"

datatype ta_thr = T_unborn | T_loop nat | T_ended | T_joined

datatype ta_main = M_loop nat | M_inc nat | M_join nat | M_joining nat | M_exit

datatype ta_msg = Run_note | Yield_note | Line int nat | Joining nat | Joined | Join_error

record ta_state =
  ta_pc :: ta_main
  ta_thr :: "nat \<Rightarrow> ta_thr"
  ta_arg :: "nat \<Rightarrow> ta_arg"
  ta_mem :: "ta_addr \<Rightarrow> int option"
  ta_t :: "nat \<Rightarrow> nat option"
  ta_out :: "ta_msg list"

datatype ta_event = Main | Thr nat

definition NUM_LOOPS :: nat where "NUM_LOOPS = 3"
definition ARG_THREADS :: nat where "ARG_THREADS = 5"

definition ta_say :: "ta_msg \<Rightarrow> ta_state \<Rightarrow> ta_state" where
  "ta_say m s = s\<lparr>ta_out := ta_out s @ [m]\<rparr>"

definition ta_goto :: "ta_main \<Rightarrow> ta_state \<Rightarrow> ta_state" where
  "ta_goto p s = s\<lparr>ta_pc := p\<rparr>"

definition ta_move :: "nat \<Rightarrow> ta_thr \<Rightarrow> ta_state \<Rightarrow> ta_state" where
  "ta_move k p s = s\<lparr>ta_thr := (ta_thr s)(k := p)\<rparr>"

text \<open>The body of \<open>thread()\<close>, which the programs share but for the way \<open>x\<close> is read.\<close>

fun ta_body :: "(ta_arg \<Rightarrow> ta_state \<Rightarrow> int option) \<Rightarrow> nat \<Rightarrow> ta_thr \<Rightarrow> ta_state \<Rightarrow> ta_state option" where
  "ta_body rd k (T_loop l) s =
     (if l < NUM_LOOPS
      then map_option (\<lambda>v. ta_move k (T_loop (Suc l)) (ta_say (Line v l) s)) (rd (ta_arg s k) s)
      else Some (ta_move k T_ended s))"
| "ta_body rd k p s = None"

text \<open>\<open>pthread_create\<close>: the thread \<open>k\<close> (threads are numbered in the order of their creation) gets \<open>x\<close>, its handle goes to \<open>t + n\<close>.\<close>

definition ta_create :: "nat \<Rightarrow> nat \<Rightarrow> ta_arg \<Rightarrow> ta_state \<Rightarrow> ta_state" where
  "ta_create n k x s = s\<lparr>ta_thr := (ta_thr s)(k := T_loop 0), ta_arg := (ta_arg s)(k := x), ta_t := (ta_t s)(n := Some k)\<rparr>"

text \<open>
  \<open>pthread_join\<close> waits for the end of the thread; it fails for a thread that was joined before
  (\<open>ESRCH\<close> on the systems the program is written for). After that the programs print whether it failed.
\<close>

definition ta_join :: "nat option \<Rightarrow> ta_main \<Rightarrow> ta_state \<Rightarrow> ta_state option" where
  "ta_join h p s =
     (case h of None \<Rightarrow> None
      | Some k \<Rightarrow>
        (case ta_thr s k of
           T_ended \<Rightarrow> Some (ta_goto p (ta_say Joined (ta_move k T_joined s)))
         | T_joined \<Rightarrow> Some (ta_goto p (ta_say Join_error s))
         | _ \<Rightarrow> None))"

definition ta_init :: "ta_msg list \<Rightarrow> ta_state" where
  "ta_init out = \<lparr>ta_pc = M_loop 0, ta_thr = (\<lambda>_. T_unborn), ta_arg = (\<lambda>_. Raw 0), ta_mem = (\<lambda>_. None),
     ta_t = (\<lambda>_. None), ta_out = out\<rparr>"

definition ta_step :: "(nat \<Rightarrow> ta_thr \<Rightarrow> ta_state \<Rightarrow> ta_state option) \<Rightarrow> (ta_main \<Rightarrow> ta_state \<Rightarrow> ta_state option) \<Rightarrow>
    ta_event \<Rightarrow> ta_state \<Rightarrow> ta_state option" where
  "ta_step body mn e s =
     (if ta_pc s = M_exit then None
      else case e of Main \<Rightarrow> mn (ta_pc s) s | Thr k \<Rightarrow> body k (ta_thr s k) s)"

lemmas ta_defs = ta_say_def ta_goto_def ta_move_def ta_create_def ta_join_def

section \<open>The programs\<close>

text \<open>\<open>*((int *)x)\<close> in the first two, \<open>(int)x\<close> in the third.\<close>

fun ta_deref :: "ta_arg \<Rightarrow> ta_state \<Rightarrow> int option" where
  "ta_deref (Ptr a) s = ta_mem s a"
| "ta_deref (Raw w) s = None"

lemma ta_deref_mem: "ta_mem s = ta_mem t \<Longrightarrow> ta_deref x s = ta_deref x t"
  by (cases x) simp_all

definition cu_thread :: "nat \<Rightarrow> ta_thr \<Rightarrow> ta_state \<Rightarrow> ta_state option" where
  "cu_thread = ta_body ta_deref"

definition wu_thread :: "nat \<Rightarrow> ta_thr \<Rightarrow> ta_state \<Rightarrow> ta_state option" where
  "wu_thread = ta_body ta_deref"

definition cu_start :: "nat \<Rightarrow> ta_state" where
  "cu_start argc = ta_init (if 1 < argc then [Yield_note] else [])"

fun ia_int :: "ta_arg \<Rightarrow> ta_state \<Rightarrow> int option" where
  "ia_int (Raw w) s = Some (sint (ucast w :: 32 word))"
| "ia_int (Ptr a) s = None"

definition ia_void :: "int \<Rightarrow> ta_arg" where
  "ia_void i = Raw (scast (word_of_int i :: 32 word))"

text \<open>\<open>correct-use-of-args.c\<close>: the counter is a variable of \<open>main()\<close> only, each thread has its \<open>id[i]\<close>.\<close>

fun cu_main_stmt :: "ta_main \<Rightarrow> ta_state \<Rightarrow> ta_state option" where
  "cu_main_stmt (M_loop i) s =
     Some (if i < ARG_THREADS
           then ta_goto (M_loop (Suc i))
             (ta_create i i (Ptr (Addr_id i)) (s\<lparr>ta_mem := (ta_mem s)(Addr_id i := Some (int i))\<rparr>))
           else ta_goto (M_join 0) s)"
| "cu_main_stmt (M_join j) s =
     Some (if j < ARG_THREADS then ta_goto (M_joining j) (ta_say (Joining j) s) else ta_goto M_exit s)"
| "cu_main_stmt (M_joining j) s = ta_join (ta_t s j) (M_join (Suc j)) s"
| "cu_main_stmt _ s = None"

text \<open>
  \<open>wrong-use-of-arg.c\<close>: the counter is in memory, and each handle overwrites the one before. That the
  counter is incremented is a step of its own. The argument of the program counters is only the number of
  threads created (of joins made), not a variable.
\<close>

fun wu_main_stmt :: "ta_main \<Rightarrow> ta_state \<Rightarrow> ta_state option" where
  "wu_main_stmt (M_loop n) s =
     (case ta_mem s Addr_i of None \<Rightarrow> None
      | Some i \<Rightarrow> Some (if i < int ARG_THREADS then ta_goto (M_inc n) (ta_create 0 n (Ptr Addr_i) s)
                       else ta_goto (M_join 0) s))"
| "wu_main_stmt (M_inc n) s = Some (ta_goto (M_loop (Suc n)) (s\<lparr>ta_mem := (ta_mem s)(Addr_i := map_option (\<lambda>i. i + 1) (ta_mem s Addr_i))\<rparr>))"
| "wu_main_stmt (M_join j) s =
     Some (if j < ARG_THREADS then ta_goto (M_joining j) (ta_say (Joining j) s) else ta_goto M_exit s)"
| "wu_main_stmt (M_joining j) s = ta_join (ta_t s 0) (M_join (Suc j)) s"
| "wu_main_stmt _ s = None"

text \<open>\<open>int-as-arg.c\<close>: \<open>main()\<close> sleeps and exits, without a join.\<close>

fun ia_main_stmt :: "ta_main \<Rightarrow> ta_state \<Rightarrow> ta_state option" where
  "ia_main_stmt (M_loop i) s =
     Some (if i < ARG_THREADS then ta_goto (M_loop (Suc i)) (ta_create i i (ia_void (int i)) s) else ta_goto M_exit s)"
| "ia_main_stmt _ s = None"

definition cu_step :: "ta_event \<Rightarrow> ta_state \<Rightarrow> ta_state option" where
  "cu_step = ta_step cu_thread cu_main_stmt"

definition wu_step :: "ta_event \<Rightarrow> ta_state \<Rightarrow> ta_state option" where
  "wu_step = ta_step wu_thread wu_main_stmt"

definition wu_start :: "nat \<Rightarrow> ta_state" where
  "wu_start argc = (ta_init (Run_note # (if 1 < argc then [Yield_note] else [])))\<lparr>ta_mem := [Addr_i \<mapsto> 0]\<rparr>"

definition ia_thread :: "nat \<Rightarrow> ta_thr \<Rightarrow> ta_state \<Rightarrow> ta_state option" where
  "ia_thread = ta_body ia_int"

definition ia_step :: "ta_event \<Rightarrow> ta_state \<Rightarrow> ta_state option" where
  "ia_step = ta_step ia_thread ia_main_stmt"

text \<open>What a thread can change.\<close>

lemma ta_body_effect:
  assumes "ta_body rd k (ta_thr s k) s = Some t"
  obtains (line) l v where "ta_thr s k = T_loop l" "l < NUM_LOOPS" "rd (ta_arg s k) s = Some v"
      "t = ta_move k (T_loop (Suc l)) (ta_say (Line v l) s)"
    | (stop) l where "ta_thr s k = T_loop l" "\<not> l < NUM_LOOPS" "t = ta_move k T_ended s"
  using assms by (cases "ta_thr s k") (auto split: if_splits)

section \<open>Threads that print their own number\<close>

text \<open>The loop numbers printed with the thread number \<open>v\<close>.\<close>

fun ta_lines :: "int \<Rightarrow> ta_msg list \<Rightarrow> nat list" where
  "ta_lines v [] = []"
| "ta_lines v (Line w l # ms) = (if w = v then [l] else []) @ ta_lines v ms"
| "ta_lines v (m # ms) = ta_lines v ms"

lemma ta_lines_append [simp]: "ta_lines v (ms @ ns) = ta_lines v ms @ ta_lines v ns"
  by (induction v ms rule: ta_lines.induct) simp_all

fun ta_loops :: "ta_thr \<Rightarrow> nat" where
  "ta_loops T_unborn = 0"
| "ta_loops (T_loop l) = l"
| "ta_loops _ = NUM_LOOPS"

definition ta_own_thr :: "(ta_arg \<Rightarrow> ta_state \<Rightarrow> int option) \<Rightarrow> ta_state \<Rightarrow> nat \<Rightarrow> bool" where
  "ta_own_thr rd s k \<longleftrightarrow> ta_lines (int k) (ta_out s) = [0..<ta_loops (ta_thr s k)]
     \<and> ta_loops (ta_thr s k) \<le> NUM_LOOPS \<and> (ta_thr s k \<noteq> T_unborn \<longrightarrow> rd (ta_arg s k) s = Some (int k))"

definition ta_own :: "(ta_arg \<Rightarrow> ta_state \<Rightarrow> int option) \<Rightarrow> ta_state \<Rightarrow> bool" where
  "ta_own rd s \<longleftrightarrow> (\<forall>k. ta_own_thr rd s k) \<and> (\<forall>v < 0. ta_lines v (ta_out s) = [])"

text \<open>
  The contract: reading \<open>x\<close> depends on the memory only, which the threads do not write, and what
  \<open>main()\<close> does keeps \<open>ta_own\<close> and an invariant of the program.
\<close>

locale ta_numbers = step_invariant "ta_step (ta_body rd) mn" start inv
  for rd :: "ta_arg \<Rightarrow> ta_state \<Rightarrow> int option" and mn :: "ta_main \<Rightarrow> ta_state \<Rightarrow> ta_state option" and start inv +
  assumes rd_mem: "ta_mem s = ta_mem t \<Longrightarrow> rd x s = rd x t"
    and own_start: "ta_own rd start"
    and own_main: "inv s \<Longrightarrow> ta_own rd s \<Longrightarrow> mn (ta_pc s) s = Some t \<Longrightarrow> ta_own rd t"
begin

lemma own_thread:
  assumes own: "ta_own rd s" and st: "ta_body rd k (ta_thr s k) s = Some t"
  shows "ta_own rd t"
proof -
  from own have all: "\<And>m. ta_own_thr rd s m" and neg: "\<forall>v < 0. ta_lines v (ta_out s) = []"
    by (simp_all add: ta_own_def)
  have "ta_mem t = ta_mem s" using st by (cases rule: ta_body_effect) (simp_all add: ta_defs)
  then have rd: "rd x t = rd x s" for x by (rule rd_mem)
  have "ta_own_thr rd t m" for m
    using st all [of k] all [of m] unfolding ta_own_thr_def rd
    by (cases rule: ta_body_effect; cases "m = k") (auto simp: ta_defs)
  moreover have "\<forall>v < 0. ta_lines v (ta_out t) = []"
    using st all [of k] neg by (cases rule: ta_body_effect) (auto simp: ta_defs ta_own_thr_def)
  ultimately show ?thesis unfolding ta_own_def by blast
qed

lemma own_step: "inv s \<Longrightarrow> ta_own rd s \<Longrightarrow> ta_step (ta_body rd) mn e s = Some t \<Longrightarrow> ta_own rd t"
  using own_thread [of s] own_main [of s t] by (cases e) (simp_all add: ta_step_def split: if_splits)

lemma own_exec: "exec (ta_step (ta_body rd) mn) es start = Some s \<Longrightarrow> inv s \<and> ta_own rd s"
  by (induction rule: exec_snoc_induct) (use own_start own_step inv_init inv_step in blast)+

end

text \<open>What \<open>main()\<close> may do: print anything but a line, move a thread on to \<open>T_joined\<close>, create one with a readable argument.\<close>

lemma ta_own_quiet:
  assumes "ta_own rd s" "\<And>k. ta_loops (ta_thr t k) = ta_loops (ta_thr s k)" "\<And>k. ta_thr t k = T_unborn \<longleftrightarrow> ta_thr s k = T_unborn"
    "ta_arg t = ta_arg s" "\<And>v. ta_lines v (ta_out t) = ta_lines v (ta_out s)" "\<And>x. rd x t = rd x s"
  shows "ta_own rd t"
  using assms by (simp add: ta_own_def ta_own_thr_def)

lemma ta_own_deref:
  assumes "ta_own ta_deref s" "\<And>k. ta_loops (ta_thr t k) = ta_loops (ta_thr s k)" "\<And>k. ta_thr t k = T_unborn \<longleftrightarrow> ta_thr s k = T_unborn"
    "ta_arg t = ta_arg s" "\<And>v. ta_lines v (ta_out t) = ta_lines v (ta_out s)" "ta_mem t = ta_mem s"
  shows "ta_own ta_deref t"
  using assms by (intro ta_own_quiet [OF assms(1)] ta_deref_mem) simp_all

lemma ta_own_create:
  assumes own: "ta_own rd s" and k: "ta_thr s k = T_unborn" "rd x t = Some (int k)"
    and t: "ta_thr t = (ta_thr s)(k := T_loop 0)" "ta_arg t = (ta_arg s)(k := x)" "ta_out t = ta_out s"
    and rd: "\<And>m. m \<noteq> k \<Longrightarrow> ta_thr s m \<noteq> T_unborn \<Longrightarrow> rd (ta_arg s m) t = rd (ta_arg s m) s"
  shows "ta_own rd t"
proof -
  from own have all: "\<And>m. ta_own_thr rd s m" by (simp add: ta_own_def)
  have "ta_own_thr rd t m" for m
    using all [of m] k t rd [of m] by (cases "m = k") (simp_all add: ta_own_thr_def)
  with own t show ?thesis by (simp add: ta_own_def)
qed

lemma ta_own_init: "\<forall>v. ta_lines v out = [] \<Longrightarrow> ta_own rd (ta_init out)"
  by (simp add: ta_own_def ta_own_thr_def ta_init_def)

section \<open>The correct program\<close>

fun cu_created :: "ta_main \<Rightarrow> nat" where
  "cu_created (M_loop i) = i"
| "cu_created _ = ARG_THREADS"

fun ta_joins :: "ta_main \<Rightarrow> nat" where
  "ta_joins (M_join j) = j"
| "ta_joins (M_joining j) = j"
| "ta_joins M_exit = ARG_THREADS"
| "ta_joins _ = 0"

fun cu_pc_ok :: "ta_main \<Rightarrow> bool" where
  "cu_pc_ok (M_loop i) \<longleftrightarrow> i \<le> ARG_THREADS"
| "cu_pc_ok (M_inc n) \<longleftrightarrow> False"
| "cu_pc_ok (M_join j) \<longleftrightarrow> j \<le> ARG_THREADS"
| "cu_pc_ok (M_joining j) \<longleftrightarrow> j < ARG_THREADS"
| "cu_pc_ok M_exit \<longleftrightarrow> True"

definition cu_thr_ok :: "ta_state \<Rightarrow> nat \<Rightarrow> bool" where
  "cu_thr_ok s k \<longleftrightarrow> (ta_thr s k = T_unborn \<longleftrightarrow> cu_created (ta_pc s) \<le> k)
     \<and> (ta_thr s k = T_joined \<longleftrightarrow> k < ta_joins (ta_pc s))
     \<and> (k < cu_created (ta_pc s) \<longrightarrow> ta_arg s k = Ptr (Addr_id k) \<and> ta_t s k = Some k)"

definition cu_inv :: "ta_state \<Rightarrow> bool" where
  "cu_inv s \<longleftrightarrow> cu_pc_ok (ta_pc s) \<and> Join_error \<notin> set (ta_out s) \<and> (\<forall>k. cu_thr_ok s k)"

lemma cu_inv_main:
  assumes inv: "cu_inv s" and st: "cu_main_stmt (ta_pc s) s = Some t"
  shows "cu_inv t"
proof -
  from inv have pc: "cu_pc_ok (ta_pc s)" and err: "Join_error \<notin> set (ta_out s)" and all: "\<And>k. cu_thr_ok s k"
    by (simp_all add: cu_inv_def)
  have "cu_thr_ok t k" for k
    using all [of k] all [of "ta_joins (ta_pc s)"] st [symmetric] pc
    by (cases "ta_pc s")
      (auto simp: cu_thr_ok_def ta_defs less_Suc_eq split: if_splits option.splits ta_thr.splits)
  moreover have "cu_pc_ok (ta_pc t) \<and> Join_error \<notin> set (ta_out t)"
    using st [symmetric] pc err all [of "ta_joins (ta_pc s)"]
    by (cases "ta_pc s") (auto simp: cu_thr_ok_def ta_defs split: if_splits option.splits ta_thr.splits)
  ultimately show ?thesis by (simp add: cu_inv_def)
qed

lemma cu_inv_thread:
  assumes inv: "cu_inv s" and st: "ta_body ta_deref k (ta_thr s k) s = Some t"
  shows "cu_inv t"
proof -
  from inv have pc: "cu_pc_ok (ta_pc s)" and err: "Join_error \<notin> set (ta_out s)" and all: "\<And>k. cu_thr_ok s k"
    by (simp_all add: cu_inv_def)
  have "cu_thr_ok t m" for m
    using st all [of m] by (cases rule: ta_body_effect; cases "m = k") (auto simp: cu_thr_ok_def ta_defs)
  moreover have "cu_pc_ok (ta_pc t) \<and> Join_error \<notin> set (ta_out t)"
    using st pc err by (cases rule: ta_body_effect) (auto simp: ta_defs)
  ultimately show ?thesis by (simp add: cu_inv_def)
qed

lemma cu_step_cases:
  assumes "cu_step e s = Some t"
  obtains "ta_pc s \<noteq> M_exit" "e = Main" "cu_main_stmt (ta_pc s) s = Some t"
    | k where "ta_pc s \<noteq> M_exit" "e = Thr k" "ta_body ta_deref k (ta_thr s k) s = Some t"
  using assms by (cases e) (auto simp: cu_step_def ta_step_def cu_thread_def split: if_splits)

lemma cu_own_main:
  assumes inv: "cu_inv s" and own: "ta_own ta_deref s" and st: "cu_main_stmt (ta_pc s) s = Some t"
  shows "ta_own ta_deref t"
proof (cases "ta_pc s")
  case (M_loop i)
  from inv have all: "\<And>k. cu_thr_ok s k" by (simp add: cu_inv_def)
  show ?thesis
  proof (cases "i < ARG_THREADS")
    case True
    with st M_loop have t: "t = ta_goto (M_loop (Suc i))
        (ta_create i i (Ptr (Addr_id i)) (s\<lparr>ta_mem := (ta_mem s)(Addr_id i := Some (int i))\<rparr>))" by simp
    from all [of i] M_loop have u: "ta_thr s i = T_unborn" by (simp add: cu_thr_ok_def)
    show ?thesis
    proof (rule ta_own_create [OF own u])
      fix m assume "m \<noteq> i" "ta_thr s m \<noteq> T_unborn"
      with all [of m] M_loop show "ta_deref (ta_arg s m) t = ta_deref (ta_arg s m) s"
        by (auto simp: t cu_thr_ok_def ta_defs)
    qed (simp_all add: t ta_defs)
  next
    case False
    with st M_loop have t: "t = ta_goto (M_join 0) s" by simp
    show ?thesis by (rule ta_own_deref [OF own]) (simp_all add: t ta_goto_def)
  qed
next
  case (M_join j)
  with st [symmetric] show ?thesis
    by (intro ta_own_deref [OF own]) (auto simp: ta_defs)
next
  case (M_joining j)
  with st [symmetric] show ?thesis
    by (intro ta_own_deref [OF own]) (auto simp: ta_defs split: option.splits ta_thr.splits)
qed (use st in simp_all)

lemma cu_step_eq: "ta_step (ta_body ta_deref) cu_main_stmt = cu_step"
  by (simp add: cu_step_def cu_thread_def)

interpretation cu: ta_numbers ta_deref cu_main_stmt "cu_start argc" cu_inv for argc
proof unfold_locales
  show "cu_inv (cu_start argc)" by (simp add: cu_inv_def cu_start_def ta_init_def cu_thr_ok_def)
  show "ta_own ta_deref (cu_start argc)" unfolding cu_start_def by (rule ta_own_init) simp
next
  fix s e t assume "cu_inv s" "ta_step (ta_body ta_deref) cu_main_stmt e s = Some t"
  then show "cu_inv t"
    unfolding cu_step_eq using cu_inv_main cu_inv_thread by (blast elim: cu_step_cases)
qed (use ta_deref_mem cu_own_main in blast)+

text \<open>Statements left.\<close>

fun ta_rank :: "ta_thr \<Rightarrow> nat" where
  "ta_rank T_unborn = 4"
| "ta_rank (T_loop l) = Suc (3 - l)"
| "ta_rank _ = 0"

definition ta_left :: "(ta_main \<Rightarrow> nat) \<Rightarrow> ta_state \<Rightarrow> nat" where
  "ta_left f s = f (ta_pc s) + (\<Sum>k < ARG_THREADS. ta_rank (ta_thr s k))"

lemma ta_left_thread:
  assumes "ta_body rd k (ta_thr s k) s = Some t" "k < ARG_THREADS"
  shows "ta_left f t < ta_left f s"
  using assms(1)
proof (cases rule: ta_body_effect)
  case (line l v)
  then show ?thesis
    using sum_upd [OF assms(2), of ta_rank "ta_thr s" "T_loop (Suc l)"]
    by (simp add: ta_left_def ta_defs NUM_LOOPS_def)
next
  case (stop l)
  then show ?thesis
    using sum_upd [OF assms(2), of ta_rank "ta_thr s" T_ended] by (simp add: ta_left_def ta_defs)
qed

lemma ta_left_main:
  assumes "f (ta_pc t) < f (ta_pc s)" "\<And>k. ta_rank (ta_thr t k) \<le> ta_rank (ta_thr s k)"
  shows "ta_left f t < ta_left f s"
  unfolding ta_left_def using assms by (intro add_less_le_mono sum_mono)

fun cu_rank :: "ta_main \<Rightarrow> nat" where
  "cu_rank (M_loop i) = (ARG_THREADS - i) + 12"
| "cu_rank (M_join j) = 2 * (ARG_THREADS - j) + 1"
| "cu_rank (M_joining j) = 2 * (ARG_THREADS - j)"
| "cu_rank _ = 0"

interpretation cu_end: step_measure cu_step "cu_start argc" cu_inv "ta_left cu_rank" for argc
proof unfold_locales
  fix s e t assume inv: "cu_inv s" and "cu_step e s = Some t"
  then show "ta_left cu_rank t < ta_left cu_rank s"
  proof (elim cu_step_cases)
    assume st: "cu_main_stmt (ta_pc s) s = Some t"
    from inv have pc: "cu_pc_ok (ta_pc s)" and all: "\<And>k. cu_thr_ok s k" by (simp_all add: cu_inv_def)
    show ?thesis
    proof (rule ta_left_main)
      show "cu_rank (ta_pc t) < cu_rank (ta_pc s)"
        using st [symmetric] pc
        by (cases "ta_pc s") (auto simp: ta_defs ARG_THREADS_def split: if_splits option.splits ta_thr.splits)
      show "ta_rank (ta_thr t k) \<le> ta_rank (ta_thr s k)" for k
        using st [symmetric] all [of k]
        by (cases "ta_pc s") (auto simp: ta_defs cu_thr_ok_def split: if_splits option.splits ta_thr.splits)
    qed
  next
    fix k assume st: "ta_body ta_deref k (ta_thr s k) s = Some t"
    from inv have "cu_pc_ok (ta_pc s)" "cu_thr_ok s k" by (simp_all add: cu_inv_def)
    moreover have "ta_thr s k \<noteq> T_unborn" using st by auto
    ultimately have "k < ARG_THREADS" by (cases "ta_pc s") (auto simp: cu_thr_ok_def)
    with st show ?thesis by (rule ta_left_thread)
  qed
qed (use cu.inv_init cu.inv_step cu_step_eq in auto)

lemma cu_progress:
  assumes inv: "cu_inv s" and own: "ta_own ta_deref s" and ne: "ta_pc s \<noteq> M_exit"
  shows "\<exists>e t. cu_step e s = Some t"
proof (cases "\<exists>j. ta_pc s = M_joining j")
  case True
  then obtain j where j: "ta_pc s = M_joining j" by blast
  with inv have ok: "cu_thr_ok s j" "j < ARG_THREADS" by (auto simp: cu_inv_def dest: arg_cong [of _ _ cu_pc_ok])
  show ?thesis
  proof (cases "ta_thr s j")
    case (T_loop l)
    with own have "ta_deref (ta_arg s j) s = Some (int j)" by (simp add: ta_own_def ta_own_thr_def)
    with j T_loop have "cu_step (Thr j) s \<noteq> None"
      by (simp add: cu_step_def ta_step_def cu_thread_def)
    then show ?thesis by blast
  next
    case T_ended
    with j ok have "cu_step Main s \<noteq> None" by (simp add: cu_step_def ta_step_def ta_join_def cu_thr_ok_def)
    then show ?thesis by blast
  qed (use j ok in \<open>simp_all add: cu_thr_ok_def\<close>)
next
  case False
  with inv ne have "cu_step Main s \<noteq> None"
    by (cases "ta_pc s") (auto simp: cu_inv_def cu_step_def ta_step_def)
  then show ?thesis by blast
qed

section \<open>Sharing the counter\<close>

fun wu_counter :: "ta_main \<Rightarrow> nat" where
  "wu_counter (M_loop n) = n"
| "wu_counter (M_inc n) = n"
| "wu_counter _ = ARG_THREADS"

fun wu_created :: "ta_main \<Rightarrow> nat" where
  "wu_created (M_inc n) = Suc n"
| "wu_created p = wu_counter p"

fun wu_pc_ok :: "ta_main \<Rightarrow> bool" where
  "wu_pc_ok (M_inc n) \<longleftrightarrow> n < ARG_THREADS"
| "wu_pc_ok p \<longleftrightarrow> cu_pc_ok p"

definition wu_thr_ok :: "ta_state \<Rightarrow> nat \<Rightarrow> bool" where
  "wu_thr_ok s k \<longleftrightarrow> (ta_thr s k = T_unborn \<longleftrightarrow> wu_created (ta_pc s) \<le> k)
     \<and> (ta_thr s k = T_joined \<longleftrightarrow> Suc k = ARG_THREADS \<and> 0 < ta_joins (ta_pc s))
     \<and> (k < wu_created (ta_pc s) \<longrightarrow> ta_arg s k = Ptr Addr_i)"

fun is_line :: "ta_msg \<Rightarrow> bool" where
  "is_line (Line v l) = True"
| "is_line _ = False"

text \<open>Once the first join is announced every line says 5, and before that 0 to 5.\<close>

fun wu_msg_ok :: "ta_msg \<Rightarrow> bool" where
  "wu_msg_ok (Line v l) \<longleftrightarrow> 0 \<le> v \<and> v \<le> 5 \<and> l < NUM_LOOPS"
| "wu_msg_ok m \<longleftrightarrow> True"

fun wu_late_ok :: "ta_msg \<Rightarrow> bool" where
  "wu_late_ok (Line v l) \<longleftrightarrow> v = 5"
| "wu_late_ok m \<longleftrightarrow> True"

fun wu_late :: "ta_msg list \<Rightarrow> bool" where
  "wu_late [] \<longleftrightarrow> True"
| "wu_late (Joining j # ms) \<longleftrightarrow> (\<forall>m \<in> set ms. wu_late_ok m)"
| "wu_late (m # ms) \<longleftrightarrow> wu_late ms"

lemma wu_late_snoc: "wu_late (ms @ [m]) \<longleftrightarrow> wu_late ms \<and> (wu_late_ok m \<or> (\<forall>j. Joining j \<notin> set ms))"
  by (cases m; induction ms rule: wu_late.induct) auto

lemma wu_late_split: "wu_late (xs @ Joining j # ys) \<Longrightarrow> m \<in> set ys \<Longrightarrow> wu_late_ok m"
  by (induction xs rule: wu_late.induct) auto

fun is_joining :: "ta_msg \<Rightarrow> bool" where
  "is_joining (Joining j) = True"
| "is_joining _ = False"

definition wu_out_ok :: "ta_state \<Rightarrow> bool" where
  "wu_out_ok s \<longleftrightarrow> (\<forall>m \<in> set (ta_out s). wu_msg_ok m) \<and> wu_late (ta_out s)
     \<and> ((\<exists>j. Joining j \<in> set (ta_out s)) \<longrightarrow> wu_counter (ta_pc s) = ARG_THREADS)
     \<and> count_list (ta_out s) Joined = min 1 (ta_joins (ta_pc s))
     \<and> count_list (ta_out s) Join_error = ta_joins (ta_pc s) - 1"

definition wu_inv :: "ta_state \<Rightarrow> bool" where
  "wu_inv s \<longleftrightarrow> wu_pc_ok (ta_pc s) \<and> ta_mem s Addr_i = Some (int (wu_counter (ta_pc s)))
     \<and> (0 < wu_created (ta_pc s) \<longrightarrow> ta_t s 0 = Some (wu_created (ta_pc s) - 1))
     \<and> (\<forall>k. wu_thr_ok s k \<and> ta_loops (ta_thr s k) \<le> NUM_LOOPS) \<and> wu_out_ok s"

lemma wu_counter_le: "wu_pc_ok p \<Longrightarrow> wu_counter p \<le> 5"
  by (cases p) (simp_all add: ARG_THREADS_def)

lemma wu_inv_thread:
  assumes inv: "wu_inv s" and st: "ta_body ta_deref k (ta_thr s k) s = Some t"
  shows "wu_inv t"
proof -
  from inv have pc: "wu_pc_ok (ta_pc s)" and mem: "ta_mem s Addr_i = Some (int (wu_counter (ta_pc s)))"
    and all: "\<And>k. wu_thr_ok s k" and le: "\<And>k. ta_loops (ta_thr s k) \<le> NUM_LOOPS" and out: "wu_out_ok s" by (simp_all add: wu_inv_def)
  have thr: "wu_thr_ok t m \<and> ta_loops (ta_thr t m) \<le> NUM_LOOPS" for m
    using st all [of m] le [of m] by (cases rule: ta_body_effect; cases "m = k") (auto simp: wu_thr_ok_def ta_defs)
  have "ta_thr s k \<noteq> T_unborn" using st by auto
  with all [of k] have "ta_arg s k = Ptr Addr_i" by (simp add: wu_thr_ok_def)
  with mem have rd: "ta_deref (ta_arg s k) s = Some (int (wu_counter (ta_pc s)))" by simp
  have "wu_out_ok t" using st
  proof (cases rule: ta_body_effect)
    case (line l v)
    then have "wu_late_ok (Line v l) \<or> (\<forall>j. Joining j \<notin> set (ta_out s))" "wu_msg_ok (Line v l)"
      using out rd wu_counter_le [OF pc] by (auto simp: wu_out_ok_def ARG_THREADS_def)
    with line out show ?thesis by (auto simp: wu_out_ok_def ta_defs wu_late_snoc)
  next
    case (stop l)
    then show ?thesis using out by (simp add: wu_out_ok_def ta_defs)
  qed
  moreover have "ta_pc t = ta_pc s" "ta_mem t = ta_mem s" "ta_t t = ta_t s" using st by (cases rule: ta_body_effect; simp add: ta_defs)+
  ultimately show ?thesis using inv thr by (simp add: wu_inv_def)
qed

lemma wu_inv_main:
  assumes inv: "wu_inv s" and st: "wu_main_stmt (ta_pc s) s = Some t"
  shows "wu_inv t"
proof -
  from inv have pc: "wu_pc_ok (ta_pc s)" and mem: "ta_mem s Addr_i = Some (int (wu_counter (ta_pc s)))"
    and h: "0 < wu_created (ta_pc s) \<longrightarrow> ta_t s 0 = Some (wu_created (ta_pc s) - 1)"
    and all: "\<And>k. wu_thr_ok s k" and le: "\<And>k. ta_loops (ta_thr s k) \<le> NUM_LOOPS" and out: "wu_out_ok s" by (simp_all add: wu_inv_def)
  have "wu_thr_ok t k \<and> ta_loops (ta_thr t k) \<le> NUM_LOOPS" for k
    using all [of k] all [of 4] le [of k] st [symmetric] pc mem h
    by (cases "ta_pc s")
      (auto simp: wu_thr_ok_def ta_defs ARG_THREADS_def split: if_splits option.splits ta_thr.splits)
  moreover have "wu_pc_ok (ta_pc t)" "ta_mem t Addr_i = Some (int (wu_counter (ta_pc t)))"
      "0 < wu_created (ta_pc t) \<longrightarrow> ta_t t 0 = Some (wu_created (ta_pc t) - 1)"
    using st [symmetric] pc mem h by (cases "ta_pc s"; auto simp: ta_defs ARG_THREADS_def split: if_splits option.splits ta_thr.splits)+
  moreover have "wu_out_ok t"
  proof (cases "ta_pc s")
    case (M_joining j)
    with h have "ta_t s 0 = Some 4" by (simp add: ARG_THREADS_def)
    with M_joining st [symmetric] have "ta_thr s 4 = T_ended \<and> t = ta_goto (M_join (Suc j)) (ta_say Joined (ta_move 4 T_joined s))
        \<or> ta_thr s 4 = T_joined \<and> t = ta_goto (M_join (Suc j)) (ta_say Join_error s)"
      by (simp add: ta_join_def split: ta_thr.splits)
    moreover have "ta_thr s 4 = T_joined \<longleftrightarrow> 0 < j"
      using all [of 4] M_joining by (simp add: wu_thr_ok_def ARG_THREADS_def)
    ultimately show ?thesis
      using out M_joining by (cases "j = 0") (auto simp: wu_out_ok_def wu_late_snoc ta_defs)
  next
    case (M_join j)
    with st have "t = (if j < ARG_THREADS then ta_goto (M_joining j) (ta_say (Joining j) s) else ta_goto M_exit s)" by simp
    with out M_join pc show ?thesis by (auto simp: wu_out_ok_def wu_late_snoc ta_defs)
  next
    case (M_loop n)
    with st [symmetric] mem out show ?thesis
      by (auto simp: wu_out_ok_def ta_defs split: if_splits)
  next
    case (M_inc n)
    with st [symmetric] mem out pc show ?thesis by (auto simp: wu_out_ok_def ta_defs)
  qed (use st in simp)
  ultimately show ?thesis by (simp add: wu_inv_def)
qed

lemma wu_step_cases:
  assumes "wu_step e s = Some t"
  obtains "ta_pc s \<noteq> M_exit" "e = Main" "wu_main_stmt (ta_pc s) s = Some t"
    | k where "ta_pc s \<noteq> M_exit" "e = Thr k" "ta_body ta_deref k (ta_thr s k) s = Some t"
  using assms by (cases e) (auto simp: wu_step_def ta_step_def wu_thread_def split: if_splits)

fun wu_rank :: "ta_main \<Rightarrow> nat" where
  "wu_rank (M_loop n) = 2 * (ARG_THREADS - n) + 12"
| "wu_rank (M_inc n) = 2 * (ARG_THREADS - n) + 11"
| "wu_rank p = cu_rank p"

lemma wu_created_le: "wu_pc_ok p \<Longrightarrow> wu_created p \<le> ARG_THREADS"
  by (cases p) simp_all

interpretation wu: step_measure wu_step "wu_start argc" wu_inv "ta_left wu_rank" for argc
proof unfold_locales
  show "wu_inv (wu_start argc)"
    by (simp add: wu_inv_def wu_start_def ta_init_def wu_thr_ok_def wu_out_ok_def)
next
  fix s e t assume "wu_inv s" "wu_step e s = Some t"
  then show "wu_inv t" using wu_inv_main wu_inv_thread by (blast elim: wu_step_cases)
next
  fix s e t assume inv: "wu_inv s" and "wu_step e s = Some t"
  then show "ta_left wu_rank t < ta_left wu_rank s"
  proof (elim wu_step_cases)
    assume st: "wu_main_stmt (ta_pc s) s = Some t"
    from inv have pc: "wu_pc_ok (ta_pc s)" and all: "\<And>k. wu_thr_ok s k"
      and mem: "ta_mem s Addr_i = Some (int (wu_counter (ta_pc s)))" by (simp_all add: wu_inv_def)
    show ?thesis
    proof (rule ta_left_main)
      show "wu_rank (ta_pc t) < wu_rank (ta_pc s)"
        using st [symmetric] pc mem
        by (cases "ta_pc s") (auto simp: ta_defs ARG_THREADS_def split: if_splits option.splits ta_thr.splits)
      show "ta_rank (ta_thr t k) \<le> ta_rank (ta_thr s k)" for k
        using st [symmetric] all [of k] mem
        by (cases "ta_pc s") (auto simp: ta_defs wu_thr_ok_def split: if_splits option.splits ta_thr.splits)
    qed
  next
    fix k assume st: "ta_body ta_deref k (ta_thr s k) s = Some t"
    from inv have "wu_created (ta_pc s) \<le> ARG_THREADS" "wu_thr_ok s k" by (simp_all add: wu_inv_def wu_created_le)
    moreover have "ta_thr s k \<noteq> T_unborn" using st by auto
    ultimately have "k < ARG_THREADS" by (simp add: wu_thr_ok_def)
    with st show ?thesis by (rule ta_left_thread)
  qed
qed

lemma wu_progress:
  assumes inv: "wu_inv s" and ne: "ta_pc s \<noteq> M_exit"
  shows "\<exists>e t. wu_step e s = Some t"
proof (cases "\<exists>j. ta_pc s = M_joining j")
  case True
  then obtain j where j: "ta_pc s = M_joining j" by blast
  with inv have ok: "wu_thr_ok s 4" "ta_t s 0 = Some 4" "ta_mem s Addr_i = Some 5"
    by (simp_all add: wu_inv_def ARG_THREADS_def)
  show ?thesis
  proof (cases "ta_thr s 4")
    case (T_loop l)
    with j ok have "wu_step (Thr 4) s \<noteq> None"
      by (simp add: wu_step_def ta_step_def wu_thread_def wu_thr_ok_def ARG_THREADS_def)
    then show ?thesis by blast
  next
    case T_unborn
    with j ok show ?thesis by (simp add: wu_thr_ok_def ARG_THREADS_def)
  next
    case T_ended
    with j ok have "wu_step Main s \<noteq> None" by (simp add: wu_step_def ta_step_def ta_join_def)
    then show ?thesis by blast
  next
    case T_joined
    with j ok have "wu_step Main s \<noteq> None" by (simp add: wu_step_def ta_step_def ta_join_def)
    then show ?thesis by blast
  qed
next
  case False
  with inv ne have "wu_step Main s \<noteq> None"
    by (cases "ta_pc s") (auto simp: wu_inv_def wu_step_def ta_step_def)
  then show ?thesis by blast
qed

section \<open>The number as the argument\<close>

lemma int_void_int: "ucast (scast (w :: 32 word) :: 64 word) = w"
  by transfer (simp add: take_bit_signed_take_bit)

lemma sint_int: "INT_MIN \<le> i \<Longrightarrow> i \<le> INT_MAX \<Longrightarrow> sint (word_of_int i :: 32 word) = i"
  by transfer (simp add: signed_take_bit_int_eq_self)

lemma ia_int_void: "INT_MIN \<le> i \<Longrightarrow> i \<le> INT_MAX \<Longrightarrow> ia_int (ia_void i) s = Some i"
  by (simp add: ia_void_def int_void_int sint_int)

lemma ia_int_any: "ia_int x s = ia_int x t"
  by (cases x) simp_all

definition ia_inv :: "ta_state \<Rightarrow> bool" where
  "ia_inv s \<longleftrightarrow> cu_created (ta_pc s) \<le> ARG_THREADS \<and> (\<forall>k. ta_thr s k = T_unborn \<longleftrightarrow> cu_created (ta_pc s) \<le> k)"

lemma ia_step_eq: "ta_step (ta_body ia_int) ia_main_stmt = ia_step"
  by (simp add: ia_step_def ia_thread_def)

interpretation ia: ta_numbers ia_int ia_main_stmt "ta_init []" ia_inv
proof unfold_locales
  show "ia_inv (ta_init [])" by (simp add: ia_inv_def ta_init_def)
next
  fix s e t assume inv: "ia_inv s" and st: "ta_step (ta_body ia_int) ia_main_stmt e s = Some t"
  show "ia_inv t"
  proof (cases e)
    case Main
    with st have "ia_main_stmt (ta_pc s) s = Some t" by (simp add: ta_step_def split: if_splits)
    with inv show ?thesis
      by (cases "ta_pc s") (auto simp: ia_inv_def ta_defs split: if_splits)
  next
    case (Thr k)
    with st have "ta_body ia_int k (ta_thr s k) s = Some t" by (simp add: ta_step_def split: if_splits)
    then have "ta_pc t = ta_pc s \<and> (\<forall>m. ta_thr t m = T_unborn \<longleftrightarrow> ta_thr s m = T_unborn)"
      by (cases rule: ta_body_effect) (simp_all add: ta_defs)
    with inv show ?thesis by (simp add: ia_inv_def)
  qed
next
  show "ta_own ia_int (ta_init [])" by (rule ta_own_init) simp
next
  fix s t assume inv: "ia_inv s" and own: "ta_own ia_int s" and st: "ia_main_stmt (ta_pc s) s = Some t"
  then obtain i where i: "ta_pc s = M_loop i" by (cases "ta_pc s") simp_all
  show "ta_own ia_int t"
  proof (cases "i < ARG_THREADS")
    case True
    with st i have t: "t = ta_goto (M_loop (Suc i)) (ta_create i i (ia_void (int i)) s)" by simp
    from inv i have u: "ta_thr s i = T_unborn" by (simp add: ia_inv_def)
    from True have r: "ia_int (ia_void (int i)) t = Some (int i)" by (intro ia_int_void) (simp_all add: ARG_THREADS_def)
    show ?thesis
      by (rule ta_own_create [OF own u r]) (rule ia_int_any | simp add: t ta_defs)+
  next
    case False
    with st i have t: "t = ta_goto M_exit s" by simp
    show ?thesis by (rule ta_own_quiet [OF own]) (rule ia_int_any | simp add: t ta_goto_def)+
  qed
qed (rule ia_int_any)

lemma ta_own_lines:
  assumes own: "ta_own rd s" and thr: "\<forall>k. ARG_THREADS \<le> k \<longrightarrow> ta_thr s k = T_unborn"
  shows "\<exists>n \<le> NUM_LOOPS. ta_lines v (ta_out s) = [0..<n] \<and> (0 < n \<longrightarrow> 0 \<le> v \<and> v < int ARG_THREADS)"
proof (cases "v < 0")
  case True
  with own show ?thesis by (intro exI [of _ 0]) (simp add: ta_own_def)
next
  case False
  then obtain k where v: "v = int k" by (metis nonneg_int_cases not_le)
  from own have "ta_own_thr rd s k" by (simp add: ta_own_def)
  moreover have "0 < ta_loops (ta_thr s k) \<longrightarrow> k < ARG_THREADS"
    using thr by (cases "k < ARG_THREADS") auto
  ultimately show ?thesis unfolding v ta_own_thr_def by (intro exI [of _ "ta_loops (ta_thr s k)"]) simp
qed

section \<open>Properties\<close>

text \<open>C33: In \<open>correct-use-of-args.c\<close> the threads print their own numbers, on every schedule and with any arguments: the
  lines with a number \<open>v\<close> carry the loop numbers 0, 1, ... in order, at most three of them, and none if \<open>v\<close> is not
  the number of a thread. No join fails, some thread or \<open>main()\<close> can go on until \<open>main()\<close> returns, after
  at most 37 statements, and then every thread has printed its three lines.\<close>

theorem cu_own_numbers:
  assumes "exec cu_step es (cu_start argc) = Some s"
  shows "(\<forall>v. \<exists>n \<le> NUM_LOOPS. ta_lines v (ta_out s) = [0..<n] \<and> (0 < n \<longrightarrow> 0 \<le> v \<and> v < int ARG_THREADS))
    \<and> Join_error \<notin> set (ta_out s) \<and> length es \<le> 37
    \<and> (ta_pc s = M_exit \<or> (\<exists>e t. cu_step e s = Some t))
    \<and> (ta_pc s = M_exit \<longrightarrow> (\<forall>k < ARG_THREADS. ta_lines (int k) (ta_out s) = [0, 1, 2]))"
proof -
  from cu.own_exec [unfolded cu_step_eq, OF assms] have inv: "cu_inv s" and own: "ta_own ta_deref s" by blast+
  from inv have pc: "cu_pc_ok (ta_pc s)" and err: "Join_error \<notin> set (ta_out s)" and all: "\<And>k. cu_thr_ok s k"
    by (simp_all add: cu_inv_def)
  have "cu_created (ta_pc s) \<le> ARG_THREADS" using pc by (cases "ta_pc s") simp_all
  with all have "\<forall>k. ARG_THREADS \<le> k \<longrightarrow> ta_thr s k = T_unborn" by (fastforce simp: cu_thr_ok_def)
  then have 1: "\<forall>v. \<exists>n \<le> NUM_LOOPS. ta_lines v (ta_out s) = [0..<n] \<and> (0 < n \<longrightarrow> 0 \<le> v \<and> v < int ARG_THREADS)"
    using ta_own_lines [OF own] by blast
  have "ta_left cu_rank (cu_start argc) = 37"
    by (simp add: ta_left_def cu_start_def ta_init_def ARG_THREADS_def)
  with cu_end.exec_length [OF assms] have 2: "length es \<le> 37" by simp
  have 3: "ta_lines (int k) (ta_out s) = [0, 1, 2]" if "ta_pc s = M_exit" "k < ARG_THREADS" for k
  proof -
    from all [of k] that have "ta_thr s k = T_joined" by (simp add: cu_thr_ok_def)
    with own have "ta_lines (int k) (ta_out s) = [0..<NUM_LOOPS]" by (simp add: ta_own_def ta_own_thr_def)
    then show ?thesis by (simp add: NUM_LOOPS_def upt_rec)
  qed
  from cu_progress [OF inv own] 1 2 3 err show ?thesis by blast
qed

text \<open>A run to the end: the threads one after the other, and then the joins.\<close>

definition ta_in_order :: "ta_event list" where
  "ta_in_order = concat (map (\<lambda>k. Main # replicate 4 (Thr k)) [0..<5]) @ replicate 12 Main"

lemma cu_in_order_run: "runs cu_step ta_in_order (cu_start 1) (\<lambda>s. ta_pc s = M_exit)"
  by code_simp

theorem cu_own_numbers_witness:
  "\<exists>s. exec cu_step ta_in_order (cu_start 1) = Some s \<and> (\<forall>k < ARG_THREADS. ta_lines (int k) (ta_out s) = [0, 1, 2])"
proof -
  obtain s where "exec cu_step ta_in_order (cu_start 1) = Some s" "ta_pc s = M_exit"
    using runs_exec [OF cu_in_order_run] by blast
  with cu_own_numbers [of ta_in_order 1 s] show ?thesis by blast
qed

text \<open>C91: In \<open>wrong-use-of-arg.c\<close> the numbers printed are those the counter happens to have, 0 to 5, and after the
  first join is announced only 5, which is the number of no thread; there is a schedule on which all 15
  lines say 5, and one on which all are right. Of the five joins, all of the last thread, the first succeeds and the
  other four fail; so \<open>main()\<close> can return while other threads have not printed anything. Some step
  is always possible until it returns, after at most 42 statements.\<close>

definition wu_all_five :: "ta_event list" where
  "wu_all_five = replicate 11 Main @ concat (map (\<lambda>k. replicate 4 (Thr k)) [0..<5]) @ replicate 11 Main"

definition wu_all_right :: "ta_event list" where
  "wu_all_right = concat (map (\<lambda>k. Main # replicate 4 (Thr k) @ [Main]) [0..<5]) @ replicate 12 Main"

definition wu_early :: "ta_event list" where
  "wu_early = replicate 11 Main @ replicate 4 (Thr 4) @ replicate 11 Main"

lemma wu_start_two: "wu_start argc = (if 1 < argc then wu_start 2 else wu_start 1)"
  by (simp add: wu_start_def)

lemma wu_all_five_run:
  "runs wu_step wu_all_five (wu_start argc) (\<lambda>t. ta_pc t = M_exit \<and> ta_lines 5 (ta_out t) = concat (replicate 5 [0, 1, 2]))"
proof -
  have "runs wu_step wu_all_five (wu_start 1) (\<lambda>t. ta_pc t = M_exit \<and> ta_lines 5 (ta_out t) = concat (replicate 5 [0, 1, 2]))"
    by code_simp
  moreover have "runs wu_step wu_all_five (wu_start 2) (\<lambda>t. ta_pc t = M_exit \<and> ta_lines 5 (ta_out t) = concat (replicate 5 [0, 1, 2]))"
    by code_simp
  ultimately show ?thesis by (subst wu_start_two) simp
qed

lemma wu_all_right_run:
  "runs wu_step wu_all_right (wu_start argc) (\<lambda>t. ta_pc t = M_exit \<and> (\<forall>k \<in> set [0..<5]. ta_lines (int k) (ta_out t) = [0, 1, 2]))"
proof -
  have "runs wu_step wu_all_right (wu_start 1) (\<lambda>t. ta_pc t = M_exit \<and> (\<forall>k \<in> set [0..<5]. ta_lines (int k) (ta_out t) = [0, 1, 2]))"
    by code_simp
  moreover have "runs wu_step wu_all_right (wu_start 2) (\<lambda>t. ta_pc t = M_exit \<and> (\<forall>k \<in> set [0..<5]. ta_lines (int k) (ta_out t) = [0, 1, 2]))"
    by code_simp
  ultimately show ?thesis by (subst wu_start_two) simp
qed

lemma wu_early_run:
  "runs wu_step wu_early (wu_start argc) (\<lambda>t. ta_pc t = M_exit \<and> (\<forall>k \<in> set [0..<4]. ta_thr t k = T_loop 0))"
proof -
  have "runs wu_step wu_early (wu_start 1) (\<lambda>t. ta_pc t = M_exit \<and> (\<forall>k \<in> set [0..<4]. ta_thr t k = T_loop 0))"
    by code_simp
  moreover have "runs wu_step wu_early (wu_start 2) (\<lambda>t. ta_pc t = M_exit \<and> (\<forall>k \<in> set [0..<4]. ta_thr t k = T_loop 0))"
    by code_simp
  ultimately show ?thesis by (subst wu_start_two) simp
qed

text \<open>C37: In \<open>wrong-use-of-arg.c\<close> the numbers printed are those the counter happens to have, 0 to 5, and after the
  first join is announced only 5, which is the number of no thread. Of the five joins, all of the last
  thread, the first succeeds and the other four fail; some step is always possible until \<open>main()\<close>
  returns, after at most 42 statements. There is a schedule on which all 15
  lines say 5, one on which all are right, and one on which \<open>main()\<close> returns before the first four threads
  have printed anything.\<close>

theorem wu_shared_counter:
  shows "(exec wu_step es (wu_start argc) = Some s \<longrightarrow>
      (\<forall>v l. Line v l \<in> set (ta_out s) \<longrightarrow> 0 \<le> v \<and> v \<le> 5 \<and> l < NUM_LOOPS)
      \<and> (\<forall>xs j ys v l. ta_out s = xs @ Joining j # ys \<longrightarrow> Line v l \<in> set ys \<longrightarrow> v = 5)
      \<and> length es \<le> 42 \<and> (ta_pc s = M_exit \<or> (\<exists>e t. wu_step e s = Some t))
      \<and> (ta_pc s = M_exit \<longrightarrow> count_list (ta_out s) Joined = 1 \<and> count_list (ta_out s) Join_error = 4))
    \<and> (\<exists>fs. runs wu_step fs (wu_start argc) (\<lambda>t. ta_pc t = M_exit \<and> ta_lines 5 (ta_out t) = concat (replicate 5 [0, 1, 2])))
    \<and> (\<exists>fs. runs wu_step fs (wu_start argc) (\<lambda>t. ta_pc t = M_exit \<and> (\<forall>k \<in> set [0..<5]. ta_lines (int k) (ta_out t) = [0, 1, 2])))
    \<and> (\<exists>fs. runs wu_step fs (wu_start argc) (\<lambda>t. ta_pc t = M_exit \<and> (\<forall>k \<in> set [0..<4]. ta_thr t k = T_loop 0)))"
proof -
  have "(\<forall>v l. Line v l \<in> set (ta_out s) \<longrightarrow> 0 \<le> v \<and> v \<le> 5 \<and> l < NUM_LOOPS)
      \<and> (\<forall>xs j ys v l. ta_out s = xs @ Joining j # ys \<longrightarrow> Line v l \<in> set ys \<longrightarrow> v = 5)
      \<and> length es \<le> 42 \<and> (ta_pc s = M_exit \<or> (\<exists>e t. wu_step e s = Some t))
      \<and> (ta_pc s = M_exit \<longrightarrow> count_list (ta_out s) Joined = 1 \<and> count_list (ta_out s) Join_error = 4)"
    if run: "exec wu_step es (wu_start argc) = Some s"
  proof (intro conjI)
    have inv: "wu_inv s" using wu.exec_inv [OF wu.inv_init run] .
    then have out: "wu_out_ok s" by (simp add: wu_inv_def)
    show "\<forall>v l. Line v l \<in> set (ta_out s) \<longrightarrow> 0 \<le> v \<and> v \<le> 5 \<and> l < NUM_LOOPS"
      using out unfolding wu_out_ok_def by (metis wu_msg_ok.simps(1))
    show "\<forall>xs j ys v l. ta_out s = xs @ Joining j # ys \<longrightarrow> Line v l \<in> set ys \<longrightarrow> v = 5"
      using out unfolding wu_out_ok_def by (metis wu_late_split wu_late_ok.simps(1))
    have "ta_left wu_rank (wu_start argc) = 42"
      by (simp add: ta_left_def wu_start_def ta_init_def ARG_THREADS_def)
    with wu.exec_length [OF run] show "length es \<le> 42" by simp
    show "ta_pc s = M_exit \<or> (\<exists>e t. wu_step e s = Some t)" using wu_progress [OF inv] by blast
    show "ta_pc s = M_exit \<longrightarrow> count_list (ta_out s) Joined = 1 \<and> count_list (ta_out s) Join_error = 4"
      using out by (auto simp: wu_out_ok_def ARG_THREADS_def)
  qed
  with wu_all_five_run [of argc] wu_all_right_run [of argc] wu_early_run [of argc] show ?thesis by blast
qed

theorem wu_shared_counter_witness:
  "\<exists>s. exec wu_step wu_all_five (wu_start 1) = Some s
     \<and> count_list (ta_out s) Joined = 1 \<and> count_list (ta_out s) Join_error = 4"
proof -
  obtain s where "exec wu_step wu_all_five (wu_start 1) = Some s" "ta_pc s = M_exit"
    using runs_exec [OF wu_all_five_run [of 1]] by blast
  with wu_shared_counter [of wu_all_five 1 s, THEN conjunct1] show ?thesis by blast
qed

lemma ia_quick_run: "runs ia_step (replicate 6 Main) (ta_init []) (\<lambda>t. ta_pc t = M_exit \<and> ta_out t = [])"
  by (simp add: ia_step_def ta_step_def ta_init_def ta_defs ARG_THREADS_def numeral_eq_Suc)

text \<open>In \<open>int-as-arg.c\<close> a number survives the way through the pointer, so the lines are right; but nothing
  is joined, and \<open>main()\<close> can return before any thread has printed one.\<close>

theorem ia_own_numbers:
  assumes "exec ia_step es (ta_init []) = Some s"
  shows "(\<forall>v. \<exists>n \<le> NUM_LOOPS. ta_lines v (ta_out s) = [0..<n] \<and> (0 < n \<longrightarrow> 0 \<le> v \<and> v < int ARG_THREADS))
    \<and> (\<forall>i. INT_MIN \<le> i \<and> i \<le> INT_MAX \<longrightarrow> ia_int (ia_void i) s = Some i)
    \<and> runs ia_step (replicate 6 Main) (ta_init []) (\<lambda>t. ta_pc t = M_exit \<and> ta_out t = [])"
proof -
  from ia.own_exec [unfolded ia_step_eq, OF assms] have "ia_inv s" and own: "ta_own ia_int s" by blast+
  then have "\<forall>k. ARG_THREADS \<le> k \<longrightarrow> ta_thr s k = T_unborn" by (simp add: ia_inv_def)
  then show ?thesis using ta_own_lines [OF own] ia_int_void ia_quick_run by blast
qed

theorem ia_own_numbers_witness:
  "\<exists>s. exec ia_step (replicate 6 Main) (ta_init []) = Some s
     \<and> runs ia_step (replicate 6 Main) (ta_init []) (\<lambda>t. ta_pc t = M_exit \<and> ta_out t = [])"
proof -
  obtain s where "exec ia_step (replicate 6 Main) (ta_init []) = Some s" using runs_exec [OF ia_quick_run] by blast
  with ia_own_numbers [of "replicate 6 Main" s] show ?thesis by auto
qed

end
