(* ===== verification/Credentials.thy ===== *)
theory Credentials
  imports Prelude "HOL-Library.Word"
begin

unbundle bit_operations_syntax

text \<open>
  User identities: the documented rules of the kernel for \<open>setuid(2)\<close>, \<open>setreuid(2)\<close> and the permission bits of files, and over
  them the four programs of \<open>uid/\<close> that show identities and try to open a file before and after a change, and the set-user-ID
  program \<open>setuid/screate-file.c\<close>.
\<close>

section \<open>Identities of a process\<close>

record cred =
  c_ruid :: nat
  c_euid :: nat
  c_suid :: nat
  c_rgid :: nat
  c_egid :: nat
  c_groups :: "nat set"

text \<open>
  \<open>setuid(u)\<close> sets all three identities of a privileged process and the effective one of any other,
  to the real or the saved one. \<open>setreuid(r, e)\<close>, both arguments given, also sets the saved
  identity (as Linux does: an unprivileged process may take its effective identity as the real one).
\<close>

definition c_setuid :: "nat \<Rightarrow> cred \<Rightarrow> cred option" where
  "c_setuid u c =
     (if c_euid c = 0 then Some (c\<lparr>c_ruid := u, c_euid := u, c_suid := u\<rparr>)
      else if u = c_ruid c \<or> u = c_suid c then Some (c\<lparr>c_euid := u\<rparr>)
      else None)"

definition c_setreuid :: "nat \<Rightarrow> nat \<Rightarrow> cred \<Rightarrow> cred option" where
  "c_setreuid r e c =
     (if c_euid c = 0 \<or> (r = c_ruid c \<or> r = c_euid c) \<and> (e = c_ruid c \<or> e = c_euid c \<or> e = c_suid c)
      then Some (c\<lparr>c_ruid := r, c_euid := e, c_suid := e\<rparr>)
      else None)"

text \<open>Files: the class of permission bits that applies is chosen by the effective identities; root may do all.\<close>

record inode =
  i_owner :: nat
  i_group :: nat
  i_mode :: "16 word"

definition c_class :: "cred \<Rightarrow> inode \<Rightarrow> nat" where
  "c_class c f = (if c_euid c = i_owner f then 6 else if c_egid c = i_group f \<or> i_group f \<in> c_groups c then 3 else 0)"

definition c_may :: "16 word \<Rightarrow> cred \<Rightarrow> inode \<Rightarrow> bool" where
  "c_may bits c f \<longleftrightarrow> c_euid c = 0 \<or> (drop_bit (c_class c f) (i_mode f) AND bits) = bits"

section \<open>The programs that show identities\<close>

text \<open>
  \<open>getpwuid\<close> and \<open>getgrgid\<close> look a number up in the databases \<open>pw\<close> and \<open>gr\<close>; for a number without
  an entry they return NULL, and taking the name then ends the process with SIGSEGV. A run is the lines
  printed, the end of the process and the identities it has then.
\<close>

datatype id_msg = Real_ID string | Effective_ID string | Real_GID string | Effective_GID string
  | Opened | Open_failed | After_call | Call_failed string

datatype id_end = Exits int | Segv

type_synonym id_run = "id_msg list \<times> id_end \<times> cred"

fun id_name :: "(string \<Rightarrow> id_msg) \<Rightarrow> string option \<Rightarrow> cred \<Rightarrow> (id_msg list \<Rightarrow> id_run) \<Rightarrow> id_msg list \<Rightarrow> id_run" where
  "id_name m None c rest out = (out, Segv, c)"
| "id_name m (Some n) c rest out = rest (out @ [m n])"

type_synonym names = "nat \<Rightarrow> string option"

definition id_show :: "names \<Rightarrow> names \<Rightarrow> cred \<Rightarrow> (id_msg list \<Rightarrow> id_run) \<Rightarrow> id_msg list \<Rightarrow> id_run" where
  "id_show pw gr c rest =
     id_name Real_ID (pw (c_ruid c)) c
       (id_name Effective_ID (pw (c_euid c)) c
         (id_name Real_GID (gr (c_rgid c)) c
           (id_name Effective_GID (gr (c_egid c)) c rest)))"

text \<open>\<open>open("test", O_RDONLY)\<close>; the file may be missing.\<close>

definition id_open :: "inode option \<Rightarrow> cred \<Rightarrow> bool" where
  "id_open f c = (case f of None \<Rightarrow> False | Some i \<Rightarrow> c_may 4 c i)"

text \<open>\<open>getuids.c\<close>\<close>

definition gu_main :: "names \<Rightarrow> names \<Rightarrow> inode option \<Rightarrow> cred \<Rightarrow> id_run" where
  "gu_main pw gr f c =
     id_show pw gr c (\<lambda>out. if id_open f c then (out @ [Opened], Exits 0, c) else (out @ [Open_failed], Exits 1, c)) []"

text \<open>The opening part, after which the other three go on.\<close>

definition id_try :: "inode option \<Rightarrow> cred \<Rightarrow> id_msg" where
  "id_try f c = (if id_open f c then Opened else Open_failed)"

definition id_last :: "names \<Rightarrow> names \<Rightarrow> inode option \<Rightarrow> cred \<Rightarrow> id_msg list \<Rightarrow> id_run" where
  "id_last pw gr f c = id_show pw gr c (\<lambda>out. (out @ [id_try f c], Exits 0, c))"

text \<open>\<open>setreuid.c\<close>\<close>

definition sr_main :: "names \<Rightarrow> names \<Rightarrow> inode option \<Rightarrow> cred \<Rightarrow> id_run" where
  "sr_main pw gr f c =
     id_show pw gr c (\<lambda>out. let out = out @ [id_try f c] in
       case c_setreuid 1064 1062 c of
         None \<Rightarrow> (out @ [Call_failed ''setreuid''], Exits 1, c)
       | Some c' \<Rightarrow> id_last pw gr f c' (out @ [After_call])) []"

text \<open>\<open>setuid.c\<close>: the message that the call was made comes before the call.\<close>

definition su_main :: "names \<Rightarrow> names \<Rightarrow> inode option \<Rightarrow> cred \<Rightarrow> id_run" where
  "su_main pw gr f c =
     id_show pw gr c (\<lambda>out. let out = out @ [id_try f c, After_call] in
       case c_setuid 1062 c of
         None \<Rightarrow> (out @ [Call_failed ''setuid''], Exits 1, c)
       | Some c' \<Rightarrow> id_last pw gr f c' out) []"

text \<open>\<open>setreuid2.c\<close>: the calls of \<open>setreuid\<close> are disabled by the preprocessor.\<close>

definition s2_main :: "names \<Rightarrow> names \<Rightarrow> inode option \<Rightarrow> cred \<Rightarrow> id_run" where
  "s2_main pw gr f c =
     id_show pw gr c (\<lambda>out. let out = out @ [id_try f c, After_call] in
       case c_setuid 162948 c of
         None \<Rightarrow> (out @ [Call_failed ''setuid''], Exits 1, c)
       | Some c' \<Rightarrow>
           (case c_setuid 113369 c' of
              None \<Rightarrow> (out @ [Call_failed ''setuid2''], Exits 1, c')
            | Some c'' \<Rightarrow> id_last pw gr f c'' out)) []"

section \<open>\<open>screate-file.c\<close>\<close>

text \<open>
  The directory \<open>/tmp/abc\<close> and the file in it. \<open>umask\<close> is that of the process; a directory belongs to the
  effective identity of its creator, so does a file. The calls that are asserted to succeed end the
  process by \<open>assert\<close> if they do not, the call of \<open>open\<close> is not checked.
\<close>

record sf_fs =
  sf_abc :: "inode option"
  sf_123 :: "inode option"

datatype sf_msg = RUID nat | EUID nat | Dir_created | File_created

definition sf_mkdir :: "16 word \<Rightarrow> 16 word \<Rightarrow> cred \<Rightarrow> sf_fs \<Rightarrow> sf_fs option" where
  "sf_mkdir mode umask c fs =
     (if sf_abc fs = None
      then Some (fs\<lparr>sf_abc := Some \<lparr>i_owner = c_euid c, i_group = c_egid c, i_mode = mode AND NOT umask\<rparr>\<rparr>) else None)"

definition sf_chmod :: "16 word \<Rightarrow> cred \<Rightarrow> sf_fs \<Rightarrow> sf_fs option" where
  "sf_chmod mode c fs =
     (case sf_abc fs of None \<Rightarrow> None
      | Some d \<Rightarrow> if c_euid c = 0 \<or> c_euid c = i_owner d then Some (fs\<lparr>sf_abc := Some (d\<lparr>i_mode := mode\<rparr>)\<rparr>) else None)"

definition sf_open_creat :: "16 word \<Rightarrow> 16 word \<Rightarrow> cred \<Rightarrow> sf_fs \<Rightarrow> sf_fs" where
  "sf_open_creat mode umask c fs =
     (case (sf_abc fs, sf_123 fs) of
        (Some d, None) \<Rightarrow>
          if c_may 3 c d
          then fs\<lparr>sf_123 := Some \<lparr>i_owner = c_euid c, i_group = c_egid c, i_mode = mode AND NOT umask\<rparr>\<rparr> else fs
      | _ \<Rightarrow> fs)"

text \<open>The modes are octal in the source: 0777 is 511, 0666 is 438.\<close>

definition sfc_main :: "16 word \<Rightarrow> cred \<Rightarrow> sf_fs \<Rightarrow> sf_msg list \<times> sf_fs \<times> cred \<times> int option" where
  "sfc_main umask c fs =
     (let out = [RUID (c_ruid c), EUID (c_euid c)] in
      case sf_mkdir 511 umask c fs of None \<Rightarrow> (out, fs, c, None)
      | Some fs1 \<Rightarrow>
          let out = out @ [Dir_created] in
          (case sf_chmod 511 c fs1 of None \<Rightarrow> (out, fs1, c, None)
           | Some fs2 \<Rightarrow>
               (let (ret, c') = (case c_setuid (c_ruid c) c of None \<Rightarrow> (- 1, c) | Some c' \<Rightarrow> (0 :: int, c'));
                    out = out @ [RUID (c_ruid c'), EUID (c_euid c')]
                in if ret \<noteq> 0 then (out, fs2, c', None)
                   else (out @ [File_created], sf_open_creat 438 umask c' fs2, c', Some 0))))"

section \<open>Identities are confined\<close>



definition c_ids :: "cred \<Rightarrow> nat set" where
  "c_ids c = {c_ruid c, c_euid c, c_suid c}"





lemma c_setuid_root: "c_euid c = 0 \<Longrightarrow> c_setuid u c = Some d \<Longrightarrow> c_ids d = {u}"
  by (auto simp: c_setuid_def c_ids_def)

lemma c_setuid_back:
  assumes "c_setuid (c_ruid c) c = Some d"
  shows "c_setuid (c_euid c) d \<noteq> None \<longleftrightarrow> c_euid c = c_ruid c \<or> c_ruid c = 0 \<or> c_euid c \<noteq> 0 \<and> c_suid c = c_euid c"
  using assms by (auto simp: c_setuid_def split: if_splits)

definition id_lines :: "names \<Rightarrow> names \<Rightarrow> cred \<Rightarrow> id_msg list" where
  "id_lines pw gr c = [Real_ID (the (pw (c_ruid c))), Effective_ID (the (pw (c_euid c))),
    Real_GID (the (gr (c_rgid c))), Effective_GID (the (gr (c_egid c)))]"

lemma id_show_known:
  assumes "\<And>u. pw u \<noteq> None" "\<And>g. gr g \<noteq> None"
  shows "id_show pw gr c rest out = rest (out @ id_lines pw gr c)"
proof -
  obtain a b d e where "pw (c_ruid c) = Some a" "pw (c_euid c) = Some b" "gr (c_rgid c) = Some d" "gr (c_egid c) = Some e"
    using assms by blast
  then show ?thesis by (simp add: id_show_def id_lines_def)
qed



section \<open>Properties\<close>


definition cr_root :: cred where
  "cr_root = \<lparr>c_ruid = 0, c_euid = 0, c_suid = 0, c_rgid = 0, c_egid = 0, c_groups = {}\<rparr>"

definition cr_user :: "nat \<Rightarrow> cred" where
  "cr_user u = cr_root\<lparr>c_ruid := u, c_euid := u, c_suid := u\<rparr>"


text \<open>How the three programs end, when the databases know all numbers: \<open>setuid.c\<close> exits with 0 exactly if it is
  privileged or 1062 is its real or saved identity, \<open>setreuid.c\<close> exactly if it is privileged or may exchange the
  identities it asks for; \<open>setreuid2.c\<close> exactly if it is \<^emph>\<open>not\<close> privileged and its real and saved identities are the two
  it asks for, for a privileged process loses its privileges in the first call. Without an entry for the real
  identity all end with SIGSEGV and show nothing.\<close>

theorem id_outcomes:
  assumes "\<And>u. pw u \<noteq> None" "\<And>g. gr g \<noteq> None"
  shows "fst (snd (su_main pw gr f c)) = Exits (if c_euid c = 0 \<or> 1062 \<in> {c_ruid c, c_suid c} then 0 else 1)
    \<and> fst (snd (sr_main pw gr f c)) = Exits (if c_euid c = 0 \<or> 1064 \<in> {c_ruid c, c_euid c} \<and> 1062 \<in> c_ids c then 0 else 1)
    \<and> fst (snd (s2_main pw gr f c)) = Exits (if c_euid c \<noteq> 0 \<and> {c_ruid c, c_suid c} = {162948, 113369} then 0 else 1)
    \<and> (c_euid c = 0 \<longrightarrow> last (fst (s2_main pw gr f c)) = Call_failed ''setuid2'')
    \<and> (pw' (c_ruid c) = None \<longrightarrow> su_main pw' gr' f c = ([], Segv, c) \<and> sr_main pw' gr' f c = ([], Segv, c)
         \<and> s2_main pw' gr' f c = ([], Segv, c) \<and> gu_main pw' gr' f c = ([], Segv, c))"
proof -
  have "fst (snd (su_main pw gr f c)) = Exits (if c_euid c = 0 \<or> 1062 \<in> {c_ruid c, c_suid c} then 0 else 1)"
    by (simp add: su_main_def id_last_def id_show_known [OF assms] Let_def c_setuid_def)
  moreover have "fst (snd (sr_main pw gr f c)) = Exits (if c_euid c = 0 \<or> 1064 \<in> {c_ruid c, c_euid c} \<and> 1062 \<in> c_ids c then 0 else 1)"
    by (simp add: sr_main_def id_last_def id_show_known [OF assms] Let_def c_setreuid_def c_ids_def)
  moreover have "fst (snd (s2_main pw gr f c)) = Exits (if c_euid c \<noteq> 0 \<and> {c_ruid c, c_suid c} = {162948, 113369} then 0 else 1)"
    by (simp add: s2_main_def id_last_def id_show_known [OF assms] Let_def c_setuid_def doubleton_eq_iff)
  moreover have "c_euid c = 0 \<longrightarrow> last (fst (s2_main pw gr f c)) = Call_failed ''setuid2''"
    by (simp add: s2_main_def id_last_def id_show_known [OF assms] Let_def c_setuid_def)
  moreover have "id_show pw' gr' c rest out = (out, Segv, c)" if "pw' (c_ruid c) = None" for rest out
    using that by (simp add: id_show_def)
  ultimately show ?thesis by (simp add: su_main_def sr_main_def s2_main_def gu_main_def)
qed

theorem id_outcomes_witness:
  "fst (snd (s2_main (\<lambda>_. Some ''user'') (\<lambda>_. Some ''group'') None cr_root)) = Exits 1
     \<and> fst (snd (su_main (\<lambda>_. Some ''user'') (\<lambda>_. Some ''group'') None cr_root)) = Exits 0"
  using id_outcomes [of "\<lambda>_. Some ''user''" "\<lambda>_. Some ''group''" None cr_root] by (simp add: cr_root_def)

text \<open>The set-user-ID program creates the directory as the owner of the program and the file as the user who runs
  it, whatever the umask, and shows the identities accordingly; this needs the \<open>chmod\<close>, since the user creates the file in the
  directory of somebody else. Afterwards the process can take the owner's
  identity again, unless the owner is root. If the directory exists, nothing is changed.\<close>

theorem sf_ownership:
  shows "(sf_abc fs = None \<and> sf_123 fs = None \<longrightarrow>
      (\<exists>c'. sfc_main umask c fs =
          ([RUID (c_ruid c), EUID (c_euid c), Dir_created, RUID (c_ruid c), EUID (c_ruid c), File_created],
           \<lparr>sf_abc = Some \<lparr>i_owner = c_euid c, i_group = c_egid c, i_mode = 511\<rparr>,
            sf_123 = Some \<lparr>i_owner = c_ruid c, i_group = c_egid c, i_mode = 438 AND NOT umask\<rparr>\<rparr>, c', Some 0)
        \<and> (c_suid c = c_euid c \<longrightarrow>
             (c_setuid (c_euid c) c' \<noteq> None \<longleftrightarrow> c_euid c \<noteq> 0 \<or> c_ruid c = 0))))
    \<and> (sf_abc fs \<noteq> None \<longrightarrow> sfc_main umask c fs = ([RUID (c_ruid c), EUID (c_euid c)], fs, c, None))"
proof (intro conjI impI)
  assume fs: "sf_abc fs = None \<and> sf_123 fs = None"
  obtain d where d: "c_setuid (c_ruid c) c = Some d" by (cases "c_euid c = 0") (simp_all add: c_setuid_def)
  then have ids: "c_ruid d = c_ruid c" "c_euid d = c_ruid c" "c_egid d = c_egid c"
    by (auto simp: c_setuid_def split: if_splits)
  have "c_may 3 d \<lparr>i_owner = c_euid c, i_group = c_egid c, i_mode = 511\<rparr>"
    by (simp add: c_may_def c_class_def)
  with fs d ids have m: "sfc_main umask c fs =
          ([RUID (c_ruid c), EUID (c_euid c), Dir_created, RUID (c_ruid c), EUID (c_ruid c), File_created],
           \<lparr>sf_abc = Some \<lparr>i_owner = c_euid c, i_group = c_egid c, i_mode = 511\<rparr>,
            sf_123 = Some \<lparr>i_owner = c_ruid c, i_group = c_egid c, i_mode = 438 AND NOT umask\<rparr>\<rparr>, d, Some 0)"
    by (simp add: sfc_main_def sf_mkdir_def sf_chmod_def sf_open_creat_def Let_def)
  have b: "c_suid c = c_euid c \<longrightarrow> (c_setuid (c_euid c) d \<noteq> None \<longleftrightarrow> c_euid c \<noteq> 0 \<or> c_ruid c = 0)"
    using c_setuid_back [OF d] by auto
  show "\<exists>c'. sfc_main umask c fs =
          ([RUID (c_ruid c), EUID (c_euid c), Dir_created, RUID (c_ruid c), EUID (c_ruid c), File_created],
           \<lparr>sf_abc = Some \<lparr>i_owner = c_euid c, i_group = c_egid c, i_mode = 511\<rparr>,
            sf_123 = Some \<lparr>i_owner = c_ruid c, i_group = c_egid c, i_mode = 438 AND NOT umask\<rparr>\<rparr>, c', Some 0)
        \<and> (c_suid c = c_euid c \<longrightarrow>
             (c_setuid (c_euid c) c' \<noteq> None \<longleftrightarrow> c_euid c \<noteq> 0 \<or> c_ruid c = 0))" by (rule exI [of _ d], rule conjI [OF m b])
qed (auto simp: sfc_main_def sf_mkdir_def)

theorem sf_ownership_witness:
  "fst (sfc_main 18 ((cr_user 1001)\<lparr>c_euid := 1000, c_suid := 1000\<rparr>) \<lparr>sf_abc = None, sf_123 = None\<rparr>)
     = [RUID 1001, EUID 1000, Dir_created, RUID 1001, EUID 1001, File_created]"
  using sf_ownership [of "\<lparr>sf_abc = None, sf_123 = None\<rparr>" 18 "(cr_user 1001)\<lparr>c_euid := 1000, c_suid := 1000\<rparr>"]
  by (auto simp: cr_user_def)

end
