(* ===== verification/Processes.thy ===== *)
theory Processes
  imports Prelude "HOL-Library.Multiset"
begin

text \<open>
  How processes begin and end, and what happens to the text they print: \<open>fork/fork.c\<close>,
  \<open>fork/vfork.c\<close>, \<open>exit/exit.c\<close>, \<open>exit/atexit-abort.c\<close>, \<open>session/getppid.c\<close>,
  \<open>pthreads/fork.c\<close> and the two programs with unusual return values.
\<close>

section \<open>Standard output\<close>

text \<open>
  Every message of these programs is a line. On a terminal (\<open>tty\<close>) a line is written at once, otherwise
  it stays in the buffer of the process, which is larger than all they print, until \<open>exit(3)\<close> writes it.
  The state is the buffer and what was written.
\<close>

definition io_put :: "bool \<Rightarrow> 'm \<Rightarrow> 'm list \<times> 'm list \<Rightarrow> 'm list \<times> 'm list" where
  "io_put tty m io = (if tty then (fst io, snd io @ [m]) else (fst io @ [m], snd io))"

definition io_exit :: "'m list \<times> 'm list \<Rightarrow> 'm list" where
  "io_exit io = snd io @ fst io"

lemma io_put_exit [simp]: "fst io = [] \<or> \<not> tty \<Longrightarrow> io_exit (io_put tty m io) = io_exit io @ [m]"
  by (auto simp: io_put_def io_exit_def)

text \<open>The status of a process that returns from \<open>main()\<close>, or calls \<open>exit\<close>, as its parent sees it: the low 8 bits.\<close>

definition exit_status :: "int \<Rightarrow> int" where
  "exit_status r = r mod 256"

definition ret256_main :: int where "ret256_main = exit_status 256"
definition retneg_main :: int where "retneg_main = exit_status (- 1)"

section \<open>\<open>exit.c\<close> and \<open>atexit-abort.c\<close>\<close>

text \<open>
  \<open>exit(3)\<close> calls the handlers registered by \<open>atexit\<close> and then writes the buffer; \<open>_exit\<close> does neither.
  Whether \<open>atexit\<close> succeeds is an argument. The result is the text written, the messages on the error output and the status.
\<close>

datatype ex_msg = Run_with_argument | Setting_handler | Using_exit | Using__exit | Taadyadya

datatype ended = Status int | Killed_by_abort

definition ex_main :: "bool \<Rightarrow> bool \<Rightarrow> nat \<Rightarrow> ex_msg list \<times> string list \<times> ended" where
  "ex_main tty atexit_ok argc =
     (let io = ([], []);
          io = (if argc = 1 then io_put tty Run_with_argument io else io);
          io = io_put tty Setting_handler io
      in if \<not> atexit_ok then (io_exit io, [''Cannot set exit function.''], Status 1)
         else if 1 < argc
         then let io = io_put tty Using_exit io; io = io_put tty Taadyadya io
              in (io_exit io, [], Status 3)
         else let io = io_put tty Using__exit io in (snd io, [], Status 4))"

text \<open>The handler is \<open>abort\<close>: \<open>main()\<close> returns, so \<open>exit\<close> calls it before the buffer is written.\<close>

datatype ab_msg = Setting_abort

definition ab_main :: "bool \<Rightarrow> bool \<Rightarrow> ab_msg list \<times> string list \<times> ended" where
  "ab_main tty atexit_ok =
     (let io = io_put tty Setting_abort ([], [])
      in if \<not> atexit_ok then (io_exit io, [''Cannot set exit function.''], Status 1)
         else (snd io, [], Killed_by_abort))"

section \<open>\<open>fork.c\<close>\<close>

datatype who = Parent | Child

text \<open>What \<open>getppid()\<close> returns: the parent of the whole program, its own parent, or the process that adopted it.\<close>

datatype ppid = Outer | My_parent | Adoptive

datatype fk_msg = I_am who | Loop who nat ppid

datatype fk_pc = K_switch | K_loop nat | K_done

record fk_state =
  fk_pc :: "who \<Rightarrow> fk_pc"
  fk_buf :: "who \<Rightarrow> fk_msg list"
  fk_out :: "fk_msg list"

fun fk_limit :: "who \<Rightarrow> nat" where
  "fk_limit Child = 8"
| "fk_limit Parent = 3"

definition fk_getppid :: "who \<Rightarrow> fk_state \<Rightarrow> ppid" where
  "fk_getppid w s = (if w = Parent then Outer else if fk_pc s Parent = K_done then Adoptive else My_parent)"

definition fk_print :: "bool \<Rightarrow> who \<Rightarrow> fk_msg \<Rightarrow> fk_state \<Rightarrow> fk_state" where
  "fk_print tty w m s =
     (let io = io_put tty m (fk_buf s w, fk_out s) in s\<lparr>fk_buf := (fk_buf s)(w := fst io), fk_out := snd io\<rparr>)"

definition fk_exit :: "who \<Rightarrow> fk_state \<Rightarrow> fk_state" where
  "fk_exit w s = s\<lparr>fk_out := io_exit (fk_buf s w, fk_out s), fk_buf := (fk_buf s)(w := [])\<rparr>"

definition fk_goto :: "who \<Rightarrow> fk_pc \<Rightarrow> fk_state \<Rightarrow> fk_state" where
  "fk_goto w p s = s\<lparr>fk_pc := (fk_pc s)(w := p)\<rparr>"

text \<open>Both processes run the same code after \<open>fork()\<close>; the return from \<open>main()\<close> is the last step.\<close>

fun fk_stmt :: "bool \<Rightarrow> who \<Rightarrow> fk_pc \<Rightarrow> fk_state \<Rightarrow> fk_state option" where
  "fk_stmt tty w K_switch s = Some (fk_goto w (K_loop 0) (fk_print tty w (I_am w) s))"
| "fk_stmt tty w (K_loop i) s =
     Some (if i < fk_limit w then fk_goto w (K_loop (Suc i)) (fk_print tty w (Loop w i (fk_getppid w s)) s)
           else fk_goto w K_done (fk_exit w s))"
| "fk_stmt tty w K_done s = None"

definition fk_step :: "bool \<Rightarrow> who \<Rightarrow> fk_state \<Rightarrow> fk_state option" where
  "fk_step tty w s = fk_stmt tty w (fk_pc s w) s"

definition fk_start :: fk_state where
  "fk_start = \<lparr>fk_pc = (\<lambda>_. K_switch), fk_buf = (\<lambda>_. []), fk_out = []\<rparr>"

definition fk_main :: "bool \<Rightarrow> exit_info + fk_state" where
  "fk_main fork_ok = (if fork_ok then Inr fk_start else Inl (Exit 1 ''fork''))"

section \<open>\<open>vfork.c\<close>\<close>

text \<open>
  The child runs in the memory of the parent, which is stopped until the child has ended; so the two use one
  buffer, and since both end with \<open>_exit\<close>, nothing that is still in it is ever written.
\<close>

datatype vf_msg = Before_vfork | Child_pid | After_vfork | VLoop who nat

fun vf_loop :: "bool \<Rightarrow> who \<Rightarrow> nat \<Rightarrow> nat \<Rightarrow> vf_msg list \<times> vf_msg list \<Rightarrow> vf_msg list \<times> vf_msg list" where
  "vf_loop tty w i 0 io = io"
| "vf_loop tty w i (Suc n) io = vf_loop tty w (Suc i) n (io_put tty (VLoop w i) io)"

definition vf_child :: "bool \<Rightarrow> vf_msg list \<times> vf_msg list \<Rightarrow> vf_msg list \<times> vf_msg list" where
  "vf_child tty io = vf_loop tty Child 0 6 (io_put tty Child_pid io)"

text \<open>If \<open>vfork\<close> fails, \<open>err\<close> ends the process with \<open>exit(1)\<close>.\<close>

definition vf_main :: "bool \<Rightarrow> bool \<Rightarrow> vf_msg list \<times> int" where
  "vf_main tty vfork_ok =
     (let io = io_put tty Before_vfork ([], [])
      in if \<not> vfork_ok then (io_exit io, 1)
         else (snd (vf_loop tty Parent 0 6 (io_put tty After_vfork (vf_child tty io))), 0))"

section \<open>What \<open>fork.c\<close> prints\<close>

fun fk_by :: "who \<Rightarrow> fk_msg \<Rightarrow> bool" where
  "fk_by w (I_am v) \<longleftrightarrow> v = w"
| "fk_by w (Loop v i p) \<longleftrightarrow> v = w"

fun fk_number :: "fk_msg \<Rightarrow> nat" where
  "fk_number (I_am v) = 0"
| "fk_number (Loop v i p) = Suc i"

fun fk_ppids :: "fk_msg list \<Rightarrow> ppid list" where
  "fk_ppids [] = []"
| "fk_ppids (Loop Child i p # ms) = p # fk_ppids ms"
| "fk_ppids (m # ms) = fk_ppids ms"

lemma fk_ppids_append [simp]: "fk_ppids (ms @ ns) = fk_ppids ms @ fk_ppids ns"
  by (induction ms rule: fk_ppids.induct) simp_all

text \<open>What a process has printed, written or not.\<close>

definition fk_said :: "who \<Rightarrow> fk_state \<Rightarrow> fk_msg list" where
  "fk_said w s = filter (fk_by w) (fk_out s) @ fk_buf s w"

fun fk_said_count :: "who \<Rightarrow> fk_pc \<Rightarrow> nat" where
  "fk_said_count w K_switch = 0"
| "fk_said_count w (K_loop i) = Suc i"
| "fk_said_count w K_done = Suc (fk_limit w)"

definition fk_ok :: "bool \<Rightarrow> fk_state \<Rightarrow> who \<Rightarrow> bool" where
  "fk_ok tty s w \<longleftrightarrow> map fk_number (fk_said w s) = [0..<fk_said_count w (fk_pc s w)]
     \<and> fk_said_count w (fk_pc s w) \<le> Suc (fk_limit w)
     \<and> (\<forall>m \<in> set (fk_buf s w). fk_by w m) \<and> (tty \<or> fk_pc s w = K_done \<longrightarrow> fk_buf s w = [])"

definition fk_adopted :: "fk_state \<Rightarrow> bool" where
  "fk_adopted s \<longleftrightarrow> (\<exists>a b. fk_ppids (fk_said Child s) = replicate a My_parent @ replicate b Adoptive
     \<and> (fk_pc s Parent \<noteq> K_done \<longrightarrow> b = 0))"

text \<open>Off a terminal each process writes all it has to say in one piece.\<close>

definition fk_blocks :: "fk_state \<Rightarrow> bool" where
  "fk_blocks s \<longleftrightarrow> (\<forall>w. fk_pc s w \<noteq> K_done \<longrightarrow> filter (fk_by w) (fk_out s) = [])
     \<and> (\<exists>w. fk_out s = filter (fk_by w) (fk_out s) @ filter (\<lambda>m. \<not> fk_by w m) (fk_out s))"

definition fk_inv :: "bool \<Rightarrow> fk_state \<Rightarrow> bool" where
  "fk_inv tty s \<longleftrightarrow> (\<forall>w. fk_ok tty s w) \<and> fk_adopted s \<and> (\<not> tty \<longrightarrow> fk_blocks s)"

lemma fk_said_print:
  "fk_by w m \<Longrightarrow> tty \<longrightarrow> fk_buf s w = [] \<Longrightarrow> fk_said v (fk_print tty w m s) = fk_said v s @ (if v = w then [m] else [])"
  by (cases m) (auto simp: fk_said_def fk_print_def io_put_def Let_def)

lemma fk_by_other: "fk_by w m \<Longrightarrow> fk_by v m \<longleftrightarrow> v = w"
  by (cases m) auto

lemma fk_by_filter: "\<forall>m \<in> set ms. fk_by w m \<Longrightarrow> filter (fk_by v) ms = (if v = w then ms else [])"
  by (induction ms) (auto simp: fk_by_other)

lemma fk_said_exit: "\<forall>m \<in> set (fk_buf s w). fk_by w m \<Longrightarrow> fk_said v (fk_exit w s) = fk_said v s"
  by (auto simp: fk_said_def fk_exit_def io_exit_def fk_by_filter)

lemma fk_goto_simps [simp]:
  "fk_said v (fk_goto w p s) = fk_said v s" "fk_buf (fk_goto w p s) = fk_buf s" "fk_out (fk_goto w p s) = fk_out s"
  "fk_pc (fk_goto w p s) = (fk_pc s)(w := p)"
  by (simp_all add: fk_goto_def fk_said_def)

lemma fk_io_simps [simp]:
  "fk_pc (fk_print tty w m s) = fk_pc s" "fk_pc (fk_exit w s) = fk_pc s"
  "fk_buf (fk_print tty w m s) = (fk_buf s)(w := if tty then fk_buf s w else fk_buf s w @ [m])"
  "fk_buf (fk_exit w s) = (fk_buf s)(w := [])"
  "fk_out (fk_print tty w m s) = (if tty then fk_out s @ [m] else fk_out s)"
  "fk_out (fk_exit w s) = fk_out s @ fk_buf s w"
  by (simp_all add: fk_print_def fk_exit_def io_put_def io_exit_def Let_def)

text \<open>The three kinds of step.\<close>

lemma fk_step_cases:
  assumes "fk_step tty w s = Some t"
  obtains (hello) "fk_pc s w = K_switch" "t = fk_goto w (K_loop 0) (fk_print tty w (I_am w) s)"
    | (loop) i where "fk_pc s w = K_loop i" "i < fk_limit w"
        "t = fk_goto w (K_loop (Suc i)) (fk_print tty w (Loop w i (fk_getppid w s)) s)"
    | (leave) i where "fk_pc s w = K_loop i" "\<not> i < fk_limit w" "t = fk_goto w K_done (fk_exit w s)"
  using assms by (cases "fk_pc s w") (auto simp: fk_step_def split: if_splits)

lemma fk_ok_step:
  assumes ok: "fk_ok tty s w" "fk_ok tty s v" and st: "fk_step tty w s = Some t"
  shows "fk_ok tty t v"
proof -
  from ok have b: "tty \<longrightarrow> fk_buf s w = []" and bw: "\<forall>m \<in> set (fk_buf s w). fk_by w m" by (simp_all add: fk_ok_def)
  show ?thesis
    using st
  proof (cases rule: fk_step_cases)
    case hello
    with ok b show ?thesis by (cases "v = w") (auto simp: fk_ok_def fk_said_print)
  next
    case (loop i)
    with ok b show ?thesis by (cases "v = w") (auto simp: fk_ok_def fk_said_print)
  next
    case (leave i)
    with ok bw show ?thesis by (cases "v = w") (auto simp: fk_ok_def fk_said_exit)
  qed
qed

lemma fk_adopted_step:
  assumes ok: "fk_ok tty s w" and ad: "fk_adopted s" and st: "fk_step tty w s = Some t"
  shows "fk_adopted t"
proof -
  from ok have b: "tty \<longrightarrow> fk_buf s w = []" and bw: "\<forall>m \<in> set (fk_buf s w). fk_by w m" by (simp_all add: fk_ok_def)
  from ad obtain i j where ij: "fk_ppids (fk_said Child s) = replicate i My_parent @ replicate j Adoptive"
    "fk_pc s Parent \<noteq> K_done \<longrightarrow> j = 0" by (auto simp: fk_adopted_def)
  from st show ?thesis
  proof (cases rule: fk_step_cases)
    case hello
    with ij b show ?thesis by (auto simp: fk_adopted_def fk_said_print)
  next
    case (loop k)
    have said: "fk_ppids (fk_said Child t) =
        fk_ppids (fk_said Child s) @ (if w = Child then [fk_getppid Child s] else [])"
      using loop b by (auto simp: fk_said_print)
    have pc: "fk_pc t Parent = K_done \<longleftrightarrow> fk_pc s Parent = K_done" using loop by auto
    consider "w \<noteq> Child" | "w = Child" "fk_pc s Parent = K_done" | "w = Child" "fk_pc s Parent \<noteq> K_done" by blast
    then show ?thesis
    proof cases
      case 1
      with said pc ij show ?thesis unfolding fk_adopted_def by auto
    next
      case 2
      with said ij have "fk_ppids (fk_said Child t) = replicate i My_parent @ replicate (Suc j) Adoptive"
        by (simp add: fk_getppid_def replicate_append_same)
      with 2 pc show ?thesis unfolding fk_adopted_def by blast
    next
      case 3
      with said ij have "fk_ppids (fk_said Child t) = replicate (Suc i) My_parent @ replicate 0 Adoptive"
        by (simp add: fk_getppid_def replicate_append_same)
      then show ?thesis unfolding fk_adopted_def by blast
    qed
  next
    case (leave k)
    with ij bw show ?thesis by (auto simp: fk_adopted_def fk_said_exit)
  qed
qed

lemma fk_blocks_step:
  assumes ok: "fk_ok tty s w" and bl: "fk_blocks s" and st: "fk_step tty w s = Some t" and "\<not> tty"
  shows "fk_blocks t"
  using st
proof (cases rule: fk_step_cases)
  case hello
  with bl \<open>\<not> tty\<close> show ?thesis by (auto simp: fk_blocks_def)
next
  case (loop i)
  with bl \<open>\<not> tty\<close> show ?thesis by (auto simp: fk_blocks_def)
next
  case (leave i)
  from ok have bw: "\<forall>m \<in> set (fk_buf s w). fk_by w m" by (simp add: fk_ok_def)
  from leave bl have e: "filter (fk_by w) (fk_out s) = []" by (simp add: fk_blocks_def)
  then have n: "filter (\<lambda>m. \<not> fk_by w m) (fk_out s) = fk_out s" by (auto simp: filter_empty_conv intro: filter_True)
  show ?thesis
    unfolding fk_blocks_def
  proof
    show "\<forall>v. fk_pc t v \<noteq> K_done \<longrightarrow> filter (fk_by v) (fk_out t) = []"
      using leave bl by (auto simp: fk_blocks_def fk_by_filter [OF bw])
    obtain v where v: "v \<noteq> w" by (metis who.distinct(1))
    then have "fk_by v m \<longleftrightarrow> \<not> fk_by w m" for m by (cases m) (metis fk_by.simps who.exhaust)+
    then have fv: "fk_by v = (\<lambda>m. \<not> fk_by w m)" by blast
    have t: "fk_out t = fk_out s @ fk_buf s w" using leave by simp
    have "filter (fk_by v) (fk_out t) = fk_out s" unfolding fv t by (simp add: n fk_by_filter [OF bw] bw)
    moreover have "filter (\<lambda>m. \<not> fk_by v m) (fk_out t) = fk_buf s w"
      unfolding fv t by (simp add: e fk_by_filter [OF bw])
    ultimately have "fk_out t = filter (fk_by v) (fk_out t) @ filter (\<lambda>m. \<not> fk_by v m) (fk_out t)" using t by simp
    then show "\<exists>w. fk_out t = filter (fk_by w) (fk_out t) @ filter (\<lambda>m. \<not> fk_by w m) (fk_out t)" by blast
  qed
qed

fun fk_rank :: "who \<Rightarrow> fk_pc \<Rightarrow> nat" where
  "fk_rank w K_switch = fk_limit w + 2"
| "fk_rank w (K_loop i) = Suc (fk_limit w - i)"
| "fk_rank w K_done = 0"

definition fk_left :: "fk_state \<Rightarrow> nat" where
  "fk_left s = fk_rank Parent (fk_pc s Parent) + fk_rank Child (fk_pc s Child)"

interpretation fk: step_measure "fk_step tty" fk_start "fk_inv tty" fk_left for tty
proof unfold_locales
  have "fk_adopted fk_start"
    unfolding fk_adopted_def by (rule exI [of _ 0], rule exI [of _ 0]) (simp add: fk_start_def fk_said_def)
  then show "fk_inv tty fk_start"
    by (simp add: fk_inv_def fk_ok_def fk_blocks_def fk_said_def) (simp add: fk_start_def)
next
  fix w s t assume "fk_inv tty s" and st: "fk_step tty w s = Some t"
  then have ok: "\<And>w. fk_ok tty s w" and "fk_adopted s" "\<not> tty \<longrightarrow> fk_blocks s" by (auto simp: fk_inv_def)
  with fk_ok_step [OF ok ok st] fk_adopted_step [OF ok _ st] fk_blocks_step [OF ok _ st] show "fk_inv tty t"
    by (simp add: fk_inv_def)
next
  fix w s t assume "fk_step tty w s = Some t"
  then show "fk_left t < fk_left s"
    by (cases rule: fk_step_cases; cases w) (auto simp: fk_left_def)
qed

lemma fk_loops_of: "map fk_number (fk_said w s) = [0..<Suc (fk_limit w)] \<Longrightarrow> fk_buf s w = [] \<Longrightarrow>
    map fk_number (filter (fk_by w) (fk_out s)) = [0..<Suc (fk_limit w)]"
  by (simp add: fk_said_def)

section \<open>\<open>getppid.c\<close>\<close>

text \<open>
  The parent becomes a zombie when it exits, and is gone when its own parent has waited for it; the child is adopted
  already when it exits. \<open>kill(pid, 0)\<close> finds zombies, too. After the parent is gone its number may be
  free or belong to another process, of the same user or not; which, the event says. A signal to the adoptive process is
  only allowed to root: that process is taken to be root's, such as \<open>init\<close>, and never to end, so a subreaper of the same user
  is not covered.
\<close>

datatype gp_parent = GP_hello | GP_sleep | GP_zombie | GP_gone
datatype gp_child = GC_getppid | GC_waiting | GC_test | GC_sleep | GC_exit
datatype gp_msg = Child_hello ppid | Waiting | Sleeping | Parent_exited ppid
datatype pid_use = Free | Same_user | Other_user
datatype gp_event = Parent_step | Child_step pid_use | Reap
datatype gp_result = Alive | ESRCH | EPERM

record gp_state =
  gp_parent :: gp_parent
  gp_child :: gp_child
  gp_parent_pid :: ppid
  gp_out :: "gp_msg list"

definition gp_getppid :: "gp_state \<Rightarrow> ppid" where
  "gp_getppid s = (if gp_parent s = GP_zombie \<or> gp_parent s = GP_gone then Adoptive else My_parent)"

fun gp_kill :: "bool \<Rightarrow> ppid \<Rightarrow> pid_use \<Rightarrow> gp_parent \<Rightarrow> gp_result" where
  "gp_kill root My_parent u GP_gone =
     (case u of Free \<Rightarrow> ESRCH | Same_user \<Rightarrow> Alive | Other_user \<Rightarrow> if root then Alive else EPERM)"
| "gp_kill root My_parent u p = Alive"
| "gp_kill root q u p = (if root then Alive else EPERM)"

definition gp_say :: "gp_msg \<Rightarrow> gp_child \<Rightarrow> gp_state \<Rightarrow> gp_state" where
  "gp_say m p s = s\<lparr>gp_out := gp_out s @ [m], gp_child := p\<rparr>"

fun gp_child_stmt :: "bool \<Rightarrow> pid_use \<Rightarrow> gp_child \<Rightarrow> gp_state \<Rightarrow> gp_state option" where
  "gp_child_stmt root u GC_getppid s = Some (gp_say (Child_hello (gp_getppid s)) GC_waiting (s\<lparr>gp_parent_pid := gp_getppid s\<rparr>))"
| "gp_child_stmt root u GC_waiting s = Some (gp_say Waiting GC_test s)"
| "gp_child_stmt root u GC_test s =
     Some (case gp_kill root (gp_parent_pid s) u (gp_parent s) of
        Alive \<Rightarrow> s\<lparr>gp_child := GC_sleep\<rparr>
      | ESRCH \<Rightarrow> gp_say (Parent_exited (gp_getppid s)) GC_exit s
      | EPERM \<Rightarrow> s\<lparr>gp_child := GC_exit\<rparr>)"
| "gp_child_stmt root u GC_sleep s = Some (gp_say Sleeping GC_test s)"
| "gp_child_stmt root u GC_exit s = None"

fun gp_step :: "bool \<Rightarrow> gp_event \<Rightarrow> gp_state \<Rightarrow> gp_state option" where
  "gp_step root Parent_step s =
     (case gp_parent s of GP_hello \<Rightarrow> Some (s\<lparr>gp_parent := GP_sleep\<rparr>) | GP_sleep \<Rightarrow> Some (s\<lparr>gp_parent := GP_zombie\<rparr>) | _ \<Rightarrow> None)"
| "gp_step root Reap s = (if gp_parent s = GP_zombie then Some (s\<lparr>gp_parent := GP_gone\<rparr>) else None)"
| "gp_step root (Child_step u) s = gp_child_stmt root u (gp_child s) s"

definition gp_start :: gp_state where
  "gp_start = \<lparr>gp_parent = GP_hello, gp_child = GC_getppid, gp_parent_pid = Outer, gp_out = []\<rparr>"

fun gp_is_exit_msg :: "gp_msg \<Rightarrow> bool" where
  "gp_is_exit_msg (Parent_exited p) = True"
| "gp_is_exit_msg _ = False"

text \<open>Which number the child got decides everything.\<close>

definition gp_inv :: "bool \<Rightarrow> gp_state \<Rightarrow> bool" where
  "gp_inv root s \<longleftrightarrow> (gp_child s = GC_getppid \<longleftrightarrow> gp_parent_pid s = Outer)
     \<and> (gp_child s = GC_getppid \<longrightarrow> gp_out s = [])
     \<and> (filter gp_is_exit_msg (gp_out s) = []
          \<or> filter gp_is_exit_msg (gp_out s) = [Parent_exited Adoptive] \<and> gp_child s = GC_exit \<and> gp_parent s = GP_gone \<and> gp_parent_pid s = My_parent)
     \<and> (gp_parent_pid s = Adoptive \<longrightarrow> (gp_parent s = GP_zombie \<or> gp_parent s = GP_gone)
          \<and> (if root then gp_child s \<noteq> GC_exit
             else gp_child s \<noteq> GC_sleep \<and> gp_out s = Child_hello Adoptive # (if gp_child s = GC_waiting then [] else [Waiting])))"

lemma gp_inv_step: "gp_inv root s \<Longrightarrow> gp_step root e s = Some t \<Longrightarrow> gp_inv root t"
proof (cases e)
  case (Child_step u)
  assume inv: "gp_inv root s" and "gp_step root e s = Some t"
  with Child_step have st: "gp_child_stmt root u (gp_child s) s = Some t" by simp
  show ?thesis
  proof (cases "gp_child s")
    case GC_getppid
    with st [symmetric] inv show ?thesis by (cases root) (auto simp: gp_inv_def gp_say_def gp_getppid_def)
  next
    case GC_waiting
    with st [symmetric] inv show ?thesis by (cases root) (simp_all add: gp_inv_def gp_say_def)
  next
    case GC_test
    with st [symmetric] inv show ?thesis
      by (cases "gp_parent_pid s"; cases "gp_parent s"; cases root; cases u)
        (simp_all add: gp_inv_def gp_say_def gp_getppid_def)
  next
    case GC_sleep
    with st [symmetric] inv show ?thesis by (cases root) (auto simp: gp_inv_def gp_say_def)
  qed (use st in simp)
next
  case Parent_step
  assume inv: "gp_inv root s" and "gp_step root e s = Some t"
  with Parent_step have "Some t = gp_step root Parent_step s" by simp
  with inv show ?thesis by (cases "gp_parent s") (simp_all add: gp_inv_def)
next
  case Reap
  assume inv: "gp_inv root s" and "gp_step root e s = Some t"
  with Reap have "Some t = gp_step root Reap s" by simp
  with inv show ?thesis by (cases "gp_parent s") (simp_all add: gp_inv_def)
qed

interpretation gp: step_invariant "gp_step root" gp_start "gp_inv root" for root
  by unfold_locales (simp add: gp_inv_def gp_start_def, rule gp_inv_step)

text \<open>The child leaves without a report only when a process of another user has got the parent's number.\<close>

lemma gp_silent:
  "exec (gp_step root) es gp_start = Some s \<Longrightarrow>
     gp_child s = GC_exit \<and> gp_parent_pid s = My_parent \<and> filter gp_is_exit_msg (gp_out s) = [] \<longrightarrow>
       Child_step Other_user \<in> set es \<and> \<not> root"
proof (induction rule: exec_snoc_induct)
  case Nil
  show ?case by (simp add: gp_start_def)
next
  case (snoc es s e t)
  show ?case
  proof (cases e)
    case (Child_step u)
    with snoc(2) have "Some t = gp_child_stmt root u (gp_child s) s" by simp
    with snoc(3) Child_step show ?thesis
      by (cases "gp_child s"; cases "gp_parent_pid s"; cases "gp_parent s"; cases u; cases root)
        (simp_all add: gp_say_def gp_getppid_def)
  next
    case Parent_step
    with snoc(2) have "Some t = gp_step root Parent_step s" by simp
    with snoc(3) show ?thesis by (cases "gp_parent s") simp_all
  next
    case Reap
    with snoc(2) have "Some t = gp_step root Reap s" by simp
    with snoc(3) show ?thesis by (cases "gp_parent s") simp_all
  qed
qed

section \<open>\<open>pthreads/fork.c\<close>\<close>

text \<open>
  Two threads print five lines each while \<open>main()\<close> prints a message and forks. Only \<open>main()\<close> goes on in the
  child, with a copy of the buffer.
\<close>

datatype tf_msg = Thread_line nat nat | Before_fork | Child_sleeping | Child_exiting

datatype tf_main = TM_before | TM_fork | TM_join nat | TM_done
datatype tf_child = TC_none | TC_start | TC_exit | TC_done

record tf_state =
  tf_main :: tf_main
  tf_child :: tf_child
  tf_loops :: "nat \<Rightarrow> nat"
  tf_buf :: "tf_msg list"
  tf_cbuf :: "tf_msg list"
  tf_out :: "tf_msg list"

datatype tf_event = Tf_thread nat | Tf_main | Tf_child

definition NUM_LOOP :: nat where "NUM_LOOP = 5"

definition tf_print :: "bool \<Rightarrow> tf_msg \<Rightarrow> tf_state \<Rightarrow> tf_state" where
  "tf_print tty m s = (let io = io_put tty m (tf_buf s, tf_out s) in s\<lparr>tf_buf := fst io, tf_out := snd io\<rparr>)"

definition tf_cprint :: "bool \<Rightarrow> tf_msg \<Rightarrow> tf_state \<Rightarrow> tf_state" where
  "tf_cprint tty m s = (let io = io_put tty m (tf_cbuf s, tf_out s) in s\<lparr>tf_cbuf := fst io, tf_out := snd io\<rparr>)"

text \<open>\<open>TM_join k\<close> waits for the thread \<open>k\<close>; the parent returns from \<open>main()\<close> after the second.\<close>

fun tf_main_stmt :: "bool \<Rightarrow> tf_main \<Rightarrow> tf_state \<Rightarrow> tf_state option" where
  "tf_main_stmt tty TM_before s = Some ((tf_print tty Before_fork s)\<lparr>tf_main := TM_fork\<rparr>)"
| "tf_main_stmt tty TM_fork s = Some (s\<lparr>tf_main := TM_join 1, tf_child := TC_start, tf_cbuf := tf_buf s\<rparr>)"
| "tf_main_stmt tty (TM_join k) s =
     (if tf_loops s k < NUM_LOOP then None
      else if k = 1 then Some (s\<lparr>tf_main := TM_join 2\<rparr>)
      else Some (s\<lparr>tf_main := TM_done, tf_out := io_exit (tf_buf s, tf_out s), tf_buf := []\<rparr>))"
| "tf_main_stmt tty TM_done s = None"

fun tf_child_stmt :: "bool \<Rightarrow> tf_child \<Rightarrow> tf_state \<Rightarrow> tf_state option" where
  "tf_child_stmt tty TC_start s = Some ((tf_cprint tty Child_sleeping s)\<lparr>tf_child := TC_exit\<rparr>)"
| "tf_child_stmt tty TC_exit s =
     Some (let s = tf_cprint tty Child_exiting s
           in s\<lparr>tf_child := TC_done, tf_out := io_exit (tf_cbuf s, tf_out s), tf_cbuf := []\<rparr>)"
| "tf_child_stmt tty _ s = None"

fun tf_step :: "bool \<Rightarrow> tf_event \<Rightarrow> tf_state \<Rightarrow> tf_state option" where
  "tf_step tty (Tf_thread k) s =
     (if (k = 1 \<or> k = 2) \<and> tf_loops s k < NUM_LOOP
      then Some (tf_print tty (Thread_line k (tf_loops s k)) (s\<lparr>tf_loops := (tf_loops s)(k := Suc (tf_loops s k))\<rparr>))
      else None)"
| "tf_step tty Tf_main s = tf_main_stmt tty (tf_main s) s"
| "tf_step tty Tf_child s = tf_child_stmt tty (tf_child s) s"

definition tf_start :: tf_state where
  "tf_start = \<lparr>tf_main = TM_before, tf_child = TC_none, tf_loops = (\<lambda>_. 0), tf_buf = [], tf_cbuf = [], tf_out = []\<rparr>"

text \<open>
  What the two processes have to print: \<open>P\<close> is what the parent has printed so far, \<open>C\<close> the child; off a
  terminal the latter starts with what the parent had printed when it forked.
\<close>

fun tf_printed :: "tf_state \<Rightarrow> tf_msg \<Rightarrow> bool" where
  "tf_printed s (Thread_line k i) \<longleftrightarrow> (k = 1 \<or> k = 2) \<and> i < tf_loops s k"
| "tf_printed s Before_fork \<longleftrightarrow> tf_main s \<noteq> TM_before"
| "tf_printed s m \<longleftrightarrow> False"

fun tf_child_said :: "tf_child \<Rightarrow> tf_msg list" where
  "tf_child_said TC_none = []"
| "tf_child_said TC_start = []"
| "tf_child_said TC_exit = [Child_sleeping]"
| "tf_child_said TC_done = [Child_sleeping, Child_exiting]"

definition tf_copied :: "bool \<Rightarrow> tf_state \<Rightarrow> tf_msg list \<Rightarrow> tf_msg list \<Rightarrow> bool" where
  "tf_copied tty s P C \<longleftrightarrow> (\<exists>C0 R. P = C0 @ R \<and> C = (if tty then [] else C0) @ tf_child_said (tf_child s)
     \<and> (if tf_child s = TC_none then C0 = [] else Before_fork \<in> set C0))"

definition tf_where :: "bool \<Rightarrow> tf_state \<Rightarrow> tf_msg list \<Rightarrow> tf_msg list \<Rightarrow> bool" where
  "tf_where tty s P C \<longleftrightarrow> tf_buf s = (if tty \<or> tf_main s = TM_done then [] else P)
     \<and> tf_cbuf s = (if tty \<or> tf_child s = TC_done then [] else C)
     \<and> mset (tf_out s) = (if tty \<or> tf_main s = TM_done then mset P else {#}) + (if tty \<or> tf_child s = TC_done then mset C else {#})"

definition tf_pcs :: "tf_state \<Rightarrow> bool" where
  "tf_pcs s \<longleftrightarrow> (\<forall>k. tf_loops s k \<le> NUM_LOOP)
     \<and> (tf_child s = TC_none \<longleftrightarrow> tf_main s = TM_before \<or> tf_main s = TM_fork)
     \<and> (tf_main s = TM_join 2 \<or> tf_main s = TM_done \<longrightarrow> tf_loops s 1 = NUM_LOOP)
     \<and> (tf_main s = TM_done \<longrightarrow> tf_loops s 2 = NUM_LOOP)
     \<and> (\<forall>k. tf_main s = TM_join k \<longrightarrow> k = 1 \<or> k = 2)"

definition tf_rel :: "bool \<Rightarrow> tf_state \<Rightarrow> tf_msg list \<Rightarrow> tf_msg list \<Rightarrow> bool" where
  "tf_rel tty s P C \<longleftrightarrow> distinct P \<and> (\<forall>m. m \<in> set P \<longleftrightarrow> tf_printed s m) \<and> tf_copied tty s P C \<and> tf_where tty s P C"

lemma tf_copied_more: "tf_copied tty s P C \<Longrightarrow> tf_child t = tf_child s \<Longrightarrow> tf_copied tty t (P @ [m]) C"
  unfolding tf_copied_def by force

lemma tf_rel_thread:
  assumes rel: "tf_rel tty s P C" and pcs: "tf_pcs s" and st: "tf_step tty (Tf_thread k) s = Some t"
  shows "tf_rel tty t (P @ [Thread_line k (tf_loops s k)]) C \<and> tf_pcs t"
proof -
  let ?m = "Thread_line k (tf_loops s k)"
  from st have k: "k = 1 \<or> k = 2" "tf_loops s k < NUM_LOOP"
    and t: "t = tf_print tty ?m (s\<lparr>tf_loops := (tf_loops s)(k := Suc (tf_loops s k))\<rparr>)" by (auto split: if_splits)
  have nd: "tf_main s \<noteq> TM_done" using k pcs by (auto simp: tf_pcs_def)
  have f: "tf_main t = tf_main s" "tf_child t = tf_child s" "tf_loops t = (tf_loops s)(k := Suc (tf_loops s k))"
    "tf_cbuf t = tf_cbuf s" "tf_buf t = (if tty then tf_buf s else tf_buf s @ [?m])" "tf_out t = (if tty then tf_out s @ [?m] else tf_out s)"
    by (simp_all add: t tf_print_def io_put_def Let_def)
  have "tf_where tty t (P @ [?m]) C" using rel nd unfolding tf_rel_def tf_where_def f by auto
  moreover have "tf_copied tty t (P @ [?m]) C" using rel f by (auto simp: tf_rel_def intro: tf_copied_more)
  moreover have "tf_printed t m \<longleftrightarrow> m = ?m \<or> tf_printed s m" for m
    using k by (cases m) (auto simp: f less_Suc_eq)
  moreover have "distinct (P @ [?m])" using rel by (auto simp: tf_rel_def)
  moreover have "tf_pcs t" using pcs k nd unfolding tf_pcs_def f by auto
  ultimately show ?thesis using rel by (auto simp: tf_rel_def)
qed

lemma tf_rel_main:
  assumes rel: "tf_rel tty s P C" and pcs: "tf_pcs s" and st: "tf_step tty Tf_main s = Some t"
  shows "(\<exists>P C. tf_rel tty t P C) \<and> tf_pcs t"
proof (cases "tf_main s")
  case TM_before
  with st have t: "t = (tf_print tty Before_fork s)\<lparr>tf_main := TM_fork\<rparr>" by simp
  have f: "tf_main t = TM_fork" "tf_child t = tf_child s" "tf_loops t = tf_loops s"
    "tf_cbuf t = tf_cbuf s" "tf_buf t = (if tty then tf_buf s else tf_buf s @ [Before_fork])" "tf_out t = (if tty then tf_out s @ [Before_fork] else tf_out s)"
    by (simp_all add: t tf_print_def io_put_def Let_def)
  have "tf_where tty t (P @ [Before_fork]) C" using rel TM_before unfolding tf_rel_def tf_where_def f by auto
  moreover have "tf_copied tty t (P @ [Before_fork]) C" using rel f by (auto simp: tf_rel_def intro: tf_copied_more)
  moreover have "tf_printed t m \<longleftrightarrow> m = Before_fork \<or> tf_printed s m" for m
    using TM_before by (cases m) (auto simp: f)
  moreover have "distinct (P @ [Before_fork])" using rel TM_before by (auto simp: tf_rel_def)
  moreover have "tf_pcs t" using pcs TM_before unfolding tf_pcs_def f by auto
  ultimately have "tf_rel tty t (P @ [Before_fork]) C \<and> tf_pcs t" using rel by (auto simp: tf_rel_def)
  then show ?thesis by blast
next
  case TM_fork
  with st have t: "t = s\<lparr>tf_main := TM_join 1, tf_child := TC_start, tf_cbuf := tf_buf s\<rparr>" by simp
  from rel TM_fork pcs have B: "Before_fork \<in> set P" "tf_child s = TC_none" by (auto simp: tf_rel_def tf_pcs_def)
  then have "C = []" using rel by (auto simp: tf_rel_def tf_copied_def)
  have "tf_copied tty t P (if tty then [] else P)"
    unfolding tf_copied_def using B by (intro exI [of _ P] exI [of _ "[]"]) (simp add: t)
  moreover have "tf_where tty t P (if tty then [] else P)" using rel TM_fork B \<open>C = []\<close> by (simp add: tf_rel_def tf_where_def t)
  moreover have "tf_printed t m \<longleftrightarrow> tf_printed s m" for m using TM_fork by (cases m) (auto simp: t)
  moreover have "tf_pcs t" using pcs TM_fork by (simp add: tf_pcs_def t)
  ultimately show ?thesis using rel unfolding tf_rel_def by blast
next
  case (TM_join k)
  show ?thesis
  proof (cases "k = 1")
    case True
    with st TM_join have t: "t = s\<lparr>tf_main := TM_join 2\<rparr>" and l: "\<not> tf_loops s 1 < NUM_LOOP" by (auto split: if_splits)
    have "tf_copied tty t P C" using rel by (simp add: tf_rel_def tf_copied_def t)
    moreover have "tf_where tty t P C" using rel TM_join by (simp add: tf_rel_def tf_where_def t)
    moreover have "tf_printed t m \<longleftrightarrow> tf_printed s m" for m using TM_join by (cases m) (auto simp: t)
    moreover have "tf_pcs t" using pcs TM_join l by (auto simp: tf_pcs_def t not_less intro: le_antisym)
    ultimately show ?thesis using rel unfolding tf_rel_def by blast
  next
    case False
    with pcs TM_join have k: "k = 2" by (auto simp: tf_pcs_def)
    with st TM_join have t: "t = s\<lparr>tf_main := TM_done, tf_out := io_exit (tf_buf s, tf_out s), tf_buf := []\<rparr>"
      and l: "\<not> tf_loops s 2 < NUM_LOOP" by (auto split: if_splits)
    have "tf_copied tty t P C" using rel by (simp add: tf_rel_def tf_copied_def t)
    moreover have "tf_where tty t P C" using rel TM_join by (auto simp: tf_rel_def tf_where_def t io_exit_def)
    moreover have "tf_printed t m \<longleftrightarrow> tf_printed s m" for m using TM_join by (cases m) (auto simp: t)
    moreover have "tf_pcs t" using pcs TM_join l k by (auto simp: tf_pcs_def t not_less intro: le_antisym)
    ultimately show ?thesis using rel unfolding tf_rel_def by blast
  qed
qed (use st in simp)

lemma tf_rel_child:
  assumes rel: "tf_rel tty s P C" and pcs: "tf_pcs s" and st: "tf_step tty Tf_child s = Some t"
  shows "(\<exists>P C. tf_rel tty t P C) \<and> tf_pcs t"
proof (cases "tf_child s")
  case TC_start
  with st have t: "t = (tf_cprint tty Child_sleeping s)\<lparr>tf_child := TC_exit\<rparr>" by simp
  have f: "tf_main t = tf_main s" "tf_child t = TC_exit" "tf_loops t = tf_loops s"
    "tf_buf t = tf_buf s" "tf_cbuf t = (if tty then tf_cbuf s else tf_cbuf s @ [Child_sleeping])" "tf_out t = (if tty then tf_out s @ [Child_sleeping] else tf_out s)"
    by (simp_all add: t tf_cprint_def io_put_def Let_def)
  have "tf_copied tty t P (C @ [Child_sleeping])" using rel TC_start f by (auto simp: tf_rel_def tf_copied_def)
  moreover have "tf_where tty t P (C @ [Child_sleeping])" using rel TC_start by (auto simp: tf_rel_def tf_where_def f)
  moreover have "tf_printed t m \<longleftrightarrow> tf_printed s m" for m by (cases m) (auto simp: f)
  moreover have "tf_pcs t" using pcs TC_start by (simp add: tf_pcs_def f)
  ultimately show ?thesis using rel unfolding tf_rel_def by blast
next
  case TC_exit
  with st have t: "t = (let s = tf_cprint tty Child_exiting s
           in s\<lparr>tf_child := TC_done, tf_out := io_exit (tf_cbuf s, tf_out s), tf_cbuf := []\<rparr>)" by simp
  have f: "tf_main t = tf_main s" "tf_child t = TC_done" "tf_loops t = tf_loops s"
    "tf_buf t = tf_buf s" "tf_cbuf t = []" "tf_out t = tf_out s @ (if tty then Child_exiting # tf_cbuf s else tf_cbuf s @ [Child_exiting])"
    by (simp_all add: t tf_cprint_def io_put_def io_exit_def Let_def)
  have "tf_copied tty t P (C @ [Child_exiting])" using rel TC_exit f by (auto simp: tf_rel_def tf_copied_def)
  moreover have "tf_where tty t P (C @ [Child_exiting])" using rel TC_exit by (auto simp: tf_rel_def tf_where_def f)
  moreover have "tf_printed t m \<longleftrightarrow> tf_printed s m" for m by (cases m) (auto simp: f)
  moreover have "tf_pcs t" using pcs TC_exit by (simp add: tf_pcs_def f)
  ultimately show ?thesis using rel unfolding tf_rel_def by blast
qed (use st in simp_all)

fun tf_rank_main :: "tf_main \<Rightarrow> nat" where
  "tf_rank_main TM_before = 4"
| "tf_rank_main TM_fork = 3"
| "tf_rank_main (TM_join k) = (if k = 1 then 2 else 1)"
| "tf_rank_main TM_done = 0"

fun tf_rank_child :: "tf_child \<Rightarrow> nat" where
  "tf_rank_child TC_exit = 1"
| "tf_rank_child TC_done = 0"
| "tf_rank_child _ = 2"

definition tf_left :: "tf_state \<Rightarrow> nat" where
  "tf_left s = tf_rank_main (tf_main s) + tf_rank_child (tf_child s) + (NUM_LOOP - tf_loops s 1) + (NUM_LOOP - tf_loops s 2)"

definition tf_inv :: "bool \<Rightarrow> tf_state \<Rightarrow> bool" where
  "tf_inv tty s \<longleftrightarrow> (\<exists>P C. tf_rel tty s P C) \<and> tf_pcs s"

lemma tf_inv_step:
  assumes "tf_inv tty s" "tf_step tty e s = Some t"
  shows "tf_inv tty t"
  using assms tf_rel_thread tf_rel_main tf_rel_child unfolding tf_inv_def by (cases e) blast+

lemma tf_left_step:
  assumes inv: "tf_inv tty s" and st: "tf_step tty e s = Some t"
  shows "tf_left t < tf_left s"
proof (cases e)
  case (Tf_thread k)
  with st show ?thesis by (auto simp: tf_left_def tf_print_def Let_def split: if_splits)
next
  case Tf_main
  have "tf_child s = TC_none" if "tf_main s = TM_fork" using inv that by (simp add: tf_inv_def tf_pcs_def)
  with st Tf_main show ?thesis
    by (cases "tf_main s") (auto simp: tf_left_def tf_print_def Let_def split: if_splits)
next
  case Tf_child
  with st show ?thesis by (cases "tf_child s") (auto simp: tf_left_def tf_cprint_def Let_def)
qed

interpretation tf: step_measure "tf_step tty" tf_start "tf_inv tty" tf_left for tty
proof unfold_locales
  have "tf_printed tf_start m \<longleftrightarrow> False" for m by (cases m) (simp_all add: tf_start_def)
  then have "tf_rel tty tf_start [] []"
    by (simp add: tf_rel_def tf_copied_def tf_where_def) (simp add: tf_start_def)
  then show "tf_inv tty tf_start" by (auto simp: tf_inv_def tf_pcs_def tf_start_def)
qed (rule tf_inv_step tf_left_step; assumption)+

definition tf_over :: "tf_state \<Rightarrow> bool" where
  "tf_over s \<longleftrightarrow> tf_main s = TM_done \<and> tf_child s = TC_done"

lemma tf_progress:
  assumes inv: "tf_inv tty s" and "\<not> tf_over s"
  shows "\<exists>e t. tf_step tty e s = Some t"
proof -
  from inv have pcs: "tf_pcs s" by (simp add: tf_inv_def)
  consider "tf_child s = TC_start \<or> tf_child s = TC_exit" | "tf_main s = TM_before \<or> tf_main s = TM_fork"
    | k where "tf_main s = TM_join k" "k = 1 \<or> k = 2"
    using assms pcs by (cases "tf_main s"; cases "tf_child s") (auto simp: tf_pcs_def tf_over_def)
  then show ?thesis
  proof cases
    case 1
    then have "tf_step tty Tf_child s \<noteq> None" by auto
    then show ?thesis by blast
  next
    case 2
    then have "tf_step tty Tf_main s \<noteq> None" by auto
    then show ?thesis by blast
  next
    case 3
    then have "tf_step tty Tf_main s \<noteq> None \<or> tf_step tty (Tf_thread k) s \<noteq> None" by auto
    then show ?thesis by blast
  qed
qed

text \<open>The number of times a message is in the output at the end.\<close>

lemma tf_final_count:
  assumes "tf_inv tty s" "tf_over s"
  shows "count (mset (tf_out s)) m \<in> (case m of
      Thread_line k i \<Rightarrow> if (k = 1 \<or> k = 2) \<and> i < NUM_LOOP then if tty then {1} else {1, 2} else {0}
    | Before_fork \<Rightarrow> if tty then {1} else {2} | _ \<Rightarrow> {1})"
proof -
  from assms obtain P C where rel: "tf_rel tty s P C" and pcs: "tf_pcs s" by (auto simp: tf_inv_def)
  from assms(2) pcs have l: "tf_loops s 1 = NUM_LOOP" "tf_loops s 2 = NUM_LOOP" by (auto simp: tf_pcs_def tf_over_def)
  from rel assms(2) obtain C0 R where C: "P = C0 @ R" "C = (if tty then [] else C0) @ [Child_sleeping, Child_exiting]" "Before_fork \<in> set C0"
    by (auto simp: tf_rel_def tf_copied_def tf_over_def)
  from rel assms(2) have o: "mset (tf_out s) = mset P + mset C" by (simp add: tf_rel_def tf_where_def tf_over_def)
  from rel have d: "distinct P" and P: "\<And>m. m \<in> set P \<longleftrightarrow> tf_printed s m" by (auto simp: tf_rel_def)
  then have cP: "count (mset P) m = of_bool (tf_printed s m)" by (simp add: distinct_count_atmost_1)
  have d0: "distinct C0" using d C by simp
  then have c0: "count (mset C0) m = of_bool (m \<in> set C0)" by (simp add: distinct_count_atmost_1)
  have sub: "m \<in> set C0 \<Longrightarrow> tf_printed s m" using C P by auto
  show ?thesis
    using cP c0 sub C l assms(2) by (cases m; cases tty) (auto simp: o tf_over_def)
qed

section \<open>Properties\<close>

text \<open>\<open>fork.c\<close>: on every schedule of the two processes one of them can go on until both have ended, after 15 statements, and
  then each has written its greeting and all its loop numbers, once and in order, on a terminal or not.
  The child reports its own parent first, perhaps never, and the process that adopted it from the moment its parent has
  ended; it never comes back. Off a terminal the output of each process is written in one piece, so
  the two are not seen \<open>in turns\<close>.\<close>

theorem fk_both_print:
  assumes "fk_main fork_ok = Inr s0" and "exec (fk_step tty) ws s0 = Some s"
  shows "length ws \<le> 15 \<and> ((\<forall>w. fk_pc s w = K_done) \<or> (\<exists>w t. fk_step tty w s = Some t))
    \<and> ((\<forall>w. fk_pc s w = K_done) \<longrightarrow>
        (\<forall>w. map fk_number (filter (fk_by w) (fk_out s)) = [0..<Suc (fk_limit w)])
        \<and> (\<exists>a b. fk_ppids (fk_out s) = replicate a My_parent @ replicate b Adoptive))
    \<and> (\<not> tty \<longrightarrow> (\<exists>w. fk_out s = filter (fk_by w) (fk_out s) @ filter (\<lambda>m. \<not> fk_by w m) (fk_out s)))"
proof -
  from assms have s0: "s0 = fk_start" by (simp add: fk_main_def split: if_splits)
  with assms have run: "exec (fk_step tty) ws fk_start = Some s" by simp
  from fk.exec_inv [OF fk.inv_init run] have ok: "\<And>w. fk_ok tty s w" and ad: "fk_adopted s" and bl: "\<not> tty \<longrightarrow> fk_blocks s"
    by (auto simp: fk_inv_def)
  have "fk_left fk_start = 15" by (simp add: fk_left_def fk_start_def)
  with fk.exec_length [OF run] have 1: "length ws \<le> 15" by simp
  have 2: "\<exists>t. fk_step tty w s = Some t" if "fk_pc s w \<noteq> K_done" for w
    using that by (cases "fk_pc s w") (simp_all add: fk_step_def)
  have 3: "map fk_number (filter (fk_by w) (fk_out s)) = [0..<Suc (fk_limit w)]" if "\<forall>w. fk_pc s w = K_done" for w
    using ok [of w] that by (intro fk_loops_of) (simp_all add: fk_ok_def)
  have 4: "\<exists>a b. fk_ppids (fk_out s) = replicate a My_parent @ replicate b Adoptive" if "\<forall>w. fk_pc s w = K_done"
  proof -
    have "fk_ppids (filter (fk_by Child) ms) = fk_ppids ms" for ms by (induction ms rule: fk_ppids.induct) auto
    with ok [of Child] that ad show ?thesis by (auto simp: fk_adopted_def fk_said_def fk_ok_def)
  qed
  from 1 2 3 4 bl show ?thesis unfolding fk_blocks_def by blast
qed

theorem fk_both_print_witness:
  "\<exists>s. exec (fk_step False) (replicate 5 Parent @ replicate 10 Child) fk_start = Some s
     \<and> map fk_number (filter (fk_by Child) (fk_out s)) = [0..<9]"
proof -
  have r: "runs (fk_step False) (replicate 5 Parent @ replicate 10 Child) fk_start (\<lambda>s. fk_pc s Parent = K_done \<and> fk_pc s Child = K_done)"
    by code_simp
  from runs_exec [OF r] obtain s where s: "exec (fk_step False) (replicate 5 Parent @ replicate 10 Child) fk_start = Some s"
    "fk_pc s Parent = K_done" "fk_pc s Child = K_done" by blast
  have all: "\<forall>w. fk_pc s w = K_done" using s by (metis who.exhaust)
  have main: "fk_main True = Inr fk_start" by (simp add: fk_main_def)
  have "map fk_number (filter (fk_by w) (fk_out s)) = [0..<Suc (fk_limit w)]" for w
    using fk_both_print [OF main s(1)] all by blast
  from this [of Child] s(1) show ?thesis by simp
qed

text \<open>What the programs with handlers and \<open>_exit\<close> leave. \<open>exit.c\<close>: with an argument the handler runs and
  everything is written, status 3; without one the handler does not run, the status is 4, and the output is
  there on a terminal only, otherwise the process takes it with it. \<open>atexit-abort.c\<close> dies of \<open>abort\<close>, and its
  message is lost off a terminal. \<open>vfork.c\<close> prints on a terminal the child's six loops before the parent's, and
  off a terminal nothing at all, as both processes end with \<open>_exit\<close>. Return values 256 and -1 are the statuses 0 and 255.\<close>

theorem exit_outcomes:
  shows "(1 < argc \<longrightarrow> ex_main tty True argc = ([Setting_handler, Using_exit, Taadyadya], [], Status 3))
    \<and> ex_main tty True 1 = (if tty then [Run_with_argument, Setting_handler, Using__exit] else [], [], Status 4)
    \<and> ab_main tty True = (if tty then [Setting_abort] else [], [], Killed_by_abort)
    \<and> vf_main tty True = (if tty
         then Before_vfork # Child_pid # map (VLoop Child) [0..<6] @ After_vfork # map (VLoop Parent) [0..<6] else [], 0)
    \<and> vf_main tty False = ([Before_vfork], 1)
    \<and> ret256_main = 0 \<and> retneg_main = 255"
  by (cases tty)
    (simp_all add: ex_main_def ab_main_def vf_main_def vf_child_def io_put_def io_exit_def Let_def numeral_eq_Suc upt_rec
      ret256_main_def retneg_main_def exit_status_def)

theorem exit_outcomes_witness:
  "ex_main False True 2 = ([Setting_handler, Using_exit, Taadyadya], [], Status 3)"
  using exit_outcomes [of 2 False] by simp

text \<open>C31: \<open>pthreads/fork.c\<close>: on a terminal every line of the threads and each of the three messages is written once, and the
  child, which is \<open>main()\<close> alone, writes only its own two. Off a terminal the child has a copy of what the parent had
  not written yet: the message from before \<open>fork()\<close> is always there twice, and so are the lines the
  threads had printed by then, possibly all ten. Some thread can go on until both processes have
  ended, after 16 steps.\<close>

theorem tf_duplicates:
  shows "(exec (tf_step tty) es tf_start = Some s \<longrightarrow>
      length es \<le> 16 \<and> (tf_over s \<or> (\<exists>e t. tf_step tty e s = Some t))
      \<and> (tf_over s \<longrightarrow> (\<forall>m. count (mset (tf_out s)) m \<in> (case m of
          Thread_line k i \<Rightarrow> if (k = 1 \<or> k = 2) \<and> i < NUM_LOOP then if tty then {1} else {1, 2} else {0}
        | Before_fork \<Rightarrow> if tty then {1} else {2} | _ \<Rightarrow> {1}))))
    \<and> (\<exists>es. runs (tf_step False) es tf_start (\<lambda>s. tf_over s \<and> length (tf_out s) = 24))"
proof -
  have "length es \<le> 16 \<and> (tf_over s \<or> (\<exists>e t. tf_step tty e s = Some t))
      \<and> (tf_over s \<longrightarrow> (\<forall>m. count (mset (tf_out s)) m \<in> (case m of
          Thread_line k i \<Rightarrow> if (k = 1 \<or> k = 2) \<and> i < NUM_LOOP then if tty then {1} else {1, 2} else {0}
        | Before_fork \<Rightarrow> if tty then {1} else {2} | _ \<Rightarrow> {1})))" if run: "exec (tf_step tty) es tf_start = Some s"
  proof -
    have inv: "tf_inv tty s" using tf.exec_inv [OF tf.inv_init run] .
    have "tf_left tf_start = 16" by (simp add: tf_left_def tf_start_def NUM_LOOP_def)
    with tf.exec_length [OF run] have "length es \<le> 16" by simp
    with tf_progress [OF inv] tf_final_count [OF inv] show ?thesis by blast
  qed
  moreover have "runs (tf_step False) (Tf_main # replicate 5 (Tf_thread 1) @ replicate 5 (Tf_thread 2) @ replicate 3 Tf_main @ replicate 2 Tf_child)
      tf_start (\<lambda>s. tf_over s \<and> length (tf_out s) = 24)"
    by code_simp
  ultimately show ?thesis by blast
qed

theorem tf_duplicates_witness:
  "\<exists>s. exec (tf_step True) [Tf_main, Tf_main, Tf_child] tf_start = Some s \<and> (\<exists>e t. tf_step True e s = Some t)"
proof -
  have r: "runs (tf_step True) [Tf_main, Tf_main, Tf_child] tf_start (\<lambda>s. \<not> tf_over s)" by code_simp
  from runs_exec [OF r] obtain s where s: "exec (tf_step True) [Tf_main, Tf_main, Tf_child] tf_start = Some s" "\<not> tf_over s" by blast
  with tf_duplicates [of True "[Tf_main, Tf_main, Tf_child]" s, THEN conjunct1] show ?thesis by blast
qed

text \<open>C32: \<open>getppid.c\<close>: what the child reports is right: it says that its parent has exited only when that is gone, and then its
  parent is the adoptive process. If it asked for the number of its parent in time and that number is free again after the parent is gone,
  the next test leads to the report; it leaves without one only when a process of another user has got the number. But if the parent had already exited when the child
  asked, it never reports: run by root it waits for the adoptive process for ever, and otherwise
  it ends without a message.\<close>

theorem gp_outcomes:
  assumes "exec (gp_step root) es gp_start = Some s"
  shows "(Parent_exited p \<in> set (gp_out s) \<longrightarrow> p = Adoptive \<and> gp_parent s = GP_gone \<and> gp_parent_pid s = My_parent)
    \<and> (gp_parent_pid s = My_parent \<and> gp_parent s = GP_gone \<and> gp_child s = GC_test \<longrightarrow>
        (\<exists>t. gp_step root (Child_step Free) s = Some t \<and> last (gp_out t) = Parent_exited Adoptive \<and> gp_child t = GC_exit))
    \<and> (gp_parent_pid s = My_parent \<and> gp_child s = GC_exit \<and> Parent_exited Adoptive \<notin> set (gp_out s) \<longrightarrow>
        Child_step Other_user \<in> set es \<and> \<not> root)
    \<and> (gp_parent_pid s = Adoptive \<longrightarrow> Parent_exited p \<notin> set (gp_out s)
        \<and> (if root then gp_child s \<noteq> GC_exit else gp_child s = GC_exit \<longrightarrow> gp_out s = [Child_hello Adoptive, Waiting]))"
proof -
  have inv: "gp_inv root s" using gp.exec_inv [OF gp.inv_init assms] .
  define F where "F = filter gp_is_exit_msg (gp_out s)"
  have rep: "Parent_exited q \<in> set (gp_out s) \<longleftrightarrow> Parent_exited q \<in> set F" for q by (simp add: F_def)
  have F: "F = [] \<or> F = [Parent_exited Adoptive] \<and> gp_parent s = GP_gone \<and> gp_parent_pid s = My_parent"
    using inv by (auto simp: gp_inv_def F_def)
  then have 1: "Parent_exited q \<in> set (gp_out s) \<longrightarrow> q = Adoptive \<and> gp_parent s = GP_gone \<and> gp_parent_pid s = My_parent" for q
    unfolding rep by auto
  have 2: "Child_step Other_user \<in> set es \<and> \<not> root"
    if "gp_parent_pid s = My_parent" "gp_child s = GC_exit" "Parent_exited Adoptive \<notin> set (gp_out s)"
  proof -
    have "F = []" using that F unfolding rep by auto
    with gp_silent [OF assms] that show ?thesis unfolding F_def by blast
  qed
  have 3: "\<exists>t. gp_step root (Child_step Free) s = Some t \<and> last (gp_out t) = Parent_exited Adoptive \<and> gp_child t = GC_exit"
    if "gp_parent_pid s = My_parent" "gp_parent s = GP_gone" "gp_child s = GC_test"
    using that by (simp add: gp_say_def gp_getppid_def)
  have 4: "if root then gp_child s \<noteq> GC_exit else gp_child s = GC_exit \<longrightarrow> gp_out s = [Child_hello Adoptive, Waiting]"
    if "gp_parent_pid s = Adoptive"
    using that inv by (cases root) (simp_all add: gp_inv_def)
  have 5: "Parent_exited p \<notin> set (gp_out s)" if "gp_parent_pid s = Adoptive"
    using 1 [of p] that by auto
  show ?thesis
  proof (intro conjI impI)
    assume "Parent_exited p \<in> set (gp_out s)"
    with 1 show "p = Adoptive" "gp_parent s = GP_gone" "gp_parent_pid s = My_parent" by blast+
  next
    assume "gp_parent_pid s = My_parent \<and> gp_child s = GC_exit \<and> Parent_exited Adoptive \<notin> set (gp_out s)"
    with 2 show "Child_step Other_user \<in> set es" "\<not> root" by blast+
  qed (use 3 4 5 in simp_all)
qed

theorem gp_outcomes_witness:
  "\<exists>s. exec (gp_step False) [Parent_step, Parent_step, Child_step Free, Child_step Free, Child_step Free] gp_start = Some s
     \<and> gp_out s = [Child_hello Adoptive, Waiting]"
proof -
  let ?es = "[Parent_step, Parent_step, Child_step Free, Child_step Free, Child_step Free]"
  have r: "runs (gp_step False) ?es gp_start (\<lambda>s. gp_parent_pid s = Adoptive \<and> gp_child s = GC_exit)" by code_simp
  from runs_exec [OF r] obtain s where s: "exec (gp_step False) ?es gp_start = Some s"
    "gp_parent_pid s = Adoptive" "gp_child s = GC_exit" by blast
  with gp_outcomes [OF s(1)] show ?thesis by auto
qed

end
