(* ===== verification/Signal_Threads.thy ===== *)
theory Signal_Threads
  imports Getopt
begin

text \<open>
  Programs that block signals in all threads and let \<open>main()\<close> take them with \<open>sigwait\<close>:
  \<open>pthreads/sigwait.c\<close>, \<open>pthreads/sigwait-with-sync-signals.c\<close>, \<open>signals/catch-SIGKILL.c\<close> and
  \<open>signals/catch-all.c\<close>.
\<close>

section \<open>Signals of a process whose threads share one mask\<close>

text \<open>The numbers are those of Linux; the default action of the signals not listed ends the process.\<close>

definition SIGILL :: nat where "SIGILL = 4"
definition SIGBUS :: nat where "SIGBUS = 7"
definition SIGFPE :: nat where "SIGFPE = 8"
definition SIGKILL :: nat where "SIGKILL = 9"
definition SIGSEGV :: nat where "SIGSEGV = 11"
definition SIGCONT :: nat where "SIGCONT = 18"
definition SIGSTOP :: nat where "SIGSTOP = 19"

lemmas sig_numbers = SIGILL_def SIGBUS_def SIGFPE_def SIGKILL_def SIGSEGV_def SIGCONT_def SIGSTOP_def

text \<open>The signals from \<open>SIGRTMIN\<close> on queue; those before do not.\<close>

definition sig_valid :: "nat \<Rightarrow> bool" where "sig_valid g \<longleftrightarrow> 1 \<le> g \<and> g \<le> 64"
definition sig_realtime :: "nat \<Rightarrow> bool" where "sig_realtime g \<longleftrightarrow> 32 \<le> g"
definition sig_stops :: "nat \<Rightarrow> bool" where "sig_stops g \<longleftrightarrow> g \<in> {SIGSTOP, 20, 21, 22}"
definition sig_ignored :: "nat \<Rightarrow> bool" where "sig_ignored g \<longleftrightarrow> g \<in> {17, 23, 28}"

datatype ws_pc = W_mask | W_print | W_wait | W_report nat

datatype ws_thr = X_start | X_loop nat | X_sleeping | X_access | X_end

datatype ws_msg = Instructions | Caught nat | Thread_loop nat nat | Sending_to_myself nat | Sleeping_now nat | Gonna_access nat

record ws_state =
  ws_pc :: ws_pc
  ws_created :: bool
  ws_thr :: "nat \<Rightarrow> ws_thr"
  ws_mask :: "nat \<Rightarrow> bool"
  ws_pending :: "nat \<Rightarrow> nat"
  ws_thr_pending :: "nat \<Rightarrow> nat set"
  ws_stopped :: bool
  ws_killed :: bool
  ws_out :: "ws_msg list"

text \<open>
  \<open>SIGKILL\<close> and \<open>SIGSTOP\<close> cannot be blocked. A stop signal discards a pending \<open>SIGCONT\<close>; that
  discards pending stop signals and lets the process continue even when it is blocked. A blocked signal
  stays pending for the whole process: once, however often it is sent, or as often as it is sent if it
  is a real-time signal.
\<close>

definition ws_blocks :: "ws_state \<Rightarrow> nat \<Rightarrow> bool" where
  "ws_blocks s g \<longleftrightarrow> ws_mask s g \<and> g \<noteq> SIGKILL \<and> g \<noteq> SIGSTOP"

definition ws_discard :: "nat \<Rightarrow> ws_state \<Rightarrow> ws_state" where
  "ws_discard g s =
     (if sig_stops g then s\<lparr>ws_pending := (ws_pending s)(SIGCONT := 0)\<rparr>
      else if g = SIGCONT then s\<lparr>ws_pending := (\<lambda>h. if sig_stops h then 0 else ws_pending s h), ws_stopped := False\<rparr>
      else s)"

definition ws_send :: "nat \<Rightarrow> ws_state \<Rightarrow> ws_state" where
  "ws_send g s =
     (let s = ws_discard g s in
      if ws_blocks s g
      then s\<lparr>ws_pending := (ws_pending s)(g := if sig_realtime g then Suc (ws_pending s g) else 1)\<rparr>
      else if sig_ignored g \<or> g = SIGCONT then s
      else if sig_stops g then s\<lparr>ws_stopped := True\<rparr>
      else s\<lparr>ws_killed := True\<rparr>)"

text \<open>
  A program: what \<open>main()\<close> does before its loop, the set it waits for, and what its threads do. The threads are created
  when the mask is set, and inherit it.
\<close>

datatype ws_event = Send nat | Main | Accept nat | Thr nat

definition ws_say :: "ws_msg \<Rightarrow> ws_state \<Rightarrow> ws_state" where
  "ws_say m s = s\<lparr>ws_out := ws_out s @ [m]\<rparr>"

fun sgw_loop :: "(ws_pc \<Rightarrow> ws_state \<Rightarrow> ws_state option) \<Rightarrow> ws_pc \<Rightarrow> ws_state \<Rightarrow> ws_state option" where
  "sgw_loop prep (W_report g) s = Some ((ws_say (Caught g) s)\<lparr>ws_pc := W_wait\<rparr>)"
| "sgw_loop prep W_wait s = None"
| "sgw_loop prep p s = prep p s"

definition ws_step :: "(ws_pc \<Rightarrow> ws_state \<Rightarrow> ws_state option) \<Rightarrow> (nat \<Rightarrow> bool) \<Rightarrow>
    (nat \<Rightarrow> ws_thr \<Rightarrow> ws_state \<Rightarrow> ws_state option) \<Rightarrow> ws_event \<Rightarrow> ws_state \<Rightarrow> ws_state option" where
  "ws_step prep sset body e s =
     (if ws_killed s then None
      else case e of
        Send g \<Rightarrow> if sig_valid g then Some (ws_send g s) else None
      | Main \<Rightarrow> if ws_stopped s then None else sgw_loop prep (ws_pc s) s
      | Accept g \<Rightarrow>
          if \<not> ws_stopped s \<and> ws_pc s = W_wait \<and> sset g \<and> 0 < ws_pending s g
          then Some (s\<lparr>ws_pending := (ws_pending s)(g := ws_pending s g - 1), ws_pc := W_report g\<rparr>) else None
      | Thr k \<Rightarrow>
          if \<not> ws_stopped s \<and> (k = 1 \<or> k = 2) \<and> ws_created s then body k (ws_thr s k) s else None)"

definition ws_start :: "ws_pc \<Rightarrow> ws_state" where
  "ws_start p = \<lparr>ws_pc = p, ws_created = False, ws_thr = (\<lambda>_. X_start), ws_mask = (\<lambda>_. False), ws_pending = (\<lambda>_. 0),
     ws_thr_pending = (\<lambda>_. {}), ws_stopped = False, ws_killed = False, ws_out = []\<rparr>"

section \<open>The programs\<close>

definition CYCLES :: nat where "CYCLES = 100"

definition ws_goto :: "nat \<Rightarrow> ws_thr \<Rightarrow> ws_state \<Rightarrow> ws_state" where
  "ws_goto k p s = s\<lparr>ws_thr := (ws_thr s)(k := p)\<rparr>"

fun st_thread :: "nat \<Rightarrow> ws_thr \<Rightarrow> ws_state \<Rightarrow> ws_state option" where
  "st_thread k X_start s = Some (ws_goto k (X_loop 0) s)"
| "st_thread k (X_loop i) s =
     Some (if i < CYCLES then ws_goto k (X_loop (Suc i)) (ws_say (Thread_loop k i) s) else ws_goto k X_end s)"
| "st_thread k _ s = None"

definition sync_sigs :: "nat list" where
  "sync_sigs = [SIGFPE, SIGILL, SIGSEGV, SIGBUS]"

text \<open>What \<open>sigfillset\<close> puts into a set: all signals but the two that glibc keeps for itself.\<close>

definition all_sigs :: "nat \<Rightarrow> bool" where
  "all_sigs g \<longleftrightarrow> sig_valid g \<and> g \<noteq> 32 \<and> g \<noteq> 33"

definition st_mask :: "nat \<Rightarrow> bool" where
  "st_mask g \<longleftrightarrow> all_sigs g \<and> g \<notin> set sync_sigs"

text \<open>\<open>pthreads/sigwait.c\<close>: the mask, the threads, the instructions, the loop.\<close>

fun st_setup :: "(nat \<Rightarrow> bool) \<Rightarrow> ws_pc \<Rightarrow> ws_state \<Rightarrow> ws_state option" where
  "st_setup sset W_mask s = Some (s\<lparr>ws_mask := sset, ws_created := True, ws_pc := W_print\<rparr>)"
| "st_setup sset W_print s = Some ((ws_say Instructions s)\<lparr>ws_pc := W_wait\<rparr>)"
| "st_setup sset _ s = None"

definition st_step :: "ws_event \<Rightarrow> ws_state \<Rightarrow> ws_state option" where
  "st_step = ws_step (st_setup st_mask) st_mask st_thread"





text \<open>
  \<open>pthreads/sigwait-with-sync-signals.c\<close>: with \<open>-k\<close> a thread sends \<open>SIGSEGV\<close> to itself, where it stays pending for that
  thread only; otherwise it writes to address 0. What the system then does with the blocked
  signal is undefined: it ends the process if \<open>forced\<close> holds; otherwise the thread is stuck at the instruction.
\<close>

fun ss_thread :: "bool \<Rightarrow> bool \<Rightarrow> nat \<Rightarrow> ws_thr \<Rightarrow> ws_state \<Rightarrow> ws_state option" where
  "ss_thread k_opt forced k X_start s =
     Some (if k_opt
           then ws_goto k X_end ((ws_say (Sending_to_myself k) s)\<lparr>ws_thr_pending := (ws_thr_pending s)(k := insert SIGSEGV (ws_thr_pending s k))\<rparr>)
           else ws_goto k X_sleeping (ws_say (Sleeping_now k) s))"
| "ss_thread k_opt forced k X_sleeping s = Some (ws_goto k X_access (ws_say (Gonna_access k) s))"
| "ss_thread k_opt forced k X_access s = Some (if forced then s\<lparr>ws_killed := True\<rparr> else s)"
| "ss_thread k_opt forced k _ s = None"

definition ss_step :: "bool \<Rightarrow> bool \<Rightarrow> ws_event \<Rightarrow> ws_state \<Rightarrow> ws_state option" where
  "ss_step k_opt forced = ws_step (st_setup all_sigs) all_sigs (ss_thread k_opt forced)"

text \<open>The options of the last program: anything but \<open>-k\<close> is refused.\<close>

fun ss_options :: "bool \<Rightarrow> optval list \<Rightarrow> bool option" where
  "ss_options k [] = Some k"
| "ss_options k (Opt c a # os) = (if c = CHR ''k'' then ss_options True os else None)"
| "ss_options k (_ # os) = None"

definition ss_main :: "string list \<Rightarrow> exit_info + bool" where
  "ss_main argv =
     (case ss_options False (fst (getopt_scan (optspec ''k'') (tl argv))) of
        None \<Rightarrow> Inl (Exit 1 (''Usage: '' @ c_basename (hd argv) @ '' [-k]'' @ nl)) | Some k \<Rightarrow> Inr k)"

section \<open>What such a program reports\<close>

fun ws_is_caught :: "ws_msg \<Rightarrow> bool" where
  "ws_is_caught (Caught g) = True"
| "ws_is_caught _ = False"

text \<open>The contract of the threads: they print, but no report, and leave signals and \<open>main()\<close> alone.\<close>

definition ws_quiet :: "ws_state \<Rightarrow> ws_state \<Rightarrow> bool" where
  "ws_quiet s t \<longleftrightarrow> ws_pc t = ws_pc s \<and> ws_created t = ws_created s \<and> ws_mask t = ws_mask s \<and> ws_pending t = ws_pending s
     \<and> ws_stopped t = ws_stopped s \<and> ws_killed t = ws_killed s
     \<and> filter ws_is_caught (ws_out t) = filter ws_is_caught (ws_out s)"

text \<open>That a signal was sent and not accepted since.\<close>

fun ws_due :: "nat \<Rightarrow> ws_event list \<Rightarrow> bool" where
  "ws_due g [] = False"
| "ws_due g (e # es) = (ws_due g es \<or> e = Send g \<and> Accept g \<notin> set es)"

lemma ws_due_snoc: "ws_due g (es @ [e]) \<longleftrightarrow> e = Send g \<or> ws_due g es \<and> e \<noteq> Accept g"
  by (induction es) auto

text \<open>Signals that no other signal discards.\<close>

definition ws_lasting :: "nat \<Rightarrow> bool" where
  "ws_lasting g \<longleftrightarrow> g \<noteq> SIGKILL \<and> g \<noteq> SIGCONT \<and> \<not> sig_stops g"

lemma ws_send_same [simp]:
  "ws_pc (ws_send g s) = ws_pc s" "ws_out (ws_send g s) = ws_out s" "ws_mask (ws_send g s) = ws_mask s"
  by (simp_all add: ws_send_def ws_discard_def Let_def)

lemma ws_blocks_discard [simp]: "ws_blocks (ws_discard g s) h = ws_blocks s h"
  by (simp add: ws_blocks_def ws_discard_def)

lemma ws_send_pending:
  "ws_pending (ws_send g s) h \<le> ws_pending s h + of_bool (h = g \<and> g \<noteq> SIGKILL \<and> g \<noteq> SIGSTOP)"
  by (auto simp: ws_send_def Let_def ws_discard_def ws_blocks_def split: if_splits)

lemma ws_send_lasts: "ws_lasting h \<Longrightarrow> 0 < ws_pending s h \<Longrightarrow> 0 < ws_pending (ws_send g s) h"
  by (auto simp: ws_send_def Let_def ws_discard_def ws_lasting_def)

lemma ws_send_blocked: "ws_mask s g \<Longrightarrow> ws_lasting g \<Longrightarrow> 0 < ws_pending (ws_send g s) g"
  by (auto simp: ws_send_def Let_def ws_blocks_def ws_discard_def ws_lasting_def sig_stops_def)

text \<open>The signals that end a process with the mask \<open>sset\<close>.\<close>

definition ws_fatal :: "(nat \<Rightarrow> bool) \<Rightarrow> nat \<Rightarrow> bool" where
  "ws_fatal sset g \<longleftrightarrow> g = SIGKILL \<or> \<not> sset g \<and> \<not> sig_ignored g \<and> g \<noteq> SIGCONT \<and> \<not> sig_stops g"

lemma ws_send_killed: "ws_killed (ws_send g s) \<longleftrightarrow> ws_killed s \<or> ws_fatal (ws_mask s) g"
  by (auto simp: ws_send_def Let_def ws_discard_def ws_blocks_def ws_fatal_def sig_stops_def sig_ignored_def sig_numbers)

definition ws_ready :: "(nat \<Rightarrow> bool) \<Rightarrow> ws_state \<Rightarrow> bool" where
  "ws_ready sset s \<longleftrightarrow> (\<forall>k. ws_thr s k = X_start) \<and> ws_pc s = W_wait \<and> ws_mask s = sset \<and> ws_pending s = (\<lambda>_. 0) \<and> \<not> ws_killed s
     \<and> filter ws_is_caught (ws_out s) = []"

definition ws_caught :: "ws_state \<Rightarrow> nat \<Rightarrow> nat" where
  "ws_caught s g = count_list (filter ws_is_caught (ws_out s)) (Caught g)"

text \<open>What holds of each signal after the events \<open>es\<close> since the loop was entered.\<close>

definition ws_sig_ok :: "(nat \<Rightarrow> bool) \<Rightarrow> ws_event list \<Rightarrow> ws_state \<Rightarrow> nat \<Rightarrow> bool" where
  "ws_sig_ok sset es s g \<longleftrightarrow>
     ws_caught s g + of_bool (ws_pc s = W_report g) + ws_pending s g \<le> count_list es (Send g)
     \<and> (g = SIGKILL \<or> g = SIGSTOP \<longrightarrow> ws_pending s g = 0 \<and> ws_pc s \<noteq> W_report g \<and> ws_caught s g = 0)
     \<and> (ws_lasting g \<and> sset g \<and> ws_due g es \<longrightarrow> 0 < ws_pending s g)"

definition ws_run_ok :: "(nat \<Rightarrow> bool) \<Rightarrow> ws_event list \<Rightarrow> ws_state \<Rightarrow> bool" where
  "ws_run_ok sset es s \<longleftrightarrow> (ws_pc s = W_wait \<or> (\<exists>g. ws_pc s = W_report g)) \<and> ws_mask s = sset
     \<and> (ws_killed s \<longleftrightarrow> (\<exists>g. Send g \<in> set es \<and> ws_fatal sset g))
     \<and> (\<forall>g. ws_sig_ok sset es s g)"

lemma ws_sig_ok_send:
  assumes "ws_sig_ok sset es s h" "ws_mask s = sset"
  shows "ws_sig_ok sset (es @ [Send g]) (ws_send g s) h"
proof -
  have p: "ws_pending (ws_send g s) h \<le> ws_pending s h + of_bool (h = g \<and> g \<noteq> SIGKILL \<and> g \<noteq> SIGSTOP)"
    by (rule ws_send_pending)
  have "ws_caught s h + of_bool (ws_pc s = W_report h) + ws_pending (ws_send g s) h \<le> count_list (es @ [Send g]) (Send h)"
  proof -
    have "count_list (es @ [Send g]) (Send h) = count_list es (Send h) + of_bool (h = g)" by simp
    moreover have "of_bool (h = g \<and> g \<noteq> SIGKILL \<and> g \<noteq> SIGSTOP) \<le> (of_bool (h = g) :: nat)" by simp
    moreover have "ws_caught s h + of_bool (ws_pc s = W_report h) + ws_pending s h \<le> count_list es (Send h)"
      using assms(1) by (simp only: ws_sig_ok_def)
    ultimately show ?thesis using p by linarith
  qed
  moreover have "h = SIGKILL \<or> h = SIGSTOP \<longrightarrow> ws_pending (ws_send g s) h = 0"
    using assms(1) p by (cases "h = g") (auto simp: ws_sig_ok_def)
  moreover have "ws_lasting h \<and> sset h \<and> ws_due h (es @ [Send g]) \<longrightarrow> 0 < ws_pending (ws_send g s) h"
    using assms ws_send_lasts [of h s g] ws_send_blocked [of s g] by (auto simp: ws_sig_ok_def ws_due_snoc)
  ultimately show ?thesis using assms(1) by (simp add: ws_sig_ok_def ws_caught_def)
qed

lemma ws_sig_ok_quiet:
  assumes "ws_sig_ok sset es s h" "ws_quiet s t" "e \<noteq> Accept h" "\<And>g. e \<noteq> Send g"
  shows "ws_sig_ok sset (es @ [e]) t h"
  using assms by (simp add: ws_sig_ok_def ws_quiet_def ws_caught_def ws_due_snoc)

locale ws_program =
  fixes prep :: "ws_pc \<Rightarrow> ws_state \<Rightarrow> ws_state option" and sset :: "nat \<Rightarrow> bool"
    and body :: "nat \<Rightarrow> ws_thr \<Rightarrow> ws_state \<Rightarrow> ws_state option"
    and live :: "ws_thr \<Rightarrow> bool"
  assumes live_start: "live X_start"
    and quiet: "live p \<Longrightarrow> body k p s = Some t \<Longrightarrow> ws_quiet s t"
    and live_next: "live p \<Longrightarrow> body k p s = Some t \<Longrightarrow> \<exists>q. live q \<and> ws_thr t = (ws_thr s)(k := q)"
begin

lemma live_step:
  assumes "\<forall>k. live (ws_thr s k)" "ws_step prep sset body e s = Some t" "ws_pc s = W_wait \<or> (\<exists>g. ws_pc s = W_report g)"
  shows "\<forall>k. live (ws_thr t k)"
proof (cases e)
  case (Thr k)
  with assms obtain q where "live q" "ws_thr t = (ws_thr s)(k := q)"
    using live_next [of "ws_thr s k" k s t] by (auto simp: ws_step_def split: if_splits)
  with assms(1) show ?thesis by simp
qed (use assms in \<open>auto simp: ws_step_def ws_say_def ws_send_def ws_discard_def Let_def split: if_splits\<close>)

lemma run_ok_step:
  assumes ok: "ws_run_ok sset es s" and live: "\<forall>k. live (ws_thr s k)" and st: "ws_step prep sset body e s = Some t"
  shows "ws_run_ok sset (es @ [e]) t"
proof -
  from ok have m: "ws_pc s = W_wait \<or> (\<exists>g. ws_pc s = W_report g)" and mask: "ws_mask s = sset"
    and sig: "\<And>g. ws_sig_ok sset es s g" by (simp_all add: ws_run_ok_def)
  from st have alive: "\<not> ws_killed s" by (simp add: ws_step_def split: if_splits)
  show ?thesis
  proof (cases e)
    case (Send g)
    with st alive have t: "t = ws_send g s" by (simp add: ws_step_def split: if_splits)
    have "ws_killed t \<longleftrightarrow> ws_fatal sset g" using ws_send_killed [of g s] alive mask by (simp add: t)
    moreover have "\<not> (\<exists>g. Send g \<in> set es \<and> ws_fatal sset g)" using ok alive by (simp add: ws_run_ok_def)
    moreover have "ws_sig_ok sset (es @ [Send g]) t h" for h unfolding t using sig mask by (rule ws_sig_ok_send)
    ultimately show ?thesis using m mask Send by (auto simp: ws_run_ok_def t)
  next
    case Main
    with st alive have "sgw_loop prep (ws_pc s) s = Some t" by (simp add: ws_step_def split: if_splits)
    with m obtain g where g: "ws_pc s = W_report g" and t: "t = (ws_say (Caught g) s)\<lparr>ws_pc := W_wait\<rparr>" by auto
    have "ws_sig_ok sset (es @ [Main]) t h" for h
      using sig [of h] g by (cases "h = g") (auto simp: ws_sig_ok_def t ws_say_def ws_caught_def ws_due_snoc)
    with ok Main alive show ?thesis by (simp add: ws_run_ok_def t ws_say_def)
  next
    case (Accept g)
    with st alive have t: "t = s\<lparr>ws_pending := (ws_pending s)(g := ws_pending s g - 1), ws_pc := W_report g\<rparr>" and w: "ws_pc s = W_wait" "0 < ws_pending s g"
      by (simp_all add: ws_step_def split: if_splits)
    have "ws_sig_ok sset (es @ [Accept g]) t h" for h
      using sig [of h] w by (cases "h = g") (auto simp: ws_sig_ok_def t ws_caught_def ws_due_snoc)
    with ok Accept alive show ?thesis by (simp add: ws_run_ok_def t)
  next
    case (Thr k)
    with st alive have "body k (ws_thr s k) s = Some t" by (simp add: ws_step_def split: if_splits)
    with live have q: "ws_quiet s t" by (blast intro: quiet)
    have "ws_sig_ok sset (es @ [Thr k]) t h" for h by (rule ws_sig_ok_quiet [OF sig q]) simp_all
    with ok q Thr alive show ?thesis by (simp add: ws_run_ok_def ws_quiet_def)
  qed
qed

lemma run_ok:
  "exec (ws_step prep sset body) es s0 = Some s \<Longrightarrow> ws_ready sset s0 \<Longrightarrow> ws_run_ok sset es s \<and> (\<forall>k. live (ws_thr s k))"
proof (induction rule: exec_snoc_induct)
  case Nil
  then show ?case by (auto simp: ws_ready_def ws_run_ok_def ws_sig_ok_def ws_caught_def live_start)
next
  case (snoc es s e t)
  then have ok: "ws_run_ok sset es s" and live: "\<forall>k. live (ws_thr s k)" by blast+
  then have "ws_pc s = W_wait \<or> (\<exists>g. ws_pc s = W_report g)" by (simp add: ws_run_ok_def)
  with run_ok_step [OF ok live snoc(2)] live_step [OF live snoc(2)] show ?case by blast
qed

text \<open>A pending signal of the set can be reported, after the report that may be due.\<close>

lemma can_report:
  assumes "ws_run_ok sset es s" "\<not> ws_killed s" "\<not> ws_stopped s" "sset g" "0 < ws_pending s g"
  shows "\<exists>n \<le> 1. runs (ws_step prep sset body) (replicate n Main @ [Accept g, Main]) s (\<lambda>t. last (ws_out t) = Caught g)"
proof -
  consider "ws_pc s = W_wait" | h where "ws_pc s = W_report h" using assms by (auto simp: ws_run_ok_def)
  then show ?thesis
  proof cases
    case 1
    with assms show ?thesis by (intro exI [of _ 0]) (simp add: ws_step_def ws_say_def)
  next
    case 2
    with assms show ?thesis by (intro exI [of _ 1]) (simp add: ws_step_def ws_say_def)
  qed
qed

end

fun ss_live :: "ws_thr \<Rightarrow> bool" where
  "ss_live X_start = True"
| "ss_live X_end = True"
| "ss_live _ = False"

interpretation st: ws_program "st_setup st_mask" st_mask st_thread "\<lambda>p. True"
proof unfold_locales
  fix k p s t assume "st_thread k p s = Some t"
  then show "ws_quiet s t" "\<exists>q. True \<and> ws_thr t = (ws_thr s)(k := q)"
    by (cases p; auto simp: ws_quiet_def ws_goto_def ws_say_def split: if_splits)+
qed simp



interpretation ss: ws_program "st_setup all_sigs" all_sigs "ss_thread True forced" ss_live for forced
proof unfold_locales
  fix k p s t assume "ss_live p" "ss_thread True forced k p s = Some t"
  then show "ws_quiet s t" "\<exists>q. ss_live q \<and> ws_thr t = (ws_thr s)(k := q)"
    by (cases p; auto simp: ws_quiet_def ws_goto_def ws_say_def intro: exI [of _ X_end])+
qed simp

lemma ws_caught_iff: "ws_caught s g = count_list (ws_out s) (Caught g)"
proof -
  have "count_list (filter ws_is_caught ms) (Caught g) = count_list ms (Caught g)" for ms by (induction ms) auto
  then show ?thesis by (simp add: ws_caught_def)
qed

text \<open>After the start-up, undisturbed, the programs are ready.\<close>

definition st_ready :: ws_state where "st_ready = the (exec st_step [Main, Main] (ws_start W_mask))"

lemma st_ready: "exec st_step [Main, Main] (ws_start W_mask) = Some st_ready" "ws_ready st_mask st_ready"
  by (simp_all add: st_ready_def st_step_def ws_step_def ws_start_def ws_say_def ws_ready_def)



lemma ss_ready: "exec (ss_step k forced) [Main, Main] (ws_start W_mask) = Some (st_ready\<lparr>ws_mask := all_sigs\<rparr>)"
    "ws_ready all_sigs (st_ready\<lparr>ws_mask := all_sigs\<rparr>)"
  by (simp_all add: st_ready_def st_step_def ss_step_def ws_step_def ws_start_def ws_say_def ws_ready_def)


text \<open>What the theorems below say of such a run.\<close>

definition ws_reports :: "(nat \<Rightarrow> bool) \<Rightarrow> (ws_event \<Rightarrow> ws_state \<Rightarrow> ws_state option) \<Rightarrow> ws_event list \<Rightarrow> ws_state \<Rightarrow> bool" where
  "ws_reports sset step es s \<longleftrightarrow>
     (ws_killed s \<longleftrightarrow> (\<exists>g. Send g \<in> set es \<and> ws_fatal sset g))
     \<and> (\<forall>g. count_list (ws_out s) (Caught g) \<le> count_list es (Send g))
     \<and> Caught SIGKILL \<notin> set (ws_out s) \<and> Caught SIGSTOP \<notin> set (ws_out s)
     \<and> (\<forall>g. ws_lasting g \<and> sset g \<and> ws_due g es \<and> \<not> ws_killed s \<and> \<not> ws_stopped s \<longrightarrow>
          (\<exists>n \<le> 1. runs step (replicate n Main @ [Accept g, Main]) s (\<lambda>t. last (ws_out t) = Caught g)))"

context ws_program begin

lemma reports:
  assumes "exec (ws_step prep sset body) es s0 = Some s" "ws_ready sset s0"
  shows "ws_reports sset (ws_step prep sset body) es s"
proof -
  from run_ok [OF assms] have ok: "ws_run_ok sset es s" by blast
  then have sig: "\<And>g. ws_sig_ok sset es s g" by (simp add: ws_run_ok_def)
  have "Caught g \<notin> set (ws_out s)" if "g = SIGKILL \<or> g = SIGSTOP" for g
  proof -
    from sig [of g] that have "ws_caught s g = 0" by (simp add: ws_sig_ok_def)
    then show ?thesis unfolding ws_caught_iff by (simp add: count_list_0_iff)
  qed
  moreover have "count_list (ws_out s) (Caught g) \<le> count_list es (Send g)" for g
    using sig [of g] by (simp add: ws_sig_ok_def ws_caught_iff)
  moreover have "0 < ws_pending s g" if "ws_lasting g" "sset g" "ws_due g es" for g
    using sig [of g] that by (simp add: ws_sig_ok_def)
  ultimately show ?thesis using ok can_report [OF ok] by (auto simp: ws_reports_def ws_run_ok_def)
qed

end

section \<open>Properties\<close>






text \<open>In \<open>sigwait-with-sync-signals.c\<close> with \<open>-k\<close> the signals the threads send to themselves have no effect:
  they are not reported, and do not end the process. Without \<open>-k\<close> the first access ends it, if the system insists; otherwise
  the threads hang there for ever, and \<open>main()\<close> goes on.\<close>

theorem ss_outcomes:
  assumes "exec (ss_step k_opt forced) [Main, Main] (ws_start W_mask) = Some s0"
  shows "(k_opt \<and> exec (ss_step k_opt forced) es s0 = Some s \<longrightarrow> ws_reports all_sigs (ss_step k_opt forced) es s)
    \<and> (\<not> k_opt \<longrightarrow> runs (ss_step k_opt forced) (replicate 3 (Thr 1)) s0 (\<lambda>t. ws_killed t = forced \<and> ws_thr t 1 = X_access)
        \<and> (\<not> forced \<and> ws_thr s 1 = X_access \<and> ss_step k_opt forced (Thr 1) s = Some t \<longrightarrow> t = s))"
proof -
  have s0: "s0 = st_ready\<lparr>ws_mask := all_sigs\<rparr>" using assms ss_ready(1) [of k_opt forced] by simp
  have "ws_reports all_sigs (ss_step True forced) es s" if "exec (ss_step True forced) es s0 = Some s"
    using ss.reports [of forced es s0 s] ss_ready(2) that s0 by (simp add: ss_step_def)
  moreover have "runs (ss_step False forced) (replicate 3 (Thr 1)) s0 (\<lambda>t. ws_killed t = forced \<and> ws_thr t 1 = X_access)"
    unfolding s0 by (simp add: st_ready_def st_step_def ss_step_def ws_step_def ws_start_def ws_say_def ws_goto_def numeral_eq_Suc)
  moreover have "t = s" if "\<not> forced" "ws_thr s 1 = X_access" "ss_step False forced (Thr 1) s = Some t"
    using that by (simp add: ss_step_def ws_step_def split: if_splits)
  ultimately show ?thesis by (cases k_opt; cases forced) simp_all
qed

theorem ss_outcomes_witness:
  "\<exists>s0. exec (ss_step False True) [Main, Main] (ws_start W_mask) = Some s0
     \<and> runs (ss_step False True) (replicate 3 (Thr 1)) s0 (\<lambda>t. ws_killed t = True \<and> ws_thr t 1 = X_access)"
  using ss_outcomes [OF ss_ready(1), of False True] ss_ready(1) [of False True] by blast

end
