(* ===== verification/File_Programs.thy ===== *)
theory File_Programs
  imports Mapped_Files File_Descriptors
begin

unbundle bit_operations_syntax

text \<open>
  Sequential programs on files: \<open>shm/shm.c\<close>, \<open>read/simple-cat.c\<close>, \<open>readdir/readdir.c\<close>,
  \<open>unlink/unlink.c\<close>, \<open>readlink/readlink.c\<close>, \<open>read/big-file.c\<close> and \<open>stat/filetype.c\<close>.
\<close>

section \<open>\<open>shm.c\<close>\<close>

text \<open>
  The loop that fills the mapping, up to the fault if one of its stores is one, over 64-bit addresses; \<open>a\<close> is the address \<open>mmap\<close> returned and \<open>z\<close> the
  address behind the mapping.
\<close>

function sm_loop :: "addr \<Rightarrow> addr \<Rightarrow> addr \<Rightarrow> byte \<Rightarrow> mapping \<Rightarrow> mapping \<times> mem_fault option" where
  "sm_loop a q z c m =
     (if q < z
      then (case mp_store m (unat (q - a)) c of Inl f \<Rightarrow> (m, Some f) | Inr m' \<Rightarrow> sm_loop a (q + 1) z c m')
      else (m, None))"
  by pat_completeness auto
termination
proof (relation "measure (\<lambda>(a, q, z, c, m). unat z - unat q)")
  fix a q z :: addr and c :: byte and m m' :: mapping
  assume "q < z"
  then show "((a, q + 1, z, c, m'), a, q, z, c, m) \<in> measure (\<lambda>(a, q, z, c, m). unat z - unat q)"
    using word_next [of q z] by (simp add: word_less_nat_alt)
qed simp

declare sm_loop.simps [simp del]

text \<open>
  The program. The object is \<open>None\<close> if \<open>shm_open\<close> fails, otherwise its contents so far; \<open>mmap\<close> returns
  \<open>None\<close> for \<open>MAP_FAILED\<close>, the address with all bits set, which \<open>assert(p)\<close> lets pass. With \<open>NDEBUG\<close> the
  asserted expressions are not evaluated. The result is the object, if it is not destroyed, and how the process ends.
\<close>

definition sm_size :: nat where "sm_size = 4444"

definition sm_truncate :: "byte list \<Rightarrow> byte list" where
  "sm_truncate data = take sm_size data @ replicate (sm_size - length data) 0"

definition sm_main ::
  "bool \<Rightarrow> bool \<Rightarrow> byte list option \<Rightarrow> bool \<Rightarrow> addr option \<Rightarrow> string list \<Rightarrow> exit_info + byte list option \<times> run_end"
where
  "sm_main ndebug destroy obj truncates mmap argv =
     (if length argv \<noteq> 3 then Inl (Exit 1 ''usage: shm <shm_name> <char>'')
      else if argv ! 1 = [] \<or> hd (argv ! 1) \<noteq> CHR ''/'' then Inl (Exit 1 ''The name should have a leading slash.'')
      else case obj of None \<Rightarrow> Inl (Exit 1 ''shm_open'')
      | Some data \<Rightarrow>
          if \<not> ndebug \<and> \<not> truncates then Inl Abort
          else let data = (if ndebug then data else sm_truncate data);
                   p = (case mmap of None \<Rightarrow> - 1 | Some a \<Rightarrow> a);
                   c = (case argv ! 2 of [] \<Rightarrow> 0 | ch # _ \<Rightarrow> of_char ch)
               in if \<not> ndebug \<and> p = 0 then Inl Abort
                  else Inr (case sm_loop p p (p + of_nat sm_size) c (mp_map data sm_size) of
                       (m, Some f) \<Rightarrow> (Some (mp_file m), Killed f)
                     | (m, None) \<Rightarrow> (if destroy then None else Some (mp_file m), Exited 0)))"

text \<open>
  The loop over an object of any length: it ends with a fault if the pages of the object do not reach to
  the end of the mapping, and until then has filled all of it.
\<close>

lemma sm_loop_fill:
  assumes "k \<le> n" "unat a + n < 2 ^ 64" "mp_len m = n" "k \<le> pages (length data) * 4096"
    and "mp_file m = replicate (min k (length data)) c @ drop k data"
  shows "\<exists>m'. sm_loop a (a + of_nat k) (a + of_nat n) c m =
      (m', if pages (length data) * 4096 < n then Some Bus_error else None)
    \<and> mp_file m' = replicate (min n (length data)) c @ drop n data"
  using assms
proof (induction "n - k" arbitrary: k m)
  case 0
  then show ?case by (subst sm_loop.simps) auto
next
  case (Suc j)
  have kn: "k < n" using Suc.hyps(2) by simp
  have u: "unat (a + of_nat i) = unat a + i" if "i \<le> n" for i
    using that Suc.prems(2) by (intro unat_offset) simp
  have less: "a + of_nat k < a + of_nat n"
    using u [of k] u [of n] kn by (simp add: word_less_nat_alt)
  have idx: "unat (a + of_nat k - a) = k" using Suc.prems(2) kn by (simp add: unat_of_nat)
  have len: "length (mp_file m) = length data" using Suc.prems(5) by simp
  have segv: "\<not> pages (mp_len m) * 4096 \<le> k" using pages_ge [of n] kn Suc.prems(3) by simp
  show ?case
  proof (cases "pages (length data) * 4096 \<le> k")
    case True
    then have "length data \<le> k" using pages_ge [of "length data"] by linarith
    moreover have "mp_store m k c = Inl Bus_error"
      using True segv len by (simp add: mp_store_def mp_fault_def)
    ultimately show ?thesis
      using less idx True kn Suc.prems(5) by (subst sm_loop.simps) (simp add: min_def)
  next
    case False
    define m' where "m' = (if k < length data then m\<lparr>mp_file := (mp_file m)[k := c]\<rparr> else m\<lparr>mp_tail := (mp_tail m)(k := c)\<rparr>)"
    have st: "mp_store m k c = Inr m'"
      using False segv len by (simp add: mp_store_def mp_fault_def m'_def)
    have "mp_file m' = replicate (min (Suc k) (length data)) c @ drop (Suc k) data"
    proof (cases "k < length data")
      case True
      then have "(mp_file m)[k := c] = replicate k c @ (drop k data)[0 := c]"
        using Suc.prems(5) by (simp add: min_def list_update_append)
      also have "\<dots> = replicate (Suc k) c @ drop (Suc k) data"
        using True by (simp add: Cons_nth_drop_Suc [symmetric] replicate_app_Cons_same)
      finally show ?thesis using True by (simp add: m'_def min_def)
    qed (use Suc.prems(5) in \<open>simp add: m'_def min_def\<close>)
    with Suc.hyps(1) [of "Suc k" m'] Suc.hyps(2) Suc.prems(2,3) kn False
    have "\<exists>m''. sm_loop a (a + of_nat (Suc k)) (a + of_nat n) c m' =
        (m'', if pages (length data) * 4096 < n then Some Bus_error else None)
      \<and> mp_file m'' = replicate (min n (length data)) c @ drop n data"
      by (auto simp: m'_def)
    moreover have "sm_loop a (a + of_nat k) (a + of_nat n) c m = sm_loop a (a + of_nat (Suc k)) (a + of_nat n) c m'"
      using less idx st by (subst sm_loop.simps) (simp add: algebra_simps)
    ultimately show ?thesis by simp
  qed
qed

lemma sm_pages: "pages n * 4096 < sm_size \<longleftrightarrow> n \<le> 4096"
proof (cases "n \<le> 4096")
  case True
  then have "(n + 4095) div 4096 \<le> 8191 div 4096" by (intro div_le_mono) simp
  with True show ?thesis by (simp add: pages_def sm_size_def)
next
  case False
  then have "8192 div 4096 \<le> (n + 4095) div 4096" by (intro div_le_mono) simp
  with False show ?thesis by (simp add: pages_def sm_size_def)
qed

lemma sm_loop_whole:
  assumes "unat a + sm_size < 2 ^ 64"
  obtains m where "sm_loop a a (a + of_nat sm_size) c (mp_map data sm_size) =
      (m, if length data \<le> 4096 then Some Bus_error else None)"
    and "mp_file m = replicate (min sm_size (length data)) c @ drop sm_size data"
proof -
  from sm_loop_fill [of 0 sm_size a "mp_map data sm_size" data c] assms that show thesis
    by (auto simp: mp_map_def sm_pages)
qed

lemma sm_loop_failed: "sm_loop (- 1) (- 1) (- 1 + of_nat sm_size) c m = (m, None)"
  by (subst sm_loop.simps) (simp add: sm_size_def)

text \<open>C24: \<open>shm.c\<close> with assertions fills the object: whatever it held, it then consists of 4444 copies of the
  character, at whatever address it is mapped. But if \<open>mmap\<close> fails, the test for NULL
  does not see it, the end of the \<open>mapping\<close> lies below its start, the loop does nothing, and the program
  reports success with an object of zeroes or old contents. Compiled with \<open>NDEBUG\<close> it does not set the size: a new object
  stays empty and the first store is a bus error; one of at most a page is filled, and the first store behind that page is a
  bus error; one that is longer keeps its length, and only its first 4444 bytes are replaced.\<close>

theorem sm_fills:
  assumes "obj = Some data" "unat a + sm_size < 2 ^ 64" "a \<noteq> 0"
  shows "sm_main False destroy obj True (Some a) [prog, CHR ''/'' # name, ch # s] =
      Inr (if destroy then None else Some (replicate sm_size (of_char ch)), Exited 0)
    \<and> sm_main ndebug destroy obj True None [prog, CHR ''/'' # name, ch # s] =
      Inr (if destroy then None else Some (if ndebug then data else sm_truncate data), Exited 0)
    \<and> sm_main False destroy obj False (Some a) [prog, CHR ''/'' # name, ch # s] = Inl Abort
    \<and> sm_main True destroy obj truncates (Some a) [prog, CHR ''/'' # name, ch # s] =
      Inr (if length data \<le> 4096 then (Some (replicate (length data) (of_char ch)), Killed Bus_error)
           else (if destroy then None else Some (replicate (min sm_size (length data)) (of_char ch) @ drop sm_size data),
                 Exited 0))"
proof (intro conjI)
  have len: "length (sm_truncate data) = sm_size" by (simp add: sm_truncate_def min_def)
  obtain m where m: "sm_loop a a (a + of_nat sm_size) (of_char ch) (mp_map (sm_truncate data) sm_size) = (m, None)"
    "mp_file m = replicate sm_size (of_char ch)"
    using sm_loop_whole [OF assms(2), of "of_char ch" "sm_truncate data"] len by (auto simp: sm_size_def)
  with assms(1,3) show "sm_main False destroy obj True (Some a) [prog, CHR ''/'' # name, ch # s] =
      Inr (if destroy then None else Some (replicate sm_size (of_char ch)), Exited 0)"
    by (simp add: sm_main_def Let_def)
  show "sm_main ndebug destroy obj True None [prog, CHR ''/'' # name, ch # s] =
      Inr (if destroy then None else Some (if ndebug then data else sm_truncate data), Exited 0)"
    using assms(1) sm_loop_failed by (simp add: sm_main_def Let_def mp_map_def)
  show "sm_main False destroy obj False (Some a) [prog, CHR ''/'' # name, ch # s] = Inl Abort"
    using assms(1) by (simp add: sm_main_def)
  obtain m' where m': "sm_loop a a (a + of_nat sm_size) (of_char ch) (mp_map data sm_size) =
      (m', if length data \<le> 4096 then Some Bus_error else None)"
    "mp_file m' = replicate (min sm_size (length data)) (of_char ch) @ drop sm_size data"
    using sm_loop_whole [OF assms(2), of "of_char ch" data] by blast
  show "sm_main True destroy obj truncates (Some a) [prog, CHR ''/'' # name, ch # s] =
      Inr (if length data \<le> 4096 then (Some (replicate (length data) (of_char ch)), Killed Bus_error)
           else (if destroy then None else Some (replicate (min sm_size (length data)) (of_char ch) @ drop sm_size data),
                 Exited 0))"
    using assms(1) m' by (auto simp: sm_main_def Let_def sm_size_def)
qed

theorem sm_fills_witness:
  "sm_main False False (Some [1, 2]) True (Some 4096) [''shm'', ''/x'', ''A''] = Inr (Some (replicate sm_size 65), Exited 0)
   \<and> sm_main True False (Some [1, 2]) True (Some 4096) [''shm'', ''/x'', ''A''] = Inr (Some [65, 65], Killed Bus_error)"
  using sm_fills [of "Some [1, 2]" "[1, 2]" 4096 False "''shm''" "''x''" "CHR ''A''" "[]" False True]
  by (simp add: sm_size_def)

section \<open>\<open>simple-cat.c\<close>\<close>

text \<open>
  What successive calls of \<open>read\<close> return until one returns 0 or fails, and how much of a buffer \<open>write\<close> takes: neither an
  error nor a short write is noticed.
\<close>

fun sl_loop :: "(string \<Rightarrow> nat) \<Rightarrow> string option list \<Rightarrow> string" where
  "sl_loop wr [] = []"
| "sl_loop wr (None # rs) = []"
| "sl_loop wr (Some buf # rs) = (if buf = [] then [] else take (wr buf) buf @ sl_loop wr rs)"

definition sl_main :: "(string \<Rightarrow> nat) \<Rightarrow> string option list \<Rightarrow> nat \<Rightarrow> exit_info + string \<times> int" where
  "sl_main wr rs argc = (if argc \<noteq> 1 then Inl Abort else Inr (sl_loop wr rs, 0))"

text \<open>The results for a regular file, with the buffer of 128 bytes.\<close>

definition sl_reads :: "string \<Rightarrow> string option list" where
  "sl_reads data = map Some (ct_loop 128 data)"

lemma sl_loop_all: "\<forall>b \<in> set bs. b \<noteq> [] \<and> length b \<le> wr b \<Longrightarrow> sl_loop wr (map Some bs) = concat bs"
  by (induction bs) auto

lemma ct_loop_pieces: "b \<in> set (ct_loop n data) \<Longrightarrow> b \<noteq> [] \<and> length b \<le> n"
proof (induction n data rule: ct_loop.induct)
  case (1 n data)
  then show ?case by (cases "data = [] \<or> n = 0") (auto simp: Let_def ct_loop.simps [of n data] split: if_splits)
qed

section \<open>\<open>readdir.c\<close>\<close>

text \<open>
  A directory as \<open>readdir\<close> shows it: the names, each with what printing it does to \<open>errno\<close>, and the error, if any, of the
  last call. The loop takes a value of \<open>errno\<close> for an error of \<open>readdir\<close> although it has just returned an
  entry.
\<close>

fun rd_list :: "int \<Rightarrow> (string \<times> int option) list \<Rightarrow> int option \<Rightarrow> string list \<times> bool" where
  "rd_list errno [] fin = ([], (case fin of None \<Rightarrow> errno | Some e \<Rightarrow> e) \<noteq> 0)"
| "rd_list errno ((name, pe) # des) fin =
     (if errno \<noteq> 0 then ([], True)
      else case rd_list (case pe of None \<Rightarrow> errno | Some e \<Rightarrow> e) des fin of (ns, w) \<Rightarrow> (name # ns, w))"

datatype rd_line = Header string | Name string | Warning string

fun rd_dirs :: "(string \<Rightarrow> ((string \<times> int option) list \<times> int option) option) \<Rightarrow> string list \<Rightarrow> rd_line list" where
  "rd_dirs dirs [] = []"
| "rd_dirs dirs (a # as) =
     Header a # (case dirs a of
         None \<Rightarrow> [Warning a]
       | Some (des, fin) \<Rightarrow> (case rd_list 0 des fin of (ns, w) \<Rightarrow> map Name ns @ (if w then [Warning a] else [])))
     @ rd_dirs dirs as"

definition rdir_main :: "(string \<Rightarrow> ((string \<times> int option) list \<times> int option) option) \<Rightarrow> string list \<Rightarrow> exit_info + rd_line list \<times> int" where
  "rdir_main dirs argv =
     (if length argv = 1 then Inl (Exit 1 (''usage: '' @ hd argv @ '' dir1 [dir2 [dir3 ...]]'')) else Inr (rd_dirs dirs (tl argv), 0))"

lemma rd_list_ok: "\<forall>d \<in> set des. snd d = None \<or> snd d = Some 0 \<Longrightarrow> rd_list 0 des fin = (map fst des, fin \<noteq> None \<and> fin \<noteq> Some 0)"
  by (induction des) (auto split: option.splits)

lemma rd_list_stops:
  "\<forall>d \<in> set des. snd d = None \<or> snd d = Some 0 \<Longrightarrow> e \<noteq> 0 \<Longrightarrow> rd_list 0 (des @ (n, Some e) # d # ds) fin = (map fst des @ [n], True)"
  by (cases d; induction des) (auto split: option.splits)

section \<open>\<open>unlink.c\<close>\<close>

text \<open>
  The file is reached by its name until it is unlinked and by the descriptor until the end. \<open>w1\<close> and \<open>w2\<close> are how many
  bytes the two writes take; \<open>again\<close> holds if another process creates a file of that name in between.
\<close>

datatype ul_msg = Writing_buffer | Unlinking | Wrote nat | Read_bytes nat

record ul_file =
  ul_data :: string
  ul_offset :: nat

definition ul_write :: "nat \<Rightarrow> string \<Rightarrow> ul_file \<Rightarrow> ul_file" where
  "ul_write n buf f =
     f\<lparr>ul_data := take (ul_offset f) (ul_data f) @ take n buf @ drop (ul_offset f + length (take n buf)) (ul_data f),
       ul_offset := ul_offset f + length (take n buf)\<rparr>"

definition ul_read :: "nat \<Rightarrow> ul_file \<Rightarrow> string" where
  "ul_read n f = take n (drop (ul_offset f) (ul_data f))"

text \<open>The calls that can fail are named by \<open>fails\<close>. The result is the output, what the last \<open>read\<close> returned, and the status.\<close>

definition un_main :: "(string \<Rightarrow> bool) \<Rightarrow> bool \<Rightarrow> nat \<Rightarrow> nat \<Rightarrow> string list \<Rightarrow> exit_info + ul_msg list \<times> string \<times> int" where
  "un_main fails again w1 w2 argv =
     (if length argv \<noteq> 2 then Inl (Exit 1 (''usage: '' @ hd argv @ '' <file>''))
      else if fails ''creat'' then Inl (Exit 1 ''creat'')
      else if fails ''open'' then Inl (Exit 1 ''open'')
      else let buf = replicate 16 (CHR ''A'');
               f = ul_write w1 buf \<lparr>ul_data = [], ul_offset = 0\<rparr>
           in if fails ''unlink'' then Inl (Exit 1 ''unlink'')
              else if again then Inl Abort
              else let f = ul_write w2 buf f;
                       r = ul_read 64 (f\<lparr>ul_offset := 0\<rparr>)
                   in if fails ''lseek'' then Inl (Exit 1 ''lseek'')
                      else Inr ([Writing_buffer, Unlinking, Writing_buffer, Wrote (length (take w2 buf)), Read_bytes (length r)], r, 0))"

section \<open>\<open>readlink.c\<close>, \<open>big-file.c\<close> and \<open>filetype.c\<close>\<close>

text \<open>
  \<open>readlink\<close> stores the target without a null byte, so \<open>printf\<close> goes on through the buffer of \<open>PATH_MAX\<close> bytes, which
  was filled with A's up to a null byte at its end.
\<close>

definition PATH_MAX :: nat where "PATH_MAX = 4096"

fun c_string :: "string \<Rightarrow> string" where
  "c_string [] = []"
| "c_string (c # cs) = (if c = CHR 0x00 then [] else c # c_string cs)"

definition rk_main :: "bool \<Rightarrow> (string \<Rightarrow> bool) \<Rightarrow> exit_info + string" where
  "rk_main exists works =
     (let buf = replicate (PATH_MAX - 1) (CHR ''A'') @ [CHR 0x00];
          link = ''/etc/blah''
      in if exists \<and> \<not> works ''unlink'' then Inl (Exit 1 ''unlink'')
         else if \<not> works ''symlink'' then Inl (Exit 1 ''symlink'')
         else if \<not> works ''readlink'' then Inl (Exit 1 ''readlink'')
         else Inr (c_string (take PATH_MAX link @ drop (length link) buf) @ nl))"

text \<open>The file \<open>BIG\<close>: one byte written at offset 1000000 of an empty file; what lies before it reads as zeroes.\<close>

definition bg_main :: "bool \<Rightarrow> exit_info + byte list" where
  "bg_main open_ok = (if open_ok then Inr (replicate 1000000 0 @ [0]) else Inl (Exit 1 ''open''))"

text \<open>The type of a file is four bits of its mode; \<open>lstat\<close> is not checked, so for a missing file the number printed is arbitrary.\<close>

definition S_IFMT :: "32 word" where "S_IFMT = 0xf000"

datatype ftype = Regular_file | Directory | Symbolic_link | Fifo

fun ft_bits :: "ftype \<Rightarrow> 32 word" where
  "ft_bits Regular_file = 0x8000"
| "ft_bits Directory = 0x4000"
| "ft_bits Symbolic_link = 0xa000"
| "ft_bits Fifo = 0x1000"

definition ft_main :: "(string \<Rightarrow> 32 word option) \<Rightarrow> 32 word \<Rightarrow> string list \<Rightarrow> exit_info + 32 word list" where
  "ft_main lstat stack argv =
     (if length argv \<noteq> 2 then Inl (Exit 1 ''Filename/dir missing.'')
      else let st_mode = (case lstat (argv ! 1) of None \<Rightarrow> stack | Some m \<Rightarrow> m)
           in Inr [st_mode AND S_IFMT, ft_bits Regular_file, ft_bits Directory, ft_bits Symbolic_link, ft_bits Fifo])"

section \<open>What these programs do\<close>

text \<open>\<open>simple-cat.c\<close> with its input redirected from a file prints what \<open>cat.c\<close> prints for that file, as long as every \<open>write\<close> takes
  the whole buffer.\<close>

theorem simple_cat_is_cat:
  assumes "files f = Some (Regular data)" "malloc 4096" "f \<noteq> []" "hd f \<noteq> CHR ''-''" "\<And>b. length b \<le> 128 \<Longrightarrow> length b \<le> wr b"
  shows "sl_main wr (sl_reads data) 1 = Inr (oc_out (ct_main malloc files [prog, f]), 0)"
proof -
  have "getopt_scan (optspec ''b:'') [f] = ([], [f])"
  proof -
    from assms(3,4) obtain c cs where "f = c # cs" "c \<noteq> CHR ''-''" by (cases f) auto
    then show ?thesis by (subst getopt_scan.simps) simp
  qed
  then have "oc_out (ct_main malloc files [prog, f]) = data"
    using assms(1,2) ct_files_ok [of malloc 4096 files prog "[f]"]
    by (simp add: c_size_t_def ct_main_def ct_content_def)
  moreover have "sl_loop wr (sl_reads data) = data"
    unfolding sl_reads_def using ct_loop_pieces [of _ 128 data] assms(5)
    by (subst sl_loop_all) (auto simp: ct_loop_concat)
  ultimately show ?thesis by (simp add: sl_main_def)
qed

theorem simple_cat_is_cat_witness:
  "sl_main length (sl_reads ''data'') 1 =
     Inr (oc_out (ct_main (\<lambda>n. n \<le> 4096) (\<lambda>f. Some (Regular ''data'')) [''cat'', ''file'']), 0)"
  by (rule simple_cat_is_cat) simp_all

text \<open>\<open>readdir.c\<close> lists a readable directory completely and without a warning if printing never sets \<open>errno\<close>. But if
  printing a name does, and it is not the last, the listing stops there, with a
  warning, although \<open>readdir\<close> did not fail.\<close>

theorem readdir_lists:
  assumes "\<forall>d \<in> set des. snd d = None" "e \<noteq> 0"
  shows "dirs a = Some (des, None) \<Longrightarrow> rdir_main dirs [prog, a] = Inr (Header a # map Name (map fst des), 0)"
    and "dirs a = Some (des @ (n, Some e) # d # ds, fin) \<Longrightarrow>
      rdir_main dirs [prog, a] = Inr (Header a # map Name (map fst des @ [n]) @ [Warning a], 0)"
  using assms rd_list_ok [of des None] rd_list_stops [of des e n d ds fin] by (simp_all add: rdir_main_def)

text \<open>\<open>unlink.c\<close> reads back what its two writes have taken although the file has no name any more, all 32 bytes if
  they were complete; if another process has created a file of that name, the assertion fails.\<close>

theorem unlink_reads_back:
  "un_main (\<lambda>_. False) False w1 w2 [prog, f] =
      Inr ([Writing_buffer, Unlinking, Writing_buffer, Wrote (min 16 w2), Read_bytes (min 16 w1 + min 16 w2)],
        replicate (min 16 w1 + min 16 w2) (CHR ''A''), 0)"
  "un_main (\<lambda>_. False) True w1 w2 [prog, f] = Inl Abort"
proof -
  let ?A = "\<lambda>n. replicate n (CHR ''A'')"
  have t: "take w (?A 16) = ?A (min 16 w)" for w by (simp add: min.commute)
  have w1: "ul_write w1 (?A 16) \<lparr>ul_data = [], ul_offset = 0\<rparr> = \<lparr>ul_data = ?A (min 16 w1), ul_offset = min 16 w1\<rparr>"
    unfolding ul_write_def t by simp
  have w2: "ul_write w2 (?A 16) \<lparr>ul_data = ?A (min 16 w1), ul_offset = min 16 w1\<rparr> =
      \<lparr>ul_data = ?A (min 16 w1 + min 16 w2), ul_offset = min 16 w1 + min 16 w2\<rparr>"
    unfolding ul_write_def t by (simp add: replicate_add)
  have "ul_read 64 \<lparr>ul_data = ?A (min 16 w1 + min 16 w2), ul_offset = 0\<rparr> = ?A (min 16 w1 + min 16 w2)"
    by (simp add: ul_read_def)
  with w1 w2 t show "un_main (\<lambda>_. False) False w1 w2 [prog, f] =
      Inr ([Writing_buffer, Unlinking, Writing_buffer, Wrote (min 16 w2), Read_bytes (min 16 w1 + min 16 w2)],
        replicate (min 16 w1 + min 16 w2) (CHR ''A''), 0)"
    unfolding un_main_def Let_def by simp
  show "un_main (\<lambda>_. False) True w1 w2 [prog, f] = Inl Abort" by (simp add: un_main_def Let_def)
qed

text \<open>\<open>readlink.c\<close> prints the target and 4086 A's.\<close>

lemma c_string_append: "CHR 0x00 \<notin> set s \<Longrightarrow> c_string (s @ t) = s @ c_string t"
  by (induction s) auto

theorem readlink_prints: "rk_main exists (\<lambda>_. True) = Inr (''/etc/blah'' @ replicate 4086 (CHR ''A'') @ nl)"
proof -
  have "c_string (''/etc/blah'' @ replicate 4086 (CHR ''A'') @ [CHR 0x00]) = ''/etc/blah'' @ replicate 4086 (CHR ''A'')"
    by (simp add: c_string_append set_replicate_conv_if)
  then show ?thesis by (simp add: rk_main_def PATH_MAX_def Let_def)
qed

text \<open>\<open>filetype.c\<close> prints the number of the type whatever the permissions, and for a missing file that of the bits on the stack.\<close>

lemma type_bits:
  assumes "perms < 0x1000"
  shows "(ft_bits ty OR perms) AND S_IFMT = ft_bits ty"
proof -
  have p: "perms AND S_IFMT = 0"
  proof (rule bit_word_eqI)
    fix n
    assume n: "n < LENGTH(32)"
    have "perms = take_bit 12 perms"
      using assms by (simp add: take_bit_eq_mod word_mod_def word_less_def word_of_int_uint)
    then have "bit perms n \<Longrightarrow> n < 12" by (metis bit_take_bit_iff)
    moreover have "bit S_IFMT n \<Longrightarrow> 12 \<le> n"
    proof -
      have "S_IFMT = push_bit 12 0xf" by (simp add: S_IFMT_def)
      then show "bit S_IFMT n \<Longrightarrow> 12 \<le> n" by (metis bit_push_bit_iff)
    qed
    ultimately show "bit (perms AND S_IFMT) n = bit 0 n" by (auto simp: bit_and_iff)
  qed
  have "ft_bits ty AND S_IFMT = ft_bits ty" by (cases ty) (simp_all add: S_IFMT_def)
  with p show ?thesis by (simp add: word_ao_dist)
qed

theorem filetype_prints:
  assumes "perms < 0x1000"
  shows "lstat f = Some (ft_bits ty OR perms) \<Longrightarrow> map_sum id hd (ft_main lstat stack [prog, f]) = Inr (ft_bits ty)"
    and "lstat f = None \<Longrightarrow> map_sum id hd (ft_main lstat (ft_bits ty OR perms) [prog, f]) = Inr (ft_bits ty)"
  using type_bits [OF assms] by (simp_all add: ft_main_def)

end
