(* ===== verification/Rwlock_Preference.thy ===== *)
theory Rwlock_Preference
  imports Rwlock
begin

text \<open>
  \<open>pthreads/pthread-rwlock-pref.c\<close>: while a writer holds a read/write lock, a reader and then a second
  writer ask for it. Time passes between the steps, by the clock in nanoseconds; whom a free lock goes to is left to
  the schedule. And \<open>pthreads/pthread-rwlock-limit.c\<close>, which takes the lock as often as it can.
\<close>

section \<open>Sleeping for milliseconds\<close>

text \<open>\<open>MSEC2NSEC\<close> is computed in \<open>int\<close>; \<open>nanosleep\<close> refuses values of a second and more, and negative ones.\<close>

definition MSEC2NSEC :: "32 word \<Rightarrow> 32 word" where
  "MSEC2NSEC n = n * 1000 * 1000"

definition millisleep :: "32 word \<Rightarrow> nat" where
  "millisleep msec = (let ns = sint (MSEC2NSEC msec) in if 0 \<le> ns \<and> ns \<le> 999999999 then nat ns else 0)"

lemma sint_word_of_int: "0 \<le> x \<Longrightarrow> x < 2 ^ 31 \<Longrightarrow> sint (word_of_int x :: 32 word) = x"
  by transfer (simp add: signed_take_bit_int_eq_self)

lemma sint_mult_small:
  fixes a b :: "32 word"
  assumes "0 \<le> sint a" "0 \<le> sint b" "sint a * sint b < 2 ^ 31"
  shows "sint (a * b) = sint a * sint b"
proof -
  have "a * b = word_of_int (sint a * sint b)" by (simp add: wi_hom_mult)
  also have "sint (word_of_int (sint a * sint b) :: 32 word) = sint a * sint b"
    using assms by (intro sint_word_of_int) simp_all
  finally show ?thesis .
qed

lemma MSEC2NSEC_exact:
  assumes "0 \<le> sint msec" "sint msec < 1000"
  shows "sint (MSEC2NSEC msec) = sint msec * 1000000"
proof -
  have a: "sint (msec * 1000) = sint msec * 1000"
    using sint_mult_small [of msec 1000] assms by simp
  then have "sint (msec * 1000 * 1000) = sint msec * 1000 * 1000"
    using sint_mult_small [of "msec * 1000" 1000] assms by simp
  then show ?thesis by (simp add: MSEC2NSEC_def)
qed

lemma millisleep_exact: "0 \<le> sint msec \<Longrightarrow> sint msec < 1000 \<Longrightarrow> millisleep msec = nat (sint msec) * 1000000"
  by (simp add: millisleep_def Let_def MSEC2NSEC_exact nat_mult_distrib)

lemma millisleep_short: "millisleep msec < 1000000000"
  by (auto simp: millisleep_def Let_def)

text \<open>C25: \<open>millisleep()\<close> sleeps for the time it is given exactly if that is less than a second;
  for every longer time it returns too early, after \<open>705\<close> instead of \<open>5000\<close> milliseconds in the writers, and at once for \<open>3000\<close>.\<close>

theorem millisleep_exact_below_second:
  assumes "0 \<le> sint msec"
  shows "(millisleep msec = nat (sint msec) * 1000000 \<longleftrightarrow> sint msec < 1000)
    \<and> millisleep msec \<le> nat (sint msec) * 1000000
    \<and> millisleep 5000 = 705032704 \<and> millisleep 3000 = 0"
proof -
  have "millisleep msec < nat (sint msec) * 1000000" if "\<not> sint msec < 1000"
  proof -
    have "1000000000 \<le> nat (sint msec) * 1000000" using that by (simp add: nat_le_eq_zle)
    with millisleep_short [of msec] show ?thesis by linarith
  qed
  moreover have "millisleep 5000 = 705032704" "millisleep 3000 = 0"
    by (simp_all add: millisleep_def MSEC2NSEC_def)
  ultimately show ?thesis using millisleep_exact [OF assms] by fastforce
qed

theorem millisleep_exact_below_second_witness: "millisleep 500 = 500000000 \<and> millisleep 2000 \<noteq> 2000000000"
  using millisleep_exact_below_second [of 500] millisleep_exact_below_second [of 2000] by simp

section \<open>The threads\<close>

text \<open>Threads 0 and 2 are the writers 1 and 2, thread 1 is the reader.\<close>

datatype rp_pc = Rp_unborn | Rp_try | Rp_lock | Rp_locked | Rp_sleep | Rp_rest nat | Rp_unlock | Rp_unlocked | Rp_ended

datatype rp_main = Mp_create nat | Mp_sleep nat | Mp_rest nat nat | Mp_join nat | Mp_exit

datatype rp_msg = Trying nat | Locked nat | Unlocked nat

record rp_state =
  rp_lock :: rwlock
  rp_clock :: nat
  rp_main :: rp_main
  rp_thr :: "nat \<Rightarrow> rp_pc"
  rp_out :: "rp_msg list"

datatype rp_event = Tick nat | Main | Thr nat

definition rp_say :: "rp_msg \<Rightarrow> rp_state \<Rightarrow> rp_state" where
  "rp_say m s = s\<lparr>rp_out := rp_out s @ [m]\<rparr>"

definition rp_goto :: "nat \<Rightarrow> rp_pc \<Rightarrow> rp_state \<Rightarrow> rp_state" where
  "rp_goto i p s = s\<lparr>rp_thr := (rp_thr s)(i := p)\<rparr>"

fun writer_thread :: "nat \<Rightarrow> rp_pc \<Rightarrow> rp_state \<Rightarrow> rp_state option" where
  "writer_thread i Rp_try s = Some (rp_goto i Rp_lock (rp_say (Trying i) s))"
| "writer_thread i Rp_lock s =
     (case rl_wrlock (rp_lock s) of None \<Rightarrow> None | Some l \<Rightarrow> Some (rp_goto i Rp_locked (s\<lparr>rp_lock := l\<rparr>)))"
| "writer_thread i Rp_locked s = Some (rp_goto i Rp_sleep (rp_say (Locked i) s))"
| "writer_thread i Rp_sleep s = Some (rp_goto i (Rp_rest (rp_clock s + millisleep 5000)) s)"
| "writer_thread i (Rp_rest t) s = (if t \<le> rp_clock s then Some (rp_goto i Rp_unlock s) else None)"
| "writer_thread i Rp_unlock s = Some (rp_goto i Rp_unlocked (s\<lparr>rp_lock := rl_unlock (rp_lock s)\<rparr>))"
| "writer_thread i Rp_unlocked s = Some (rp_goto i Rp_ended (rp_say (Unlocked i) s))"
| "writer_thread i _ s = None"

text \<open>The reader; \<open>pthread_rwlock_rdlock\<close> fails only for too many readers, and there is one.\<close>

fun reader_thread :: "nat \<Rightarrow> rp_pc \<Rightarrow> rp_state \<Rightarrow> rp_state option" where
  "reader_thread i Rp_try s = Some (rp_goto i Rp_lock (rp_say (Trying i) s))"
| "reader_thread i Rp_lock s =
     (case rl_rdlock (rp_lock s) of None \<Rightarrow> None | Some l \<Rightarrow> Some (rp_goto i Rp_locked (s\<lparr>rp_lock := l\<rparr>)))"
| "reader_thread i Rp_locked s = Some (rp_goto i Rp_sleep (rp_say (Locked i) s))"
| "reader_thread i Rp_sleep s = Some (rp_goto i (Rp_rest (rp_clock s + millisleep 500)) s)"
| "reader_thread i (Rp_rest t) s = (if t \<le> rp_clock s then Some (rp_goto i Rp_unlock s) else None)"
| "reader_thread i Rp_unlock s = Some (rp_goto i Rp_ended (s\<lparr>rp_lock := rl_unlock (rp_lock s)\<rparr>))"
| "reader_thread i _ s = None"

fun rp_main_stmt :: "rp_main \<Rightarrow> rp_state \<Rightarrow> rp_state option" where
  "rp_main_stmt (Mp_create k) s =
     Some ((rp_goto k Rp_try s)\<lparr>rp_main := (if k < 2 then Mp_sleep k else Mp_join 0)\<rparr>)"
| "rp_main_stmt (Mp_sleep k) s = Some (s\<lparr>rp_main := Mp_rest k (rp_clock s + millisleep (if k = 0 then 500 else 100))\<rparr>)"
| "rp_main_stmt (Mp_rest k t) s = (if t \<le> rp_clock s then Some (s\<lparr>rp_main := Mp_create (Suc k)\<rparr>) else None)"
| "rp_main_stmt (Mp_join k) s =
     (if k < 3 then (if rp_thr s k = Rp_ended then Some (s\<lparr>rp_main := Mp_join (Suc k)\<rparr>) else None)
      else Some (s\<lparr>rp_main := Mp_exit\<rparr>))"
| "rp_main_stmt Mp_exit s = None"

definition rp_step :: "rp_event \<Rightarrow> rp_state \<Rightarrow> rp_state option" where
  "rp_step e s =
     (if rp_main s = Mp_exit then None
      else case e of
        Tick n \<Rightarrow> Some (s\<lparr>rp_clock := rp_clock s + n\<rparr>)
      | Main \<Rightarrow> rp_main_stmt (rp_main s) s
      | Thr i \<Rightarrow> if 3 \<le> i then None else if i = 1 then reader_thread i (rp_thr s i) s else writer_thread i (rp_thr s i) s)"

definition rp_start :: rp_state where
  "rp_start = \<lparr>rp_lock = \<lparr>rl_readers = 0, rl_writer = False\<rparr>, rp_clock = 0, rp_main = Mp_create 0,
     rp_thr = (\<lambda>_. Rp_unborn), rp_out = []\<rparr>"

lemmas rp_defs = rp_say_def rp_goto_def rl_wrlock_def rl_rdlock_def rl_unlock_def

section \<open>Who holds the lock, and what was printed\<close>

fun rp_holds :: "rp_pc \<Rightarrow> bool" where
  "rp_holds Rp_locked \<longleftrightarrow> True"
| "rp_holds Rp_sleep \<longleftrightarrow> True"
| "rp_holds (Rp_rest t) \<longleftrightarrow> True"
| "rp_holds Rp_unlock \<longleftrightarrow> True"
| "rp_holds _ \<longleftrightarrow> False"

fun rp_who :: "rp_msg \<Rightarrow> nat" where
  "rp_who (Trying i) = i"
| "rp_who (Locked i) = i"
| "rp_who (Unlocked i) = i"

text \<open>The lines of the thread \<open>i\<close> when it is at \<open>p\<close>.\<close>

fun rp_lines :: "nat \<Rightarrow> rp_pc \<Rightarrow> rp_msg list" where
  "rp_lines i Rp_unborn = []"
| "rp_lines i Rp_try = []"
| "rp_lines i Rp_lock = [Trying i]"
| "rp_lines i Rp_locked = [Trying i]"
| "rp_lines i Rp_ended = [Trying i, Locked i] @ (if i = 1 then [] else [Unlocked i])"
| "rp_lines i _ = [Trying i, Locked i]"

fun rp_created :: "rp_main \<Rightarrow> nat" where
  "rp_created (Mp_create k) = k"
| "rp_created (Mp_sleep k) = Suc k"
| "rp_created (Mp_rest k t) = Suc k"
| "rp_created _ = 3"

fun rp_main_ok :: "rp_main \<Rightarrow> bool" where
  "rp_main_ok (Mp_create k) \<longleftrightarrow> k < 3"
| "rp_main_ok (Mp_sleep k) \<longleftrightarrow> k < 2"
| "rp_main_ok (Mp_rest k t) \<longleftrightarrow> k < 2"
| "rp_main_ok (Mp_join k) \<longleftrightarrow> k \<le> 3"
| "rp_main_ok Mp_exit \<longleftrightarrow> True"

fun rp_joined :: "rp_main \<Rightarrow> nat" where
  "rp_joined (Mp_join k) = k"
| "rp_joined Mp_exit = 3"
| "rp_joined _ = 0"

definition rp_thr_ok :: "rp_state \<Rightarrow> nat \<Rightarrow> bool" where
  "rp_thr_ok s i \<longleftrightarrow> filter (\<lambda>m. rp_who m = i) (rp_out s) = rp_lines i (rp_thr s i)
     \<and> (rp_thr s i = Rp_unborn \<longleftrightarrow> rp_created (rp_main s) \<le> i)
     \<and> (i < rp_joined (rp_main s) \<longrightarrow> rp_thr s i = Rp_ended)
     \<and> (i = 1 \<longrightarrow> rp_thr s i \<noteq> Rp_unlocked)"

definition rp_lock_ok :: "rp_state \<Rightarrow> bool" where
  "rp_lock_ok s \<longleftrightarrow>
     rl_readers (rp_lock s) = (if rp_holds (rp_thr s 1) then 1 else 0)
     \<and> (rl_writer (rp_lock s) \<longleftrightarrow> rp_holds (rp_thr s 0) \<or> rp_holds (rp_thr s 2))
     \<and> (rp_holds (rp_thr s 0) \<longrightarrow> \<not> rp_holds (rp_thr s 1) \<and> \<not> rp_holds (rp_thr s 2))
     \<and> (rp_holds (rp_thr s 1) \<longrightarrow> \<not> rp_holds (rp_thr s 2))"

definition rp_inv :: "rp_state \<Rightarrow> bool" where
  "rp_inv s \<longleftrightarrow> rp_main_ok (rp_main s) \<and> rp_lock_ok s \<and> (\<forall>i. rp_thr_ok s i)"

lemma rp_main_preserves:
  assumes st: "rp_main_stmt (rp_main s) s = Some t" and inv: "rp_inv s"
  shows "rp_inv t"
proof -
  from inv have ok: "rp_main_ok (rp_main s)" and l: "rp_lock_ok s" and th: "\<And>i. rp_thr_ok s i" by (simp_all add: rp_inv_def)
  have "rp_thr_ok t i" for i
    using st [symmetric] th [of i] th [of "rp_joined (rp_main s)"] ok
    by (cases "rp_main s") (auto simp: rp_thr_ok_def rp_defs less_Suc_eq split: if_splits)
  moreover have "rp_main_ok (rp_main t)"
    using st [symmetric] ok by (cases "rp_main s") (auto split: if_splits)
  moreover have "rp_lock_ok t"
    using st [symmetric] l th [of "rp_created (rp_main s)"] by (cases "rp_main s") (auto simp: rp_thr_ok_def rp_lock_ok_def rp_defs split: if_splits)
  ultimately show ?thesis by (simp add: rp_inv_def)
qed

text \<open>Both kinds of threads, by the effect of a statement.\<close>

lemma rp_thread_effect:
  assumes "rp_step (Thr i) s = Some t"
  shows "i < 3" and "i = 1 \<Longrightarrow> rp_thr t i \<noteq> Rp_unlocked" and "rp_main t = rp_main s" and "rp_clock t = rp_clock s" and "\<And>j. j \<noteq> i \<Longrightarrow> rp_thr t j = rp_thr s j"
    and "rp_thr s i \<noteq> Rp_unborn" and "rp_thr s i \<noteq> Rp_ended" and "rp_thr t i \<noteq> Rp_unborn"
    and "\<exists>ms. rp_out t = rp_out s @ ms \<and> (\<forall>m \<in> set ms. rp_who m = i) \<and> rp_lines i (rp_thr t i) = rp_lines i (rp_thr s i) @ ms"
    and "rp_holds (rp_thr t i) = rp_holds (rp_thr s i) \<and> rp_lock t = rp_lock s
      \<or> \<not> rp_holds (rp_thr s i) \<and> rp_holds (rp_thr t i) \<and> Some (rp_lock t) = (if i = 1 then rl_rdlock else rl_wrlock) (rp_lock s)
      \<or> rp_holds (rp_thr s i) \<and> \<not> rp_holds (rp_thr t i) \<and> rp_lock t = rl_unlock (rp_lock s)"
  using assms
  by (cases "i = 1"; cases "rp_thr s i"; auto simp: rp_step_def rp_say_def rp_goto_def split: if_splits option.splits)+

lemma rp_thread_preserves:
  assumes st: "rp_step (Thr i) s = Some t" and inv: "rp_inv s"
  shows "rp_inv t"
proof -
  from inv have ok: "rp_main_ok (rp_main s)" and l: "rp_lock_ok s" and th: "\<And>i. rp_thr_ok s i" by (simp_all add: rp_inv_def)
  note eff = rp_thread_effect [OF st]
  have "rp_thr_ok t j" for j
  proof -
    from eff(9) obtain ms where ms: "rp_out t = rp_out s @ ms" "\<forall>m \<in> set ms. rp_who m = i"
        "rp_lines i (rp_thr t i) = rp_lines i (rp_thr s i) @ ms" by blast
    have "filter (\<lambda>m. rp_who m = i) ms = ms" using ms(2) by (simp add: filter_id_conv)
    moreover have "filter (\<lambda>m. rp_who m = j) ms = []" if "j \<noteq> i" using ms(2) that by (auto simp: filter_empty_conv)
    ultimately show ?thesis
      using th [of j] ms(1,3) eff(2-8) by (cases "j = i") (auto simp: rp_thr_ok_def)
  qed
  moreover have "rp_lock_ok t"
  proof -
    have "i = 0 \<or> i = 1 \<or> i = 2" using eff(1) by linarith
    then show ?thesis
      using eff(5) [of 0] eff(5) [of 1] eff(5) [of 2] eff(10) l
      by (elim disjE) (auto simp: rp_lock_ok_def rl_rdlock_def rl_wrlock_def rl_unlock_def split: if_splits)
  qed
  ultimately show ?thesis using ok eff(3) by (simp add: rp_inv_def)
qed

lemma rp_inv_start: "rp_inv rp_start"
  by (simp add: rp_inv_def rp_start_def rp_lock_ok_def rp_thr_ok_def)

interpretation rp: step_invariant rp_step rp_start rp_inv
proof
  fix s e t assume inv: "rp_inv s" and st: "rp_step e s = Some t"
  show "rp_inv t"
  proof (cases e)
    case (Tick n)
    with st have "t = s\<lparr>rp_clock := rp_clock s + n\<rparr>" by (simp add: rp_step_def split: if_splits)
    with inv show ?thesis by (simp add: rp_inv_def rp_lock_ok_def rp_thr_ok_def)
  next
    case Main
    with inv st show ?thesis by (auto simp: rp_step_def split: if_splits intro: rp_main_preserves)
  next
    case (Thr i)
    with inv st show ?thesis by (auto intro: rp_thread_preserves)
  qed
qed (rule rp_inv_start)

section \<open>Progress and the number of statements\<close>

fun rp_tick :: "rp_event \<Rightarrow> bool" where
  "rp_tick (Tick n) \<longleftrightarrow> True"
| "rp_tick _ \<longleftrightarrow> False"

fun rp_rank :: "rp_pc \<Rightarrow> nat" where
  "rp_rank Rp_unborn = 7"
| "rp_rank Rp_try = 7"
| "rp_rank Rp_lock = 6"
| "rp_rank Rp_locked = 5"
| "rp_rank Rp_sleep = 4"
| "rp_rank (Rp_rest t) = 3"
| "rp_rank Rp_unlock = 2"
| "rp_rank Rp_unlocked = 1"
| "rp_rank Rp_ended = 0"

fun rp_main_rank :: "rp_main \<Rightarrow> nat" where
  "rp_main_rank (Mp_create k) = 11 - 3 * k"
| "rp_main_rank (Mp_sleep k) = 10 - 3 * k"
| "rp_main_rank (Mp_rest k t) = 9 - 3 * k"
| "rp_main_rank (Mp_join k) = 4 - k"
| "rp_main_rank Mp_exit = 0"

text \<open>The reader has one statement less than the writers.\<close>

definition rp_left :: "rp_state \<Rightarrow> nat" where
  "rp_left s = rp_main_rank (rp_main s) + rp_rank (rp_thr s 0) + (rp_rank (rp_thr s 1) - 1) + rp_rank (rp_thr s 2)"

lemma rp_rank_thread: "rp_step (Thr i) s = Some t \<Longrightarrow> rp_rank (rp_thr t i) - (if i = 1 then 1 else 0) < rp_rank (rp_thr s i) - (if i = 1 then 1 else 0)"
  by (cases "i = 1"; cases "rp_thr s i"; auto simp: rp_step_def rp_say_def rp_goto_def split: if_splits option.splits)

lemma rp_left_step:
  assumes inv: "rp_inv s" and st: "rp_step e s = Some t"
  shows "if rp_tick e then rp_left t = rp_left s else rp_left t < rp_left s"
proof (cases e)
  case (Tick n)
  with st show ?thesis by (auto simp: rp_step_def rp_left_def split: if_splits)
next
  case Main
  from inv have ok: "rp_main_ok (rp_main s)" and th: "rp_thr_ok s (rp_created (rp_main s))" by (simp_all add: rp_inv_def)
  from st Main have m: "rp_main_stmt (rp_main s) s = Some t" by (simp add: rp_step_def split: if_splits)
  have "rp_left t < rp_left s"
  proof (cases "rp_main s")
    case (Mp_create k)
    with th m have t: "rp_thr s k = Rp_unborn" "rp_thr t = (rp_thr s)(k := Rp_try)"
        "rp_main t = (if k < 2 then Mp_sleep k else Mp_join 0)"
      by (auto simp: rp_thr_ok_def rp_goto_def)
    from ok Mp_create have "k = 0 \<or> k = 1 \<or> k = 2" by auto
    with t Mp_create show ?thesis by (elim disjE) (simp_all add: rp_left_def)
  qed (use m ok in \<open>auto simp: rp_left_def split: if_splits\<close>)
  with Main show ?thesis by simp
next
  case (Thr i)
  note eff = rp_thread_effect [OF st [unfolded Thr]]
  have "i = 0 \<or> i = 1 \<or> i = 2" using eff(1) by linarith
  with rp_rank_thread [OF st [unfolded Thr]] eff(3) eff(5) [of 0] eff(5) [of 1] eff(5) [of 2] Thr show ?thesis
    by (auto simp: rp_left_def)
qed

lemma rp_length: "exec rp_step es rp_start = Some s \<Longrightarrow> length (filter (\<lambda>e. \<not> rp_tick e) es) + rp_left s \<le> 31"
proof (induction rule: exec_snoc_induct)
  case Nil
  then show ?case by (simp add: rp_left_def rp_start_def)
next
  case (snoc es s e t)
  have "rp_inv s" using snoc(1) rp.exec_inv rp_inv_start by blast
  from rp_left_step [OF this snoc(2)] snoc(3) show ?case by (auto split: if_splits)
qed

lemma rp_thread_moves:
  assumes "rp_main s \<noteq> Mp_exit" "i < 3" "rp_thr s i \<notin> {Rp_unborn, Rp_lock, Rp_ended}" "i = 1 \<longrightarrow> rp_thr s i \<noteq> Rp_unlocked"
  shows "\<exists>d. runs rp_step [Tick d, Thr i] s (\<lambda>_. True)"
proof -
  define d where "d = (case rp_thr s i of Rp_rest t \<Rightarrow> t | _ \<Rightarrow> 0)"
  have "runs rp_step [Tick d, Thr i] s (\<lambda>_. True)"
    using assms by (cases "rp_thr s i") (auto simp: rp_step_def d_def)
  then show ?thesis ..
qed

lemma rp_progress:
  assumes inv: "rp_inv s" and ne: "rp_main s \<noteq> Mp_exit"
  shows "\<exists>d e. \<not> rp_tick e \<and> runs rp_step [Tick d, e] s (\<lambda>_. True)"
proof -
  from inv have ok: "rp_main_ok (rp_main s)" and l: "rp_lock_ok s" and th: "\<And>i. rp_thr_ok s i" by (simp_all add: rp_inv_def)
  have other: "\<exists>d e. \<not> rp_tick e \<and> runs rp_step [Tick d, e] s (\<lambda>_. True)"
    if "i < 3" "rp_thr s i \<notin> {Rp_unborn, Rp_lock, Rp_ended}" for i
  proof -
    have "i = 1 \<longrightarrow> rp_thr s i \<noteq> Rp_unlocked" using th [of i] by (simp add: rp_thr_ok_def)
    from rp_thread_moves [OF ne that this] show ?thesis using rp_tick.simps(3) by blast
  qed
  have holder: "\<exists>d e. \<not> rp_tick e \<and> runs rp_step [Tick d, e] s (\<lambda>_. True)" if "i < 3" "rp_holds (rp_thr s i)" for i
    using other [OF that(1)] that(2) by (cases "rp_thr s i") auto
  consider (main) d where "runs rp_step [Tick d, Main] s (\<lambda>_. True)" | (join) k where "rp_main s = Mp_join k" "k < 3" "rp_thr s k \<noteq> Rp_ended"
  proof (cases "rp_main s")
    case (Mp_rest k t)
    then have "runs rp_step [Tick t, Main] s (\<lambda>_. True)" by (simp add: rp_step_def)
    then show ?thesis by (rule main)
  next
    case (Mp_join k)
    then have "k < 3 \<and> rp_thr s k \<noteq> Rp_ended \<or> runs rp_step [Tick 0, Main] s (\<lambda>_. True)" by (auto simp: rp_step_def)
    with join [OF Mp_join] main show ?thesis by blast
  qed (use ne main [of 0] in \<open>auto simp: rp_step_def\<close>)
  then show ?thesis
  proof cases
    case main
    then show ?thesis using rp_tick.simps(2) by blast
  next
    case join
    with th [of k] have born: "rp_thr s k \<noteq> Rp_unborn" by (simp add: rp_thr_ok_def)
    show ?thesis
    proof (cases "rp_thr s k = Rp_lock")
      case False
      with other [of k] join born show ?thesis by simp
    next
      case True
      show ?thesis
      proof (cases "\<exists>i < 3. rp_holds (rp_thr s i)")
        case False
        with l True join have "runs rp_step [Tick 0, Thr k] s (\<lambda>_. True)"
          by (auto simp: rp_step_def rp_lock_ok_def rl_wrlock_def rl_rdlock_def split: if_splits)
        then show ?thesis using rp_tick.simps(3) by blast
      qed (use holder in blast)
    qed
  qed
qed

section \<open>What the program shows\<close>

text \<open>C11: in \<open>pthread-rwlock-pref.c\<close> no two of the three threads ever hold the lock together, each prints its
  lines in order, and within 31 statements, between which time may pass, all are joined, some thread
  or \<open>main()\<close> always being able to go on once enough time has passed. If every thread moves as soon as it can, the second
  writer and the reader both wait for the first writer 600 milliseconds after the start, and the lock
  may go to either of them: which one is what the program is meant to find out.\<close>

theorem rp_preference:
  "(\<forall>es s. exec rp_step es rp_start = Some s \<longrightarrow>
      (\<forall>i j. i < 3 \<and> j < 3 \<and> i \<noteq> j \<longrightarrow> \<not> (rp_holds (rp_thr s i) \<and> rp_holds (rp_thr s j)))
    \<and> (\<forall>i. filter (\<lambda>m. rp_who m = i) (rp_out s) = rp_lines i (rp_thr s i))
    \<and> length (filter (\<lambda>e. \<not> rp_tick e) es) \<le> 31
    \<and> (rp_main s = Mp_exit \<longrightarrow> (\<forall>i < 3. rp_thr s i = Rp_ended))
    \<and> (rp_main s \<noteq> Mp_exit \<longrightarrow> (\<exists>d e. \<not> rp_tick e \<and> runs rp_step [Tick d, e] s (\<lambda>_. True))))
   \<and> (\<exists>s. reach rp_step rp_start s \<and> rp_clock s = 600000000 \<and> rp_thr s 0 = Rp_rest 705032704
        \<and> rp_thr s 1 = Rp_lock \<and> rp_thr s 2 = Rp_lock
        \<and> (\<exists>t. reach rp_step s t \<and> rp_holds (rp_thr t 1) \<and> rp_thr t 2 = Rp_lock)
        \<and> (\<exists>t. reach rp_step s t \<and> rp_holds (rp_thr t 2) \<and> rp_thr t 1 = Rp_lock))"
proof (intro conjI allI impI)
  fix es s assume ex: "exec rp_step es rp_start = Some s"
  have inv: "rp_inv s" using ex rp.exec_inv rp_inv_start by blast
  then have l: "rp_lock_ok s" and th: "\<And>i. rp_thr_ok s i" by (simp_all add: rp_inv_def)
  show "filter (\<lambda>m. rp_who m = i) (rp_out s) = rp_lines i (rp_thr s i)" for i using th [of i] by (simp add: rp_thr_ok_def)
  show "length (filter (\<lambda>e. \<not> rp_tick e) es) \<le> 31" using rp_length [OF ex] by linarith
  show "rp_thr s i = Rp_ended" if "rp_main s = Mp_exit" "i < 3" for i using th [of i] that by (simp add: rp_thr_ok_def)
  show "\<exists>d e. \<not> rp_tick e \<and> runs rp_step [Tick d, e] s (\<lambda>_. True)" if "rp_main s \<noteq> Mp_exit"
    using rp_progress [OF inv that] .
  show "\<not> (rp_holds (rp_thr s i) \<and> rp_holds (rp_thr s j))" if "i < 3 \<and> j < 3 \<and> i \<noteq> j" for i j
  proof -
    have "i = 0 \<or> i = 1 \<or> i = 2" "j = 0 \<or> j = 1 \<or> j = 2" using that by linarith+
    with l that show ?thesis by (auto simp: rp_lock_ok_def)
  qed
next
  let ?a = "[Main, Thr 0, Thr 0, Thr 0, Thr 0, Main, Tick 500000000, Main, Main, Thr 1, Main, Tick 100000000, Main, Main, Thr 2]"
  have w: "millisleep 5000 = 705032704" "millisleep 500 = 500000000" "millisleep 100 = 100000000"
    by (simp_all add: millisleep_def MSEC2NSEC_def)
  note sim = rp_step_def rp_start_def rp_defs w
  have "runs rp_step ?a rp_start (\<lambda>s. rp_clock s = 600000000 \<and> rp_thr s 0 = Rp_rest 705032704
      \<and> rp_thr s 1 = Rp_lock \<and> rp_thr s 2 = Rp_lock
      \<and> runs rp_step [Tick 105032704, Thr 0, Thr 0, Thr 1] s (\<lambda>t. rp_holds (rp_thr t 1) \<and> rp_thr t 2 = Rp_lock)
      \<and> runs rp_step [Tick 105032704, Thr 0, Thr 0, Thr 2] s (\<lambda>t. rp_holds (rp_thr t 2) \<and> rp_thr t 1 = Rp_lock))"
    by (simp add: sim)
  from runs_reach [OF this] show "\<exists>s. reach rp_step rp_start s \<and> rp_clock s = 600000000 \<and> rp_thr s 0 = Rp_rest 705032704
        \<and> rp_thr s 1 = Rp_lock \<and> rp_thr s 2 = Rp_lock
        \<and> (\<exists>t. reach rp_step s t \<and> rp_holds (rp_thr t 1) \<and> rp_thr t 2 = Rp_lock)
        \<and> (\<exists>t. reach rp_step s t \<and> rp_holds (rp_thr t 2) \<and> rp_thr t 1 = Rp_lock)"
    using runs_reach by fast
qed

theorem rp_preference_witness:
  "exec rp_step [Main, Thr 0, Thr 0, Tick 5, Thr 0] rp_start \<noteq> None
    \<and> length (filter (\<lambda>e. \<not> rp_tick e) [Main, Thr 0, Thr 0, Tick 5, Thr 0]) \<le> 31"
  using rp_preference by (simp add: rp_step_def rp_start_def rp_defs)

section \<open>\<open>pthread-rwlock-limit.c\<close>\<close>

text \<open>The loop over a 64-bit counter; \<open>rd i\<close> is what the call number \<open>i\<close> of \<open>pthread_rwlock_rdlock\<close> returns.\<close>

datatype lim_end = Succeeded | Max_count "64 word" | Lim_error int

function lim_loop :: "(64 word \<Rightarrow> int) \<Rightarrow> int \<Rightarrow> 64 word \<Rightarrow> 64 word \<Rightarrow> lim_end" where
  "lim_loop rd EAGAIN i numlocks =
     (if i < numlocks
      then let e = rd i in if e \<noteq> 0 then (if e = EAGAIN then Max_count i else Lim_error e) else lim_loop rd EAGAIN (i + 1) numlocks
      else Succeeded)"
  by pat_completeness auto
termination
  by (relation "measure (\<lambda>(rd, eg, i, n). unat n - unat i)") (use word_next in \<open>auto simp: word_less_nat_alt\<close>)

declare lim_loop.simps [simp del]

definition lim_main :: "(64 word \<Rightarrow> int) \<Rightarrow> int \<Rightarrow> lim_end" where
  "lim_main rd EAGAIN = lim_loop rd EAGAIN 0 (- 1)"

lemma lim_loop_skip:
  "(\<forall>j < k. rd (of_nat (unat i + j)) = 0) \<Longrightarrow> unat i + k \<le> unat n \<Longrightarrow> lim_loop rd eg i n = lim_loop rd eg (i + of_nat k) n"
proof (induction k)
  case (Suc k)
  have u: "unat (i + of_nat k) = unat i + k" using Suc.prems(2) unsigned_less [of n, where 'a = nat] by (intro unat_offset) simp
  have "i + of_nat k < n" using u Suc.prems(2) by (simp add: word_less_nat_alt)
  moreover have "rd (of_nat (unat i + k)) = 0" using Suc.prems(1) by blast
  then have "rd (i + of_nat k) = 0" by simp
  ultimately have "lim_loop rd eg (i + of_nat k) n = lim_loop rd eg (i + of_nat k + 1) n"
    by (subst lim_loop.simps) (simp add: Let_def)
  moreover have "i + of_nat k + 1 = i + of_nat (Suc k)" by simp
  ultimately show ?case using Suc by simp
qed simp

text \<open>The program reports the number of locks it got, for every limit below \<open>2\<^sup>6\<^sup>4 - 1\<close>.\<close>

theorem lim_reports:
  assumes "k < 2 ^ 64 - 1" "\<forall>j < k. rd (of_nat j) = 0" "rd (of_nat k) = eg" "eg \<noteq> 0"
  shows "lim_main rd eg = Max_count (of_nat k)"
proof -
  have u: "unat (of_nat k :: 64 word) = k" using assms(1) by (simp add: unat_of_nat)
  have m: "unat (- 1 :: 64 word) = 2 ^ 64 - 1" by (simp add: unsigned_minus_1_eq_mask mask_eq_exp_minus_1)
  have "lim_loop rd eg 0 (- 1) = lim_loop rd eg (of_nat k) (- 1)"
    using lim_loop_skip [of k rd 0 "- 1" eg] assms by (simp add: m)
  moreover have "(of_nat k :: 64 word) < - 1" using u m assms(1) by (simp add: word_less_nat_alt)
  ultimately show ?thesis
    using assms(3,4) by (simp add: lim_main_def lim_loop.simps [of rd eg "of_nat k"] Let_def)
qed

end
