(* ===== verification/Long_Options.thy ===== *)
theory Long_Options
  imports Getopt
begin

text \<open>
  \<open>getopt/getopt_long.c\<close>: the GNU and BSD function \<open>getopt_long\<close>, over the scanner of short options of the theory Getopt, and the
  program. Long options can be abbreviated as long as only one has the letters given, and have their argument after
  \<open>=\<close> or in the next word. The message \<open>getopt_long\<close> itself prints about a bad option is left out. Whether it reorders its arguments (GNU) or stops at the
  first word that is no option (BSD, or with \<open>POSIXLY_CORRECT\<close>) is an argument.
\<close>

section \<open>The library function\<close>

text \<open>A call returns the value of an option with its argument, 0 after storing a value through the pointer
  \<open>flag\<close> of the option, or an error; \<open>Some c\<close> and \<open>None\<close> are these two kinds of long options.\<close>

datatype lopt = Value char "string option" | Stored string | Bad_option

type_synonym longopts = "(string \<times> bool \<times> char option) list"

definition gl_lookup :: "longopts \<Rightarrow> string \<Rightarrow> (string \<times> bool \<times> char option) option" where
  "gl_lookup longs n =
     (case filter (\<lambda>l. fst l = n) longs of
        l # _ \<Rightarrow> Some l
      | [] \<Rightarrow> (case filter (\<lambda>l. take (length n) (fst l) = n) longs of [l] \<Rightarrow> Some l | _ \<Rightarrow> None))"

fun gl_value :: "string \<times> bool \<times> char option \<Rightarrow> string option \<Rightarrow> lopt" where
  "gl_value (n, arg, Some c) v = Value c v"
| "gl_value (n, arg, None) v = Stored n"

text \<open>A word after its two dashes, with the words that follow.\<close>

definition gl_long :: "longopts \<Rightarrow> string \<Rightarrow> string list \<Rightarrow> lopt \<times> string list" where
  "gl_long longs w rest =
     (let n = takeWhile (\<lambda>c. c \<noteq> CHR ''='') w; val = (if n = w then None else Some (tl (dropWhile (\<lambda>c. c \<noteq> CHR ''='') w)))
      in case gl_lookup longs n of
           None \<Rightarrow> (Bad_option, rest)
         | Some l \<Rightarrow>
             if fst (snd l)
             then (case val of
                     Some v \<Rightarrow> (gl_value l (Some v), rest)
                   | None \<Rightarrow> (case rest of [] \<Rightarrow> (Bad_option, []) | a # r \<Rightarrow> (gl_value l (Some a), r)))
             else (if val = None then gl_value l None else Bad_option, rest))"

fun gl_short :: "optval \<Rightarrow> lopt" where
  "gl_short (Opt c v) = Value c v"
| "gl_short _ = Bad_option"

lemma gl_long_rest: "length (snd (gl_long longs w rest)) \<le> length rest"
  by (auto simp: gl_long_def Let_def split: option.splits list.splits)

text \<open>
  All calls until one returns -1. With \<open>permute\<close> options are also found after other arguments, which are
  moved to the end; without it (\<open>POSIXLY_CORRECT\<close>) the first of these ends the options.
\<close>

function gl_scan :: "bool \<Rightarrow> (char \<times> bool) list \<Rightarrow> longopts \<Rightarrow> string list \<Rightarrow> lopt list \<times> string list" where
  "gl_scan permute spec longs args =
     (case args of
        [] \<Rightarrow> ([], [])
      | a # rest \<Rightarrow>
          if a = ''--'' then ([], rest)
          else if take 2 a = ''--''
          then let c = gl_long longs (drop 2 a) rest; s = gl_scan permute spec longs (snd c) in (fst c # fst s, snd s)
          else if 2 \<le> length a \<and> hd a = CHR ''-''
          then let c = getopt_cluster spec (tl a) rest; s = gl_scan permute spec longs (snd c) in (map gl_short (fst c) @ fst s, snd s)
          else if permute then let s = gl_scan permute spec longs rest in (fst s, a # snd s)
          else ([], args))"
  by pat_completeness auto

termination
  by (relation "measure (\<lambda>(permute, spec, longs, args). length args)")
    (auto intro: le_less_trans [OF getopt_cluster_rest] le_less_trans [OF gl_long_rest])

declare gl_scan.simps [simp del]

section \<open>The program\<close>

definition longopts :: longopts where
  "longopts = [(''buffy'', False, Some (CHR ''b'')), (''fluoride'', True, Some (CHR ''f'')), (''daggerset'', False, None)]"

definition gl_usage :: "string \<Rightarrow> string" where
  "gl_usage argv0 = errx_line argv0 ''getopt_long: [-bf] [--buffy] [--fluoride] [--daggerset] [...]''"

definition gl_dagger :: string where
  "gl_dagger = ''Buffy will use her dagger to apply fluoride to dracula'' @ [CHR 0x27] @ ''s teeth'' @ nl"

text \<open>
  The loop, with \<open>bflag\<close>, the files opened so far and the error output. \<open>daggerset\<close> is not initialised, but it is only
  read after \<open>getopt_long\<close> has set it to 1. The result is the error output and whether the loop ended by \<open>exit(1)\<close>.
\<close>

fun gl_loop :: "string \<Rightarrow> (string \<Rightarrow> bool) \<Rightarrow> bool \<Rightarrow> string list \<Rightarrow> string \<Rightarrow> lopt list \<Rightarrow> string + bool \<times> string list \<times> string" where
  "gl_loop argv0 can_open bflag fds err [] = Inr (bflag, fds, err)"
| "gl_loop argv0 can_open bflag fds err (Value c v # os) =
     (if c = CHR ''b'' then gl_loop argv0 can_open True fds err os
      else if c = CHR ''f''
      then (case v of
              None \<Rightarrow> Inl (err @ gl_usage argv0)
            | Some f \<Rightarrow> if can_open f then gl_loop argv0 can_open bflag (fds @ [f]) err os
                       else Inl (err @ errx_line argv0 (''unable to open '' @ f)))
      else Inl (err @ gl_usage argv0))"
| "gl_loop argv0 can_open bflag fds err (Stored n # os) = gl_loop argv0 can_open bflag fds (err @ gl_dagger) os"
| "gl_loop argv0 can_open bflag fds err (Bad_option # os) = Inl (err @ gl_usage argv0)"

text \<open>The outcome, with the files that are still open at the end: only the last one is closed.\<close>

definition gl_main :: "bool \<Rightarrow> (string \<Rightarrow> bool) \<Rightarrow> string list \<Rightarrow> outcome \<times> string list" where
  "gl_main permute can_open argv =
     (case gl_loop (hd argv) can_open False [] [] (fst (gl_scan permute (optspec ''bf:'') longopts (tl argv))) of
        Inl err \<Rightarrow> (\<lparr>oc_out = [], oc_err = err, oc_status = 1\<rparr>, [])
      | Inr (bflag, fds, err) \<Rightarrow>
          (\<lparr>oc_out = (if bflag then ''buffy is set'' @ nl else []), oc_err = err, oc_status = 0\<rparr>, butlast fds))"

section \<open>Spelling options\<close>

text \<open>The options, and the ways to write them: the short one, or the long one cut after some letters; with the argument
  attached or in a word of its own.\<close>

datatype gl_opt = Buffy | Fluoride string | Daggerset
datatype gl_style = Short bool | Long nat bool

fun gl_words :: "gl_opt \<times> gl_style \<Rightarrow> string list" where
  "gl_words (Buffy, Short att) = [''-b'']"
| "gl_words (Buffy, Long k att) = [''--'' @ take (Suc k) ''buffy'']"
| "gl_words (Fluoride f, Short att) = (if att then [''-f'' @ f] else [''-f'', f])"
| "gl_words (Fluoride f, Long k att) =
     (if att then [''--'' @ take (Suc k) ''fluoride'' @ ''='' @ f] else [''--'' @ take (Suc k) ''fluoride'', f])"
| "gl_words (Daggerset, Short att) = []"
| "gl_words (Daggerset, Long k att) = [''--'' @ take (Suc k) ''daggerset'']"

fun gl_fits :: "gl_opt \<times> gl_style \<Rightarrow> bool" where
  "gl_fits (Fluoride f, Short att) \<longleftrightarrow> (att \<longrightarrow> f \<noteq> [])"
| "gl_fits (Daggerset, Short att) \<longleftrightarrow> False"
| "gl_fits _ \<longleftrightarrow> True"

fun gl_ret :: "gl_opt \<Rightarrow> lopt" where
  "gl_ret Buffy = Value (CHR ''b'') None"
| "gl_ret (Fluoride f) = Value (CHR ''f'') (Some f)"
| "gl_ret Daggerset = Stored ''daggerset''"

fun gl_name :: "gl_opt \<Rightarrow> string" where
  "gl_name Buffy = ''buffy''"
| "gl_name (Fluoride f) = ''fluoride''"
| "gl_name Daggerset = ''daggerset''"

lemma gl_lookup_prefix:
  "gl_lookup longopts (take (Suc k) (gl_name x)) =
     Some (gl_name x, (case x of Fluoride f \<Rightarrow> True | _ \<Rightarrow> False), (case x of Buffy \<Rightarrow> Some (CHR ''b'') | Fluoride f \<Rightarrow> Some (CHR ''f'') | Daggerset \<Rightarrow> None))"
  by (cases x) (simp_all add: gl_lookup_def longopts_def min_def)

lemma gl_no_eq: "CHR ''='' \<notin> set (take k (gl_name x))"
  by (rule notI, drule in_set_takeD) (cases x; simp)

lemma takeWhile_until: "c \<notin> set xs \<Longrightarrow> takeWhile (\<lambda>x. x \<noteq> c) (xs @ c # v) = xs"
  and dropWhile_until: "c \<notin> set xs \<Longrightarrow> dropWhile (\<lambda>x. x \<noteq> c) (xs @ c # v) = c # v"
  and takeWhile_none: "c \<notin> set xs \<Longrightarrow> takeWhile (\<lambda>x. x \<noteq> c) xs = xs"
  by (induction xs) auto

lemma gl_long_plain:
  "gl_long longopts (take (Suc k) (gl_name x)) rest =
     (case x of
        Fluoride f \<Rightarrow> (case rest of [] \<Rightarrow> (Bad_option, []) | a # r \<Rightarrow> (Value (CHR ''f'') (Some a), r))
      | _ \<Rightarrow> (gl_ret x, rest))"
  unfolding gl_long_def Let_def takeWhile_none [OF gl_no_eq] gl_lookup_prefix
  by (cases x) (simp_all split: list.split)

lemma gl_long_eq:
  "gl_long longopts (take (Suc k) (gl_name x) @ CHR ''='' # v) rest =
     ((case x of Fluoride f \<Rightarrow> Value (CHR ''f'') (Some v) | _ \<Rightarrow> Bad_option), rest)"
  unfolding gl_long_def Let_def takeWhile_until [OF gl_no_eq] dropWhile_until [OF gl_no_eq] gl_lookup_prefix
  by (cases x) simp_all

lemma gl_scan_dashes:
  "w \<noteq> [] \<Longrightarrow> gl_scan permute spec longs ((CHR ''-'' # CHR ''-'' # w) # rest) =
     (fst (gl_long longs w rest) # fst (gl_scan permute spec longs (snd (gl_long longs w rest))),
      snd (gl_scan permute spec longs (snd (gl_long longs w rest))))"
  by (subst gl_scan.simps) (simp add: Let_def)

lemma gl_scan_short:
  "c \<noteq> CHR ''-'' \<Longrightarrow> gl_scan permute spec longs ((CHR ''-'' # c # w) # rest) =
     (map gl_short (fst (getopt_cluster spec (c # w) rest)) @ fst (gl_scan permute spec longs (snd (getopt_cluster spec (c # w) rest))),
      snd (gl_scan permute spec longs (snd (getopt_cluster spec (c # w) rest))))"
  by (subst gl_scan.simps) (simp add: Let_def)

lemma gl_scan_word:
  assumes "gl_fits (x, st)"
  shows "gl_scan permute (optspec ''bf:'') longopts (gl_words (x, st) @ rest) =
    (gl_ret x # fst (gl_scan permute (optspec ''bf:'') longopts rest), snd (gl_scan permute (optspec ''bf:'') longopts rest))"
proof (cases st)
  case (Short att)
  with assms show ?thesis by (cases x) (auto simp: gl_scan_short)
next
  case (Long k att)
  have ne: "take (Suc k) (gl_name x) \<noteq> []" by (cases x) simp_all
  show ?thesis
  proof (cases x)
    case (Fluoride f)
    with Long ne gl_long_plain [of k x] gl_long_eq [of k x] show ?thesis
      by (auto simp: gl_scan_dashes simp del: take_Suc_Cons)
  qed (use Long ne gl_long_plain [of k x] in \<open>auto simp: gl_scan_dashes simp del: take_Suc_Cons\<close>)
qed

lemma gl_scan_stop: "gl_scan permute spec longs (''--'' # files) = ([], files)"
  by (subst gl_scan.simps) simp

text \<open>A command line: options and other words in any order. The options that count are all of them if the function
  reorders its arguments, and those before the first other word if it does not.\<close>

type_synonym gl_item = "(gl_opt \<times> gl_style) + string"

fun gl_item_words :: "gl_item \<Rightarrow> string list" where
  "gl_item_words (Inl x) = gl_words x"
| "gl_item_words (Inr w) = [w]"

fun gl_item_fits :: "gl_item \<Rightarrow> bool" where
  "gl_item_fits (Inl x) \<longleftrightarrow> gl_fits x"
| "gl_item_fits (Inr w) \<longleftrightarrow> length w < 2 \<or> hd w \<noteq> CHR ''-''"

definition gl_given :: "bool \<Rightarrow> gl_item list \<Rightarrow> gl_opt list" where
  "gl_given permute items = map (fst \<circ> projl) (filter isl (if permute then items else takeWhile isl items))"

lemma gl_scan_plain:
  assumes "gl_item_fits (Inr w)"
  shows "fst (gl_scan permute spec longs (w # rest)) = (if permute then fst (gl_scan permute spec longs rest) else [])"
  using assms by (cases w; cases "tl w"; subst gl_scan.simps; auto simp: Let_def)

lemma gl_scan_items:
  assumes "\<forall>x \<in> set items. gl_item_fits x" "tail = [] \<or> tail = ''--'' # files"
  shows "fst (gl_scan permute (optspec ''bf:'') longopts (concat (map gl_item_words items) @ tail))
    = map gl_ret (gl_given permute items)"
  using assms(1)
proof (induction items)
  case Nil
  from assms(2) show ?case by (auto simp: gl_given_def gl_scan_stop gl_scan.simps)
next
  case (Cons i items)
  show ?case
  proof (cases i)
    case (Inl x)
    obtain opt style where x: "x = (opt, style)" by force
    have "gl_fits (opt, style)" using Cons.prems Inl x by simp
    from gl_scan_word [OF this, of permute "concat (map gl_item_words items) @ tail"] Cons Inl x
    show ?thesis by (simp add: gl_given_def del: optspec.simps gl_words.simps gl_fits.simps)
  next
    case (Inr w)
    with Cons.prems have "gl_item_fits (Inr w)" by simp
    from gl_scan_plain [OF this, of permute "optspec ''bf:''" longopts "concat (map gl_item_words items) @ tail"] Cons Inr
    show ?thesis by (cases permute) (simp_all add: gl_given_def del: optspec.simps)
  qed
qed

section \<open>What the program does\<close>

text \<open>The options before the first file that cannot be opened.\<close>

fun gl_opens :: "(string \<Rightarrow> bool) \<Rightarrow> gl_opt \<Rightarrow> bool" where
  "gl_opens can_open (Fluoride f) \<longleftrightarrow> can_open f"
| "gl_opens can_open _ \<longleftrightarrow> True"

fun gl_file :: "gl_opt \<Rightarrow> string list" where
  "gl_file (Fluoride f) = [f]"
| "gl_file _ = []"

definition gl_daggers :: "gl_opt list \<Rightarrow> string" where
  "gl_daggers xs = concat (map (\<lambda>x. if x = Daggerset then gl_dagger else []) xs)"

definition gl_error :: "string \<Rightarrow> gl_opt list \<Rightarrow> string" where
  "gl_error prog xs = concat (map (\<lambda>f. errx_line prog (''unable to open '' @ f)) (concat (map gl_file (take 1 xs))))"

lemma gl_loop_spec:
  "gl_loop prog can_open b fds err (map gl_ret xs) =
     (if list_all (gl_opens can_open) xs
      then Inr (b \<or> Buffy \<in> set xs, fds @ concat (map gl_file xs), err @ gl_daggers xs)
      else Inl (err @ gl_daggers (takeWhile (gl_opens can_open) xs) @ gl_error prog (dropWhile (gl_opens can_open) xs)))"
proof (induction xs arbitrary: b fds err)
  case (Cons x xs)
  then show ?case by (cases x) (auto simp: gl_daggers_def gl_error_def)
qed (simp add: gl_daggers_def)

text \<open>C22: However its options are spelled (short or long, cut to any number of letters, their arguments
  attached or not) and wherever they stand among the other words, what \<open>getopt_long.c\<close> does depends only on the
  options that count: all before \<open>--\<close> if \<open>getopt_long\<close> reorders its arguments, those before the first other word if
  it does not. It says that buffy is set if it is, once for every \<open>--daggerset\<close> what it is for, and opens all files,
  leaving all but the last open; at the first file it cannot open it stops, and then never mentions buffy.\<close>

theorem gl_spellings:
  assumes "\<forall>x \<in> set items. gl_item_fits x" "tail = [] \<or> tail = ''--'' # files"
  shows "gl_main permute can_open ([prog] @ concat (map gl_item_words items) @ tail) =
    (let os = gl_given permute items; good = takeWhile (gl_opens can_open) os; bad = dropWhile (gl_opens can_open) os in
     if bad = []
     then (\<lparr>oc_out = (if Buffy \<in> set os then ''buffy is set'' @ nl else []), oc_err = gl_daggers os, oc_status = 0\<rparr>,
           butlast (concat (map gl_file os)))
     else (\<lparr>oc_out = [], oc_err = gl_daggers good @ gl_error prog bad, oc_status = 1\<rparr>, []))"
proof -
  have "list_all (gl_opens can_open) ys \<longleftrightarrow> dropWhile (gl_opens can_open) ys = []" for ys
    by (simp add: dropWhile_eq_Nil_conv list_all_iff)
  then show ?thesis
    using gl_scan_items [OF assms, of permute] gl_loop_spec [of prog can_open False "[]" "[]" "gl_given permute items"]
    by (simp add: gl_main_def Let_def)
qed

text \<open>The same command line with and without reordering.\<close>

theorem gl_spellings_witness:
  "gl_main True (\<lambda>f. f = ''a'') [''prog'', ''-b'', ''--fl'', ''a'', ''x'', ''--dagger'', ''--fluoride=a'', ''--'', ''x''] =
    (\<lparr>oc_out = ''buffy is set'' @ nl, oc_err = gl_dagger, oc_status = 0\<rparr>, [''a''])
   \<and> gl_main False (\<lambda>f. f = ''a'') [''prog'', ''-b'', ''--fl'', ''a'', ''x'', ''--dagger'', ''--fluoride=a'', ''--'', ''x''] =
    (\<lparr>oc_out = ''buffy is set'' @ nl, oc_err = [], oc_status = 0\<rparr>, [])"
proof -
  let ?items = "[Inl (Buffy, Short True), Inl (Fluoride ''a'', Long 1 False), Inr ''x'', Inl (Daggerset, Long 5 False),
    Inl (Fluoride ''a'', Long 7 True)]"
  have fits: "\<forall>x \<in> set ?items. gl_item_fits x" by simp
  from gl_spellings [OF fits, of "[''--'', ''x'']" "[''x'']" True "\<lambda>f. f = ''a''" "''prog''"]
    gl_spellings [OF fits, of "[''--'', ''x'']" "[''x'']" False "\<lambda>f. f = ''a''" "''prog''"]
  show ?thesis by (simp add: gl_given_def gl_daggers_def eval_nat_numeral)
qed

end
