(* ===== verification/Legacy_Resolver.thy ===== *)
theory Legacy_Resolver
  imports Getopt
begin

text \<open>
  The obsolete resolver calls: \<open>resolving/gethostbyname.c\<close> and \<open>resolving/gethostbyaddr.c\<close>, and the two programs that
  show that their results share static memory, \<open>reentrant/gethostbyname.c\<close> and \<open>reentrant/inet_ntoa.c\<close>.
\<close>

section \<open>Host entries and addresses\<close>

type_synonym in_addr = "8 word list"

record hostent =
  h_name :: string
  h_aliases :: "string list"
  h_inet :: bool
  h_addr_list :: "in_addr list"

text \<open>The text \<open>inet_ntoa\<close> leaves in its static buffer.\<close>

fun dotted :: "in_addr \<Rightarrow> string" where
  "dotted [] = []"
| "dotted [b] = show_nat (unat b)"
| "dotted (b # bs) = show_nat (unat b) @ ''.'' @ dotted bs"

abbreviation htab :: string where "htab \<equiv> [CHR 0x09]"

section \<open>\<open>resolving/gethostbyname.c\<close>\<close>

text \<open>The result of the call is its entry or the text of \<open>h_errno\<close>.\<close>

definition gh_main :: "(string \<Rightarrow> string + hostent) \<Rightarrow> string list \<Rightarrow> outcome" where
  "gh_main gethostbyname argv =
     (if length argv \<noteq> 2
      then \<lparr>oc_out = [], oc_err = errx_line (hd argv) (''usage: '' @ c_basename (hd argv) @ '' <hostname>''), oc_status = 1\<rparr>
      else case gethostbyname (argv ! 1) of
        Inl e \<Rightarrow> \<lparr>oc_out = [], oc_err = errx_line (hd argv) (''error: '' @ e), oc_status = 1\<rparr>
      | Inr h \<Rightarrow>
          let out = ''official name:'' @ nl @ htab @ h_name h @ nl @ nl @ ''aliases:'' @ nl
                @ concat (map (\<lambda>a. htab @ a @ nl) (h_aliases h))
          in if \<not> h_inet h then \<lparr>oc_out = out, oc_err = [], oc_status = 0\<rparr>
             else \<lparr>oc_out = out @ nl @ ''IP addresses:'' @ nl @ concat (map (\<lambda>a. htab @ dotted a @ nl) (h_addr_list h)),
                   oc_err = [], oc_status = 0\<rparr>)"

section \<open>\<open>resolving/gethostbyaddr.c\<close>\<close>

text \<open>
  The loop over the aliases never increments \<open>i\<close>; \<^term>\<open>None\<close> is a loop that does not end. An address that \<open>inet_aton\<close>
  cannot convert leaves \<open>ip\<close> as the stack had it.
\<close>

partial_function (option) ga_aliases :: "string list \<Rightarrow> nat \<Rightarrow> string list option" where
  "ga_aliases aliases i =
     (if i < length aliases then Option.bind (ga_aliases aliases i) (\<lambda>ls. Some (aliases ! i # ls)) else Some [])"

datatype ga_end = Ga_usage string | Ga_error | Ga_printed string "string list option"

definition ga_main :: "(string \<Rightarrow> in_addr option) \<Rightarrow> in_addr \<Rightarrow> (in_addr \<Rightarrow> hostent option) \<Rightarrow> string list \<Rightarrow> ga_end" where
  "ga_main inet_aton stack gethostbyaddr argv =
     (if length argv \<noteq> 2 then Ga_usage (errx_line (hd argv) (''usage: '' @ hd argv @ '' <ip_address>''))
      else let ip = (case inet_aton (argv ! 1) of None \<Rightarrow> stack | Some a \<Rightarrow> a)
           in case gethostbyaddr ip of
                None \<Rightarrow> Ga_error
              | Some h \<Rightarrow> Ga_printed (h_name h) (ga_aliases (h_aliases h) 0))"

lemma ga_aliases_none: "i < length aliases \<Longrightarrow> ga_aliases aliases i = None"
proof -
  have "ga_aliases aliases i = Some y \<Longrightarrow> \<not> i < length aliases" for y
    by (erule ga_aliases.raw_induct [where P = "\<lambda>as k ls. \<not> k < length as", rotated])
      (auto simp: bind_eq_Some_conv split: if_splits)
  then show "i < length aliases \<Longrightarrow> ga_aliases aliases i = None" by (cases "ga_aliases aliases i") auto
qed

section \<open>\<open>reentrant/gethostbyname.c\<close>\<close>

text \<open>
  Every call writes its result into the same static entry and returns its address, so \<open>hp1\<close> and \<open>hp2\<close> are the same
  pointer, and \<open>print_hp()\<close> shows what the entry holds when it is called. \<open>argv[argc]\<close> is NULL, which \<open>strcmp\<close> does
  not survive.
\<close>

datatype re_line = Comment string | Address string string
datatype re_end = Re_exit int string | Re_segv

definition print_hp :: "string \<Rightarrow> hostent \<Rightarrow> re_line list" where
  "print_hp comment static = Comment comment # map (\<lambda>a. Address (dotted a) (h_name static)) (h_addr_list static)"

definition rh_main :: "(string \<Rightarrow> hostent option) \<Rightarrow> string list \<Rightarrow> re_line list \<times> re_end" where
  "rh_main resolve argv =
     (if length argv \<noteq> 3 \<and> length argv \<noteq> 4 then ([], Re_exit 1 ''usage'')
      else let seq = (argv ! 1 = ''-s''); optidx = (if seq then 2 else 1) in
        if length argv \<le> optidx + 1 then ([], Re_segv)
        else let host1 = argv ! optidx; host2 = argv ! (optidx + 1) in
          if host1 = host2 then ([], Re_exit 1 ''hosts should be different to make the point'')
          else case resolve host1 of None \<Rightarrow> ([], Re_exit 1 (''cannot resolve '' @ host1))
          | Some static1 \<Rightarrow>
              let first = (if seq then print_hp ''host1'' static1 else [])
              in case resolve host2 of None \<Rightarrow> (first, Re_exit 1 (''cannot resolve '' @ host2))
                 | Some static2 \<Rightarrow>
                     (first @ (if seq then [] else print_hp ''host1'' static2) @ print_hp ''host2'' static2, Re_exit 0 []))"

section \<open>\<open>reentrant/inet_ntoa.c\<close>\<close>

text \<open>In the third line both arguments of \<open>printf\<close> point to the buffer, which holds the result of the call evaluated
  last; the order is not specified.\<close>

definition na_main :: "bool \<Rightarrow> string list" where
  "na_main left_to_right =
     (let addr1 = [1, 2, 3, 4]; addr2 = [5, 6, 7, 8]; last = dotted (if left_to_right then addr2 else addr1)
      in [''one: '' @ dotted addr1, ''two: '' @ dotted addr2, ''one+two: '' @ last @ '' '' @ last])"

section \<open>What the programs do\<close>

text \<open>\<open>gethostbyaddr.c\<close> comes to an end exactly if the host has no aliases.\<close>

theorem ga_endless:
  "ga_main aton stack addr [prog, a] = Ga_printed n r \<Longrightarrow>
     r = None \<longleftrightarrow> (\<exists>h. addr (case aton a of None \<Rightarrow> stack | Some ip \<Rightarrow> ip) = Some h \<and> h_name h = n \<and> h_aliases h \<noteq> [])"
proof -
  have "ga_aliases [] 0 = Some []" by (subst ga_aliases.simps) simp
  then have "ga_aliases as 0 = None \<longleftrightarrow> as \<noteq> []" for as using ga_aliases_none [of 0 as] by (cases as) auto
  then show "ga_main aton stack addr [prog, a] = Ga_printed n r \<Longrightarrow>
     r = None \<longleftrightarrow> (\<exists>h. addr (case aton a of None \<Rightarrow> stack | Some ip \<Rightarrow> ip) = Some h \<and> h_name h = n \<and> h_aliases h \<noteq> [])"
    by (auto simp: ga_main_def split: option.splits)
qed

text \<open>For two different hosts that can be resolved, \<open>reentrant/gethostbyname.c\<close> shows the addresses and the name of the
  second under both headings; with \<open>-s\<close> it shows those of each. With \<open>-s\<close> and a single host
  it does not print its usage but crashes.\<close>

theorem re_same_entry:
  assumes "resolve h1 = Some e1" "resolve h2 = Some e2" "h1 \<noteq> h2" "h1 \<noteq> ''-s''"
  shows "rh_main resolve [prog, h1, h2] = (print_hp ''host1'' e2 @ print_hp ''host2'' e2, Re_exit 0 [])
    \<and> rh_main resolve [prog, ''-s'', h1, h2] = (print_hp ''host1'' e1 @ print_hp ''host2'' e2, Re_exit 0 [])
    \<and> rh_main resolve [prog, ''-s'', h1] = ([], Re_segv)"
  using assms by (simp add: rh_main_def Let_def)

theorem na_same_buffer:
  "na_main True = [''one: 1.2.3.4'', ''two: 5.6.7.8'', ''one+two: 5.6.7.8 5.6.7.8'']"
  "na_main False = [''one: 1.2.3.4'', ''two: 5.6.7.8'', ''one+two: 1.2.3.4 1.2.3.4'']"
  by code_simp+

end
