(* ===== verification/Local_Sockets.thy ===== *)
theory Local_Sockets
  imports Tcp_Programs
begin

text \<open>
  Two small services: \<open>unix-socket/main.c\<close>, a client and a server in one program that exchange one message each over a
  local socket, and \<open>inetd/accept-rw.c\<close>, which reflects what it reads on the connection \<open>inetd\<close> hands over.
\<close>

section \<open>\<open>unix-socket/main.c\<close>\<close>

text \<open>The two messages, each with the null byte that is sent along.\<close>

definition lk_hello :: string where "lk_hello = ''hello!'' @ [CHR 0x00]"

definition lk_bye :: string where "lk_bye = ''get out!'' @ [CHR 0x00]"

text \<open>
  The child is the client. Nothing makes it wait until the server listens but a second's sleep; its \<open>connect\<close> is not checked, and on
  a socket that is not connected \<open>write\<close> and \<open>read\<close> fail. \<open>buf\<close> holds what the last \<open>read\<close> stored, if any; it is
  printed in any case. \<open>c2s\<close> and \<open>s2c\<close> are the bytes on their way.
\<close>

datatype lk_client = C_unborn | C_socket | C_connect | C_write | C_read | C_print | C_ended int
datatype lk_server = S_socket | S_bind | S_listen | S_accept | S_read | S_print | S_write | S_ended int

datatype lk_msg = Client_got "string option" | Server_got "string option" | Socket_failed

record lk_state =
  lk_client :: lk_client
  lk_server :: lk_server
  lk_bound :: bool
  lk_listening :: bool
  lk_conn :: bool
  lk_accepted :: bool
  lk_c2s :: string
  lk_s2c :: string
  lk_cbuf :: "string option"
  lk_sbuf :: "string option"
  lk_out :: "lk_msg list"

datatype lk_event = Client | Server

text \<open>What can fail: the \<open>fork\<close>, the two \<open>socket\<close> calls, \<open>bind\<close> (the name could not be removed). Only \<open>socket\<close> is checked.\<close>

record lk_env =
  en_fork :: bool
  en_csock :: bool
  en_ssock :: bool
  en_bind :: bool

definition lk_say :: "lk_msg \<Rightarrow> lk_state \<Rightarrow> lk_state" where
  "lk_say m s = s\<lparr>lk_out := lk_out s @ [m]\<rparr>"

text \<open>\<open>printf("%s")\<close> stops at the null byte that is sent along.\<close>

definition lk_string :: "string \<Rightarrow> string" where
  "lk_string b = takeWhile (\<lambda>c. c \<noteq> CHR 0x00) b"

fun lk_client_stmt :: "lk_env \<Rightarrow> lk_client \<Rightarrow> lk_state \<Rightarrow> lk_state option" where
  "lk_client_stmt en C_socket s =
     Some (if en_csock en then s\<lparr>lk_client := C_connect\<rparr> else (lk_say Socket_failed s)\<lparr>lk_client := C_ended 1\<rparr>)"
| "lk_client_stmt en C_connect s = Some (s\<lparr>lk_conn := lk_listening s, lk_client := C_write\<rparr>)"
| "lk_client_stmt en C_write s =
     Some (if lk_conn s then s\<lparr>lk_c2s := lk_c2s s @ lk_hello, lk_client := C_read\<rparr> else s\<lparr>lk_client := C_read\<rparr>)"
| "lk_client_stmt en C_read s =
     (if \<not> lk_conn s then Some (s\<lparr>lk_client := C_print\<rparr>)
      else if lk_s2c s \<noteq> [] then Some (s\<lparr>lk_cbuf := Some (take 100 (lk_s2c s)), lk_s2c := drop 100 (lk_s2c s), lk_client := C_print\<rparr>)
      else case lk_server s of S_ended n \<Rightarrow> Some (s\<lparr>lk_client := C_print\<rparr>) | _ \<Rightarrow> None)"
| "lk_client_stmt en C_print s = Some ((lk_say (Client_got (map_option lk_string (lk_cbuf s))) s)\<lparr>lk_client := C_ended 0\<rparr>)"
| "lk_client_stmt en _ s = None"

text \<open>
  \<open>listen\<close> and \<open>accept\<close> fail if \<open>bind\<close> has; \<open>accept\<close> waits for a connection. With \<open>fd_client\<close> at -1 the \<open>read\<close> and \<open>write\<close>
  fail. The client's end cannot close before it has the answer unless it is not connected.
\<close>

fun lk_server_stmt :: "lk_env \<Rightarrow> lk_server \<Rightarrow> lk_state \<Rightarrow> lk_state option" where
  "lk_server_stmt en S_socket s =
     Some (if en_ssock en then s\<lparr>lk_server := S_bind\<rparr> else (lk_say Socket_failed s)\<lparr>lk_server := S_ended 1\<rparr>)"
| "lk_server_stmt en S_bind s = Some (s\<lparr>lk_bound := en_bind en, lk_server := S_listen\<rparr>)"
| "lk_server_stmt en S_listen s = Some (s\<lparr>lk_listening := lk_bound s, lk_server := S_accept\<rparr>)"
| "lk_server_stmt en S_accept s =
     (if \<not> lk_listening s then Some (s\<lparr>lk_server := S_read\<rparr>)
      else if lk_conn s then Some (s\<lparr>lk_accepted := True, lk_server := S_read\<rparr>) else None)"
| "lk_server_stmt en S_read s =
     (if \<not> lk_accepted s then Some (s\<lparr>lk_server := S_print\<rparr>)
      else if lk_c2s s \<noteq> [] then Some (s\<lparr>lk_sbuf := Some (take 100 (lk_c2s s)), lk_c2s := drop 100 (lk_c2s s), lk_server := S_print\<rparr>)
      else case lk_client s of C_ended n \<Rightarrow> Some (s\<lparr>lk_server := S_print\<rparr>) | _ \<Rightarrow> None)"
| "lk_server_stmt en S_print s = Some ((lk_say (Server_got (map_option lk_string (lk_sbuf s))) s)\<lparr>lk_server := S_write\<rparr>)"
| "lk_server_stmt en S_write s =
     Some (if lk_accepted s then s\<lparr>lk_s2c := lk_s2c s @ lk_bye, lk_server := S_ended 0\<rparr> else s\<lparr>lk_server := S_ended 0\<rparr>)"
| "lk_server_stmt en (S_ended n) s = None"

definition lk_step :: "lk_env \<Rightarrow> lk_event \<Rightarrow> lk_state \<Rightarrow> lk_state option" where
  "lk_step en e s = (case e of Client \<Rightarrow> lk_client_stmt en (lk_client s) s | Server \<Rightarrow> lk_server_stmt en (lk_server s) s)"

text \<open>After \<open>unlink\<close> and \<open>fork\<close>; the result -1 is not 0, so the process goes on as the server, with no client.\<close>

definition lk_start :: "lk_env \<Rightarrow> lk_state" where
  "lk_start en = \<lparr>lk_client = (if en_fork en then C_socket else C_unborn), lk_server = S_socket, lk_bound = False, lk_listening = False,
     lk_conn = False, lk_accepted = False, lk_c2s = [], lk_s2c = [], lk_cbuf = None, lk_sbuf = None, lk_out = []\<rparr>"

section \<open>The exchange\<close>

text \<open>How far each process is; once they are connected this determines the whole state.\<close>

fun lk_cp :: "lk_client \<Rightarrow> nat" where
  "lk_cp C_unborn = 0"
| "lk_cp C_socket = 0"
| "lk_cp C_connect = 1"
| "lk_cp C_write = 2"
| "lk_cp C_read = 3"
| "lk_cp C_print = 4"
| "lk_cp (C_ended n) = 5"

fun lk_sp :: "lk_server \<Rightarrow> nat" where
  "lk_sp S_socket = 0"
| "lk_sp S_bind = 1"
| "lk_sp S_listen = 2"
| "lk_sp S_accept = 3"
| "lk_sp S_read = 4"
| "lk_sp S_print = 5"
| "lk_sp S_write = 6"
| "lk_sp (S_ended n) = 7"

definition lk_common :: "nat \<Rightarrow> nat \<Rightarrow> lk_state \<Rightarrow> bool" where
  "lk_common c v s \<longleftrightarrow> lk_client s \<noteq> C_unborn \<and> (c = 5 \<longrightarrow> lk_client s = C_ended 0) \<and> (v = 7 \<longrightarrow> lk_server s = S_ended 0)
     \<and> (lk_bound s \<longleftrightarrow> 2 \<le> v) \<and> (lk_listening s \<longleftrightarrow> 3 \<le> v) \<and> (lk_accepted s \<longleftrightarrow> 4 \<le> v)"

definition lk_together :: "nat \<Rightarrow> nat \<Rightarrow> lk_state \<Rightarrow> bool" where
  "lk_together c v s \<longleftrightarrow> 2 \<le> c \<and> 3 \<le> v \<and> (5 \<le> v \<longrightarrow> 3 \<le> c) \<and> (4 \<le> c \<longrightarrow> v = 7)
     \<and> lk_c2s s = (if 3 \<le> c \<and> v \<le> 4 then lk_hello else []) \<and> lk_s2c s = (if v = 7 \<and> c \<le> 3 then lk_bye else [])
     \<and> lk_sbuf s = (if 5 \<le> v then Some lk_hello else None) \<and> lk_cbuf s = (if 4 \<le> c then Some lk_bye else None)
     \<and> lk_out s = (if 6 \<le> v then [Server_got (Some ''hello!'')] else []) @ (if c = 5 then [Client_got (Some ''get out!'')] else [])"

definition lk_apart :: "nat \<Rightarrow> nat \<Rightarrow> lk_state \<Rightarrow> bool" where
  "lk_apart c v s \<longleftrightarrow> v \<le> 3 \<and> lk_c2s s = [] \<and> lk_s2c s = [] \<and> lk_sbuf s = None \<and> lk_cbuf s = None
     \<and> lk_out s = (if c = 5 then [Client_got None] else [])"

definition lk_inv :: "lk_state \<Rightarrow> bool" where
  "lk_inv s \<longleftrightarrow> lk_common (lk_cp (lk_client s)) (lk_sp (lk_server s)) s
     \<and> (lk_conn s \<longrightarrow> lk_together (lk_cp (lk_client s)) (lk_sp (lk_server s)) s)
     \<and> (\<not> lk_conn s \<longrightarrow> lk_apart (lk_cp (lk_client s)) (lk_sp (lk_server s)) s)"

lemmas lk_inv_defs = lk_inv_def lk_common_def lk_together_def lk_apart_def

definition lk_works :: lk_env where
  "lk_works = \<lparr>en_fork = True, en_csock = True, en_ssock = True, en_bind = True\<rparr>"

lemma lk_strings [simp]:
  "lk_string lk_hello = ''hello!''" "lk_string lk_bye = ''get out!''" "lk_hello \<noteq> []" "lk_bye \<noteq> []" "[] \<noteq> lk_hello" "[] \<noteq> lk_bye"
  "length lk_hello \<le> 100" "length lk_bye \<le> 100" "take 100 lk_hello = lk_hello" "take 100 lk_bye = lk_bye" "drop 100 lk_hello = []" "drop 100 lk_bye = []"
  by (simp_all add: lk_string_def lk_hello_def lk_bye_def)

lemma lk_inv_client:
  assumes inv: "lk_inv s" and st: "lk_client_stmt lk_works (lk_client s) s = Some t"
  shows "lk_inv t"
proof (cases "lk_client s")
  case C_socket
  with st have t: "t = s\<lparr>lk_client := C_connect\<rparr>" by (simp add: lk_works_def)
  from inv C_socket show ?thesis unfolding t lk_inv_defs by simp
next
  case C_connect
  with st have t: "t = s\<lparr>lk_conn := lk_listening s, lk_client := C_write\<rparr>" by simp
  from inv C_connect show ?thesis unfolding t lk_inv_defs by auto
next
  case C_write
  with st have t: "t = (if lk_conn s then s\<lparr>lk_c2s := lk_c2s s @ lk_hello, lk_client := C_read\<rparr> else s\<lparr>lk_client := C_read\<rparr>)" by simp
  from inv C_write show ?thesis unfolding t lk_inv_defs by (cases "lk_conn s") simp_all
next
  case C_read
  with st have "t = s\<lparr>lk_client := C_print\<rparr> \<and> (\<not> lk_conn s \<or> lk_s2c s = [] \<and> lk_sp (lk_server s) = 7)
      \<or> t = s\<lparr>lk_cbuf := Some (take 100 (lk_s2c s)), lk_s2c := drop 100 (lk_s2c s), lk_client := C_print\<rparr> \<and> lk_conn s \<and> lk_s2c s \<noteq> []"
    by (auto split: if_splits lk_server.splits)
  with inv C_read show ?thesis unfolding lk_inv_defs by (elim disjE) (auto split: if_splits)
next
  case C_print
  with st have t: "t = (lk_say (Client_got (map_option lk_string (lk_cbuf s))) s)\<lparr>lk_client := C_ended 0\<rparr>" by simp
  from inv C_print show ?thesis unfolding t lk_inv_defs lk_say_def by (cases "lk_conn s") simp_all
qed (use st in simp_all)

lemma lk_inv_server:
  assumes inv: "lk_inv s" and st: "lk_server_stmt lk_works (lk_server s) s = Some t"
  shows "lk_inv t"
proof (cases "lk_server s")
  case S_socket
  with st have t: "t = s\<lparr>lk_server := S_bind\<rparr>" by (simp add: lk_works_def)
  from inv S_socket show ?thesis unfolding t lk_inv_defs by simp
next
  case S_bind
  with st have t: "t = s\<lparr>lk_bound := True, lk_server := S_listen\<rparr>" by (simp add: lk_works_def)
  from inv S_bind show ?thesis unfolding t lk_inv_defs by simp
next
  case S_listen
  with st have t: "t = s\<lparr>lk_listening := lk_bound s, lk_server := S_accept\<rparr>" by simp
  from inv S_listen show ?thesis unfolding t lk_inv_defs by simp
next
  case S_accept
  with st inv have t: "t = s\<lparr>lk_accepted := True, lk_server := S_read\<rparr>" "lk_conn s"
    unfolding lk_inv_defs by (auto split: if_splits)
  from inv S_accept t(2) show ?thesis unfolding t(1) lk_inv_defs by simp
next
  case S_read
  with st inv have "lk_conn s" unfolding lk_inv_defs by (cases "lk_conn s") simp_all
  with S_read inv have c: "3 \<le> lk_cp (lk_client s) \<or> lk_c2s s = []" "lk_cp (lk_client s) < 4" "lk_accepted s" unfolding lk_inv_defs by auto
  then have "\<And>n. lk_client s \<noteq> C_ended n" by auto
  with c st S_read have t: "t = s\<lparr>lk_sbuf := Some (take 100 (lk_c2s s)), lk_c2s := drop 100 (lk_c2s s), lk_server := S_print\<rparr>" "lk_c2s s \<noteq> []"
    by (auto split: if_splits lk_client.splits)
  from inv S_read \<open>lk_conn s\<close> t(2) show ?thesis unfolding t(1) lk_inv_defs by (auto split: if_splits)
next
  case S_print
  with st have t: "t = (lk_say (Server_got (map_option lk_string (lk_sbuf s))) s)\<lparr>lk_server := S_write\<rparr>" by simp
  from inv S_print show ?thesis unfolding t lk_inv_defs lk_say_def by (cases "lk_conn s") simp_all
next
  case S_write
  with st inv have t: "t = s\<lparr>lk_s2c := lk_s2c s @ lk_bye, lk_server := S_ended 0\<rparr>" "lk_conn s"
    unfolding lk_inv_defs by (cases "lk_conn s"; simp)+
  from inv S_write t(2) show ?thesis unfolding t(1) lk_inv_defs by simp
qed (use st in simp_all)

lemma lk_inv_step: "lk_inv s \<Longrightarrow> lk_step lk_works e s = Some t \<Longrightarrow> lk_inv t"
  by (cases e) (auto simp: lk_step_def intro: lk_inv_client lk_inv_server)

definition lk_left :: "lk_state \<Rightarrow> nat" where
  "lk_left s = (5 - lk_cp (lk_client s)) + (7 - lk_sp (lk_server s))"

lemma lk_left_step: "lk_step en e s = Some t \<Longrightarrow> lk_left t < lk_left s"
  by (cases e; cases "lk_client s"; cases "lk_server s")
    (auto simp: lk_step_def lk_left_def lk_say_def split: if_splits)

interpretation lk: step_measure "lk_step lk_works" "lk_start lk_works" lk_inv lk_left
proof unfold_locales
  show "lk_inv (lk_start lk_works)" by (simp add: lk_inv_defs lk_start_def lk_works_def)
qed (rule lk_inv_step, assumption+, rule lk_left_step)

text \<open>A client that called \<open>connect\<close> too early is never connected.\<close>

lemma lk_missed_step:
  "lk_step lk_works e s = Some t \<Longrightarrow> \<not> lk_conn s \<and> 2 \<le> lk_cp (lk_client s) \<Longrightarrow> \<not> lk_conn t \<and> 2 \<le> lk_cp (lk_client t)"
  by (cases e; cases "lk_client s"; cases "lk_server s")
    (auto simp: lk_step_def lk_say_def lk_works_def split: if_splits)

lemma lk_missed_reach:
  "reach (lk_step lk_works) s t \<Longrightarrow> \<not> lk_conn s \<and> 2 \<le> lk_cp (lk_client s) \<Longrightarrow> \<not> lk_conn t \<and> 2 \<le> lk_cp (lk_client t)"
  by (induction rule: reach.induct) (use lk_missed_step in blast)+

lemma lk_stuck:
  assumes inv: "lk_inv s" and stuck: "\<forall>e. lk_step lk_works e s = None"
  shows "lk_client s = C_ended 0 \<and> (if lk_conn s then lk_server s = S_ended 0 else lk_server s = S_accept)"
proof -
  from stuck have c: "lk_client_stmt lk_works (lk_client s) s = None" and v: "lk_server_stmt lk_works (lk_server s) s = None"
    by (auto simp: lk_step_def dest: spec [of _ Client] spec [of _ Server])
  from inv have common: "lk_common (lk_cp (lk_client s)) (lk_sp (lk_server s)) s"
    and tog: "lk_conn s \<Longrightarrow> lk_together (lk_cp (lk_client s)) (lk_sp (lk_server s)) s"
    and apart: "\<not> lk_conn s \<Longrightarrow> lk_apart (lk_cp (lk_client s)) (lk_sp (lk_server s)) s" by (simp_all add: lk_inv_def)
  have v': "lk_server s = S_accept \<and> \<not> lk_conn s \<or> lk_server s = S_ended 0 \<and> lk_conn s \<or> lk_server s = S_read \<and> lk_c2s s = [] \<and> lk_conn s"
  proof (cases "lk_server s")
    case S_read
    with v have "lk_c2s s = []" by (simp split: if_splits)
    with S_read apart show ?thesis by (auto simp: lk_apart_def)
  next
    case (S_ended n)
    with common apart show ?thesis by (auto simp: lk_common_def lk_apart_def)
  qed (use v in \<open>simp_all split: if_splits\<close>)
  have c': "lk_client s = C_ended 0 \<or> lk_client s = C_read \<and> lk_conn s \<and> lk_s2c s = [] \<and> (\<forall>n. lk_server s \<noteq> S_ended n)"
  proof (cases "lk_client s")
    case C_read
    with c show ?thesis by (simp split: if_splits lk_server.splits)
  qed (use c common in \<open>simp_all add: lk_common_def\<close>)
  show ?thesis
  proof (cases "lk_conn s")
    case True
    with tog have "lk_together (lk_cp (lk_client s)) (lk_sp (lk_server s)) s" by simp
    with c' v' True show ?thesis by (elim disjE) (auto simp: lk_together_def)
  qed (use c' v' in simp)
qed

text \<open>C18: \<open>unix-socket/main.c\<close>, its calls succeeding, ends within 12 statements. If the client connects after the server has called
  \<open>listen\<close>, nothing can stop them before both have ended, the server having printed the client's message and then the client
  the server's. If it connects earlier, it prints whatever its buffer holds, and the server
  waits in \<open>accept\<close> for ever. Both happen.\<close>

theorem lk_exchange:
  "(\<forall>es s. exec (lk_step lk_works) es (lk_start lk_works) = Some s \<longrightarrow>
      length es \<le> 12
    \<and> (lk_conn s \<longrightarrow> ((\<forall>e. lk_step lk_works e s = None) \<longleftrightarrow> lk_client s = C_ended 0 \<and> lk_server s = S_ended 0)
        \<and> (lk_client s = C_ended 0 \<longrightarrow> lk_out s = [Server_got (Some ''hello!''), Client_got (Some ''get out!'')]))
    \<and> (\<not> lk_conn s \<and> 2 \<le> lk_cp (lk_client s) \<longrightarrow> (\<forall>t. reach (lk_step lk_works) s t \<longrightarrow>
          lk_server t \<in> {S_socket, S_bind, S_listen, S_accept} \<and> lk_out t = (if lk_client t = C_ended 0 then [Client_got None] else [])
        \<and> ((\<forall>e. lk_step lk_works e t = None) \<longleftrightarrow> lk_client t = C_ended 0 \<and> lk_server t = S_accept))))
   \<and> (\<exists>s. reach (lk_step lk_works) (lk_start lk_works) s \<and> lk_conn s \<and> lk_client s = C_ended 0)
   \<and> (\<exists>s. reach (lk_step lk_works) (lk_start lk_works) s \<and> \<not> lk_conn s \<and> lk_client s = C_ended 0)"
proof (intro conjI allI impI)
  fix es s assume ex: "exec (lk_step lk_works) es (lk_start lk_works) = Some s"
  have inv: "lk_inv s" by (rule lk.exec_inv [OF lk.inv_init ex])
  show "length es \<le> 12" using lk.exec_length [OF ex] by (simp add: lk_left_def lk_start_def lk_works_def)
  show "(\<forall>e. lk_step lk_works e s = None) \<longleftrightarrow> lk_client s = C_ended 0 \<and> lk_server s = S_ended 0" if "lk_conn s"
    using lk_stuck [OF inv] that by (auto simp: lk_step_def split: lk_event.split)
  show "lk_out s = [Server_got (Some ''hello!''), Client_got (Some ''get out!'')]" if "lk_conn s" "lk_client s = C_ended 0"
    using inv that by (auto simp: lk_inv_defs)
  fix t assume missed: "\<not> lk_conn s \<and> 2 \<le> lk_cp (lk_client s)" and r: "reach (lk_step lk_works) s t"
  have m: "\<not> lk_conn t" using lk_missed_reach [OF r missed] by simp
  have invt: "lk_inv t" using lk.reach_inv [OF reach_trans [OF r exec_reach [OF ex]]] .
  show "lk_server t \<in> {S_socket, S_bind, S_listen, S_accept}"
    using invt m by (cases "lk_server t") (auto simp: lk_inv_defs)
  show "lk_out t = (if lk_client t = C_ended 0 then [Client_got None] else [])"
    using invt m by (cases "lk_client t") (auto simp: lk_inv_defs)
  show "(\<forall>e. lk_step lk_works e t = None) \<longleftrightarrow> lk_client t = C_ended 0 \<and> lk_server t = S_accept"
  proof
    assume "\<forall>e. lk_step lk_works e t = None"
    from lk_stuck [OF invt this] m show "lk_client t = C_ended 0 \<and> lk_server t = S_accept" by simp
  next
    assume ended: "lk_client t = C_ended 0 \<and> lk_server t = S_accept"
    with invt have "lk_listening t" by (simp add: lk_inv_defs)
    with ended m show "\<forall>e. lk_step lk_works e t = None" by (simp add: lk_step_def split: lk_event.split)
  qed
next
  have "runs (lk_step lk_works) [Server, Server, Server, Client, Client, Client, Server, Server, Server, Server, Client, Client]
      (lk_start lk_works) (\<lambda>s. lk_conn s \<and> lk_client s = C_ended 0)"
    by code_simp
  from runs_reach [OF this] show "\<exists>s. reach (lk_step lk_works) (lk_start lk_works) s \<and> lk_conn s \<and> lk_client s = C_ended 0" .
  have "runs (lk_step lk_works) [Client, Client, Client, Client, Client] (lk_start lk_works) (\<lambda>s. \<not> lk_conn s \<and> lk_client s = C_ended 0)"
    by code_simp
  from runs_reach [OF this] show "\<exists>s. reach (lk_step lk_works) (lk_start lk_works) s \<and> \<not> lk_conn s \<and> lk_client s = C_ended 0" .
qed

theorem lk_exchange_witness:
  "\<exists>s. exec (lk_step lk_works) [Client, Server, Client, Client, Server] (lk_start lk_works) = Some s \<and> \<not> lk_conn s
    \<and> (\<forall>t. reach (lk_step lk_works) s t \<longrightarrow> lk_server t \<in> {S_socket, S_bind, S_listen, S_accept})"
proof -
  have "runs (lk_step lk_works) [Client, Server, Client, Client, Server] (lk_start lk_works) (\<lambda>s. \<not> lk_conn s \<and> 2 \<le> lk_cp (lk_client s))"
    by code_simp
  from runs_exec [OF this] obtain s where ex: "exec (lk_step lk_works) [Client, Server, Client, Client, Server] (lk_start lk_works) = Some s"
    and s: "\<not> lk_conn s \<and> 2 \<le> lk_cp (lk_client s)" by blast
  from conjunct1 [OF lk_exchange, THEN spec, THEN spec, THEN mp, OF ex] s
  have "\<forall>t. reach (lk_step lk_works) s t \<longrightarrow> lk_server t \<in> {S_socket, S_bind, S_listen, S_accept}" by blast
  with ex s show ?thesis by blast
qed

section \<open>\<open>inetd/accept-rw.c\<close>\<close>

text \<open>
  What \<open>accept\<close> returns, the reads on the connection, and what \<open>write\<close> returns for a buffer. A read error ends the
  loop like the end of the data, and a short write is not completed.
\<close>

fun ar_loop :: "(string \<Rightarrow> int) \<Rightarrow> rd list \<Rightarrow> string \<times> served" where
  "ar_loop wr [] = ([], Reading)"
| "ar_loop wr (Eof # rs) = ([], Ended)"
| "ar_loop wr (Rd_error # rs) = ([], Ended)"
| "ar_loop wr (Data d # rs) =
     (if wr d < 0 then ([], Err ''write failed'')
      else let l = ar_loop wr rs in (take (nat (wr d)) d @ fst l, snd l))"

definition ar_main :: "(string \<Rightarrow> int) \<Rightarrow> rd list option \<Rightarrow> string \<times> served" where
  "ar_main wr accepted = (case accepted of None \<Rightarrow> ([], Err ''accept failed'') | Some rs \<Rightarrow> ar_loop wr rs)"

text \<open>With complete writes the peer gets back what \<open>trivial-tcp-echo-server.c\<close> would have sent it; with writes
  of one byte each, only the first byte of every buffer.\<close>

theorem ar_reflects:
  "ar_main (\<lambda>d. int (length d)) (conn ds) = (sent_to Peer (fst (te_loop [conn ds])), Ended)"
  "\<forall>d \<in> set ds. d \<noteq> [] \<Longrightarrow> ar_main (\<lambda>d. 1) (conn ds) = (map hd ds, Ended)"
proof -
  have "ar_loop (\<lambda>d. int (length d)) (map Data ds @ [Eof]) = (concat ds, Ended)" by (induction ds) simp_all
  then show "ar_main (\<lambda>d. int (length d)) (conn ds) = (sent_to Peer (fst (te_loop [conn ds])), Ended)"
    using sv_loop_data [of "[Stdout, Peer]" Peer "[Log ''-- connection accepted --'']" "[ds]"]
    by (simp add: ar_main_def conn_def te_loop_def)
  have "ar_loop (\<lambda>d. 1) (map Data ds @ [Eof]) = (map hd ds, Ended)" if "\<forall>d \<in> set ds. d \<noteq> []"
    using that by (induction ds) (auto simp: neq_Nil_conv)
  then show "\<forall>d \<in> set ds. d \<noteq> [] \<Longrightarrow> ar_main (\<lambda>d. 1) (conn ds) = (map hd ds, Ended)" by (simp add: ar_main_def conn_def)
qed

end
