(* ===== verification/Process_Environment.thy ===== *)
theory Process_Environment
  imports File_Programs Process_Status Processes
begin

text \<open>
  What a process gets when it starts: the programs \<open>putenv.c\<close>, \<open>getenv.c\<close>, \<open>print-argv.c\<close> and \<open>print-env.c\<close> of \<open>main/\<close> and the
  programs of \<open>exec/\<close>, which start others. The environment is a list of pointers to arrays of characters, so that a
  change of such an array is a change of the environment.
\<close>

section \<open>The environment\<close>

text \<open>
  The memory maps the address of an array to its characters; an entry of \<open>environ\<close> is such an address. \<open>getenv\<close> returns a pointer
  into an array: its address and an offset.
\<close>

type_synonym ev_memory = "nat \<Rightarrow> string"

definition ev_entry :: "ev_memory \<Rightarrow> nat \<Rightarrow> string" where
  "ev_entry m b = c_string (m b)"

definition ev_string :: "ev_memory \<Rightarrow> nat \<times> nat \<Rightarrow> string" where
  "ev_string m p = c_string (drop (snd p) (m (fst p)))"

definition ev_names :: "ev_memory \<Rightarrow> string \<Rightarrow> nat \<Rightarrow> bool" where
  "ev_names m n b \<longleftrightarrow> take (Suc (length n)) (ev_entry m b) = n @ ''=''"

definition getenv :: "ev_memory \<Rightarrow> nat list \<Rightarrow> string \<Rightarrow> (nat \<times> nat) option" where
  "getenv m env n = map_option (\<lambda>b. (b, Suc (length n))) (List.find (ev_names m n) env)"

text \<open>The name an entry has, if it has one; \<open>putenv\<close> of a string without \<open>=\<close> removes the variable.\<close>

definition ev_name :: "ev_memory \<Rightarrow> nat \<Rightarrow> string option" where
  "ev_name m b = (if CHR ''='' \<in> set (ev_entry m b) then Some (takeWhile (\<lambda>c. c \<noteq> CHR ''='') (ev_entry m b)) else None)"

fun ev_replace :: "(nat \<Rightarrow> bool) \<Rightarrow> nat \<Rightarrow> nat list \<Rightarrow> nat list" where
  "ev_replace p b [] = [b]"
| "ev_replace p b (e # es) = (if p e then b # es else e # ev_replace p b es)"

definition putenv :: "ev_memory \<Rightarrow> nat list \<Rightarrow> nat \<Rightarrow> nat list" where
  "putenv m env b = (case ev_name m b of
     None \<Rightarrow> filter (\<lambda>e. \<not> ev_names m (ev_entry m b) e) env
   | Some n \<Rightarrow> ev_replace (ev_names m n) b env)"

text \<open>What programs rely on, for a memory that does not change.\<close>

locale env_vars =
  fixes get :: "'e \<Rightarrow> string \<Rightarrow> 'p option" and put :: "'e \<Rightarrow> 'b \<Rightarrow> 'e" and name_of :: "'b \<Rightarrow> string option" and at :: "'b \<Rightarrow> 'p"
  assumes get_put: "name_of b = Some n \<Longrightarrow> get (put e b) n = Some (at b)"
    and get_put_other: "name_of b = Some n \<Longrightarrow> n' \<noteq> n \<Longrightarrow> CHR ''='' \<notin> set n' \<Longrightarrow> get (put e b) n' = get e n'"
begin

lemma get_foldl_other:
  "\<forall>b \<in> set bs. \<exists>n. name_of b = Some n \<and> n \<noteq> n' \<Longrightarrow> CHR ''='' \<notin> set n' \<Longrightarrow> get (foldl put e bs) n' = get e n'"
proof (induction bs arbitrary: e)
  case (Cons b bs)
  from Cons.prems(1) obtain n where "name_of b = Some n" "n' \<noteq> n" by auto
  from get_put_other [OF this Cons.prems(2)] Cons show ?case by simp
qed simp

text \<open>The last setting counts.\<close>

lemma get_last:
  assumes "name_of b = Some n" "CHR ''='' \<notin> set n" "\<forall>c \<in> set cs. \<exists>k. name_of c = Some k \<and> k \<noteq> n"
  shows "get (foldl put e (bs @ b # cs)) n = Some (at b)"
  using get_foldl_other [OF assms(3,2)] get_put [OF assms(1)] by simp

end

lemma take_before: "c \<notin> set k \<Longrightarrow> takeWhile (\<lambda>x. x \<noteq> c) (k @ c # r) = k"
  by (induction k) auto

lemma ev_names_unique:
  assumes "ev_names m n b" "ev_names m n' b" "CHR ''='' \<notin> set n" "CHR ''='' \<notin> set n'"
  shows "n = n'"
proof -
  have "takeWhile (\<lambda>c. c \<noteq> CHR ''='') (ev_entry m b) = k" if "ev_names m k b" "CHR ''='' \<notin> set k" for k
  proof -
    have "ev_entry m b = (k @ ''='') @ drop (Suc (length k)) (ev_entry m b)"
      using that(1) append_take_drop_id [of "Suc (length k)" "ev_entry m b"] by (simp add: ev_names_def)
    then have "ev_entry m b = k @ CHR ''='' # drop (Suc (length k)) (ev_entry m b)" by simp
    then show ?thesis using take_before [OF that(2)] by metis
  qed
  with assms show ?thesis by metis
qed

lemma ev_name_names:
  assumes "ev_name m b = Some n"
  shows "ev_names m n b" "CHR ''='' \<notin> set n"
proof -
  let ?s = "ev_entry m b"
  from assms have eq: "CHR ''='' \<in> set ?s" and n: "n = takeWhile (\<lambda>c. c \<noteq> CHR ''='') ?s" by (auto simp: ev_name_def split: if_splits)
  then show "CHR ''='' \<notin> set n" by (auto dest: set_takeWhileD)
  from split_list_first [OF eq] obtain k r where s: "?s = k @ CHR ''='' # r" and k: "CHR ''='' \<notin> set k" by blast
  with take_before [OF k] n have "?s = n @ CHR ''='' # r" by simp
  then show "ev_names m n b" by (simp add: ev_names_def)
qed

lemma find_replace: "p b \<Longrightarrow> List.find p (ev_replace p b es) = Some b"
  by (induction es) auto

lemma find_replace_other: "\<not> q b \<Longrightarrow> (\<And>e. p e \<Longrightarrow> \<not> q e) \<Longrightarrow> List.find q (ev_replace p b es) = List.find q es"
  by (induction es) auto

interpretation env: env_vars "getenv m" "putenv m" "ev_name m" "\<lambda>b. (b, Suc (length (the (ev_name m b))))" for m
proof
  fix b n e assume n: "ev_name m b = Some n"
  from find_replace [of "ev_names m n", OF ev_name_names(1) [OF n]] n
  show "getenv m (putenv m e b) n = Some (b, Suc (length (the (ev_name m b))))" by (simp add: getenv_def putenv_def)
next
  fix b n n' e assume n: "ev_name m b = Some n" and n': "n' \<noteq> n" "CHR ''='' \<notin> set n'"
  have "\<not> ev_names m n' x" if "ev_names m n x" for x using ev_names_unique [OF that] ev_name_names(2) [OF n] n' by metis
  from find_replace_other [of "ev_names m n'" b "ev_names m n", OF this [OF ev_name_names(1) [OF n]] this] n
  show "getenv m (putenv m e b) n' = getenv m e n'" by (simp add: getenv_def putenv_def)
qed

section \<open>\<open>putenv.c\<close>\<close>

text \<open>\<open>strncpy\<close> pads with null bytes up to the size given and leaves no terminator if the source is as long.\<close>

definition strncpy :: "string \<Rightarrow> string \<Rightarrow> nat \<Rightarrow> string" where
  "strncpy dst src n = take n (src @ replicate (n - length src) (CHR 0x00)) @ drop n dst"

text \<open>
  The program, for the memory and the environment it starts with, the address of its array \<open>foo\<close> and whether \<open>putenv\<close>
  succeeds, which it does not check. The result is the lines it prints, and memory and environment at its end. Where
  \<open>getenv\<close> returns NULL, \<open>printf("%s\n", NULL)\<close> is undefined: there is no result (\<^term>\<open>None\<close>).
\<close>

definition pe_main :: "bool \<Rightarrow> ev_memory \<Rightarrow> nat list \<Rightarrow> nat \<Rightarrow> (string list \<times> ev_memory \<times> nat list) option" where
  "pe_main works m env foo =
     (let m1 = m(foo := ''FOO=BAR'' @ replicate 9 (CHR 0x00));
          env1 = (if works then putenv m1 env foo else env);
          line1 = map_option (ev_string m1) (getenv m1 env1 ''FOO'');
          m2 = m1(foo := strncpy (m1 foo) ''FOO=RAB'' 16);
          line2 = map_option (ev_string m2) (getenv m2 env1 ''FOO'')
      in case (line1, line2) of (Some l1, Some l2) \<Rightarrow> Some ([l1, l2], m2, env1) | _ \<Rightarrow> None)"

lemma c_string_nulls [simp]: "c_string (replicate n (CHR 0x00)) = []"
  by (cases n) simp_all

lemma getenv_update: "b \<notin> set env \<Longrightarrow> getenv (m(b := x)) env n = getenv m env n"
proof -
  assume b: "b \<notin> set env"
  have "List.find (ev_names (m(b := x)) n) env = List.find (ev_names m n) env"
    by (rule find_cong) (use b in \<open>auto simp: ev_names_def ev_entry_def\<close>)
  then show ?thesis by (simp add: getenv_def)
qed

lemma getenv_in: "getenv m env n = Some p \<Longrightarrow> fst p \<in> set env"
  by (auto simp: getenv_def find_Some_iff)

text \<open>Changing the characters after the name does not change which entry is found.\<close>

lemma getenv_same_name:
  "ev_name (m(b := x)) b = ev_name (m(b := y)) b \<Longrightarrow> ev_name (m(b := x)) b = Some k \<Longrightarrow> CHR ''='' \<notin> set n
    \<Longrightarrow> getenv (m(b := x)) env n = getenv (m(b := y)) env n"
proof -
  assume same: "ev_name (m(b := x)) b = ev_name (m(b := y)) b" and k: "ev_name (m(b := x)) b = Some k" and n: "CHR ''='' \<notin> set n"
  have "ev_names (m(b := x)) n e = ev_names (m(b := y)) n e" for e
  proof (cases "e = b")
    case True
    from ev_name_names [OF k] ev_name_names [of "m(b := y)" b k] same k
    have "ev_names (m(b := z)) n b \<longleftrightarrow> n = k" if "z \<in> {x, y}" for z
      using that n ev_names_unique [of "m(b := z)" n b k] by auto
    with True show ?thesis by simp
  qed (simp add: ev_names_def ev_entry_def)
  then have "ev_names (m(b := x)) n = ev_names (m(b := y)) n" by (rule ext)
  then show ?thesis by (simp add: getenv_def)
qed

text \<open>C29: \<open>putenv.c\<close>: whatever the environment, the variable is BAR first and, without another call, RAB
  after the array has changed, for the environment points to the array. No other variable changes. If \<open>putenv\<close> fails,
  which is not noticed, the value FOO had before is printed twice; without one the program is undefined.\<close>

theorem putenv_aliases:
  assumes foo: "foo \<notin> set env"
  shows "(\<exists>m' env'. pe_main True m env foo = Some ([''BAR'', ''RAB''], m', env')
    \<and> (\<forall>n. n \<noteq> ''FOO'' \<and> CHR ''='' \<notin> set n \<longrightarrow>
         map_option (ev_string m') (getenv m' env' n) = map_option (ev_string m) (getenv m env n)))
    \<and> map_option fst (pe_main False m env foo) = map_option (\<lambda>p. [ev_string m p, ev_string m p]) (getenv m env ''FOO'')"
proof -
  define m1 where "m1 = m(foo := ''FOO=BAR'' @ replicate 9 (CHR 0x00))"
  define m2 where "m2 = m(foo := ''FOO=RAB'' @ replicate 9 (CHR 0x00))"
  have up: "m1(foo := strncpy (m1 foo) ''FOO=RAB'' 16) = m2"
    by (simp add: m1_def m2_def strncpy_def numeral_eq_Suc)
  have name1: "ev_name m1 foo = Some ''FOO''" and name2: "ev_name m2 foo = Some ''FOO''"
    by (simp_all add: m1_def m2_def ev_name_def ev_entry_def)
  have get1: "getenv m1 (putenv m1 env foo) ''FOO'' = Some (foo, 4)"
    using env.get_put [OF name1] by (simp add: name1)
  have same: "getenv m2 e n = getenv m1 e n" if "CHR ''='' \<notin> set n" for e n
    using name1 name2 getenv_same_name [OF _ _ that] unfolding m1_def m2_def by metis
  have get2: "getenv m2 (putenv m1 env foo) ''FOO'' = Some (foo, 4)" using get1 same [of "''FOO''"] by simp
  have res: "pe_main w m env foo = (case (map_option (ev_string m1) (getenv m1 (if w then putenv m1 env foo else env) ''FOO''),
      map_option (ev_string m2) (getenv m2 (if w then putenv m1 env foo else env) ''FOO'')) of
      (Some l1, Some l2) \<Rightarrow> Some ([l1, l2], m2, if w then putenv m1 env foo else env) | _ \<Rightarrow> None)" for w
    unfolding pe_main_def by (fold m1_def) (simp only: Let_def up)
  have out: "pe_main True m env foo = Some ([''BAR'', ''RAB''], m2, putenv m1 env foo)"
    using get1 get2 by (simp add: res) (simp add: m1_def m2_def ev_string_def)
  have "map_option (ev_string m2) (getenv m2 (putenv m1 env foo) n) = map_option (ev_string m) (getenv m env n)"
    if n: "n \<noteq> ''FOO''" "CHR ''='' \<notin> set n" for n
  proof -
    have "getenv m2 (putenv m1 env foo) n = getenv m env n"
      using same [OF n(2)] env.get_put_other [OF name1 n] getenv_update [OF foo] by (simp add: m1_def)
    moreover have "ev_string m2 p = ev_string m p" if "getenv m env n = Some p" for p
      using getenv_in [OF that] foo by (auto simp: ev_string_def m2_def)
    ultimately show ?thesis by (cases "getenv m env n") auto
  qed
  moreover have "map_option fst (pe_main False m env foo) = map_option (\<lambda>p. [ev_string m p, ev_string m p]) (getenv m env ''FOO'')"
  proof -
    have "ev_string m1 p = ev_string m p" "ev_string m2 p = ev_string m p" if "getenv m env ''FOO'' = Some p" for p
      using getenv_in [OF that] foo by (auto simp: ev_string_def m1_def m2_def)
    moreover have "getenv m1 env ''FOO'' = getenv m env ''FOO''" "getenv m2 env ''FOO'' = getenv m env ''FOO''"
      using getenv_update [OF foo] by (simp_all add: m1_def m2_def)
    ultimately show ?thesis by (cases "getenv m env ''FOO''") (simp_all add: res)
  qed
  ultimately show ?thesis using out by blast
qed

theorem putenv_aliases_witness:
  "map_option fst (pe_main True (\<lambda>b. ''FOO=old'' @ [CHR 0x00]) [1, 2] 0) = Some [''BAR'', ''RAB'']
   \<and> map_option fst (pe_main False (\<lambda>b. ''FOO=old'' @ [CHR 0x00]) [1, 2] 0) = Some [''old'', ''old'']"
proof -
  have "getenv (\<lambda>b. ''FOO=old'' @ [CHR 0x00]) [1, 2] ''FOO'' = Some (1, 4)" by code_simp
  moreover have "ev_string (\<lambda>b. ''FOO=old'' @ [CHR 0x00]) (1, 4) = ''old''" by code_simp
  ultimately show ?thesis using putenv_aliases [of 0 "[1, 2]" "\<lambda>b. ''FOO=old'' @ [CHR 0x00]"] by auto
qed

section \<open>\<open>getenv.c\<close>\<close>

text \<open>
  The lines go through the buffer of standard output (\<^const>\<open>io_put\<close>), of which the child gets a copy. The command that \<open>system\<close> runs writes
  to the descriptor at once; what it prints is \<open>sys\<close>, a function of the strings of its environment. glibc prints \<open>(null)\<close> for the
  pointer NULL. The child has no child to wait for and ends; its parent ends after it. \<open>x\<close> is the address of the literal
  \<open>"X=yyy"\<close>, \<open>forks\<close> tells whether \<open>fork\<close> succeeds: if not, the result -1 is taken for the parent's.
\<close>

definition ge_x :: string where
  "ge_x = ''X=yyy''"

definition ge_header :: "ev_memory \<Rightarrow> nat list \<Rightarrow> string list" where
  "ge_header m env =
     [''Printing USER env variable:'',
      ''USER='' @ (case getenv m env ''USER'' of None \<Rightarrow> ''(null)'' | Some p \<Rightarrow> ev_string m p),
      ''Now setting variable X to 'yyy'.'',
      ''And running env(1) to check whether it's set in a child...'']"

definition ge_main :: "bool \<Rightarrow> bool \<Rightarrow> (string list \<Rightarrow> string list) \<Rightarrow> ev_memory \<Rightarrow> nat list \<Rightarrow> nat \<Rightarrow> string list" where
  "ge_main tty forks sys m env x =
     (let io = fold (io_put tty) (ge_header m env) ([], []);
          env = putenv m env x
      in if \<not> forks then io_exit io
         else let child = io_put tty (nl @ ''[/usr/bin/env | grep X=]'') io;
                  child = (fst child, snd child @ sys (map (ev_entry m) env))
              in io_exit child @ fst io)"

lemma io_put_fold:
  "fold (io_put tty) ms (b, w) = (if tty then (b, w @ ms) else (b @ ms, w))"
  by (induction ms arbitrary: b w) (auto simp: io_put_def)

definition ge_lines :: "string list \<Rightarrow> string list" where
  "ge_lines es = filter (\<lambda>e. take 2 e = ''X='') es"

text \<open>\<open>getenv.c\<close>: the child's command sees the variable set, its first entry of that name being the new one, and USER is what it was. On a terminal the lines
  come once and in order. Otherwise the command's output comes first and the four lines of the parent twice, once from the child's copy of the
  buffer. If \<open>fork\<close> fails, only the four lines are printed.\<close>

theorem getenv_duplicates:
  assumes x: "m x = ge_x @ [CHR 0x00]"
  shows "\<exists>rest. ge_lines (map (ev_entry m) (putenv m env x)) = ge_x # rest"
    and "ge_main True True sys m env x =
      ge_header m env @ [nl @ ''[/usr/bin/env | grep X=]''] @ sys (map (ev_entry m) (putenv m env x))"
    and "ge_main False True sys m env x =
      sys (map (ev_entry m) (putenv m env x)) @ ge_header m env @ [nl @ ''[/usr/bin/env | grep X=]''] @ ge_header m env"
    and "ge_main tty False sys m env x = ge_header m env"
    and "ge_header m (putenv m env x) = ge_header m env"
proof -
  have name: "ev_name m x = Some ''X''" by (simp add: ev_name_def ev_entry_def x ge_x_def)
  have e: "ev_entry m x = ge_x" by (simp add: ev_entry_def x ge_x_def)
  have "\<exists>rest. ge_lines (map (ev_entry m) (ev_replace (ev_names m ''X'') x env)) = ge_x # rest"
    by (induction env) (auto simp: ge_lines_def ev_names_def e ge_x_def numeral_2_eq_2)
  then show "\<exists>rest. ge_lines (map (ev_entry m) (putenv m env x)) = ge_x # rest" by (simp add: putenv_def name)
  show "ge_header m (putenv m env x) = ge_header m env"
    using env.get_put_other [OF name, of "''USER''" env] by (simp add: ge_header_def)
qed (simp_all add: ge_main_def Let_def io_put_fold, simp_all add: io_put_def io_exit_def)

section \<open>The arguments: \<open>print-argv.c\<close> and \<open>print-env.c\<close>\<close>

text \<open>
  \<open>argv\<close> is an array of pointers that ends with NULL; the loops stop there. The numbered lines of the first two
  loops, the pointers from index \<open>i\<close> on; \<open>(null)\<close> is what glibc would print for NULL.
\<close>

definition pa_line :: "nat \<Rightarrow> string \<Rightarrow> string" where
  "pa_line i a = ''['' @ show_nat i @ ''] '' @ a"

fun pa_while :: "nat \<Rightarrow> string option list \<Rightarrow> string list" where
  "pa_while i (Some a # rest) = pa_line i a # pa_while (Suc i) rest"
| "pa_while i _ = []"

fun pa_simple :: "string option list \<Rightarrow> string list" where
  "pa_simple (Some a # rest) = a # pa_simple rest"
| "pa_simple _ = []"

definition pa_main :: "int \<Rightarrow> string option list \<Rightarrow> string list" where
  "pa_main argc argv =
     ''argv guided:'' # pa_while 0 argv
     @ ''argc guided:'' # map (\<lambda>i. pa_line i (case argv ! i of None \<Rightarrow> ''(null)'' | Some a \<Rightarrow> a)) [0..<nat argc]
     @ ''argv guided simplified:'' # pa_simple argv"

text \<open>\<open>environ\<close>, too, ends with NULL.\<close>

fun pn_main :: "ev_memory \<Rightarrow> nat option list \<Rightarrow> string list" where
  "pn_main m (Some b # rest) = ev_entry m b # pn_main m rest"
| "pn_main m _ = []"

lemma pn_prints: "pn_main m (map Some env @ [None]) = map (ev_entry m) env"
  by (induction env) simp_all

section \<open>\<open>exec-date.c\<close>, \<open>execl-buggy.c\<close>\<close>

text \<open>\<open>execl\<close> either replaces the program or returns; the arguments up to NULL become \<open>argv\<close>.\<close>

datatype image = Replaced string "string option list" | Remains exit_info

definition execl :: "bool \<Rightarrow> string \<Rightarrow> string option list \<Rightarrow> image" where
  "execl works path args = (if works then Replaced path (map Some (map the (takeWhile (\<lambda>a. a \<noteq> None) args)) @ [None]) else Remains (Exit 1 ''execl''))"

definition ed_main :: "bool \<Rightarrow> image" where
  "ed_main works = execl works ''/bin/date'' [Some ''date'', None]"

text \<open>As the kernels behave that accept a program without a name.\<close>

definition xb_main :: "bool \<Rightarrow> image" where
  "xb_main works = execl works ''/bin/ls'' [None]"

fun image_argv :: "image \<Rightarrow> string option list option" where
  "image_argv (Replaced path argv) = Some argv"
| "image_argv (Remains e) = None"

text \<open>\<open>print-argv.c\<close>: the three loops list the same arguments, for every list that \<open>exec\<close> can hand over, the empty one of \<open>execl-buggy.c\<close>
  included, which leaves three headings.\<close>

theorem argv_listings_agree:
  "pa_main (int (length as)) (map Some as @ [None]) =
     (let numbered = map (\<lambda>(i, a). pa_line i a) (zip [0..<length as] as)
      in ''argv guided:'' # numbered @ ''argc guided:'' # numbered @ ''argv guided simplified:'' # as)
   \<and> image_argv (xb_main True) = Some (map Some [] @ [None]) \<and> image_argv (ed_main True) = Some (map Some [''date''] @ [None])
   \<and> pa_main 0 (map Some [] @ [None]) = [''argv guided:'', ''argc guided:'', ''argv guided simplified:'']"
proof -
  have w: "pa_while i (map Some as @ [None]) = map (\<lambda>(i, a). pa_line i a) (zip [i..<i + length as] as)" for i
  proof (induction as arbitrary: i)
    case (Cons a as)
    have "[i..<i + length (a # as)] = i # [Suc i..<Suc i + length as]" by (simp add: upt_conv_Cons del: upt_Suc)
    then show ?case using Cons [of "Suc i"] by simp
  qed simp
  have s: "pa_simple (map Some as @ [None]) = as" by (induction as) simp_all
  have c: "map (\<lambda>i. pa_line i (case (map Some as @ [None]) ! i of None \<Rightarrow> ''(null)'' | Some a \<Rightarrow> a)) [0..<length as] =
      map (\<lambda>(i, a). pa_line i a) (zip [0..<length as] as)"
    by (rule nth_equalityI) (simp_all add: nth_append)
  show ?thesis using w [of 0] s c by (simp add: pa_main_def Let_def xb_main_def ed_main_def execl_def)
qed

section \<open>\<open>spawn.c\<close>\<close>

text \<open>What \<open>posix_spawn\<close> returns, the status word \<open>waitpid\<close> stores, and the process number. The text \<open>warn\<close> adds is the one for \<open>errno\<close>.\<close>

datatype spawn_report = Spawn_warn string | Spawn_failed string | Spawned int

definition spawnit :: "string \<Rightarrow> int \<Rightarrow> 32 word \<Rightarrow> int \<Rightarrow> spawn_report" where
  "spawnit prog error status pid =
     (if error \<noteq> 0 then Spawn_warn prog
      else if WEXITSTATUS status = 127 then Spawn_failed prog
      else Spawned pid)"

definition spw_main :: "(string \<Rightarrow> int \<times> 32 word \<times> int) \<Rightarrow> spawn_report list \<times> int" where
  "spw_main os = (map (\<lambda>p. case os p of (error, status, pid) \<Rightarrow> spawnit p error status pid) [''/bin/foo'', ''/bin/ps''], 0)"

lemma st_killed_status: "sig < 128 \<Longrightarrow> WEXITSTATUS (st_word (Killed_by sig core)) = 0"
proof -
  assume sig: "sig < 128"
  have "drop_bit 8 (of_nat sig :: 32 word) = 0"
  proof (rule word_unat_eq_iff [THEN iffD2])
    have "unat (of_nat sig :: 32 word) = sig" using sig by (simp add: unat_of_nat)
    then show "unat (drop_bit 8 (of_nat sig) :: 32 word) = unat (0 :: 32 word)" using sig
      by (simp add: drop_bit_eq_div unat_div)
  qed
  moreover have "drop_bit 8 (128 :: 32 word) = 0" by (simp add: drop_bit_eq_div)
  ultimately show ?thesis by (simp add: WEXITSTATUS_def exit_bits drop_bit_or)
qed

text \<open>\<open>spawn.c\<close> reports a program as started unless \<open>posix_spawn\<close> fails or the process ends with a status that is 127 modulo 256, be it
  the program's own; one killed by a signal counts as started. It exits with 0 in any case.\<close>

theorem spawn_reports:
  assumes "sig < 128"
  shows "spawnit p 0 (st_word (Exited_with c)) pid = (if c mod 256 = 127 then Spawn_failed p else Spawned pid)
    \<and> spawnit p 0 (st_word (Killed_by sig core)) pid = Spawned pid
    \<and> (error \<noteq> 0 \<longrightarrow> spawnit p error status pid = Spawn_warn p)
    \<and> snd (spw_main os) = 0"
  using st_exited(2) [of c] st_killed_status [OF assms] by (simp add: spawnit_def spw_main_def)

theorem spawn_reports_witness:
  "spawnit ''/bin/ps'' 0 (st_word (Exited_with 383)) 4711 = Spawn_failed ''/bin/ps''
    \<and> spawnit ''/bin/ps'' 0 (st_word (Killed_by 9 False)) 4711 = Spawned 4711"
  using spawn_reports [of 9 "''/bin/ps''" 383 4711 False] by simp

end
