(* ===== verification/Dynamic_Linking.thy ===== *)
theory Dynamic_Linking
  imports Process_Environment
begin

text \<open>
  Symbols and who resolves them: \<open>dlopen.c\<close> with its library \<open>libmy.c\<close>, the function that \<open>rtld_next.c\<close> puts in front of \<open>read\<close>,
  \<open>ld-lazy.c\<close>, the programs of \<open>linker/\<close>, and the two versions of the library of \<open>lib-abi/\<close>.
\<close>

section \<open>Functions that call functions: \<open>libmy.c\<close>, \<open>linker/\<close>\<close>

text \<open>
  The body of a function is what it prints and which other functions it calls. A symbol outside is resolved by \<open>others\<close>, which gives what
  the function prints, or \<open>None\<close> if no object defines it. Running a body gives the lines and the symbol that could not be resolved.
\<close>

datatype lib_act = Lib_print string | Lib_call string

type_synonym symbols = "string \<Rightarrow> string list option"

fun lib_run :: "symbols \<Rightarrow> lib_act list \<Rightarrow> string list \<times> string option" where
  "lib_run others [] = ([], None)"
| "lib_run others (Lib_print l # as) = (l # fst (lib_run others as), snd (lib_run others as))"
| "lib_run others (Lib_call f # as) =
     (case others f of
        None \<Rightarrow> ([], Some f)
      | Some out \<Rightarrow> (out @ fst (lib_run others as), snd (lib_run others as)))"

fun lib_needs :: "lib_act list \<Rightarrow> string list" where
  "lib_needs [] = []"
| "lib_needs (Lib_print l # as) = lib_needs as"
| "lib_needs (Lib_call f # as) = f # lib_needs as"

text \<open>With all symbols defined, every body runs to its end; this is what resolving at start ensures.\<close>

lemma lib_run_resolved: "\<forall>f \<in> set (lib_needs as). others f \<noteq> None \<Longrightarrow> snd (lib_run others as) = None"
  by (induction as rule: lib_needs.induct) auto

text \<open>\<open>myprint()\<close> of \<open>dyn-lib/libmy.c\<close>, \<open>myfn()\<close> of \<open>linker/libmy.c\<close> and the program that calls it.\<close>

definition myprint :: "lib_act list" where
  "myprint = [Lib_print ''hello'', Lib_call ''foo'']"

definition myfn :: "lib_act list" where
  "myfn = [Lib_print ''called myfn'']"

definition lm_main :: "lib_act list" where
  "lm_main = [Lib_call ''myfn'']"

definition la_main :: "int \<Rightarrow> string list" where
  "la_main b = [show_int b]"

definition lb_b :: int where
  "lb_b = 13"

lemma linked: "lib_run [''myfn'' \<mapsto> fst (lib_run Map.empty myfn)] lm_main = ([''called myfn''], None)"
  by (simp add: lm_main_def myfn_def)

section \<open>\<open>dlopen.c\<close>\<close>

datatype dl_flag = RTLD_NOW | RTLD_LAZY

text \<open>
  \<open>dlopen\<close> of the library, whose functions are a list of names and bodies (\<open>None\<close> if there is no such file). With \<open>RTLD_NOW\<close> it fails unless all that the
  functions need is defined; with \<open>RTLD_LAZY\<close> a symbol is looked up when it is used.
\<close>

type_synonym library = "(string \<times> lib_act list) list"

definition dlopen :: "symbols \<Rightarrow> library option \<Rightarrow> dl_flag \<Rightarrow> library option" where
  "dlopen others file flag = (case file of None \<Rightarrow> None
     | Some lib \<Rightarrow> if flag = RTLD_NOW \<and> (\<exists>(n, body) \<in> set lib. \<exists>f \<in> set (lib_needs body). others f = None) then None else Some lib)"

definition dlsym :: "library \<Rightarrow> string \<Rightarrow> lib_act list option" where
  "dlsym lib n = map_of lib n"

text \<open>
  If a symbol cannot be resolved in the middle, the dynamic linker ends the process with status 127 at once, without flushing the
  buffer of standard output.
\<close>

datatype dl_result = Dl_error exit_info | Dl_lookup_error string "string list" | Dl_done "string list" int

definition dl_main :: "bool \<Rightarrow> symbols \<Rightarrow> library option \<Rightarrow> string list \<Rightarrow> dl_result" where
  "dl_main tty others file argv =
     (if length argv \<noteq> 2 then Dl_error (Exit 1 (''usage: '' @ hd argv @ '' <now|lazy>''))
      else case (if argv ! 1 = ''now'' then Some RTLD_NOW else if argv ! 1 = ''lazy'' then Some RTLD_LAZY else None) of
        None \<Rightarrow> Dl_error (Exit 1 ''invalid flag value'')
      | Some flag \<Rightarrow>
         (case dlopen others file flag of
            None \<Rightarrow> Dl_error (Exit 1 ''dlopen'')
          | Some handle \<Rightarrow>
             (case dlsym handle ''myprint'' of
                None \<Rightarrow> Dl_error (Exit 1 ''dlsym'')
              | Some f \<Rightarrow>
                 (let r = lib_run others f; io = fold (io_put tty) (fst r) ([], [])
                  in case snd r of Some g \<Rightarrow> Dl_lookup_error g (snd io) | None \<Rightarrow> Dl_done (io_exit io) 0))))"

definition libmy :: library where
  "libmy = [(''myprint'', myprint)]"

text \<open>\<open>dlopen.c\<close> with \<open>libmy.c\<close>: without \<open>foo\<close>, the option \<open>now\<close> fails before anything is printed; \<open>lazy\<close> prints its line, on a
  terminal, and then fails. With \<open>foo\<close> the option makes no difference.\<close>

theorem dl_modes:
  "others ''foo'' = None \<Longrightarrow> dl_main tty others (Some libmy) [prog, ''now''] = Dl_error (Exit 1 ''dlopen'')"
  "others ''foo'' = None \<Longrightarrow> dl_main tty others (Some libmy) [prog, ''lazy''] = Dl_lookup_error ''foo'' (if tty then [''hello''] else [])"
  "others ''foo'' = Some out \<Longrightarrow> a \<in> {''now'', ''lazy''} \<Longrightarrow> dl_main tty others (Some libmy) [prog, a] = Dl_done (''hello'' # out) 0"
  by (auto simp: dl_main_def dlopen_def dlsym_def libmy_def myprint_def Let_def io_put_fold io_exit_def io_put_def)

text \<open>In general \<open>now\<close> never ends in a lookup error.\<close>

theorem dl_now_safe: "dl_main tty others file [prog, ''now''] \<noteq> Dl_lookup_error g out"
proof -
  have "snd (lib_run others f) = None" if d: "dlopen others file RTLD_NOW = Some lib" and s: "dlsym lib n = Some f" for lib n f
  proof (rule lib_run_resolved, rule ballI)
    fix g assume g: "g \<in> set (lib_needs f)"
    from s have "(n, f) \<in> set lib" by (simp add: dlsym_def map_of_SomeD)
    with d g show "others g \<noteq> None" by (auto simp: dlopen_def split: option.splits if_splits)
  qed
  then show ?thesis by (auto simp: dl_main_def Let_def split: option.splits)
qed

section \<open>\<open>rtld_next.c\<close>\<close>

text \<open>
  The function \<open>read\<close> of the shared object. The rest of the world, with the files and the memory it reads into, is of any type \<open>'w\<close>; \<open>rd\<close> is the
  next \<open>read\<close>, which \<open>dlsym\<close> finds or not; it returns a number and the value of \<open>errno\<close> if it sets it. The state is whether
  \<open>f\<close> has been set, what has been written to descriptor 2, which is none of what is read, \<open>errno\<close>, and the number of calls of \<open>write\<close>.
\<close>

record rn_state =
  rn_f :: bool
  rn_err :: string
  rn_errno :: int
  rn_writes :: nat

text \<open>What the \<open>n\<close>-th call of \<open>write\<close> does with its bytes: it takes the first of them, fails with an error, or the process is ended by
  \<open>SIGPIPE\<close>. Nobody looks at its result.\<close>

datatype rn_written = Takes nat | Fails int | Sigpipe

datatype rn_end = Rn_exit int string | Rn_sigpipe string

definition rn_write :: "(nat \<Rightarrow> string \<Rightarrow> rn_written) \<Rightarrow> string \<Rightarrow> rn_state \<Rightarrow> rn_end + rn_state" where
  "rn_write wr msg s =
     (let s' = s\<lparr>rn_writes := Suc (rn_writes s)\<rparr> in
      case wr (rn_writes s) msg of
        Takes k \<Rightarrow> Inr (s'\<lparr>rn_err := rn_err s @ take k msg\<rparr>)
      | Fails e \<Rightarrow> Inr (s'\<lparr>rn_errno := e\<rparr>)
      | Sigpipe \<Rightarrow> Inl (Rn_sigpipe (rn_err s)))"

type_synonym read_call = "int \<times> 64 word \<times> 64 word"

fun hex_digits :: "nat \<Rightarrow> string" where
  "hex_digits n = (if n < 16 then [''0123456789abcdef'' ! n] else hex_digits (n div 16) @ [''0123456789abcdef'' ! (n mod 16)])"

declare hex_digits.simps [simp del]

definition show_pointer :: "64 word \<Rightarrow> string" where
  "show_pointer p = (if p = 0 then ''(nil)'' else ''0x'' @ hex_digits (unat p))"

text \<open>\<open>%zd\<close> prints the size as a signed number.\<close>

definition rn_text :: "read_call \<Rightarrow> int \<Rightarrow> string" where
  "rn_text c ret = ''== [ fd '' @ show_int (fst c) @ '', buf '' @ show_pointer (fst (snd c)) @ '', nbytes '' @ show_int (sint (snd (snd c)))
     @ '', RET ('' @ show_int ret @ '') ] =='' @ nl"

definition rn_msg :: "read_call \<Rightarrow> int \<Rightarrow> string" where
  "rn_msg c ret = take 127 (rn_text c ret)"

definition NOT_FOUND :: string where
  "NOT_FOUND = ''read not found'' @ nl"

type_synonym 'w next_read = "read_call \<Rightarrow> 'w \<Rightarrow> int \<times> int option \<times> 'w"

definition rn_read ::
  "bool \<Rightarrow> (nat \<Rightarrow> string \<Rightarrow> rn_written) \<Rightarrow> 'w next_read \<Rightarrow> read_call \<Rightarrow> rn_state \<times> 'w \<Rightarrow> rn_end + int \<times> rn_state \<times> 'w"
where
  "rn_read found wr rd c sw =
     (let s = fst sw; w = snd sw
      in if \<not> rn_f s \<and> \<not> found
         then (case rn_write wr NOT_FOUND s of Inl e \<Rightarrow> Inl e | Inr s' \<Rightarrow> Inl (Rn_exit 1 (rn_err s')))
         else let (ret, e, w') = rd c w;
                  s' = s\<lparr>rn_f := True, rn_errno := (case e of None \<Rightarrow> rn_errno s | Some v \<Rightarrow> v)\<rparr>
              in (case rn_write wr (rn_msg c ret) s' of Inl e \<Rightarrow> Inl e | Inr s'' \<Rightarrow> Inr (ret, s'', w')))"

text \<open>A program that calls \<open>read\<close> any number of times: what it is given, the result and \<open>errno\<close> after every call, with and
  without the object in front.\<close>

fun rn_reads ::
  "bool \<Rightarrow> (nat \<Rightarrow> string \<Rightarrow> rn_written) \<Rightarrow> 'w next_read \<Rightarrow> read_call list \<Rightarrow> rn_state \<times> 'w
    \<Rightarrow> rn_end + (int \<times> int) list \<times> rn_state \<times> 'w"
where
  "rn_reads found wr rd [] sw = Inr ([], sw)"
| "rn_reads found wr rd (c # cs) sw =
     (case rn_read found wr rd c sw of
        Inl e \<Rightarrow> Inl e
      | Inr (ret, sw') \<Rightarrow>
          (case rn_reads found wr rd cs sw' of Inl e \<Rightarrow> Inl e | Inr (rets, sw'') \<Rightarrow> Inr ((ret, rn_errno (fst sw')) # rets, sw'')))"

fun plain_reads :: "'w next_read \<Rightarrow> read_call list \<Rightarrow> int \<Rightarrow> 'w \<Rightarrow> (int \<times> int) list \<times> int \<times> 'w" where
  "plain_reads rd [] errno w = ([], errno, w)"
| "plain_reads rd (c # cs) errno w =
     (let (ret, e, w1) = rd c w; errno1 = (case e of None \<Rightarrow> errno | Some v \<Rightarrow> v);
          (rets, fin) = plain_reads rd cs errno1 w1
      in ((ret, errno1) # rets, fin))"

definition rn_start :: "int \<Rightarrow> rn_state" where
  "rn_start errno = \<lparr>rn_f = False, rn_err = [], rn_errno = errno, rn_writes = 0\<rparr>"

lemma show_nat_length: "n < 10 ^ Suc k \<Longrightarrow> length (show_nat n) \<le> Suc k"
proof (induction k arbitrary: n)
  case (Suc k)
  then have "n div 10 < 10 ^ Suc k" by (simp add: div_less_iff_less_mult algebra_simps)
  from Suc.IH [OF this] show ?case by (subst show_nat.simps) simp
qed (subst show_nat.simps, simp)

lemma hex_length: "n < 16 ^ Suc k \<Longrightarrow> length (hex_digits n) \<le> Suc k"
proof (induction k arbitrary: n)
  case (Suc k)
  then have "n div 16 < 16 ^ Suc k" by (simp add: div_less_iff_less_mult algebra_simps)
  from Suc.IH [OF this] show ?case by (subst hex_digits.simps) simp
qed (subst hex_digits.simps, simp)

lemma show_int_length: "\<bar>x\<bar> < 10 ^ Suc k \<Longrightarrow> length (show_int x) \<le> Suc (Suc k)"
proof -
  assume "\<bar>x\<bar> < 10 ^ Suc k"
  then have "nat \<bar>x\<bar> < 10 ^ Suc k" by (subst nat_less_iff) simp_all
  from show_nat_length [OF this] show ?thesis by (auto simp: show_int_def abs_if split: if_splits)
qed

lemma show_pointer_length: "length (show_pointer p) \<le> 18"
proof -
  have "unat p < 16 ^ Suc 15" using unsigned_less [of p, where 'a = nat] by simp
  from hex_length [OF this] show ?thesis by (simp add: show_pointer_def)
qed

lemma rn_text_length:
  assumes "INT_MIN \<le> fst c" "fst c \<le> INT_MAX" "LONG_MIN \<le> ret" "ret \<le> LONG_MAX"
  shows "length (rn_text c ret) \<le> 107"
proof -
  have "length (show_int (fst c)) \<le> 11" using show_int_length [of "fst c" 9] assms by simp
  moreover have "length (show_int ret) \<le> 20" using show_int_length [of ret 18] assms by simp
  moreover have "length (show_int (sint (snd (snd c)))) \<le> 20"
  proof -
    have "- (2 ^ 63) \<le> sint (snd (snd c))" "sint (snd (snd c)) < 2 ^ 63"
      using sint_greater_eq [of "snd (snd c)"] sint_less [of "snd (snd c)"] by simp_all
    then show ?thesis using show_int_length [of "sint (snd (snd c))" 18] by simp
  qed
  ultimately show ?thesis using show_pointer_length [of "fst (snd c)"] by (simp add: rn_text_def)
qed

text \<open>The results and the world are those of the real calls as long as \<open>SIGPIPE\<close> stays away; \<open>errno\<close> is, too, if every message is taken whole.\<close>

lemma plain_reads_world:
  "map fst (fst (plain_reads rd cs e w)) = map fst (fst (plain_reads rd cs e' w))
   \<and> snd (snd (plain_reads rd cs e w)) = snd (snd (plain_reads rd cs e' w))"
proof (induction cs arbitrary: e e' w)
  case (Cons c cs)
  obtain ret v w1 where rd: "rd c w = (ret, v, w1)" by (rule prod_cases3)
  show ?case
    using Cons.IH [of "case v of None \<Rightarrow> e | Some u \<Rightarrow> u" w1 "case v of None \<Rightarrow> e' | Some u \<Rightarrow> u"] by (simp add: rd split_beta Let_def)
qed simp

lemma rn_reads_results:
  assumes "\<And>n msg. wr n msg \<noteq> Sigpipe"
  shows "found \<or> rn_f s \<Longrightarrow> \<exists>rets s'. rn_reads found wr rd cs (s, w) = Inr (rets, s', snd (snd (plain_reads rd cs (rn_errno s) w)))
    \<and> map fst rets = map fst (fst (plain_reads rd cs (rn_errno s) w)) \<and> rn_writes s' = rn_writes s + length cs"
proof (induction cs arbitrary: s w)
  case (Cons c cs)
  obtain ret v w1 where rd: "rd c w = (ret, v, w1)" by (rule prod_cases3)
  define s1 where "s1 = s\<lparr>rn_f := True, rn_errno := (case v of None \<Rightarrow> rn_errno s | Some u \<Rightarrow> u)\<rparr>"
  obtain s2 where s2: "rn_write wr (rn_msg c ret) s1 = Inr s2" "rn_f s2" "rn_writes s2 = Suc (rn_writes s)"
    using assms [of "rn_writes s" "rn_msg c ret"]
    by (cases "wr (rn_writes s) (rn_msg c ret)") (simp_all add: rn_write_def s1_def Let_def)
  have r: "rn_read found wr rd c (s, w) = Inr (ret, s2, w1)"
    using Cons.prems s2(1) by (auto simp: rn_read_def rd s1_def)
  from Cons.IH [of s2 w1] s2(2) obtain rets s' where
    "rn_reads found wr rd cs (s2, w1) = Inr (rets, s', snd (snd (plain_reads rd cs (rn_errno s2) w1)))"
    "map fst rets = map fst (fst (plain_reads rd cs (rn_errno s2) w1))" "rn_writes s' = rn_writes s2 + length cs" by blast
  with r s2(3) plain_reads_world [of rd cs "rn_errno s2" w1 "case v of None \<Rightarrow> rn_errno s | Some u \<Rightarrow> u"]
  show ?case by (simp add: rd split_beta Let_def)
qed simp

lemma rn_reads_plain:
  assumes "\<And>n msg. wr n msg = Takes (length msg)"
  shows "found \<or> rn_f s \<Longrightarrow> \<exists>s'. rn_reads found wr rd cs (s, w) =
      Inr (fst (plain_reads rd cs (rn_errno s) w), s', snd (snd (plain_reads rd cs (rn_errno s) w)))
    \<and> rn_err s' = rn_err s @ concat (map2 rn_msg cs (map fst (fst (plain_reads rd cs (rn_errno s) w))))"
proof (induction cs arbitrary: s w)
  case (Cons c cs)
  obtain ret v w1 where rd: "rd c w = (ret, v, w1)" by (rule prod_cases3)
  define s2 where "s2 = s\<lparr>rn_f := True, rn_errno := (case v of None \<Rightarrow> rn_errno s | Some u \<Rightarrow> u), rn_err := rn_err s @ rn_msg c ret,
    rn_writes := Suc (rn_writes s)\<rparr>"
  have r: "rn_read found wr rd c (s, w) = Inr (ret, s2, w1)"
    using Cons.prems by (auto simp: rn_read_def rd s2_def rn_write_def assms)
  from Cons.IH [of s2 w1] obtain s' where
    "rn_reads found wr rd cs (s2, w1) = Inr (fst (plain_reads rd cs (rn_errno s2) w1), s', snd (snd (plain_reads rd cs (rn_errno s2) w1)))"
    "rn_err s' = rn_err s2 @ concat (map2 rn_msg cs (map fst (fst (plain_reads rd cs (rn_errno s2) w1))))"
    by (auto simp: s2_def)
  moreover obtain rets e2 w2 where "plain_reads rd cs (rn_errno s2) w1 = (rets, e2, w2)" by (rule prod_cases3)
  ultimately show ?case using r by (simp add: rd Let_def s2_def)
qed simp

lemma rn_msg_whole:
  assumes "\<forall>c \<in> set cs. INT_MIN \<le> fst c \<and> fst c \<le> INT_MAX" "\<forall>r \<in> set rets. LONG_MIN \<le> r \<and> r \<le> LONG_MAX"
  shows "map2 rn_msg cs rets = map2 rn_text cs rets"
proof -
  have "rn_msg c r = rn_text c r" if "(c, r) \<in> set (zip cs rets)" for c r
  proof -
    from that assms have "length (rn_text c r) \<le> 107"
      by (intro rn_text_length) (auto dest: set_zip_leftD set_zip_rightD)
    then show ?thesis by (simp add: rn_msg_def)
  qed
  then show ?thesis by auto
qed

lemma plain_reads_range:
  assumes "\<forall>c w. LONG_MIN \<le> fst (rd c w) \<and> fst (rd c w) \<le> LONG_MAX"
  shows "\<forall>r \<in> set (map fst (fst (plain_reads rd cs e w))). LONG_MIN \<le> r \<and> r \<le> LONG_MAX"
proof (induction cs arbitrary: e w)
  case (Cons c cs)
  obtain ret v w1 where rd: "rd c w = (ret, v, w1)" by (rule prod_cases3)
  with assms [rule_format, of c w] Cons show ?case by (auto simp: split_beta Let_def)
qed simp

text \<open>C30: \<open>rtld_next.c\<close>: unless \<open>SIGPIPE\<close> ends the process, the program gets, for every sequence of calls, the return values of the real
  \<open>read\<close> and all its effects but \<open>errno\<close>, whatever becomes of the messages, one per call. If descriptor 2 takes all that is
  written, \<open>errno\<close> is that of the real \<open>read\<close>, too, and the messages are complete: they are at most 107
  characters long, so that the buffer of 128 never cuts one off. But if the message of a failed call cannot be written, the
  caller sees the error of \<open>write\<close>. If there is no other \<open>read\<close>, the first call ends the process with status 1, whatever is read,
  without any effect but its message.\<close>

theorem read_transparent:
  assumes calls: "\<forall>c \<in> set cs. INT_MIN \<le> fst c \<and> fst c \<le> INT_MAX"
    and rets: "\<forall>c w. LONG_MIN \<le> fst (rd c w) \<and> fst (rd c w) \<le> LONG_MAX"
    and plain: "plain_reads rd cs errno w = (results, errno', w')"
  shows "((\<forall>n msg. wr n msg \<noteq> Sigpipe) \<longrightarrow>
        (\<exists>results' s'. rn_reads True wr rd cs (rn_start errno, w) = Inr (results', s', w')
          \<and> map fst results' = map fst results \<and> rn_writes s' = length cs))
    \<and> ((\<forall>n msg. wr n msg = Takes (length msg)) \<longrightarrow>
        (\<exists>s'. rn_reads True wr rd cs (rn_start errno, w) = Inr (results, s', w')
          \<and> rn_err s' = concat (map2 rn_text cs (map fst results)))
        \<and> (cs \<noteq> [] \<longrightarrow> rn_reads False wr rd cs (rn_start errno, w) = Inl (Rn_exit 1 NOT_FOUND)))
    \<and> (\<forall>c err. wr 0 (rn_msg c (fst (rd c w))) = Fails err \<longrightarrow>
        (\<exists>s'. rn_reads True wr rd [c] (rn_start errno, w) = Inr ([(fst (rd c w), err)], s', snd (snd (rd c w)))))
    \<and> (wr 0 NOT_FOUND \<noteq> Sigpipe \<and> cs \<noteq> [] \<longrightarrow> (\<exists>out. rn_reads False wr rd cs (rn_start errno, w) = Inl (Rn_exit 1 out)))"
proof (intro conjI impI allI)
  assume "\<forall>n msg. wr n msg \<noteq> Sigpipe"
  then show "\<exists>results' s'. rn_reads True wr rd cs (rn_start errno, w) = Inr (results', s', w')
          \<and> map fst results' = map fst results \<and> rn_writes s' = length cs"
    using rn_reads_results [of wr True "rn_start errno" rd cs w] plain by (simp add: rn_start_def)
next
  assume all: "\<forall>n msg. wr n msg = Takes (length msg)"
  have eq: "map2 rn_msg cs (map fst results) = map2 rn_text cs (map fst results)"
    using rn_msg_whole [OF calls plain_reads_range [OF rets]] plain by (metis fst_conv)
  show "\<exists>s'. rn_reads True wr rd cs (rn_start errno, w) = Inr (results, s', w')
          \<and> rn_err s' = concat (map2 rn_text cs (map fst results))"
    using rn_reads_plain [of wr True "rn_start errno" rd cs w] all plain unfolding eq [symmetric] by (simp add: rn_start_def)
  show "rn_reads False wr rd cs (rn_start errno, w) = Inl (Rn_exit 1 NOT_FOUND)" if "cs \<noteq> []"
    using that all by (cases cs) (simp_all add: rn_read_def rn_start_def rn_write_def)
next
  fix c err assume "wr 0 (rn_msg c (fst (rd c w))) = Fails err"
  then show "\<exists>s'. rn_reads True wr rd [c] (rn_start errno, w) = Inr ([(fst (rd c w), err)], s', snd (snd (rd c w)))"
    by (simp add: rn_read_def rn_start_def rn_write_def split_beta Let_def)
next
  assume "wr 0 NOT_FOUND \<noteq> Sigpipe \<and> cs \<noteq> []"
  then show "\<exists>out. rn_reads False wr rd cs (rn_start errno, w) = Inl (Rn_exit 1 out)"
    by (cases cs; cases "wr 0 NOT_FOUND") (simp_all add: rn_read_def rn_start_def rn_write_def Let_def)
qed

text \<open>A file of seven bytes is read in pieces of five, then the descriptor is a bad one (9 is \<open>EBADF\<close>).\<close>

definition rn_example :: "nat next_read" where
  "rn_example c w = (if fst c = 3 then (int (min 5 w), None, w - min 5 w) else (- 1, Some 9, w))"

theorem read_transparent_witness:
  "\<exists>s'. rn_reads True (\<lambda>n msg. Takes (length msg)) rn_example [(3, 16, 5), (3, 16, 5), (4, 16, 5)] (rn_start 0, 7)
      = Inr ([(5, 0), (2, 0), (- 1, 9)], s', 0)
    \<and> rn_err s' = rn_text (3, 16, 5) 5 @ rn_text (3, 16, 5) 2 @ rn_text (4, 16, 5) (- 1)"
proof -
  have r: "\<forall>c w. LONG_MIN \<le> fst (rn_example c w) \<and> fst (rn_example c w) \<le> LONG_MAX" by (auto simp: rn_example_def)
  have p: "plain_reads rn_example [(3, 16, 5), (3, 16, 5), (4, 16, 5)] 0 7 = ([(5, 0), (2, 0), (- 1, 9)], 9, 0)"
    by (simp add: rn_example_def)
  from read_transparent [OF _ r p, of "\<lambda>n msg. Takes (length msg)"] show ?thesis by simp
qed


section \<open>\<open>ld-lazy.c\<close>\<close>

text \<open>
  One of the two processes, for what \<open>fork\<close> returned to it, whether \<open>execl\<close> works, and the number of the process before the \<open>fork\<close>. What
  the comparison yields is assigned to \<open>pid\<close>, not what \<open>fork\<close> returned.
\<close>

definition ll_main :: "int \<Rightarrow> bool \<Rightarrow> int \<Rightarrow> image" where
  "ll_main forked works mypid =
     (let buf = take 15 (show_int mypid);
          pid = (if forked = 0 then 1 else 0 :: int)
      in if pid \<noteq> 0
         then (case execl works ''/usr/bin/pldd'' [Some ''pldd'', Some buf, None] of
             Replaced path argv \<Rightarrow> Replaced path argv
           | Remains e \<Rightarrow> Remains (Exit 1 ''execl() failed on pldd''))
         else if pid = - 1 then Remains (Exit 1 ''fork'')
         else Remains (Exit 0 []))"

text \<open>A failing \<open>fork\<close> is not noticed: the program ends with 0 without having started \<open>pldd\<close>. Otherwise \<open>pldd\<close> gets the number
  of the parent, whole.\<close>

theorem ll_fork_unnoticed:
  "ll_main (- 1) works mypid = Remains (Exit 0 [])"
  "INT_MIN \<le> mypid \<Longrightarrow> mypid \<le> INT_MAX \<Longrightarrow> ll_main 0 True mypid = Replaced ''/usr/bin/pldd'' [Some ''pldd'', Some (show_int mypid), None]"
proof -
  show "ll_main (- 1) works mypid = Remains (Exit 0 [])" by (simp add: ll_main_def)
  assume "INT_MIN \<le> mypid" "mypid \<le> INT_MAX"
  then have "length (show_int mypid) \<le> 11" using show_int_length [of mypid 9] by simp
  then show "ll_main 0 True mypid = Replaced ''/usr/bin/pldd'' [Some ''pldd'', Some (show_int mypid), None]"
    by (simp add: ll_main_def execl_def)
qed

section \<open>\<open>lib-abi/\<close>\<close>

text \<open>
  A call of the 32-bit machine the program is compiled for: the arguments are stored from the bottom of the caller's area for arguments on, and
  what was there above them stays. An integer of 64 bits takes two of its words, the low one first, and of
  a result of 64 bits the caller takes the low half.
\<close>

type_synonym arg_area = "32 word list"

definition store_args :: "32 word list \<Rightarrow> arg_area \<Rightarrow> arg_area" where
  "store_args as area = as @ drop (length as) area"

definition wide :: "arg_area \<Rightarrow> nat \<Rightarrow> 64 word" where
  "wide area i = ucast (area ! i) + push_bit 32 (ucast (area ! Suc i))"

definition abiadd32 :: "arg_area \<Rightarrow> 32 word" where
  "abiadd32 area = area ! 0 + area ! 1"

definition abiadd64 :: "arg_area \<Rightarrow> 32 word" where
  "abiadd64 area = ucast (wide area 0 + wide area 2)"

definition abi_main :: "(arg_area \<Rightarrow> 32 word) \<Rightarrow> 32 word \<Rightarrow> arg_area \<Rightarrow> string list \<Rightarrow> exit_info + string list" where
  "abi_main lib fmt area argv =
     (if length argv \<noteq> 3 then Inl (Exit 1 ''usage: a.out <number> <number>'')
      else let area = store_args [fmt, 1000, 2000] area;
               r = lib (store_args [word_of_int (atoi (argv ! 1)), word_of_int (atoi (argv ! 2))] area)
           in Inr [''10002000'', ''result: '' @ show_int (sint r)])"

text \<open>With the library it was linked with, the program prints the sum (modulo \<open>2 ^ 32\<close>). With the changed one it prints the first number
  plus 2000, whatever the second is: 2007 for 7 and 4, as the comment says.\<close>

theorem abi_mismatch:
  assumes "3 < length area"
  shows "abi_main abiadd32 fmt area [p, a, b] =
      Inr [''10002000'', ''result: '' @ show_int (sint (word_of_int (atoi a + atoi b) :: 32 word))]"
    and "abi_main abiadd64 fmt area [p, a, b] =
      Inr [''10002000'', ''result: '' @ show_int (sint (word_of_int (atoi a + 2000) :: 32 word))]"
    and "abi_main abiadd64 fmt area [p, ''7'', ''4''] = Inr [''10002000'', ''result: 2007'']"
proof -
  have low: "ucast (push_bit 32 (ucast x :: 64 word)) = (0 :: 32 word)" for x :: "32 word"
    by (rule bit_word_eqI) (simp add: bit_simps)
  have add: "ucast (x + y) = (ucast x + ucast y :: 32 word)" for x y :: "64 word"
    by (rule word_unat_eq_iff [THEN iffD2]) (simp add: unsigned_ucast_eq unat_word_ariths take_bit_eq_mod mod_mod_cancel mod_add_eq)
  have same: "ucast (ucast x :: 64 word) = x" for x :: "32 word" by (rule bit_word_eqI) (simp add: bit_simps)
  have wide: "ucast (wide area i) = area ! i" for area i by (simp add: wide_def add low same)
  have "abiadd64 area = area ! 0 + area ! 2" for area by (simp add: abiadd64_def add wide)
  then show r: "abi_main abiadd64 fmt area [p, a, b] =
      Inr [''10002000'', ''result: '' @ show_int (sint (word_of_int (atoi a + 2000) :: 32 word))]" for a b
    using assms by (simp add: abi_main_def store_args_def Let_def nth_append)
  show "abi_main abiadd32 fmt area [p, a, b] =
      Inr [''10002000'', ''result: '' @ show_int (sint (word_of_int (atoi a + atoi b) :: 32 word))]"
    by (simp add: abi_main_def store_args_def abiadd32_def Let_def)
  show "abi_main abiadd64 fmt area [p, ''7'', ''4''] = Inr [''10002000'', ''result: 2007'']"
    unfolding r by code_simp
qed

end
