(* ===== verification/Signal_Basics.thy ===== *)
theory Signal_Basics
  imports Signal_Threads Processes Mapped_Files
begin

text \<open>
  Programs that send themselves signals, catch them in a loop, or are killed by one: \<open>kill-and-catch.c\<close>, \<open>killing-myself.c\<close>,
  \<open>ctrl_c.c\<close>, \<open>catch-SIGSEGV.c\<close>, \<open>div-by-zero.c\<close> and \<open>sigsegv.c\<close> of \<open>signals/\<close>, and the programs of \<open>debug/\<close>.
\<close>

section \<open>\<open>kill-and-catch.c\<close>, \<open>killing-myself.c\<close>\<close>

definition SIGTERM :: nat where "SIGTERM = 15"

definition SIGINT :: nat where "SIGINT = 2"

datatype kc_msg = Sending | Caught

text \<open>
  \<open>printf\<close> writes through a buffer that holds \<open>cap\<close> lines unless the output is a terminal; when one more would not fit, it is written out first.
  \<open>write\<close> does not use it.
\<close>

definition kc_put :: "bool \<Rightarrow> nat \<Rightarrow> 'm \<Rightarrow> 'm list \<times> 'm list \<Rightarrow> 'm list \<times> 'm list" where
  "kc_put tty cap m io = (if \<not> tty \<and> cap \<le> length (fst io) then io_put tty m ([], snd io @ fst io) else io_put tty m io)"

definition kc_write :: "'m \<Rightarrow> 'm list \<times> 'm list \<Rightarrow> 'm list \<times> 'm list" where
  "kc_write m io = (fst io, snd io @ [m])"

text \<open>
  A round of the loop, in which the handler runs before \<open>kill\<close> returns, or a signal from outside during the \<open>sleep\<close>. \<open>kills\<close> tells
  of which signals the default action ends a process; then the buffer is lost.
\<close>

datatype kc_event = Round | Arrives nat

record kc_state =
  kc_io :: "kc_msg list \<times> kc_msg list"
  kc_died :: "nat option"

definition kc_term_handler :: "kc_state \<Rightarrow> kc_state" where
  "kc_term_handler s = s\<lparr>kc_io := kc_write Caught (kc_io s)\<rparr>"

definition kc_signal :: "(nat \<Rightarrow> bool) \<Rightarrow> nat \<Rightarrow> kc_state \<Rightarrow> kc_state" where
  "kc_signal kills g s = (if g = SIGTERM then kc_term_handler s else if kills g then s\<lparr>kc_died := Some g\<rparr> else s)"

definition kc_step :: "bool \<Rightarrow> nat \<Rightarrow> (nat \<Rightarrow> bool) \<Rightarrow> kc_event \<Rightarrow> kc_state \<Rightarrow> kc_state option" where
  "kc_step tty cap kills e s =
     (if kc_died s \<noteq> None then None
      else Some (case e of
          Round \<Rightarrow> kc_signal kills SIGTERM (s\<lparr>kc_io := kc_put tty cap Sending (kc_io s)\<rparr>)
        | Arrives g \<Rightarrow> kc_signal kills g s))"

definition kc_start :: kc_state where
  "kc_start = \<lparr>kc_io = ([], []), kc_died = None\<rparr>"

definition km_main :: "bool \<Rightarrow> bool \<Rightarrow> string list \<times> (nat + int)" where
  "km_main tty ignored =
     (let io = io_put tty ''Sending myself a SIGTERM signal...'' ([], [])
      in if ignored then (io_exit io, Inr 0) else (snd io, Inl SIGTERM))"

text \<open>The rounds and the signals caught so far.\<close>

definition kc_sends :: "kc_event list \<Rightarrow> nat" where
  "kc_sends es = length (filter (\<lambda>e. e = Round) es)"

definition kc_catches :: "kc_event list \<Rightarrow> nat" where
  "kc_catches es = length (filter (\<lambda>e. e = Round \<or> e = Arrives SIGTERM) es)"

fun kc_told :: "bool \<Rightarrow> nat \<Rightarrow> nat \<Rightarrow> nat \<Rightarrow> kc_msg list \<times> kc_msg list \<Rightarrow> bool" where
  "kc_told tty cap n k (b, w) \<longleftrightarrow> count_list w Caught = k \<and> count_list w Sending + length b = n \<and> Caught \<notin> set b
     \<and> (tty \<longrightarrow> b = []) \<and> length b \<le> cap"

lemma kc_told_put: "1 \<le> cap \<Longrightarrow> kc_told tty cap n k io \<Longrightarrow> kc_told tty cap (Suc n) k (kc_put tty cap Sending io)"
proof (cases io)
  case (Pair b w)
  have "count_list b Sending = length b \<and> count_list b Caught = 0" if "Caught \<notin> set b"
    using that by (induction b) (auto intro: kc_msg.exhaust)
  then show "1 \<le> cap \<Longrightarrow> kc_told tty cap n k io \<Longrightarrow> ?thesis"
    by (auto simp: Pair kc_put_def io_put_def)
qed

lemma kc_told_write: "kc_told tty cap n k io \<Longrightarrow> kc_told tty cap n (Suc k) (kc_write Caught io)"
  by (cases io) (simp add: kc_write_def)

lemma kc_exec_told:
  assumes "1 \<le> cap"
  shows "exec (kc_step tty cap kills) es s = Some t \<Longrightarrow> kc_told tty cap n k (kc_io s)
    \<Longrightarrow> kc_told tty cap (n + kc_sends es) (k + kc_catches es) (kc_io t)"
proof (induction es arbitrary: s n k)
  case (Cons e es)
  then obtain u where st: "kc_step tty cap kills e s = Some u" and ex: "exec (kc_step tty cap kills) es u = Some t"
    by (auto split: option.splits)
  have u: "kc_told tty cap (n + kc_sends [e]) (k + kc_catches [e]) (kc_io u)"
  proof (cases e)
    case Round
    with st have "kc_io u = kc_write Caught (kc_put tty cap Sending (kc_io s))"
      by (auto simp: kc_step_def kc_signal_def kc_term_handler_def split: if_splits)
    with kc_told_write [OF kc_told_put [OF assms Cons.prems(2)]] Round show ?thesis by (simp add: kc_sends_def kc_catches_def)
  next
    case (Arrives g)
    with st have "kc_io u = (if g = SIGTERM then kc_write Caught (kc_io s) else kc_io s)"
      by (auto simp: kc_step_def kc_signal_def kc_term_handler_def split: if_splits)
    with kc_told_write [OF Cons.prems(2)] Cons.prems(2) Arrives show ?thesis by (simp add: kc_sends_def kc_catches_def)
  qed
  have "kc_sends (e # es) = kc_sends [e] + kc_sends es" "kc_catches (e # es) = kc_catches [e] + kc_catches es"
    by (simp_all add: kc_sends_def kc_catches_def)
  with Cons.IH [OF ex u] show ?case by (simp add: ac_simps)
qed (simp add: kc_sends_def kc_catches_def)

lemma kc_alive:
  "exec (kc_step tty cap kills) es s = Some t \<Longrightarrow> kc_died s = None \<Longrightarrow> \<forall>g. Arrives g \<in> set es \<longrightarrow> g = SIGTERM \<or> \<not> kills g \<Longrightarrow> kc_died t = None"
proof (induction es arbitrary: s)
  case (Cons e es)
  then obtain u where st: "kc_step tty cap kills e s = Some u" and ex: "exec (kc_step tty cap kills) es u = Some t"
    by (auto split: option.splits)
  have "kc_died u = None" using st Cons.prems(2,3)
    by (cases e) (auto simp: kc_step_def kc_signal_def kc_term_handler_def split: if_splits)
  with Cons.IH [OF ex] Cons.prems(3) show ?case by simp
qed simp

text \<open>\<open>kill-and-catch.c\<close>: no number of SIGTERMs ends it; what it catches is on the output at once. The lines of \<open>main()\<close> are there, too, on a
  terminal; elsewhere up to \<open>cap\<close> of them are in the buffer, and if another signal kills the program they are lost.
  \<open>killing-myself.c\<close>, which does not catch the signal, has only its line in the buffer: elsewhere than on a terminal it prints nothing.\<close>

theorem kc_survives:
  assumes "1 \<le> cap" "exec (kc_step tty cap kills) es kc_start = Some s"
  shows "(\<forall>g. Arrives g \<in> set es \<longrightarrow> g = SIGTERM \<or> \<not> kills g) \<Longrightarrow> kc_died s = None"
    and "count_list (snd (kc_io s)) Caught = kc_catches es"
    and "tty \<Longrightarrow> count_list (snd (kc_io s)) Sending = kc_sends es"
    and "kc_sends es \<le> count_list (snd (kc_io s)) Sending + cap"
    and "km_main tty ignored = (if ignored then ([''Sending myself a SIGTERM signal...''], Inr 0)
      else (if tty then [''Sending myself a SIGTERM signal...''] else [], Inl SIGTERM))"
proof -
  have t: "kc_told tty cap (kc_sends es) (kc_catches es) (kc_io s)"
    using kc_exec_told [OF assms, of 0 0] by (simp add: kc_start_def)
  obtain b w where io: "kc_io s = (b, w)" by (cases "kc_io s")
  show "(\<forall>g. Arrives g \<in> set es \<longrightarrow> g = SIGTERM \<or> \<not> kills g) \<Longrightarrow> kc_died s = None"
    by (rule kc_alive [OF assms(2)]) (simp_all add: kc_start_def)
  show "count_list (snd (kc_io s)) Caught = kc_catches es" "tty \<Longrightarrow> count_list (snd (kc_io s)) Sending = kc_sends es"
    "kc_sends es \<le> count_list (snd (kc_io s)) Sending + cap" using t by (auto simp: io)
qed (simp add: km_main_def io_put_def io_exit_def)

section \<open>\<open>ctrl_c.c\<close>, \<open>catch-SIGSEGV.c\<close>\<close>

text \<open>\<open>ctrl_c.c\<close>: the messages so far and the signal that ended the program; nothing else happens between signals.\<close>

definition cc_step :: "(nat \<Rightarrow> bool) \<Rightarrow> nat \<Rightarrow> nat \<times> nat option \<Rightarrow> (nat \<times> nat option) option" where
  "cc_step kills g s =
     (if snd s \<noteq> None then None
      else Some (if g = SIGINT then (Suc (fst s), None) else if kills g then (fst s, Some g) else s))"

lemma cc_messages:
  "exec (cc_step kills) gs (n, None) = Some t \<Longrightarrow> fst t = n + count_list gs SIGINT \<and> (snd t = None \<longleftrightarrow> (\<forall>g \<in> set gs. g = SIGINT \<or> \<not> kills g))"
proof (induction gs arbitrary: n)
  case (Cons g gs)
  have st: "cc_step kills g (n, None) = Some (if g = SIGINT then (Suc n, None) else if kills g then (n, Some g) else (n, None))"
    by (simp add: cc_step_def)
  show ?case
  proof (cases "g = SIGINT \<or> \<not> kills g")
    case True
    with Cons.prems st have "exec (cc_step kills) gs (if g = SIGINT then Suc n else n, None) = Some t" by (auto split: if_splits)
    from Cons.IH [OF this] True show ?thesis by auto
  next
    case False
    moreover have "cc_step kills h (n, Some g) = None" for h by (simp add: cc_step_def)
    ultimately have "gs = [] \<and> t = (n, Some g)" using Cons.prems st by (cases gs) simp_all
    with False show ?thesis by simp
  qed
qed auto

text \<open>
  \<open>catch-SIGSEGV.c\<close>. If nothing is mapped at address 0, the store raises SIGSEGV; when the handler has returned, the instruction is executed again.
\<close>

datatype cs_pc = Cs_sleep | Cs_store | Cs_handler

definition cs_step :: "bool \<Rightarrow> cs_pc \<times> nat \<Rightarrow> cs_pc \<times> nat" where
  "cs_step mapped s =
     (case fst s of
        Cs_sleep \<Rightarrow> (Cs_store, snd s)
      | Cs_store \<Rightarrow> (if mapped then Cs_sleep else Cs_handler, snd s)
      | Cs_handler \<Rightarrow> (Cs_store, Suc (snd s)))"

text \<open>It sleeps once and then prints its message for ever, as fast as it can, not once a second as the loop suggests.\<close>

theorem cs_spins:
  "(cs_step False ^^ Suc n) (Cs_sleep, 0) = (if even n then Cs_store else Cs_handler, n div 2)"
  "snd ((cs_step True ^^ n) (Cs_sleep, 0)) = 0"
proof -
  show "(cs_step False ^^ Suc n) (Cs_sleep, 0) = (if even n then Cs_store else Cs_handler, n div 2)"
  proof (induction n)
    case (Suc n)
    then have "(cs_step False ^^ Suc (Suc n)) (Cs_sleep, 0) = cs_step False (if even n then Cs_store else Cs_handler, n div 2)" by simp
    also have "\<dots> = (if even (Suc n) then Cs_store else Cs_handler, Suc n div 2)" by (auto simp: cs_step_def elim: oddE)
    finally show ?case .
  qed (simp add: cs_step_def)
  have "fst ((cs_step True ^^ n) (Cs_sleep, 0)) \<noteq> Cs_handler \<and> snd ((cs_step True ^^ n) (Cs_sleep, 0)) = 0"
  proof (induction n)
    case (Suc n)
    obtain pc k where s: "(cs_step True ^^ n) (Cs_sleep, 0) = (pc, k)" by (cases "(cs_step True ^^ n) (Cs_sleep, 0)")
    from Suc show ?case by (cases pc) (simp_all add: s, simp_all add: cs_step_def)
  qed simp
  then show "snd ((cs_step True ^^ n) (Cs_sleep, 0)) = 0" by simp
qed

section \<open>Programs that crash\<close>

text \<open>
  A program without handlers: what is on its output in the end, and either the signal that killed it or its status. A store needs an address that
  can be written to.
\<close>

definition crash_store :: "(addr \<Rightarrow> bool) \<Rightarrow> addr \<Rightarrow> 'm list \<times> 'm list \<Rightarrow> 'm list \<times> (nat + int)" where
  "crash_store writable a io = (if writable a then (io_exit io, Inr 0) else (snd io, Inl SIGSEGV))"

definition sgv_main :: "(addr \<Rightarrow> bool) \<Rightarrow> string list \<times> (nat + int)" where
  "sgv_main writable = crash_store writable 0 ([], [])"

definition bad_memory_access :: "(addr \<Rightarrow> bool) \<Rightarrow> string list \<times> (nat + int)" where
  "bad_memory_access writable = crash_store writable 0 ([], [])"

definition css_main :: "(addr \<Rightarrow> bool) \<Rightarrow> addr \<Rightarrow> string list \<times> (nat + int)" where
  "css_main writable c = crash_store writable c ([], [])"

definition dbx_helper :: int where
  "dbx_helper = 17"

definition dbx_main :: "bool \<Rightarrow> (addr \<Rightarrow> bool) \<Rightarrow> string list \<times> (nat + int)" where
  "dbx_main tty writable = crash_store writable 1 (io_put tty (''i is '' @ show_int 13) ([], []))"

text \<open>Division by zero traps on some machines and yields some number on others.\<close>

definition dz_main :: "int option \<Rightarrow> string list \<times> (nat + int)" where
  "dz_main q = (case q of None \<Rightarrow> ([], Inl SIGFPE) | Some q \<Rightarrow> ([show_int q], Inr 0))"

text \<open>Where the first page is not mapped and literals cannot be written to, all four stores kill; the line of \<open>dbx.c\<close> is lost off a terminal.\<close>

theorem crashes:
  assumes "\<forall>a < 4096. \<not> writable a"
  shows "snd (sgv_main writable) = Inl SIGSEGV" "snd (bad_memory_access writable) = Inl SIGSEGV"
    "snd (css_main writable c) = (if writable c then Inr 0 else Inl SIGSEGV)"
    "dbx_main tty writable = (if tty then [''i is 13''] else [], Inl SIGSEGV)"
proof -
  have "\<not> writable 0" "\<not> writable 1" using assms by simp_all
  moreover have "show_int 13 = ''13''" by code_simp
  ultimately show "snd (sgv_main writable) = Inl SIGSEGV" "snd (bad_memory_access writable) = Inl SIGSEGV"
    "snd (css_main writable c) = (if writable c then Inr 0 else Inl SIGSEGV)"
    "dbx_main tty writable = (if tty then [''i is 13''] else [], Inl SIGSEGV)"
    by (simp_all add: sgv_main_def bad_memory_access_def css_main_def dbx_main_def crash_store_def io_put_def)
qed

end
