(* ===== verification/Small_Programs.thy ===== *)
theory Small_Programs
  imports Signal_Basics Pipes Process_Environment
begin

text \<open>
  Short programs on control flow and memory: \<open>pthreads/setjmp.c\<close>, the two stack overflows (\<open>pthreads/pthread-stack-overflow.c\<close>,
  \<open>pmap/stack-overflow.c\<close>), \<open>sleep/\<close>, \<open>err/err.c\<close>, \<open>assert/assert.c\<close>, \<open>malloc/brk.c\<close>, \<open>mmap/map-nocore.c\<close> and
  \<open>dead-lock/self-dead-lock.c\<close>.
\<close>

section \<open>\<open>setjmp.c\<close>\<close>

text \<open>
  From a return of \<open>setjmp\<close> on. \<open>i\<close> is a local variable that is changed between \<open>setjmp\<close> and \<open>longjmp\<close>: its value after the jump
  is determined only if it is kept in memory and not in a register, which \<open>longjmp\<close> sets back. At most \<open>fuel\<close> rounds; the lines, and the
  status if the program has returned.
\<close>

fun sj_round :: "bool \<Rightarrow> nat \<Rightarrow> int \<Rightarrow> int \<Rightarrow> (int \<times> int) list \<times> int option" where
  "sj_round in_memory 0 i retval = ([], None)"
| "sj_round in_memory (Suc fuel) i retval =
     (let i' = i + 1
      in if i' = 2 then ([(i, retval)], Some 1)
         else let r = sj_round in_memory fuel (if in_memory then i' else i) 4 in ((i, retval) # fst r, snd r))"

definition sj_main :: "bool \<Rightarrow> nat \<Rightarrow> (int \<times> int) list \<times> int option" where
  "sj_main in_memory fuel = sj_round in_memory fuel 0 0"

text \<open>With the variable in memory there are two rounds; in a register, the program never ends.\<close>

theorem sj_rounds:
  "2 \<le> n \<Longrightarrow> sj_main True n = ([(0, 0), (1, 4)], Some 1)"
  "sj_main False (Suc n) = ((0, 0) # replicate n (0, 4), None)"
proof -
  show "sj_main True n = ([(0, 0), (1, 4)], Some 1)" if "2 \<le> n"
  proof -
    from that obtain m where "n = Suc (Suc m)" using le_Suc_ex [of 2 n] by auto
    then show ?thesis by (simp add: sj_main_def Let_def)
  qed
  have "sj_round False (Suc n) 0 r = ((0, r) # replicate n (0, 4), None)" for r
    by (induction n arbitrary: r) (simp_all add: Let_def)
  then show "sj_main False (Suc n) = ((0, 0) # replicate n (0, 4), None)" by (simp add: sj_main_def)
qed

section \<open>Stack overflows\<close>

text \<open>
  \<open>recurse()\<close> for an unsigned parameter of any width, with room on the stack for so many of its frames; what it prints, and whether it returns
  or runs into the end of the stack.
\<close>

fun recurse :: "nat \<Rightarrow> 'a::len word \<Rightarrow> nat list \<times> bool" where
  "recurse 0 n = ([], False)"
| "recurse (Suc room) n =
     (if n = 0 then ([0], True)
      else let r = recurse room (n - 1) in (unat n # fst r, snd r))"

lemma recurse_prints:
  "recurse room n = (map (\<lambda>k. unat n - k) [0..<min room (Suc (unat n))], unat n < room)"
proof (induction room arbitrary: n)
  case (Suc room)
  show ?case
  proof (cases "n = 0")
    case True
    then show ?thesis by simp
  next
    case False
    then have u: "unat (n - 1) = unat n - 1" "0 < unat n" by (simp_all add: unat_minus_one unat_gt_0)
    have r: "recurse room (n - 1) = (map (\<lambda>k. unat n - 1 - k) [0..<min room (unat n)], unat n - 1 < room)"
      using Suc.IH [of "n - 1"] u by simp
    have "map (\<lambda>k. unat n - k) [0..<min (Suc room) (Suc (unat n))] = unat n # map (\<lambda>k. unat n - 1 - k) [0..<min room (unat n)]"
      by (simp add: map_upt_Suc del: upt_Suc)
    with r u False show ?thesis by auto
  qed
qed simp

text \<open>
  A frame takes \<open>frame\<close> bytes of the stack, at least the 1024 of the unused array; the \<open>atoi\<close> results are converted to \<open>unsigned int\<close> and to
  \<open>size_t\<close>. What the threads library answers for a size, and whether a thread with such a stack can be created, are arguments.
\<close>

datatype stack_end = Refused exit_info | Undefined_join | Overflow "nat list" | Finished "nat list"

definition run_recurse :: "nat \<Rightarrow> nat \<Rightarrow> 'a::len word \<Rightarrow> stack_end" where
  "run_recurse stk frame n = (let r = recurse (stk div frame) n in if snd r then Finished (fst r) else Overflow (fst r))"

definition pt_main :: "64 word \<Rightarrow> (64 word \<Rightarrow> bool) \<Rightarrow> (64 word \<Rightarrow> bool) \<Rightarrow> nat \<Rightarrow> string list \<Rightarrow> stack_end" where
  "pt_main dflt accepts creates frame argv =
     (if length argv < 2 then Refused (Exit 1 (''Usage: '' @ hd argv @ '' <iterations> [stack_size]''))
      else let max = word_of_int (atoi (argv ! 1)) :: 32 word;
               stk = (if length argv = 3 then word_of_int (atoi (argv ! 2)) else dflt)
           in if length argv = 3 \<and> \<not> accepts stk then Refused (Exit 1 ''set stack size'')
              else if \<not> creates stk then Undefined_join
              else run_recurse (unat stk) frame max)"

definition so_main :: "nat \<Rightarrow> nat \<Rightarrow> string list \<Rightarrow> stack_end" where
  "so_main limit frame argv =
     (if length argv \<noteq> 2 then Refused (Exit 1 (''Usage: '' @ hd argv @ '' <iterations>''))
      else run_recurse limit frame (word_of_int (atoi (argv ! 1)) :: 64 word))"

text \<open>A negative number becomes one close to the end of the range.\<close>

lemma atoi_negative: "atoi a < 0 \<Longrightarrow> 32 \<le> N \<Longrightarrow> 2 ^ N - 2147483648 \<le> atoi a mod 2 ^ N"
proof -
  assume neg: "atoi a < 0" and N: "32 \<le> N"
  have "(2 :: int) ^ 32 \<le> 2 ^ N" using N by (intro power_increasing) simp_all
  then have "0 \<le> atoi a + 2 ^ N" "atoi a + 2 ^ N < 2 ^ N" using neg atoi_range [of a] by simp_all
  then have "atoi a mod 2 ^ N = atoi a + 2 ^ N" using mod_pos_pos_trivial [of "atoi a + 2 ^ N" "2 ^ N"] by simp
  with atoi_range [of a] show ?thesis by simp
qed

text \<open>Both programs count down from their argument, however long, or until the stack is full. A negative argument is a huge number: it overflows
  every stack of less than a terabyte, or in the second program, any stack at all.\<close>

theorem stack_overflows:
  assumes frame: "1024 \<le> frame"
  shows "pt_main dflt accepts creates frame [p, a] =
      (if creates dflt
       then let n = nat (atoi a mod 2 ^ 32); k = unat dflt div frame
            in if n < k then Finished (rev [0..<Suc n]) else Overflow (map (\<lambda>i. n - i) [0..<k])
       else Undefined_join)"
    and "so_main limit frame [p, a] =
      (let n = nat (atoi a mod 2 ^ 64); k = limit div frame
       in if n < k then Finished (rev [0..<Suc n]) else Overflow (map (\<lambda>i. n - i) [0..<k]))"
    and "atoi a < 0 \<Longrightarrow> limit < 2 ^ 64 \<Longrightarrow> \<exists>out. so_main limit frame [p, a] = Overflow out"
    and "atoi a < 0 \<Longrightarrow> unat dflt < 2 ^ 40 \<Longrightarrow> creates dflt \<Longrightarrow> \<exists>out. pt_main dflt accepts creates frame [p, a] = Overflow out"
proof -
  have run: "run_recurse stk frame n =
      (let k = stk div frame in if unat n < k then Finished (rev [0..<Suc (unat n)]) else Overflow (map (\<lambda>i. unat n - i) [0..<k]))" for stk and n :: "'b::len word"
  proof -
    have "map (\<lambda>k. m - k) [0..<Suc m] = rev [0..<Suc m]" for m
      by (rule nth_equalityI) (simp_all add: rev_nth del: upt_Suc)
    moreover have "min k (Suc m) = (if m < k then Suc m else k)" for k m :: nat by simp
    ultimately show ?thesis by (simp add: run_recurse_def recurse_prints Let_def del: upt_Suc)
  qed
  have u: "unat (word_of_int x :: 'c::len word) = nat (x mod 2 ^ LENGTH('c))" for x
    by (simp add: unat_eq_nat_uint uint_word_of_int)
  show pt: "pt_main dflt accepts creates frame [p, a] =
      (if creates dflt
       then let n = nat (atoi a mod 2 ^ 32); k = unat dflt div frame
            in if n < k then Finished (rev [0..<Suc n]) else Overflow (map (\<lambda>i. n - i) [0..<k])
       else Undefined_join)"
    by (simp add: pt_main_def run u Let_def del: upt_Suc)
  show so: "so_main limit frame [p, a] =
      (let n = nat (atoi a mod 2 ^ 64); k = limit div frame
       in if n < k then Finished (rev [0..<Suc n]) else Overflow (map (\<lambda>i. n - i) [0..<k]))"
    by (simp add: so_main_def run u Let_def del: upt_Suc)
  assume neg: "atoi a < 0"
  note big = atoi_negative [OF neg]
  have div: "k div frame < m" if "k < 1024 * m" for k m
    using div_le_mono2 [of 1024 frame k] frame that by simp
  show "limit < 2 ^ 64 \<Longrightarrow> \<exists>out. so_main limit frame [p, a] = Overflow out"
    using big [of 64] div [of limit "2 ^ 54"] by (simp add: so Let_def)
  show "unat dflt < 2 ^ 40 \<Longrightarrow> creates dflt \<Longrightarrow> \<exists>out. pt_main dflt accepts creates frame [p, a] = Overflow out"
    using big [of 32] div [of "unat dflt" "2 ^ 30"] by (simp add: pt Let_def)
qed

section \<open>\<open>sleep/\<close>\<close>

text \<open>The two programs print the same; they differ in the call that waits.\<close>

abbreviation SLEEP_CYCLES :: nat where "SLEEP_CYCLES \<equiv> 1000"

definition ns_round :: "nat \<Rightarrow> string" where
  "ns_round i = ''.'' @ (if (i + 1) mod 19 = 0 then nl else [])"

definition ns_main :: "string \<times> int" where
  "ns_main = (concat (map ns_round [0..<SLEEP_CYCLES]), 0)"

definition pz_main :: "string \<times> int" where
  "pz_main = (concat (map (\<lambda>i. ''.'' @ (if (i + 1) mod 19 = 0 then nl else [])) [0..<SLEEP_CYCLES]), 0)"

lemma ns_dots:
  "count_list (concat (map ns_round [0..<n])) (CHR ''.'') = n"
  "count_list (concat (map ns_round [0..<n])) (CHR 0x0A) = n div 19"
proof -
  have nl: "nl = [CHR 0x0A]" by code_simp
  show "count_list (concat (map ns_round [0..<n])) (CHR ''.'') = n" by (induction n) (simp_all add: ns_round_def nl)
  show "count_list (concat (map ns_round [0..<n])) (CHR 0x0A) = n div 19"
  proof (induction n)
    case (Suc n)
    then show ?case by (simp add: ns_round_def nl div_Suc)
  qed simp
qed

theorem sleep_programs_agree:
  "pz_main = ns_main" "count_list (fst ns_main) (CHR ''.'') = 1000" "count_list (fst ns_main) (CHR 0x0A) = 52"
  using ns_dots [of 1000] by (simp_all add: pz_main_def ns_main_def ns_round_def [abs_def])

section \<open>\<open>err.c\<close>, \<open>assert.c\<close>, \<open>brk.c\<close>\<close>

text \<open>The four functions of \<open>err(3)\<close>: those without \<open>x\<close> add the text for \<open>errno\<close>. \<open>strerror\<close> is an argument.\<close>

definition warn_line :: "string \<Rightarrow> (int \<Rightarrow> string) \<Rightarrow> int \<Rightarrow> string \<Rightarrow> string" where
  "warn_line argv0 strerror errno msg = progname argv0 @ '': '' @ msg @ '': '' @ strerror errno @ nl"

definition er_main :: "(int \<Rightarrow> string) \<Rightarrow> string list \<Rightarrow> string \<times> int" where
  "er_main strerror argv =
     (let out = warn_line (hd argv) strerror 0 ''warning GRR'' @ errx_line (hd argv) ''warning without errno GRR''
      in if 1 < length argv then (out @ warn_line (hd argv) strerror 13 ''error exit GRR'', 4)
         else (out @ errx_line (hd argv) ''error exit without errno GRR'', 3))"

definition as_main :: "bool \<Rightarrow> exit_info" where
  "as_main ndebug = (if ndebug then Exit 13 [] else Abort)"

text \<open>\<open>malloc\<close> takes a \<open>size_t\<close>; which sizes can be had is an argument.\<close>

definition mb_main :: "(64 word \<Rightarrow> bool) \<Rightarrow> (int \<Rightarrow> string) \<Rightarrow> int \<Rightarrow> string list \<Rightarrow> exit_info" where
  "mb_main malloc strerror errno argv =
     (if length argv \<noteq> 2 then Exit 1 (''usage: '' @ hd argv @ '' <bytecnt>'')
      else if \<not> malloc (word_of_int (atoi (argv ! 1))) then Exit 1 (''malloc failed ('' @ strerror errno @ '')'')
      else Exit 0 [])"

text \<open>A negative number of bytes is not refused by \<open>brk.c\<close> but by \<open>malloc\<close>, which is asked for nearly the whole address space; where there
  is less than \<open>2 ^ 63\<close> bytes the program fails, but 0 bytes can be had. \<open>err.c\<close> never returns from its last call.\<close>

theorem mb_negative:
  assumes "\<And>n. 2 ^ 63 \<le> unat n \<Longrightarrow> \<not> malloc n"
  shows "atoi a < 0 \<Longrightarrow> mb_main malloc strerror errno [p, a] = Exit 1 (''malloc failed ('' @ strerror errno @ '')'')"
    and "snd (er_main strerror argv) \<in> {3, 4}"
proof -
  assume neg: "atoi a < 0"
  have "2 ^ 63 \<le> unat (word_of_int (atoi a) :: 64 word)"
    using atoi_negative [OF neg, of 64] by (simp add: unat_eq_nat_uint uint_word_of_int)
  from assms [OF this] show "mb_main malloc strerror errno [p, a] = Exit 1 (''malloc failed ('' @ strerror errno @ '')'')"
    by (simp add: mb_main_def)
qed (simp add: er_main_def Let_def)

section \<open>\<open>map-nocore.c\<close>\<close>

text \<open>
  The result is an error exit, or the program kills itself with SIGQUIT, leaving the start of its page, which is part of the core file
  unless it has been mapped with \<open>MAP_NOCORE\<close>. Only FreeBSD has this flag.
\<close>

definition mn_main :: "bool \<Rightarrow> bool \<Rightarrow> string list \<Rightarrow> exit_info + string option" where
  "mn_main freebsd mmap_ok argv =
     (if length argv \<noteq> 2 then Inl (Exit 1 (''usage: '' @ hd argv @ '' <0|1>''))
      else let nocore = (atoi (argv ! 1) = 1)
           in if nocore \<and> \<not> freebsd then Inl (Exit 1 ''cannot perform the operation, no MAP_NOCORE support'')
              else if \<not> mmap_ok then Inl (Exit 1 ''mmap'')
              else let page = (''my-PIN'' @ [CHR 0x00]) @ drop 7 (replicate 4096 (CHR 0x00))
                   in Inr (if nocore then None else Some page))"

text \<open>The number is never in a core file if it was asked to stay out, whatever the system; any other argument than 1 puts it there.\<close>

lemma mn_secret:
  "atoi a = 1 \<Longrightarrow> mn_main freebsd works [p, a] \<noteq> Inr (Some page)"
  "atoi a \<noteq> 1 \<Longrightarrow> \<exists>page. mn_main freebsd True [p, a] = Inr (Some page) \<and> c_string page = ''my-PIN''"
  by (auto simp: mn_main_def Let_def)

section \<open>\<open>self-dead-lock.c\<close>\<close>

text \<open>
  What \<open>open\<close> finds under the name, after \<open>mkfifo\<close>, whose failure is not noticed. A FIFO opened for reading and writing has its reader as a
  writer, so that \<open>read\<close> waits unless other processes write something: \<open>written\<close>. In the regular file there may be anything.
\<close>

datatype sd_object = Fifo | Regular string | Not_opened

definition sdl_main :: "sd_object \<Rightarrow> string \<Rightarrow> lone_result" where
  "sdl_main obj written =
     (case obj of
        Not_opened \<Rightarrow> Exits 0 []
      | Regular data \<Rightarrow> Exits 0 []
      | Fifo \<Rightarrow> (case pd_read [[None, None, None, Some Pipe_w]] written 4 of None \<Rightarrow> Blocks_for_ever | Some d \<Rightarrow> Exits 0 []))"

theorem sdl_blocks: "sdl_main obj written = (if obj = Fifo \<and> written = [] then Blocks_for_ever else Exits 0 [])"
  by (cases obj) (auto simp: sdl_main_def pd_read_def pd_holds_def)

end
