(* ===== verification/Thread_Lifecycle.thy ===== *)
theory Thread_Lifecycle
  imports Prelude
begin

text \<open>
  Creating, joining and detaching threads: \<open>pthreads/pthread-join.c\<close>, \<open>pthread-detach-join.c\<close>, \<open>set-detachstate.c\<close>,
  \<open>pthread-create.c\<close>, \<open>pthread-cleanup.c\<close> and \<open>wrong-err-use.c\<close>. Their threads do not branch on anything but the
  number of a loop and the result of a join, so \<open>main()\<close> and each thread function is a list of calls; one step
  function executes such lists in any interleaving.
\<close>

section \<open>Threads as lists of calls\<close>

text \<open>
  Thread \<open>k\<close> has the argument \<open>&n\<close>\<open>k+1\<close>. \<open>Say_ret n k\<close> prints the number at the address that joining thread \<open>k\<close> has
  stored. \<open>Join\<close> has what is done if it fails: nothing, a warning, or a message and an exit with a status.
\<close>

datatype tl_msg = Note string | Line nat nat | Returned nat nat | Join_failed nat | Detach_failed nat | Cleanup

datatype tl_policy = Ignore | Warn | Fail int

datatype tl_act = Say tl_msg | Say_ret nat nat | Create nat bool | Join nat tl_policy | Detach_self

record tl_prog =
  pr_main :: "tl_act list"
  pr_status :: int
  pr_body :: "nat \<Rightarrow> tl_act list"
  pr_ret :: "nat \<Rightarrow> nat option"

text \<open>A thread runs, detached or not, with what is left of its body; a thread that can be joined stays until it is.\<close>

datatype tl_life = Unborn | Running bool "tl_act list" | Ended | Gone

record tl_state =
  tl_main :: "tl_act list"
  tl_thr :: "nat \<Rightarrow> tl_life"
  tl_got :: "nat \<Rightarrow> nat option"
  tl_out :: "(nat option \<times> tl_msg) list"
  tl_exit :: "int option"

datatype tl_event = Main | Thr nat

definition tl_say :: "nat option \<Rightarrow> tl_msg \<Rightarrow> tl_state \<Rightarrow> tl_state" where
  "tl_say who m s = s\<lparr>tl_out := tl_out s @ [(who, m)]\<rparr>"

definition tl_set :: "nat \<Rightarrow> tl_life \<Rightarrow> tl_state \<Rightarrow> tl_state" where
  "tl_set k l s = s\<lparr>tl_thr := (tl_thr s)(k := l)\<rparr>"

text \<open>
  \<open>pthread_join\<close> waits for a thread that is not detached, and fails for one that is detached when it is called, or that
  does not exist any more.
\<close>

fun tl_join_error :: "nat \<Rightarrow> tl_policy \<Rightarrow> tl_state \<Rightarrow> tl_state" where
  "tl_join_error k Ignore s = s"
| "tl_join_error k Warn s = tl_say None (Join_failed k) s"
| "tl_join_error k (Fail n) s = (tl_say None (Join_failed k) s)\<lparr>tl_exit := Some n\<rparr>"

fun tl_main_act :: "tl_prog \<Rightarrow> tl_act \<Rightarrow> tl_state \<Rightarrow> tl_state option" where
  "tl_main_act P (Say m) s = Some (tl_say None m s)"
| "tl_main_act P (Say_ret n k) s = (case tl_got s k of None \<Rightarrow> None | Some j \<Rightarrow> Some (tl_say None (Returned n (Suc j)) s))"
| "tl_main_act P (Create k detached) s = Some (tl_set k (Running detached (pr_body P k)) s)"
| "tl_main_act P (Join k pol) s =
     (case tl_thr s k of
        Unborn \<Rightarrow> None
      | Running detached r \<Rightarrow> if detached then Some (tl_join_error k pol s) else None
      | Ended \<Rightarrow> Some ((tl_set k Gone s)\<lparr>tl_got := (tl_got s)(k := pr_ret P k)\<rparr>)
      | Gone \<Rightarrow> Some (tl_join_error k pol s))"
| "tl_main_act P Detach_self s = None"

fun tl_thread_act :: "nat \<Rightarrow> bool \<Rightarrow> tl_act list \<Rightarrow> tl_state \<Rightarrow> tl_state option" where
  "tl_thread_act k d [] s = Some (tl_set k (if d then Gone else Ended) s)"
| "tl_thread_act k d (Say m # r) s = Some (tl_set k (Running d r) (tl_say (Some k) m s))"
| "tl_thread_act k d (Detach_self # r) s = Some (tl_set k (Running True r) s)"
| "tl_thread_act k d (_ # r) s = None"

text \<open>The end of \<open>main()\<close> ends the process.\<close>

definition tl_step :: "tl_prog \<Rightarrow> tl_event \<Rightarrow> tl_state \<Rightarrow> tl_state option" where
  "tl_step P e s =
     (if tl_exit s \<noteq> None then None
      else case e of
        Main \<Rightarrow>
          (case tl_main s of
             [] \<Rightarrow> Some (s\<lparr>tl_exit := Some (pr_status P)\<rparr>)
           | a # r \<Rightarrow> tl_main_act P a (s\<lparr>tl_main := r\<rparr>))
      | Thr k \<Rightarrow> (case tl_thr s k of Running d r \<Rightarrow> tl_thread_act k d r s | _ \<Rightarrow> None))"

text \<open>
  A thread that detaches itself has two more ways to do it. In \<open>tl_step\<close> it does so before \<open>main()\<close> calls \<open>pthread_join\<close>. If
  \<open>main()\<close> waits there already, which only this makes visible, \<open>pthread_detach\<close> of glibc returns 0 and leaves the thread as it is, so that the
  join succeeds (\<open>Detach_late\<close>). And \<open>pthread_detach\<close> can fail, for which the thread ends the process (\<open>Detach_fails\<close>).
\<close>

datatype dt_event = Plain tl_event | Detach_late nat | Detach_fails nat

definition dt_step :: "tl_prog \<Rightarrow> dt_event \<Rightarrow> tl_state \<Rightarrow> tl_state option" where
  "dt_step P e s =
     (if tl_exit s \<noteq> None then None
      else case e of
        Plain e \<Rightarrow> tl_step P e s
      | Detach_late k \<Rightarrow>
          (case (tl_main s, tl_thr s k) of
             (Join j pol # _, Running False (Detach_self # r)) \<Rightarrow> if j = k then Some (tl_set k (Running False r) s) else None
           | _ \<Rightarrow> None)
      | Detach_fails k \<Rightarrow>
          (case tl_thr s k of
             Running d (Detach_self # r) \<Rightarrow> Some ((tl_say None (Detach_failed k) s)\<lparr>tl_exit := Some 1\<rparr>)
           | _ \<Rightarrow> None))"

definition tl_start :: "tl_prog \<Rightarrow> tl_state" where
  "tl_start P = \<lparr>tl_main = pr_main P, tl_thr = (\<lambda>_. Unborn), tl_got = (\<lambda>_. None), tl_out = [], tl_exit = None\<rparr>"

lemmas tl_defs = tl_say_def tl_set_def

section \<open>The programs\<close>

definition loop_lines :: "nat \<Rightarrow> nat \<Rightarrow> tl_act list" where
  "loop_lines n loops = map (\<lambda>i. Say (Line n i)) [0..<loops]"

definition pj_prog :: tl_prog where
  "pj_prog = \<lparr>
     pr_main = [Create 0 False, Create 1 False, Say (Note ''Threads created.''),
       Say (Note ''The main thread starts waiting for the threads completion.''),
       Join 0 Ignore, Join 1 Ignore, Say_ret 1 0, Say_ret 2 1],
     pr_status = 0, pr_body = (\<lambda>k. loop_lines (Suc k) 5), pr_ret = (\<lambda>k. Some k)\<rparr>"

definition dj_prog :: tl_prog where
  "dj_prog = \<lparr>
     pr_main = [Create 0 False, Say (Note ''Thread created.''), Say (Note ''Main thread starts waiting for thread completion...''),
       Join 0 (Fail 1), Say_ret 1 0],
     pr_status = 0,
     pr_body = (\<lambda>k. [Say (Note ''Thread started.''), Detach_self, Say (Note ''Thread detached.'')] @ loop_lines (Suc k) 5),
     pr_ret = (\<lambda>k. Some k)\<rparr>"

definition sd_prog :: tl_prog where
  "sd_prog = \<lparr>
     pr_main = [Create 0 True, Create 1 True, Say (Note ''Threads created, will try to join them now.''), Join 0 Warn, Join 1 Warn],
     pr_status = 0, pr_body = (\<lambda>k. loop_lines (Suc k) 10), pr_ret = (\<lambda>k. None)\<rparr>"

definition pc_prog :: tl_prog where
  "pc_prog = \<lparr>pr_main = [Create 0 False], pr_status = 0, pr_body = (\<lambda>k. loop_lines 0 5), pr_ret = (\<lambda>k. None)\<rparr>"

text \<open>\<open>pthread_cleanup_pop(doit)\<close> runs the handler from the fourth iteration on.\<close>

definition cn_prog :: tl_prog where
  "cn_prog = \<lparr>pr_main = [Create 0 False, Join 0 Ignore], pr_status = 0,
     pr_body = (\<lambda>k. concat (map (\<lambda>i. Say (Line 0 i) # (if 2 < i then [Say Cleanup] else [])) [0..<5])), pr_ret = (\<lambda>k. None)\<rparr>"

definition we_prog :: tl_prog where
  "we_prog = \<lparr>pr_main = [Create 0 False, Join 0 Ignore, Join 0 (Fail 1)], pr_status = 0, pr_body = (\<lambda>k. []), pr_ret = (\<lambda>k. None)\<rparr>"

section \<open>What all such programs have in common\<close>

text \<open>What a list of calls prints, which threads it creates, and that each join follows the creation.\<close>

fun tl_says :: "tl_act list \<Rightarrow> tl_msg list" where
  "tl_says [] = []"
| "tl_says (Say m # r) = m # tl_says r"
| "tl_says (_ # r) = tl_says r"

fun tl_thread_ok :: "tl_act list \<Rightarrow> bool" where
  "tl_thread_ok [] \<longleftrightarrow> True"
| "tl_thread_ok (Say m # r) \<longleftrightarrow> tl_thread_ok r"
| "tl_thread_ok (Detach_self # r) \<longleftrightarrow> tl_thread_ok r"
| "tl_thread_ok (_ # r) \<longleftrightarrow> False"

fun tl_creates :: "tl_act list \<Rightarrow> nat list" where
  "tl_creates [] = []"
| "tl_creates (Create k d # r) = k # tl_creates r"
| "tl_creates (_ # r) = tl_creates r"

text \<open>\<open>cs\<close> are the threads created before.\<close>

fun tl_main_ok :: "nat set \<Rightarrow> tl_act list \<Rightarrow> bool" where
  "tl_main_ok cs [] \<longleftrightarrow> True"
| "tl_main_ok cs (Create k d # r) \<longleftrightarrow> k \<notin> cs \<and> tl_main_ok (insert k cs) r"
| "tl_main_ok cs (Join k pol # r) \<longleftrightarrow> k \<in> cs \<and> tl_main_ok cs r"
| "tl_main_ok cs (Detach_self # r) \<longleftrightarrow> False"
| "tl_main_ok cs (_ # r) \<longleftrightarrow> tl_main_ok cs r"

text \<open>The lines of thread \<open>k\<close> in the output, and those it still has to print.\<close>

definition tl_lines :: "nat \<Rightarrow> tl_state \<Rightarrow> tl_msg list" where
  "tl_lines k s = map snd (filter (\<lambda>x. fst x = Some k) (tl_out s))"

fun tl_life_ok :: "tl_act list \<Rightarrow> tl_life \<Rightarrow> tl_msg list \<Rightarrow> bool" where
  "tl_life_ok body Unborn ms \<longleftrightarrow> ms = []"
| "tl_life_ok body (Running d r) ms \<longleftrightarrow> ms @ tl_says r = tl_says body \<and> tl_thread_ok r"
| "tl_life_ok body _ ms \<longleftrightarrow> ms = tl_says body"

definition tl_thr_inv :: "tl_prog \<Rightarrow> tl_state \<Rightarrow> nat \<Rightarrow> bool" where
  "tl_thr_inv P s k \<longleftrightarrow> tl_life_ok (pr_body P k) (tl_thr s k) (tl_lines k s)"

definition tl_inv :: "tl_prog \<Rightarrow> nat \<Rightarrow> tl_state \<Rightarrow> bool" where
  "tl_inv P n s \<longleftrightarrow> tl_main_ok {k. tl_thr s k \<noteq> Unborn} (tl_main s) \<and> set (tl_creates (tl_main s)) \<subseteq> {..< n}
     \<and> (\<forall>k. tl_thr_inv P s k) \<and> (\<forall>k. n \<le> k \<longrightarrow> tl_thr s k = Unborn)"

text \<open>Calls left, those of threads that are not created yet included.\<close>

fun tl_cost :: "tl_prog \<Rightarrow> tl_act \<Rightarrow> nat" where
  "tl_cost P (Create k d) = length (pr_body P k) + 2"
| "tl_cost P _ = 1"

fun tl_rank :: "tl_life \<Rightarrow> nat" where
  "tl_rank (Running d r) = Suc (length r)"
| "tl_rank _ = 0"

definition tl_left :: "tl_prog \<Rightarrow> nat \<Rightarrow> tl_state \<Rightarrow> nat" where
  "tl_left P n s = sum_list (map (tl_cost P) (tl_main s)) + (if tl_exit s = None then 1 else 0) + (\<Sum>k < n. tl_rank (tl_thr s k))"

lemma tl_lines_simps [simp]:
  "tl_lines k (tl_say who m s) = tl_lines k s @ (if who = Some k then [m] else [])"
  "tl_lines k (tl_set i l s) = tl_lines k s"
  "tl_lines k (s\<lparr>tl_main := r\<rparr>) = tl_lines k s"
  "tl_lines k (s\<lparr>tl_got := g\<rparr>) = tl_lines k s"
  "tl_lines k (s\<lparr>tl_exit := x\<rparr>) = tl_lines k s"
  by (simp_all add: tl_lines_def tl_defs)

lemma tl_lines_join_error [simp]: "tl_lines k (tl_join_error i pol s) = tl_lines k s"
  by (cases pol) simp_all

lemma tl_thr_simps [simp]:
  "tl_thr (tl_say who m s) = tl_thr s" "tl_thr (tl_set k l s) = (tl_thr s)(k := l)" "tl_thr (tl_join_error i pol s) = tl_thr s"
  "tl_main (tl_say who m s) = tl_main s" "tl_main (tl_set k l s) = tl_main s" "tl_main (tl_join_error i pol s) = tl_main s"
  "tl_exit (tl_say who m s) = tl_exit s" "tl_exit (tl_set k l s) = tl_exit s"
  by (simp_all add: tl_defs) (cases pol; simp add: tl_defs)+

locale thread_program =
  fixes P :: tl_prog and n :: nat
  assumes bodies: "tl_thread_ok (pr_body P k)"
    and main: "tl_main_ok {} (pr_main P)"
    and few: "set (tl_creates (pr_main P)) \<subseteq> {..< n}"
begin

lemma inv_thread:
  assumes inv: "tl_inv P n s" and st: "tl_step P (Thr i) s = Some t"
  shows "tl_inv P n t \<and> tl_left P n t < tl_left P n s"
proof -
  from st obtain d r where r: "tl_thr s i = Running d r" and ta: "tl_thread_act i d r s = Some t" and ex: "tl_exit s = None"
    by (auto simp: tl_step_def split: if_splits tl_life.splits)
  from inv have thr: "\<And>k. tl_thr_inv P s k" and mn: "tl_main_ok {k. tl_thr s k \<noteq> Unborn} (tl_main s)"
    and cr: "set (tl_creates (tl_main s)) \<subseteq> {..< n}" and un: "\<And>k. n \<le> k \<Longrightarrow> tl_thr s k = Unborn" by (simp_all add: tl_inv_def)
  from un [of i] r have i: "i < n" by (cases "i < n") auto
  have "tl_thr_inv P t k" for k
    using ta [symmetric] thr [of i] thr [of k] r
    by (cases "(i, d, r, s)" rule: tl_thread_act.cases; cases "k = i") (auto simp: tl_thr_inv_def)
  moreover obtain l where l: "tl_thr t = (tl_thr s)(i := l)" "l \<noteq> Unborn" "tl_main t = tl_main s" "tl_rank l < tl_rank (Running d r)" "tl_exit t = None"
    using ta [symmetric] ex by (cases "(i, d, r, s)" rule: tl_thread_act.cases) force+
  moreover have "{k. tl_thr t k \<noteq> Unborn} = {k. tl_thr s k \<noteq> Unborn}" using l r by auto
  moreover have "tl_left P n t < tl_left P n s"
    using sum_upd [OF i, of tl_rank "tl_thr s" l] l r ex by (simp add: tl_left_def)
  ultimately show ?thesis using mn cr un i by (simp add: tl_inv_def)
qed

lemma inv_main:
  assumes inv: "tl_inv P n s" and st: "tl_step P Main s = Some t"
  shows "tl_inv P n t \<and> tl_left P n t < tl_left P n s"
proof (cases "tl_main s")
  case Nil
  with st inv show ?thesis by (auto simp: tl_step_def tl_inv_def tl_thr_inv_def tl_left_def split: if_splits)
next
  case (Cons a r)
  with st have ma: "tl_main_act P a (s\<lparr>tl_main := r\<rparr>) = Some t" and ex: "tl_exit s = None" by (simp_all add: tl_step_def split: if_splits)
  from inv Cons have thr: "\<And>k. tl_thr_inv P s k" and mn: "tl_main_ok {k. tl_thr s k \<noteq> Unborn} (a # r)"
    and cr: "set (tl_creates (a # r)) \<subseteq> {..< n}" and un: "\<And>k. n \<le> k \<Longrightarrow> tl_thr s k = Unborn" by (simp_all add: tl_inv_def)
  have "tl_thr_inv P t k" for k
    using ma [symmetric] thr [of k] mn bodies [of k]
    by (cases a) (auto simp: tl_thr_inv_def split: tl_life.splits option.splits if_splits)
  moreover have "tl_main_ok {k. tl_thr t k \<noteq> Unborn} (tl_main t) \<and> set (tl_creates (tl_main t)) \<subseteq> {..< n}
    \<and> (\<forall>k. n \<le> k \<longrightarrow> tl_thr t k = Unborn) \<and> tl_left P n t < tl_left P n s"
  proof (cases a)
    case (Create k d)
    with ma have t: "{j. tl_thr t j \<noteq> Unborn} = insert k {j. tl_thr s j \<noteq> Unborn}" "tl_main t = r"
      "tl_thr t = (tl_thr s)(k := Running d (pr_body P k))" "tl_exit t = None" using ex by (auto split: if_splits)
    from Create cr mn have k: "k < n" "tl_thr s k = Unborn" by auto
    have "tl_left P n t < tl_left P n s"
      using sum_upd [OF k(1), of tl_rank "tl_thr s" "Running d (pr_body P k)"] t k Create Cons ex by (simp add: tl_left_def)
    with Create mn t cr un show ?thesis by auto
  next
    case (Join k pol)
    with ma mn have t: "{j. tl_thr t j \<noteq> Unborn} = {j. tl_thr s j \<noteq> Unborn}" "tl_main t = r"
      by (auto split: tl_life.splits if_splits)
    moreover have "tl_rank (tl_thr t j) = tl_rank (tl_thr s j)" for j
      using ma Join by (auto split: tl_life.splits if_splits)
    ultimately show ?thesis using Join mn cr un Cons ex by (auto simp: tl_left_def)
  qed (use ma mn cr un Cons ex in \<open>auto simp: tl_left_def split: option.splits\<close>)
  ultimately show ?thesis by (simp add: tl_inv_def)
qed

sublocale step_measure "tl_step P" "tl_start P" "tl_inv P n" "tl_left P n"
proof unfold_locales
  show "tl_inv P n (tl_start P)" using main few by (simp add: tl_inv_def tl_start_def tl_thr_inv_def tl_lines_def)
  fix s e t assume "tl_inv P n s" "tl_step P e s = Some t"
  then have "tl_inv P n t \<and> tl_left P n t < tl_left P n s" using inv_thread inv_main by (cases e) blast+
  then show "tl_inv P n t" "tl_left P n t < tl_left P n s" by simp_all
qed

lemma lines_prefix:
  assumes "tl_inv P n s"
  shows "\<exists>ms. tl_lines k s @ ms = tl_says (pr_body P k)"
proof -
  have "tl_life_ok (pr_body P k) (tl_thr s k) (tl_lines k s)" using assms by (simp add: tl_inv_def tl_thr_inv_def)
  then show ?thesis by (cases "tl_thr s k") auto
qed

text \<open>Only an unset result can stop \<open>main()\<close> while no thread runs.\<close>

lemma can_move:
  assumes inv: "tl_inv P n s" and ex: "tl_exit s = None" and got: "\<And>m k r. tl_main s = Say_ret m k # r \<Longrightarrow> tl_got s k \<noteq> None"
  shows "\<exists>e. tl_step P e s \<noteq> None"
proof (cases "tl_main s")
  case Nil
  with ex have "tl_step P Main s \<noteq> None" by (simp add: tl_step_def)
  then show ?thesis ..
next
  case (Cons a r)
  from inv Cons have thr: "\<And>k. tl_thr_inv P s k" and mn: "tl_main_ok {k. tl_thr s k \<noteq> Unborn} (a # r)" by (simp_all add: tl_inv_def)
  show ?thesis
  proof (cases "tl_step P Main s = None")
    case True
    with Cons ex have "tl_main_act P a (s\<lparr>tl_main := r\<rparr>) = None" by (simp add: tl_step_def)
    then obtain k pol q where "a = Join k pol" and q: "tl_thr s k = Running False q"
      using mn got [of _ _ r] Cons by (cases a) (auto split: tl_life.splits option.splits if_splits)
    have "tl_thread_ok q" using thr [of k] q by (simp add: tl_thr_inv_def)
    then have "tl_thread_act k False q s \<noteq> None" by (cases q rule: tl_thread_ok.cases) simp_all
    with q ex have "tl_step P (Thr k) s \<noteq> None" by (simp add: tl_step_def)
    then show ?thesis ..
  qed blast
qed

end

section \<open>Programs whose joins all succeed, or all fail\<close>

text \<open>What \<open>main()\<close> prints, and its exit status, if all joins succeed (\<open>ok\<close>) or all fail.\<close>

fun tl_main_says :: "bool \<Rightarrow> tl_prog \<Rightarrow> tl_act list \<Rightarrow> tl_msg list" where
  "tl_main_says ok P [] = []"
| "tl_main_says ok P (Say m # r) = m # tl_main_says ok P r"
| "tl_main_says ok P (Say_ret m k # r) =
     (case (if ok then pr_ret P k else None) of None \<Rightarrow> [] | Some j \<Rightarrow> Returned m (Suc j) # tl_main_says ok P r)"
| "tl_main_says ok P (Join k pol # r) =
     (if ok then tl_main_says ok P r
      else case pol of Ignore \<Rightarrow> tl_main_says ok P r | Warn \<Rightarrow> Join_failed k # tl_main_says ok P r | Fail x \<Rightarrow> [Join_failed k])"
| "tl_main_says ok P (_ # r) = tl_main_says ok P r"

fun tl_main_status :: "bool \<Rightarrow> tl_prog \<Rightarrow> tl_act list \<Rightarrow> int" where
  "tl_main_status ok P [] = pr_status P"
| "tl_main_status ok P (Join k (Fail x) # r) = (if ok then tl_main_status ok P r else x)"
| "tl_main_status ok P (_ # r) = tl_main_status ok P r"

definition tl_main_lines :: "tl_state \<Rightarrow> tl_msg list" where
  "tl_main_lines s = map snd (filter (\<lambda>x. fst x = None) (tl_out s))"

lemma tl_main_lines_simps [simp]:
  "tl_main_lines (tl_say who m s) = tl_main_lines s @ (if who = None then [m] else [])"
  "tl_main_lines (tl_set i l s) = tl_main_lines s"
  "tl_main_lines (s\<lparr>tl_main := r\<rparr>) = tl_main_lines s"
  "tl_main_lines (s\<lparr>tl_got := g\<rparr>) = tl_main_lines s"
  "tl_main_lines (s\<lparr>tl_exit := x\<rparr>) = tl_main_lines s"
  by (simp_all add: tl_main_lines_def tl_defs)

lemma tl_got_simps [simp]:
  "tl_got (tl_say who m s) = tl_got s" "tl_got (tl_set i l s) = tl_got s" "tl_got (tl_join_error i pol s) = tl_got s"
  by (simp_all add: tl_defs) (cases pol; simp add: tl_defs)+

definition tl_told :: "bool \<Rightarrow> tl_prog \<Rightarrow> tl_state \<Rightarrow> bool" where
  "tl_told ok P s \<longleftrightarrow>
     (case tl_exit s of
        None \<Rightarrow> tl_main_lines s @ tl_main_says ok P (tl_main s) = tl_main_says ok P (pr_main P)
          \<and> tl_main_status ok P (tl_main s) = tl_main_status ok P (pr_main P)
      | Some x \<Rightarrow> tl_main_lines s = tl_main_says ok P (pr_main P) \<and> x = tl_main_status ok P (pr_main P))"

locale uniform_joins = thread_program P n for P n +
  fixes ok :: bool and J :: "tl_state \<Rightarrow> bool"
  assumes J_start: "J (tl_start P)"
    and J_step: "tl_inv P n s \<Longrightarrow> J s \<Longrightarrow> tl_step P e s = Some t \<Longrightarrow> J t"
    and J_ok: "ok \<Longrightarrow> tl_inv P n s \<Longrightarrow> J s \<Longrightarrow> tl_main s = Join k pol # r \<Longrightarrow> tl_thr s k = Ended \<or> (\<exists>q. tl_thr s k = Running False q)"
    and J_fails: "\<not> ok \<Longrightarrow> J s \<Longrightarrow> tl_main s = Join k pol # r \<Longrightarrow> tl_thr s k \<noteq> Ended \<or> pol = Ignore"
    and J_ret: "J s \<Longrightarrow> tl_main s = Say_ret m k # r \<Longrightarrow> tl_got s k = (if ok then pr_ret P k else None)"
begin

lemma told_step:
  assumes inv: "tl_inv P n s" and j: "J s" and told: "tl_told ok P s" and st: "tl_step P e s = Some t"
  shows "tl_told ok P t"
proof (cases e)
  case (Thr i)
  with st obtain d r where "tl_thr s i = Running d r" "tl_thread_act i d r s = Some t" "tl_exit s = None"
    by (auto simp: tl_step_def split: if_splits tl_life.splits)
  with told show ?thesis by (cases "(i, d, r, s)" rule: tl_thread_act.cases) (auto simp: tl_told_def)
next
  case Main
  show ?thesis
  proof (cases "tl_main s")
    case Nil
    with st told Main show ?thesis by (auto simp: tl_step_def tl_told_def split: if_splits)
  next
    case (Cons a r)
    with st Main have ma: "tl_main_act P a (s\<lparr>tl_main := r\<rparr>) = Some t" and ex: "tl_exit s = None"
      by (simp_all add: tl_step_def split: if_splits)
    with told Cons have told': "tl_main_lines s @ tl_main_says ok P (a # r) = tl_main_says ok P (pr_main P)"
      "tl_main_status ok P (a # r) = tl_main_status ok P (pr_main P)" by (simp_all add: tl_told_def)
    show ?thesis
    proof (cases a)
      case (Join k pol)
      show ?thesis
      proof (cases ok)
        case True
        with J_ok [OF _ inv j, of k pol r] Cons Join have "tl_thr s k = Ended \<or> (\<exists>q. tl_thr s k = Running False q)" by simp
        with True ma told' ex Join show ?thesis by (cases pol) (auto simp: tl_told_def)
      next
        case False
        with J_fails [OF _ j, of k pol r] Cons Join have "tl_thr s k \<noteq> Ended \<or> pol = Ignore" by simp
        with False ma told' ex Join show ?thesis
          by (cases pol; cases "tl_thr s k") (auto simp: tl_told_def split: if_splits)
      qed
    next
      case (Say_ret m k)
      with J_ret [OF j, of m k r] Cons ma told' ex show ?thesis by (auto simp: tl_told_def split: option.splits)
    qed (use ma told' ex in \<open>auto simp: tl_told_def\<close>)
  qed
qed

lemma outcome:
  assumes "exec (tl_step P) es (tl_start P) = Some s"
  shows "tl_inv P n s \<and> J s \<and> tl_told ok P s"
  using assms
proof (induction rule: exec_snoc_induct)
  case Nil
  show ?case using inv_init J_start by (simp add: tl_told_def tl_start_def tl_main_lines_def)
next
  case (snoc es s e t)
  then show ?case using inv_step J_step told_step by blast
qed

end

text \<open>Programs whose threads are never detached and joined at most once; results are read after the join. \<open>js\<close> are the threads joined before.\<close>

fun tl_join_ok :: "tl_prog \<Rightarrow> nat set \<Rightarrow> tl_act list \<Rightarrow> bool" where
  "tl_join_ok P js [] \<longleftrightarrow> True"
| "tl_join_ok P js (Join k pol # r) \<longleftrightarrow> k \<notin> js \<and> tl_join_ok P (insert k js) r"
| "tl_join_ok P js (Say_ret m k # r) \<longleftrightarrow> k \<in> js \<and> pr_ret P k \<noteq> None \<and> tl_join_ok P js r"
| "tl_join_ok P js (Create k d # r) \<longleftrightarrow> \<not> d \<and> tl_join_ok P js r"
| "tl_join_ok P js (_ # r) \<longleftrightarrow> tl_join_ok P js r"

fun tl_joins :: "tl_act list \<Rightarrow> nat set" where
  "tl_joins [] = {}"
| "tl_joins (Join k pol # r) = insert k (tl_joins r)"
| "tl_joins (_ # r) = tl_joins r"

fun tl_joinable :: "tl_life \<Rightarrow> bool" where
  "tl_joinable (Running d r) \<longleftrightarrow> \<not> d \<and> Detach_self \<notin> set r"
| "tl_joinable _ \<longleftrightarrow> True"

definition tl_joinable_inv :: "tl_prog \<Rightarrow> tl_state \<Rightarrow> bool" where
  "tl_joinable_inv P s \<longleftrightarrow>
     tl_join_ok P {k. tl_thr s k = Gone} (tl_main s) \<and> {k. tl_thr s k = Gone} \<union> tl_joins (tl_main s) = tl_joins (pr_main P)
     \<and> (\<forall>k. tl_thr s k = Gone \<longrightarrow> tl_got s k = pr_ret P k) \<and> (\<forall>k. tl_joinable (tl_thr s k))
     \<and> (tl_exit s \<noteq> None \<longrightarrow> tl_main s = [])"

locale joinable_program = thread_program +
  assumes no_detach: "Detach_self \<notin> set (pr_body P k)"
    and joined_once: "tl_join_ok P {} (pr_main P)"
begin

lemma joinable_thread:
  assumes j: "tl_joinable_inv P s" and st: "tl_step P (Thr i) s = Some t"
  shows "tl_joinable_inv P t"
proof -
  from st obtain d r where r: "tl_thr s i = Running d r" and ta: "tl_thread_act i d r s = Some t"
    by (auto simp: tl_step_def split: if_splits tl_life.splits)
  from j r have d: "\<not> d \<and> Detach_self \<notin> set r" by (force simp: tl_joinable_inv_def dest: spec [of _ i])
  have "{k. tl_thr t k = Gone} = {k. tl_thr s k = Gone}" "tl_main t = tl_main s" "tl_got t = tl_got s" "tl_exit t = tl_exit s"
    "\<And>k. tl_joinable (tl_thr s k) \<Longrightarrow> tl_joinable (tl_thr t k)" "\<And>k. tl_thr t k = Gone \<Longrightarrow> tl_thr s k = Gone"
    using ta [symmetric] r d by (cases "(i, d, r, s)" rule: tl_thread_act.cases; force split: if_splits)+
  with j show ?thesis by (simp add: tl_joinable_inv_def)
qed

lemma joinable_main:
  assumes inv: "tl_inv P n s" and j: "tl_joinable_inv P s" and st: "tl_step P Main s = Some t"
  shows "tl_joinable_inv P t"
proof (cases "tl_main s")
  case Nil
  with st j show ?thesis by (auto simp: tl_step_def tl_joinable_inv_def split: if_splits)
next
  case (Cons a r)
  with st have ma: "tl_main_act P a (s\<lparr>tl_main := r\<rparr>) = Some t" and ex: "tl_exit s = None"
    by (simp_all add: tl_step_def split: if_splits)
  from j Cons have ok: "tl_join_ok P {k. tl_thr s k = Gone} (a # r)" and all: "{k. tl_thr s k = Gone} \<union> tl_joins (a # r) = tl_joins (pr_main P)"
    and got: "\<And>k. tl_thr s k = Gone \<Longrightarrow> tl_got s k = pr_ret P k" and ja: "\<And>k. tl_joinable (tl_thr s k)"
    by (simp_all add: tl_joinable_inv_def)
  show ?thesis
  proof (cases a)
    case (Create k d)
    with inv Cons have "tl_thr s k = Unborn" by (simp add: tl_inv_def)
    with ma Create have t: "{j. tl_thr t j = Gone} = {j. tl_thr s j = Gone}" "tl_thr t = (tl_thr s)(k := Running d (pr_body P k))"
      "tl_main t = r" "tl_got t = tl_got s" "tl_exit t = None" using ex by (auto split: if_splits)
    show ?thesis using ok all got ja no_detach [of k] Create t by (auto simp: tl_joinable_inv_def)
  next
    case (Join k pol)
    with ok have k: "tl_thr s k \<noteq> Gone" "tl_join_ok P (insert k {j. tl_thr s j = Gone}) r" by simp_all
    with ma ja [of k] Join have t: "t = (tl_set k Gone (s\<lparr>tl_main := r\<rparr>))\<lparr>tl_got := (tl_got s)(k := pr_ret P k)\<rparr>"
      by (auto split: tl_life.splits if_splits)
    have "{j. tl_thr t j = Gone} = insert k {j. tl_thr s j = Gone}" using t by auto
    with k all got ja t Join ex show ?thesis by (auto simp: tl_joinable_inv_def)
  qed (use ma ok all got ja ex in \<open>auto simp: tl_joinable_inv_def split: option.splits\<close>)
qed

sublocale uniform_joins P n True "tl_joinable_inv P"
proof unfold_locales
  show "tl_joinable_inv P (tl_start P)" using joined_once by (simp add: tl_joinable_inv_def tl_start_def)
  fix s e t assume "tl_inv P n s" "tl_joinable_inv P s" "tl_step P e s = Some t"
  then show "tl_joinable_inv P t" using joinable_thread joinable_main by (cases e) blast+
next
  fix s k pol r assume inv: "tl_inv P n s" "tl_joinable_inv P s" "tl_main s = Join k pol # r"
  then have "tl_thr s k \<noteq> Unborn" by (simp add: tl_inv_def)
  moreover from inv have "tl_thr s k \<noteq> Gone" "tl_joinable (tl_thr s k)" by (simp_all add: tl_joinable_inv_def)
  ultimately show "tl_thr s k = Ended \<or> (\<exists>q. tl_thr s k = Running False q)" by (cases "tl_thr s k") auto
qed (auto simp: tl_joinable_inv_def)

text \<open>When the process ends, every thread that is joined has printed everything.\<close>

lemma joined_complete:
  assumes "exec (tl_step P) es (tl_start P) = Some s" "tl_exit s \<noteq> None" "k \<in> tl_joins (pr_main P)"
  shows "tl_lines k s = tl_says (pr_body P k)"
proof -
  from outcome [OF assms(1)] have "tl_inv P n s" and j: "tl_joinable_inv P s" by simp_all
  then have "tl_life_ok (pr_body P k) (tl_thr s k) (tl_lines k s)" by (simp add: tl_inv_def tl_thr_inv_def)
  moreover have "tl_thr s k = Gone" using j assms(2,3) by (auto simp: tl_joinable_inv_def)
  ultimately show ?thesis by simp
qed

lemma joinable_outcome:
  assumes ex: "exec (tl_step P) es (tl_start P) = Some s"
  shows "(\<exists>ms. tl_lines k s @ ms = tl_says (pr_body P k)) \<and> length es \<le> tl_left P n (tl_start P)
    \<and> (case tl_exit s of
         None \<Rightarrow> \<exists>e. tl_step P e s \<noteq> None
       | Some x \<Rightarrow> x = tl_main_status True P (pr_main P) \<and> tl_main_lines s = tl_main_says True P (pr_main P)
           \<and> (\<forall>j \<in> tl_joins (pr_main P). tl_lines j s = tl_says (pr_body P j)))"
proof (cases "tl_exit s")
  case None
  from outcome [OF ex] have inv: "tl_inv P n s" and j: "tl_joinable_inv P s" by simp_all
  have "tl_got s k \<noteq> None" if "tl_main s = Say_ret m k # r" for m k r
    using j that by (auto simp: tl_joinable_inv_def)
  from can_move [OF inv None this] lines_prefix [OF inv] exec_length [OF ex] None show ?thesis by auto
next
  case (Some x)
  from outcome [OF ex] have "tl_inv P n s" "tl_told True P s" by simp_all
  with lines_prefix exec_length [OF ex] joined_complete [OF ex] Some show ?thesis by (auto simp: tl_told_def)
qed

end

text \<open>Programs whose threads are all created detached or detach themselves before they end.\<close>

fun tl_detaching :: "tl_life \<Rightarrow> bool" where
  "tl_detaching (Running d r) \<longleftrightarrow> d \<or> Detach_self \<in> set r"
| "tl_detaching Ended \<longleftrightarrow> False"
| "tl_detaching _ \<longleftrightarrow> True"

text \<open>The result of a join is only read after the program would have exited because the join failed.\<close>

fun tl_all_detach :: "tl_prog \<Rightarrow> tl_act list \<Rightarrow> bool" where
  "tl_all_detach P [] \<longleftrightarrow> True"
| "tl_all_detach P (Create k d # r) \<longleftrightarrow> (d \<or> Detach_self \<in> set (pr_body P k)) \<and> tl_all_detach P r"
| "tl_all_detach P (Say_ret m k # r) \<longleftrightarrow> False"
| "tl_all_detach P (Join k (Fail x) # r) \<longleftrightarrow> True"
| "tl_all_detach P (_ # r) \<longleftrightarrow> tl_all_detach P r"

definition tl_detached_inv :: "tl_prog \<Rightarrow> tl_state \<Rightarrow> bool" where
  "tl_detached_inv P s \<longleftrightarrow> (\<forall>k. tl_detaching (tl_thr s k)) \<and> (\<forall>k. tl_got s k = None) \<and> (tl_exit s = None \<longrightarrow> tl_all_detach P (tl_main s))"

locale detached_program = thread_program +
  assumes detaches: "tl_all_detach P (pr_main P)"
begin

lemma detached_step:
  assumes j: "tl_detached_inv P s" and st: "tl_step P e s = Some t"
  shows "tl_detached_inv P t"
proof (cases e)
  case (Thr i)
  with st obtain d r where r: "tl_thr s i = Running d r" and ta: "tl_thread_act i d r s = Some t"
    by (auto simp: tl_step_def split: if_splits tl_life.splits)
  from j have "tl_detaching (tl_thr s i)" by (simp add: tl_detached_inv_def)
  with r have "d \<or> Detach_self \<in> set r" by simp
  with ta [symmetric] j r show ?thesis
    by (cases "(i, d, r, s)" rule: tl_thread_act.cases) (auto simp: tl_detached_inv_def)
next
  case Main
  show ?thesis
  proof (cases "tl_main s")
    case Nil
    with st j Main show ?thesis by (auto simp: tl_step_def tl_detached_inv_def split: if_splits)
  next
    case (Cons a r)
    with st Main have ma: "tl_main_act P a (s\<lparr>tl_main := r\<rparr>) = Some t" and ex: "tl_exit s = None"
      by (simp_all add: tl_step_def split: if_splits)
    moreover from j have "tl_thr s k \<noteq> Ended" for k
      by (metis tl_detached_inv_def tl_detaching.simps(2))
    moreover from j Cons ex have "tl_all_detach P (a # r)" by (simp add: tl_detached_inv_def)
    ultimately show ?thesis using j
    proof (cases a)
      case (Join k pol)
      with ma \<open>tl_all_detach P (a # r)\<close> j \<open>tl_thr s k \<noteq> Ended\<close> ex show ?thesis
        by (cases pol) (auto simp: tl_detached_inv_def split: tl_life.splits if_splits)
    qed (auto simp: tl_detached_inv_def split: option.splits)
  qed
qed

sublocale uniform_joins P n False "tl_detached_inv P"
proof unfold_locales
  show "tl_detached_inv P (tl_start P)" using detaches by (simp add: tl_detached_inv_def tl_start_def)
  show "tl_detached_inv P t" if "tl_detached_inv P s" "tl_step P e s = Some t" for s e t using that by (rule detached_step)
  show "tl_thr s k \<noteq> Ended \<or> pol = Ignore" if "tl_detached_inv P s" for s k pol
    using that by (metis tl_detached_inv_def tl_detaching.simps(2))
  show "tl_got s k = (if False then pr_ret P k else None)" if "tl_detached_inv P s" for s k
    using that by (simp add: tl_detached_inv_def)
qed simp

lemma detached_outcome:
  assumes ex: "exec (tl_step P) es (tl_start P) = Some s"
  shows "(\<exists>ms. tl_lines k s @ ms = tl_says (pr_body P k)) \<and> length es \<le> tl_left P n (tl_start P)
    \<and> (case tl_exit s of
         None \<Rightarrow> \<exists>e. tl_step P e s \<noteq> None
       | Some x \<Rightarrow> x = tl_main_status False P (pr_main P) \<and> tl_main_lines s = tl_main_says False P (pr_main P))"
proof (cases "tl_exit s")
  case None
  from outcome [OF ex] have inv: "tl_inv P n s" and j: "tl_detached_inv P s" by simp_all
  have "tl_got s k \<noteq> None" if "tl_main s = Say_ret m k # r" for m k r
    using j that None by (simp add: tl_detached_inv_def)
  from can_move [OF inv None this] lines_prefix [OF inv] exec_length [OF ex] None show ?thesis by auto
next
  case (Some x)
  from outcome [OF ex] have "tl_inv P n s" "tl_told False P s" by simp_all
  with lines_prefix exec_length [OF ex] Some show ?thesis by (auto simp: tl_told_def)
qed

end

section \<open>What the programs do\<close>

lemma tl_says_loop [simp]: "tl_says (loop_lines m loops) = map (Line m) [0..<loops]"
proof -
  have "tl_says (map (\<lambda>i. Say (Line m i)) xs) = map (Line m) xs" for xs by (induction xs) simp_all
  then show ?thesis by (simp add: loop_lines_def)
qed

lemma tl_loop_ok [simp]: "tl_thread_ok (loop_lines m loops)" "Detach_self \<notin> set (loop_lines m loops)"
proof -
  have "tl_thread_ok (map (\<lambda>i. Say (Line m i)) xs)" for xs by (induction xs) simp_all
  then show "tl_thread_ok (loop_lines m loops)" "Detach_self \<notin> set (loop_lines m loops)" by (auto simp: loop_lines_def)
qed

lemma length_loop_lines [simp]: "length (loop_lines m loops) = loops"
  by (simp add: loop_lines_def)

interpretation pj: joinable_program pj_prog 2
  by unfold_locales (auto simp: pj_prog_def)

interpretation pc: joinable_program pc_prog 1
  by unfold_locales (auto simp: pc_prog_def)

interpretation cn: joinable_program cn_prog 1
  by unfold_locales (auto simp: cn_prog_def upt_rec)

interpretation dj: detached_program dj_prog 1
  by unfold_locales (auto simp: dj_prog_def)

interpretation sd: detached_program sd_prog 2
  by unfold_locales (auto simp: sd_prog_def)

text \<open>The three ways in which \<open>pthread-detach-join.c\<close> goes on: the join fails, or it succeeds because it was called first, or
  the thread cannot detach itself.\<close>

definition dj_late :: "tl_state \<Rightarrow> bool" where
  "dj_late s \<longleftrightarrow> tl_told True dj_prog s
     \<and> (tl_exit s = None \<and> tl_main s = [Join 0 (Fail 1), Say_ret 1 0]
          \<and> (tl_thr s 0 = Ended \<or> (\<exists>q. tl_thr s 0 = Running False q \<and> Detach_self \<notin> set q))
        \<or> tl_exit s = None \<and> tl_main s = [Say_ret 1 0] \<and> tl_thr s 0 = Gone \<and> tl_got s 0 = Some 0
        \<or> tl_main s = [] \<and> tl_thr s 0 = Gone)"

definition dj_early :: "tl_state \<Rightarrow> bool" where
  "dj_early s \<longleftrightarrow> tl_told False dj_prog s \<and> tl_detached_inv dj_prog s
     \<and> (\<exists>i. tl_main s = drop i (pr_main dj_prog))
     \<and> (\<forall>d q. tl_thr s 0 = Running d q \<longrightarrow> (\<exists>i. q = drop i (pr_body dj_prog 0)))"

definition dj_failed :: "tl_state \<Rightarrow> bool" where
  "dj_failed s \<longleftrightarrow> tl_exit s = Some 1 \<and> last (tl_main_lines s) = Detach_failed 0"

definition dj_ok :: "dt_event list \<Rightarrow> tl_state \<Rightarrow> bool" where
  "dj_ok es s \<longleftrightarrow>
     (if Detach_fails 0 \<in> set es then dj_failed s else if Detach_late 0 \<in> set es then dj_late s else dj_early s)"

lemma dj_inv_step:
  assumes inv: "tl_inv dj_prog 1 s" and st: "dt_step dj_prog e s = Some t"
  shows "tl_inv dj_prog 1 t \<and> tl_left dj_prog 1 t < tl_left dj_prog 1 s"
proof (cases e)
  case (Plain f)
  with st have f: "tl_step dj_prog f s = Some t" by (simp add: dt_step_def split: if_splits)
  from dj.inv_step [OF inv f] dj.m_step [OF inv f] show ?thesis by simp
next
  case (Detach_late k)
  with st obtain r where r: "tl_thr s k = Running False (Detach_self # r)" and t: "t = tl_set k (Running False r) s"
    by (auto simp: dt_step_def split: if_splits list.splits tl_act.splits tl_life.splits bool.splits)
  then have th: "tl_step dj_prog (Thr k) s = Some (tl_set k (Running True r) s)"
    using st by (auto simp: tl_step_def dt_step_def split: if_splits)
  have inv': "tl_inv dj_prog 1 (tl_set k (Running True r) s)" "tl_left dj_prog 1 (tl_set k (Running True r) s) < tl_left dj_prog 1 s"
    using dj.inv_step [OF inv th] dj.m_step [OF inv th] by simp_all
  have "{j. tl_thr (tl_set k (Running False r) s) j \<noteq> Unborn} = {j. tl_thr (tl_set k (Running True r) s) j \<noteq> Unborn}" by auto
  moreover have "tl_thr_inv dj_prog (tl_set k (Running False r) s) j \<longleftrightarrow> tl_thr_inv dj_prog (tl_set k (Running True r) s) j" for j
    by (simp add: tl_thr_inv_def)
  moreover have "tl_rank (tl_thr (tl_set k (Running False r) s) j) = tl_rank (tl_thr (tl_set k (Running True r) s) j)" for j by simp
  ultimately show ?thesis using inv' unfolding t by (auto simp: tl_inv_def tl_left_def)
next
  case (Detach_fails k)
  with st have "t = (tl_say None (Detach_failed k) s)\<lparr>tl_exit := Some 1\<rparr>" "tl_exit s = None"
    by (auto simp: dt_step_def split: if_splits list.splits tl_act.splits tl_life.splits)
  with inv show ?thesis by (auto simp: tl_inv_def tl_thr_inv_def tl_left_def)
qed

interpretation djt: step_measure "dt_step dj_prog" "tl_start dj_prog" "tl_inv dj_prog 1" "tl_left dj_prog 1"
proof unfold_locales
  fix s e t assume "tl_inv dj_prog 1 s" "dt_step dj_prog e s = Some t"
  then show "tl_inv dj_prog 1 t" "tl_left dj_prog 1 t < tl_left dj_prog 1 s" using dj_inv_step by simp_all
qed (rule dj.inv_init)

lemma tl_main_step: "tl_step P e s = Some t \<Longrightarrow> tl_main t = tl_main s \<or> tl_main t = tl (tl_main s)"
proof (cases e)
  case (Thr i)
  moreover assume "tl_step P e s = Some t"
  ultimately obtain d r where "tl_thr s i = Running d r" "tl_thread_act i d r s = Some t"
    by (auto simp: tl_step_def split: if_splits tl_life.splits)
  then show ?thesis by (cases "(i, d, r, s)" rule: tl_thread_act.cases) auto
next
  case Main
  moreover assume "tl_step P e s = Some t"
  moreover have "tl_main_act P a (s\<lparr>tl_main := r\<rparr>) = Some t \<Longrightarrow> tl_main t = r" for a r
    by (cases a) (auto split: tl_life.splits option.splits if_splits)
  ultimately show ?thesis by (cases "tl_main s") (auto simp: tl_step_def split: if_splits)
qed

lemma tl_thr_step:
  assumes "tl_step P e s = Some t" "tl_thr t k = Running d q"
  shows "q = pr_body P k \<or> (\<exists>d' q'. tl_thr s k = Running d' q' \<and> (q = q' \<or> q = tl q'))"
proof (cases e)
  case (Thr i)
  with assms(1) obtain d' r where "tl_thr s i = Running d' r" "tl_thread_act i d' r s = Some t"
    by (auto simp: tl_step_def split: if_splits tl_life.splits)
  with assms(2) show ?thesis
    by (cases "(i, d', r, s)" rule: tl_thread_act.cases) (auto split: if_splits)
next
  case Main
  moreover have "tl_main_act P a (s\<lparr>tl_main := r\<rparr>) = Some t \<Longrightarrow> ?thesis" for a r
    using assms(2) by (cases a) (auto split: tl_life.splits option.splits if_splits)
  ultimately show ?thesis using assms by (cases "tl_main s") (auto simp: tl_step_def split: if_splits)
qed

lemma dj_detach: "drop i (pr_body dj_prog 0) = Detach_self # r \<Longrightarrow> Detach_self \<notin> set r"
proof (cases "i - 1")
  case 0
  then show "drop i (pr_body dj_prog 0) = Detach_self # r \<Longrightarrow> ?thesis" by (cases i) (auto simp: dj_prog_def)
next
  case (Suc j)
  assume "drop i (pr_body dj_prog 0) = Detach_self # r"
  with Suc have "drop j (Say (Note ''Thread detached.'') # loop_lines 1 5) = Detach_self # r"
    by (cases i) (auto simp: dj_prog_def)
  then have "Detach_self \<in> set (Say (Note ''Thread detached.'') # loop_lines 1 5)"
    by (metis in_set_dropD list.set_intros(1))
  then show ?thesis by simp
qed

lemma dj_join: "drop i (pr_main dj_prog) = Join k pol # r \<Longrightarrow> pol = Fail 1 \<and> r = [Say_ret 1 0] \<and> k = 0"
  by (cases i; cases "i - 1"; cases "i - 2"; cases "i - 3"; simp add: dj_prog_def drop_Cons' split: if_splits)

lemma dj_early_plain:
  assumes inv: "tl_inv dj_prog 1 s" and early: "dj_early s" and st: "tl_step dj_prog e s = Some t"
  shows "dj_early t"
proof -
  from early have told: "tl_told False dj_prog s" and det: "tl_detached_inv dj_prog s" and i: "\<exists>i. tl_main s = drop i (pr_main dj_prog)"
    by (simp_all add: dj_early_def)
  from i tl_main_step [OF st] have "\<exists>i. tl_main t = drop i (pr_main dj_prog)"
    by (metis drop_Suc tl_drop)
  moreover have "\<exists>i. q = drop i (pr_body dj_prog 0)" if t: "tl_thr t 0 = Running d q" for d q
    using tl_thr_step [OF st t]
  proof
    assume "q = pr_body dj_prog 0"
    then show ?thesis by (intro exI [of _ 0]) simp
  next
    assume "\<exists>d' q'. tl_thr s 0 = Running d' q' \<and> (q = q' \<or> q = tl q')"
    with early show ?thesis unfolding dj_early_def by (metis drop_Suc tl_drop)
  qed
  ultimately show ?thesis
    using dj.told_step [OF inv det told st] dj.detached_step [OF det st] by (simp add: dj_early_def)
qed

lemma dj_late_plain:
  assumes late: "dj_late s" and inv: "tl_inv dj_prog 1 s" and st: "tl_step dj_prog e s = Some t"
  shows "dj_late t"
proof (cases e)
  case (Thr i)
  with st obtain d r where r: "tl_thr s i = Running d r" and ta: "tl_thread_act i d r s = Some t" and ex: "tl_exit s = None"
    by (auto simp: tl_step_def split: if_splits tl_life.splits)
  from inv r have "i = 0" by (cases "i = 0") (auto simp: tl_inv_def)
  with late r ex ta [symmetric] show ?thesis
    by (cases "(i, d, r, s)" rule: tl_thread_act.cases) (auto simp: dj_late_def tl_told_def)
next
  case Main
  with st have ex: "tl_exit s = None" by (simp add: tl_step_def split: if_splits)
  with late consider "tl_main s = [Join 0 (Fail 1), Say_ret 1 0]" | "tl_main s = [Say_ret 1 0]" "tl_thr s 0 = Gone" "tl_got s 0 = Some 0"
    | "tl_main s = []" "tl_thr s 0 = Gone" by (auto simp: dj_late_def)
  then show ?thesis
  proof cases
    case 1
    with late st Main ex have "t = (tl_set 0 Gone (s\<lparr>tl_main := [Say_ret 1 0]\<rparr>))\<lparr>tl_got := (tl_got s)(0 := pr_ret dj_prog 0)\<rparr>"
      by (auto simp: tl_step_def dj_late_def)
    with 1 late ex show ?thesis by (auto simp: dj_late_def tl_told_def) (auto simp: dj_prog_def)
  next
    case 2
    with st Main ex have "t = tl_say None (Returned 1 1) (s\<lparr>tl_main := []\<rparr>)" by (simp add: tl_step_def)
    with 2 late ex show ?thesis by (auto simp: dj_late_def tl_told_def) (auto simp: dj_prog_def)
  next
    case 3
    with st Main ex have "t = s\<lparr>tl_exit := Some (pr_status dj_prog)\<rparr>" by (simp add: tl_step_def)
    with 3 late ex show ?thesis by (auto simp: dj_late_def tl_told_def)
  qed
qed

lemma dj_ok_step:
  assumes inv: "tl_inv dj_prog 1 s" and ok: "dj_ok es s" and st: "dt_step dj_prog e s = Some t"
  shows "dj_ok (es @ [e]) t"
proof -
  from st have ex: "tl_exit s = None" by (simp add: dt_step_def split: if_splits)
  with ok have nf: "Detach_fails 0 \<notin> set es" by (auto simp: dj_ok_def dj_failed_def split: if_splits)
  have zero: "k = 0" if "tl_thr s k = Running d r" for k d r
    using inv that by (cases "k = 0") (auto simp: tl_inv_def)
  show ?thesis
  proof (cases e)
    case (Plain f)
    with st have f: "tl_step dj_prog f s = Some t" by (simp add: dt_step_def split: if_splits)
    show ?thesis using ok nf dj_late_plain [OF _ inv f] dj_early_plain [OF inv _ f] Plain by (auto simp: dj_ok_def)
  next
    case (Detach_fails k)
    with st obtain d r where "tl_thr s k = Running d (Detach_self # r)" "t = (tl_say None (Detach_failed k) s)\<lparr>tl_exit := Some 1\<rparr>"
      by (auto simp: dt_step_def split: if_splits list.splits tl_act.splits tl_life.splits)
    with Detach_fails zero [of k d "Detach_self # r"] show ?thesis by (simp add: dj_ok_def dj_failed_def)
  next
    case (Detach_late k)
    with st obtain pol q r where m: "tl_main s = Join k pol # q" and r: "tl_thr s k = Running False (Detach_self # r)"
      and t: "t = tl_set k (Running False r) s"
      by (auto simp: dt_step_def split: if_splits list.splits tl_act.splits tl_life.splits bool.splits)
    have k: "k = 0" using zero r by blast
    have "Detach_late 0 \<notin> set es"
      using ok nf m r k by (auto simp: dj_ok_def dj_late_def)
    with ok nf have early: "dj_early s" by (simp add: dj_ok_def)
    then obtain i where i: "tl_main s = drop i (pr_main dj_prog)" by (auto simp: dj_early_def)
    with dj_join [of i k pol q] m have main: "tl_main s = [Join 0 (Fail 1), Say_ret 1 0]" by simp
    from early ex main have "tl_main_lines s = [Note ''Thread created.'', Note ''Main thread starts waiting for thread completion...'']"
      by (simp add: dj_early_def tl_told_def) (simp add: dj_prog_def)
    moreover have "Detach_self \<notin> set r"
    proof -
      from early r k obtain i where "drop i (pr_body dj_prog 0) = Detach_self # r" unfolding dj_early_def by metis
      then show ?thesis by (rule dj_detach)
    qed
    ultimately have "dj_late t" using main ex t k by (simp add: dj_late_def tl_told_def) (simp add: dj_prog_def)
    with Detach_late k nf show ?thesis by (simp add: dj_ok_def)
  qed
qed

lemma dj_outcome:
  assumes "exec (dt_step dj_prog) es (tl_start dj_prog) = Some s"
  shows "tl_inv dj_prog 1 s \<and> dj_ok es s"
  using assms
proof (induction rule: exec_snoc_induct)
  case Nil
  have "dj_early (tl_start dj_prog)"
    using dj.J_start by (auto simp: dj_early_def tl_told_def tl_start_def tl_main_lines_def intro: exI [of _ 0])
  with dj.inv_init show ?case by (simp add: dj_ok_def)
next
  case (snoc es s e t)
  with dj_ok_step [of s es e t] dj_inv_step [of s e t] show ?case by blast
qed

lemma dj_can_move:
  assumes inv: "tl_inv dj_prog 1 s" and ok: "dj_ok es s" and ex: "tl_exit s = None"
  shows "\<exists>e. dt_step dj_prog (Plain e) s \<noteq> None"
proof -
  have "tl_got s k \<noteq> None" if "tl_main s = Say_ret m k # r" for m k r
    using ok that ex
    by (auto simp: dj_ok_def dj_failed_def dj_late_def dj_early_def tl_detached_inv_def split: if_splits)
  from dj.can_move [OF inv ex this] ex show ?thesis by (simp add: dt_step_def)
qed

lemma dj_end:
  assumes "exec (dt_step dj_prog) es (tl_start dj_prog) = Some s" "tl_exit s = Some x"
  shows "if Detach_fails 0 \<in> set es then x = 1 \<and> last (tl_main_lines s) = Detach_failed 0
    else if Detach_late 0 \<in> set es
      then x = 0 \<and> tl_main_lines s = [Note ''Thread created.'', Note ''Main thread starts waiting for thread completion...'', Returned 1 1]
        \<and> tl_lines 0 s = [Note ''Thread started.'', Note ''Thread detached.''] @ map (Line 1) [0..<5]
      else x = 1 \<and> tl_main_lines s = [Note ''Thread created.'', Note ''Main thread starts waiting for thread completion...'', Join_failed 0]"
proof -
  from dj_outcome [OF assms(1)] have inv: "tl_inv dj_prog 1 s" and ok: "dj_ok es s" by simp_all
  have "tl_lines 0 s = tl_says (pr_body dj_prog 0)" if "dj_late s"
  proof -
    from inv have "tl_life_ok (pr_body dj_prog 0) (tl_thr s 0) (tl_lines 0 s)" by (simp add: tl_inv_def tl_thr_inv_def)
    moreover have "tl_thr s 0 = Gone" using that assms(2) by (auto simp: dj_late_def)
    ultimately show ?thesis by simp
  qed
  then have "dj_late s \<Longrightarrow> tl_lines 0 s = [Note ''Thread started.'', Note ''Thread detached.''] @ map (Line 1) [0..<5]"
    by (simp add: dj_prog_def)
  moreover have "dj_late s \<Longrightarrow> x = 0 \<and> tl_main_lines s =
      [Note ''Thread created.'', Note ''Main thread starts waiting for thread completion...'', Returned 1 1]"
    using assms(2) by (simp add: dj_late_def tl_told_def) (simp add: dj_prog_def)
  moreover have "dj_early s \<Longrightarrow> x = 1 \<and> tl_main_lines s =
      [Note ''Thread created.'', Note ''Main thread starts waiting for thread completion...'', Join_failed 0]"
    using assms(2) by (simp add: dj_early_def tl_told_def) (simp add: dj_prog_def)
  ultimately show ?thesis using ok assms(2) by (auto simp: dj_ok_def dj_failed_def split: if_splits)
qed

text \<open>In \<open>wrong-err-use.c\<close> the first join succeeds and the second fails; the first prints nothing either way.\<close>

fun tl_unjoinable :: "tl_life \<Rightarrow> bool" where
  "tl_unjoinable (Running d r) \<longleftrightarrow> d"
| "tl_unjoinable Gone \<longleftrightarrow> True"
| "tl_unjoinable _ \<longleftrightarrow> False"

definition we_inv :: "tl_state \<Rightarrow> bool" where
  "we_inv s \<longleftrightarrow> tl_main s = pr_main we_prog \<or> tl_main s = tl (pr_main we_prog) \<or> tl_main s = []
     \<or> tl_main s = [Join 0 (Fail 1)] \<and> tl_unjoinable (tl_thr s 0)"

lemma we_inv_step:
  assumes inv: "we_inv s" and st: "tl_step we_prog e s = Some t"
  shows "we_inv t"
proof (cases e)
  case (Thr i)
  with st obtain d r where r: "tl_thr s i = Running d r" and ta: "tl_thread_act i d r s = Some t"
    by (auto simp: tl_step_def split: if_splits tl_life.splits)
  with inv show ?thesis by (cases "(i, d, r, s)" rule: tl_thread_act.cases; cases "i = 0") (auto simp: we_inv_def)
next
  case Main
  with inv st show ?thesis
    by (auto simp: tl_step_def we_inv_def we_prog_def split: if_splits tl_life.splits)
qed

interpretation we: thread_program we_prog 1
  by unfold_locales (simp_all add: we_prog_def)

interpretation we: uniform_joins we_prog 1 False we_inv
proof unfold_locales
  show "we_inv (tl_start we_prog)" by (simp add: we_inv_def tl_start_def)
  show "we_inv t" if "we_inv s" "tl_step we_prog e s = Some t" for s e t using that by (rule we_inv_step)
qed (auto simp: we_inv_def we_prog_def)

lemma we_outcome:
  assumes "exec (tl_step we_prog) es (tl_start we_prog) = Some s" "tl_exit s = Some x"
  shows "x = 1 \<and> tl_main_lines s = [Join_failed 0]"
  using we.outcome [OF assms(1)] assms(2) by (auto simp: tl_told_def we_prog_def)

lemma tl_runs:
  "\<forall>j \<in> set [0..<6]. runs (tl_step pc_prog) (Main # replicate j (Thr 0) @ [Main]) (tl_start pc_prog)
      (\<lambda>s. tl_exit s = Some 0 \<and> tl_lines 0 s = map (Line 0) [0..<j])"
  "\<forall>j \<in> set [0..<6]. runs (dt_step dj_prog) (map Plain (Main # replicate 3 (Thr 0) @ replicate j (Thr 0) @ replicate 3 Main)) (tl_start dj_prog)
      (\<lambda>s. tl_exit s = Some 1 \<and> tl_lines 0 s = [Note ''Thread started.'', Note ''Thread detached.''] @ map (Line 1) [0..<j])"
  "\<forall>j \<in> set [0..<11]. runs (tl_step sd_prog) (Main # Main # replicate j (Thr 0) @ replicate 4 Main) (tl_start sd_prog)
      (\<lambda>s. tl_exit s = Some 0 \<and> tl_lines 0 s = map (Line 1) [0..<j])"
  "runs (dt_step dj_prog) (map Plain [Main, Main, Main, Thr 0] @ [Detach_late 0] @ map Plain (replicate 7 (Thr 0) @ replicate 3 Main))
      (tl_start dj_prog) (\<lambda>s. tl_exit s = Some 0)"
  by code_simp+

text \<open>C34: \<open>pthread-join.c\<close> and \<open>pthread-cleanup.c\<close>: on every schedule each thread prints its lines in order, something can always go on until the
  process ends, after at most 21 (11) calls, and then both joins have returned the threads' own arguments and every line
  is there, in \<open>pthread-cleanup.c\<close> with the handler run in the fourth and fifth iteration only. \<open>pthread-create.c\<close>, which
  does not join its thread, ends in the same way, but with any number of lines missing, from none to all.\<close>

theorem joined_threads_finish:
  "(\<forall>es s. exec (tl_step pj_prog) es (tl_start pj_prog) = Some s \<longrightarrow>
      length es \<le> 21 \<and> (\<forall>k < 2. \<exists>ms. tl_lines k s @ ms = map (Line (Suc k)) [0..<5])
    \<and> (case tl_exit s of
         None \<Rightarrow> \<exists>e. tl_step pj_prog e s \<noteq> None
       | Some x \<Rightarrow> x = 0 \<and> (\<forall>k < 2. tl_lines k s = map (Line (Suc k)) [0..<5])
           \<and> tl_main_lines s = [Note ''Threads created.'', Note ''The main thread starts waiting for the threads completion.'',
               Returned 1 1, Returned 2 2]))
   \<and> (\<forall>es s. exec (tl_step cn_prog) es (tl_start cn_prog) = Some s \<longrightarrow>
      length es \<le> 11
    \<and> (case tl_exit s of
         None \<Rightarrow> \<exists>e. tl_step cn_prog e s \<noteq> None
       | Some x \<Rightarrow> x = 0 \<and> tl_lines 0 s = [Line 0 0, Line 0 1, Line 0 2, Line 0 3, Cleanup, Line 0 4, Cleanup]))
   \<and> (\<forall>es s. exec (tl_step pc_prog) es (tl_start pc_prog) = Some s \<longrightarrow>
      (\<exists>ms. tl_lines 0 s @ ms = map (Line 0) [0..<5]) \<and> (\<forall>x. tl_exit s = Some x \<longrightarrow> x = 0))
   \<and> (\<forall>j \<le> 5. \<exists>s. reach (tl_step pc_prog) (tl_start pc_prog) s \<and> tl_exit s = Some 0 \<and> tl_lines 0 s = map (Line 0) [0..<j])"
proof (intro conjI allI impI)
  fix es s assume ex: "exec (tl_step pj_prog) es (tl_start pj_prog) = Some s"
  note o = pj.joinable_outcome [OF ex]
  show "length es \<le> 21" using o by (simp add: tl_left_def tl_start_def pj_prog_def eval_nat_numeral)
  show "\<exists>ms. tl_lines k s @ ms = map (Line (Suc k)) [0..<5]" for k using o [of k] by (simp add: pj_prog_def)
  show "case tl_exit s of None \<Rightarrow> \<exists>e. tl_step pj_prog e s \<noteq> None
       | Some x \<Rightarrow> x = 0 \<and> (\<forall>k < 2. tl_lines k s = map (Line (Suc k)) [0..<5])
           \<and> tl_main_lines s = [Note ''Threads created.'', Note ''The main thread starts waiting for the threads completion.'',
               Returned 1 1, Returned 2 2]"
  proof (cases "tl_exit s")
    case (Some x)
    with o show ?thesis by (simp add: pj_prog_def less_2_cases_iff)
  qed (use o in simp)
next
  fix es s assume ex: "exec (tl_step cn_prog) es (tl_start cn_prog) = Some s"
  note o = cn.joinable_outcome [OF ex, of 0]
  show "length es \<le> 11" using o by (simp add: tl_left_def tl_start_def cn_prog_def upt_rec)
  show "case tl_exit s of None \<Rightarrow> \<exists>e. tl_step cn_prog e s \<noteq> None
       | Some x \<Rightarrow> x = 0 \<and> tl_lines 0 s = [Line 0 0, Line 0 1, Line 0 2, Line 0 3, Cleanup, Line 0 4, Cleanup]"
  proof (cases "tl_exit s")
    case (Some x)
    with o show ?thesis by (simp add: cn_prog_def upt_rec)
  qed (use o in simp)
next
  fix es s assume ex: "exec (tl_step pc_prog) es (tl_start pc_prog) = Some s"
  note o = pc.joinable_outcome [OF ex, of 0]
  show "\<exists>ms. tl_lines 0 s @ ms = map (Line 0) [0..<5]" using o by (simp add: pc_prog_def)
  show "x = 0" if "tl_exit s = Some x" for x using o that by (simp add: pc_prog_def)
next
  fix j :: nat assume "j \<le> 5"
  then have "runs (tl_step pc_prog) (Main # replicate j (Thr 0) @ [Main]) (tl_start pc_prog)
      (\<lambda>s. tl_exit s = Some 0 \<and> tl_lines 0 s = map (Line 0) [0..<j])"
    using tl_runs(1) by auto
  from runs_reach [OF this]
  show "\<exists>s. reach (tl_step pc_prog) (tl_start pc_prog) s \<and> tl_exit s = Some 0 \<and> tl_lines 0 s = map (Line 0) [0..<j]" .
qed

theorem joined_threads_finish_witness:
  "\<exists>s e. exec (tl_step pj_prog) [Main, Thr 0, Main] (tl_start pj_prog) = Some s \<and> tl_exit s = None \<and> tl_step pj_prog e s \<noteq> None"
proof -
  have "runs (tl_step pj_prog) [Main, Thr 0, Main] (tl_start pj_prog) (\<lambda>s. tl_exit s = None)"
    by code_simp
  from runs_exec [OF this] obtain s where ex: "exec (tl_step pj_prog) [Main, Thr 0, Main] (tl_start pj_prog) = Some s" and no: "tl_exit s = None" by blast
  from conjunct1 [OF joined_threads_finish, THEN spec, THEN spec, THEN mp, OF ex] ex no show ?thesis by auto
qed

text \<open>C35: A thread that is detached when it is joined is not joined. \<open>pthread-detach-join.c\<close> ends with status 1 and the error of
  its join if \<open>main()\<close> calls it after the thread has detached itself. If \<open>main()\<close> waits in it already, which the \<open>sleep\<close>
  makes unlikely, the join succeeds after all lines of the thread, and the status is 0; such a run exists. If \<open>pthread_detach\<close>
  fails, that error is the last and the status 1. \<open>set-detachstate.c\<close>, whose threads are created detached, always ends
  with status 0 and two warnings. Each thread has printed a beginning of its lines, which can be any number of the
  lines of its loop. \<open>wrong-err-use.c\<close>, which joins a thread twice, always ends with status 1.\<close>

theorem detached_not_joined:
  "(\<forall>es s. exec (dt_step dj_prog) es (tl_start dj_prog) = Some s \<longrightarrow>
      length es \<le> 15
    \<and> (\<exists>ms. tl_lines 0 s @ ms = [Note ''Thread started.'', Note ''Thread detached.''] @ map (Line 1) [0..<5])
    \<and> (case tl_exit s of
         None \<Rightarrow> \<exists>e. dt_step dj_prog (Plain e) s \<noteq> None
       | Some x \<Rightarrow>
           if Detach_fails 0 \<in> set es then x = 1 \<and> last (tl_main_lines s) = Detach_failed 0
           else if Detach_late 0 \<in> set es
           then x = 0 \<and> tl_main_lines s = [Note ''Thread created.'', Note ''Main thread starts waiting for thread completion...'', Returned 1 1]
             \<and> tl_lines 0 s = [Note ''Thread started.'', Note ''Thread detached.''] @ map (Line 1) [0..<5]
           else x = 1 \<and> tl_main_lines s = [Note ''Thread created.'', Note ''Main thread starts waiting for thread completion...'', Join_failed 0]))
   \<and> (\<forall>j \<le> 5. \<exists>s. reach (dt_step dj_prog) (tl_start dj_prog) s \<and> tl_exit s = Some 1
        \<and> tl_lines 0 s = [Note ''Thread started.'', Note ''Thread detached.''] @ map (Line 1) [0..<j])
   \<and> (\<exists>s. reach (dt_step dj_prog) (tl_start dj_prog) s \<and> tl_exit s = Some 0)
   \<and> (\<forall>es s. exec (tl_step sd_prog) es (tl_start sd_prog) = Some s \<longrightarrow>
      length es \<le> 28 \<and> (\<forall>k < 2. \<exists>ms. tl_lines k s @ ms = map (Line (Suc k)) [0..<10])
    \<and> (case tl_exit s of
         None \<Rightarrow> \<exists>e. tl_step sd_prog e s \<noteq> None
       | Some x \<Rightarrow> x = 0 \<and> tl_main_lines s = [Note ''Threads created, will try to join them now.'', Join_failed 0, Join_failed 1]))
   \<and> (\<forall>j \<le> 10. \<exists>s. reach (tl_step sd_prog) (tl_start sd_prog) s \<and> tl_exit s = Some 0 \<and> tl_lines 0 s = map (Line 1) [0..<j])
   \<and> (\<forall>es s x. exec (tl_step we_prog) es (tl_start we_prog) = Some s \<and> tl_exit s = Some x \<longrightarrow> x = 1 \<and> tl_main_lines s = [Join_failed 0])"
proof (intro conjI allI impI ballI)
  fix es s assume ex: "exec (dt_step dj_prog) es (tl_start dj_prog) = Some s"
  from dj_outcome [OF ex] have inv: "tl_inv dj_prog 1 s" and ok: "dj_ok es s" by simp_all
  show "length es \<le> 15"
    using djt.exec_length [OF ex] by (simp add: tl_left_def tl_start_def dj_prog_def eval_nat_numeral)
  show "\<exists>ms. tl_lines 0 s @ ms = [Note ''Thread started.'', Note ''Thread detached.''] @ map (Line 1) [0..<5]"
    using dj.lines_prefix [OF inv, of 0] by (simp add: dj_prog_def)
  show "case tl_exit s of
         None \<Rightarrow> \<exists>e. dt_step dj_prog (Plain e) s \<noteq> None
       | Some x \<Rightarrow>
           if Detach_fails 0 \<in> set es then x = 1 \<and> last (tl_main_lines s) = Detach_failed 0
           else if Detach_late 0 \<in> set es
           then x = 0 \<and> tl_main_lines s = [Note ''Thread created.'', Note ''Main thread starts waiting for thread completion...'', Returned 1 1]
             \<and> tl_lines 0 s = [Note ''Thread started.'', Note ''Thread detached.''] @ map (Line 1) [0..<5]
           else x = 1 \<and> tl_main_lines s = [Note ''Thread created.'', Note ''Main thread starts waiting for thread completion...'', Join_failed 0]"
    using dj_can_move [OF inv ok] dj_end [OF ex] by (simp split: option.split)
next
  fix j :: nat assume "j \<le> 5"
  then have "runs (dt_step dj_prog) (map Plain (Main # replicate 3 (Thr 0) @ replicate j (Thr 0) @ replicate 3 Main)) (tl_start dj_prog)
      (\<lambda>s. tl_exit s = Some 1 \<and> tl_lines 0 s = [Note ''Thread started.'', Note ''Thread detached.''] @ map (Line 1) [0..<j])"
    using tl_runs(2) by auto
  from runs_reach [OF this]
  show "\<exists>s. reach (dt_step dj_prog) (tl_start dj_prog) s \<and> tl_exit s = Some 1
      \<and> tl_lines 0 s = [Note ''Thread started.'', Note ''Thread detached.''] @ map (Line 1) [0..<j]" .
next
  show "\<exists>s. reach (dt_step dj_prog) (tl_start dj_prog) s \<and> tl_exit s = Some 0" using runs_reach [OF tl_runs(4)] .
next
  fix es s assume ex: "exec (tl_step sd_prog) es (tl_start sd_prog) = Some s"
  note o = sd.detached_outcome [OF ex]
  show "length es \<le> 28" using o by (simp add: tl_left_def tl_start_def sd_prog_def eval_nat_numeral)
  show "\<exists>ms. tl_lines k s @ ms = map (Line (Suc k)) [0..<10]" for k using o [of k] by (simp add: sd_prog_def)
  show "case tl_exit s of None \<Rightarrow> \<exists>e. tl_step sd_prog e s \<noteq> None
       | Some x \<Rightarrow> x = 0 \<and> tl_main_lines s = [Note ''Threads created, will try to join them now.'', Join_failed 0, Join_failed 1]"
  proof (cases "tl_exit s")
    case (Some x)
    with o show ?thesis by (simp add: sd_prog_def)
  qed (use o in simp)
next
  fix j :: nat assume "j \<le> 10"
  then have "runs (tl_step sd_prog) (Main # Main # replicate j (Thr 0) @ replicate 4 Main) (tl_start sd_prog)
      (\<lambda>s. tl_exit s = Some 0 \<and> tl_lines 0 s = map (Line 1) [0..<j])"
    using tl_runs(3) by auto
  from runs_reach [OF this]
  show "\<exists>s. reach (tl_step sd_prog) (tl_start sd_prog) s \<and> tl_exit s = Some 0 \<and> tl_lines 0 s = map (Line 1) [0..<j]" .
qed (use we_outcome in blast)+

theorem detached_not_joined_witness:
  "\<exists>s e. exec (dt_step dj_prog) (map Plain [Main, Main, Thr 0, Thr 0]) (tl_start dj_prog) = Some s
    \<and> tl_exit s = None \<and> dt_step dj_prog (Plain e) s \<noteq> None"
proof -
  have "runs (dt_step dj_prog) (map Plain [Main, Main, Thr 0, Thr 0]) (tl_start dj_prog) (\<lambda>s. tl_exit s = None)"
    by code_simp
  from runs_exec [OF this] obtain s where
    ex: "exec (dt_step dj_prog) (map Plain [Main, Main, Thr 0, Thr 0]) (tl_start dj_prog) = Some s" and no: "tl_exit s = None" by blast
  from conjunct1 [OF detached_not_joined, THEN spec, THEN spec, THEN mp, OF ex] ex no show ?thesis by auto
qed

end
