(* ===== verification/Thread_Forks.thy ===== *)
theory Thread_Forks
  imports Thread_Lifecycle "HOL-Library.Sublist"
begin

text \<open>
  Processes with threads that fork: \<open>pthreads/fork-not-in-main.c\<close>, where a thread calls \<open>fork\<close> and lives on in the child as its only
  thread, and \<open>pthreads/forkall.c\<close>, where the child gets copies of all threads (on Solaris only). Each of the two processes executes lists of
  calls as in Thread_Lifecycle; one call of the parent makes the child out of the parent's state.
\<close>

section \<open>Two processes with threads\<close>

text \<open>
  \<open>fw_next\<close> tells whether \<open>fork\<close> is what \<open>fw_forker\<close> does next, \<open>fw_copy\<close> is the child it makes, \<open>fw_waits\<close> whether the parent waits for
  the child at its end. The output of the child in \<open>fw_c\<close> is its own; what was in the buffer of the parent when it forked is
  \<open>fw_inherit\<close>. \<open>fw_end\<close> is the status if \<open>fork\<close> has failed, or when the child has been waited for.
\<close>

type_synonym fw_output = "(nat option \<times> tl_msg) list"

record fw_prog =
  fw_P :: tl_prog
  fw_C :: tl_prog
  fw_forker :: tl_event
  fw_next :: "tl_state \<Rightarrow> bool"
  fw_copy :: "tl_state \<Rightarrow> tl_state"
  fw_waits :: bool

record fw_state =
  fw_p :: tl_state
  fw_c :: "tl_state option"
  fw_inherit :: fw_output
  fw_last :: "tl_msg list"
  fw_end :: "int option"

datatype fw_event = In_parent tl_event | In_child tl_event | Fork bool | Reap

definition fw_step :: "fw_prog \<Rightarrow> fw_event \<Rightarrow> fw_state \<Rightarrow> fw_state option" where
  "fw_step F e s =
     (if fw_end s \<noteq> None then None
      else case e of
        In_parent e \<Rightarrow>
          if fw_c s = None \<and> fw_next F (fw_p s) \<and> e = fw_forker F then None
          else map_option (\<lambda>p. s\<lparr>fw_p := p\<rparr>) (tl_step (fw_P F) e (fw_p s))
      | In_child e \<Rightarrow>
          (case fw_c s of None \<Rightarrow> None | Some c \<Rightarrow> map_option (\<lambda>c. s\<lparr>fw_c := Some c\<rparr>) (tl_step (fw_C F) e c))
      | Fork ok \<Rightarrow>
          if fw_c s = None \<and> fw_next F (fw_p s)
          then Some (if ok then s\<lparr>fw_c := Some (fw_copy F (fw_p s)), fw_inherit := tl_out (fw_p s)\<rparr>
                     else s\<lparr>fw_last := [Note ''fork''], fw_end := Some 1\<rparr>)
          else None
      | Reap \<Rightarrow>
          (case fw_c s of None \<Rightarrow> None
           | Some c \<Rightarrow> if fw_waits F \<and> tl_exit (fw_p s) \<noteq> None \<and> tl_exit c \<noteq> None
               then Some (s\<lparr>fw_last := [Note ''child exited.''], fw_end := Some 0\<rparr>) else None))"

definition fw_start :: "fw_prog \<Rightarrow> fw_state" where
  "fw_start F = \<lparr>fw_p = tl_start (fw_P F), fw_c = None, fw_inherit = [], fw_last = [], fw_end = None\<rparr>"

text \<open>What has been written by a process that has ended: on a terminal what it printed itself, otherwise also what it inherited.\<close>

definition fw_child_output :: "bool \<Rightarrow> fw_state \<Rightarrow> fw_output" where
  "fw_child_output tty s = (if tty then [] else fw_inherit s) @ (case fw_c s of None \<Rightarrow> [] | Some c \<Rightarrow> tl_out c)"

section \<open>\<open>forkall.c\<close>\<close>

definition fal_parent_rest :: "tl_act list" where
  "fal_parent_rest = [Join 0 Ignore, Join 1 Ignore, Say (Note ''threads joined.'')]"

definition fal_child_rest :: "tl_act list" where
  "fal_child_rest = [Say (Note ''I'm a child, will join my threads...''), Join 0 Ignore, Join 1 Ignore,
     Say (Note ''child joined all its threads.'')]"

definition fal_prog :: "tl_act list \<Rightarrow> tl_prog" where
  "fal_prog rest = \<lparr>pr_main = [Create 0 False, Create 1 False, Say (Note ''in main before forkall()'')] @ rest,
     pr_status = 0, pr_body = (\<lambda>k. loop_lines (Suc k) 5), pr_ret = (\<lambda>k. None)\<rparr>"

definition fal :: fw_prog where
  "fal = \<lparr>fw_P = fal_prog fal_parent_rest, fw_C = fal_prog fal_child_rest, fw_forker = Main,
     fw_next = (\<lambda>p. tl_main p = fal_parent_rest), fw_copy = (\<lambda>p. p\<lparr>tl_main := fal_child_rest, tl_out := []\<rparr>), fw_waits = True\<rparr>"

text \<open>On other systems the program only says so.\<close>

definition fal_main :: "bool \<Rightarrow> exit_info + fw_state" where
  "fal_main solaris = (if \<not> solaris then Inl (Exit 2 ''Sorry, this example program needs Solaris.'') else Inr (fw_start fal))"

section \<open>\<open>fork-not-in-main.c\<close>\<close>

definition fn_parent_rest :: "tl_act list" where
  "fn_parent_rest = Say (Note ''I'm parent thread()'') # loop_lines 0 3"

text \<open>In the child the thread is all there is; the process ends with it.\<close>

definition fn_child :: tl_prog where
  "fn_child = \<lparr>pr_main = Say (Note ''I'm child thread()'') # loop_lines 0 3, pr_status = 0, pr_body = (\<lambda>k. []), pr_ret = (\<lambda>k. None)\<rparr>"

definition fn_parent :: tl_prog where
  "fn_parent = \<lparr>pr_main = [Say (Note ''in main: starting.''), Create 0 False, Join 0 Ignore, Say (Note ''in main: exiting.'')], pr_status = 0,
     pr_body = (\<lambda>k. Say (Note ''before fork() in non-main thread'') # fn_parent_rest), pr_ret = (\<lambda>k. None)\<rparr>"

definition fn :: fw_prog where
  "fn = \<lparr>fw_P = fn_parent, fw_C = fn_child, fw_forker = Thr 0,
     fw_next = (\<lambda>p. tl_thr p 0 = Running False fn_parent_rest), fw_copy = (\<lambda>p. tl_start fn_child), fw_waits = False\<rparr>"

section \<open>Both processes come to their ends\<close>

text \<open>A step does not depend on what has been printed.\<close>

lemma tl_step_out:
  assumes "tl_step P e (r\<lparr>tl_out := o1\<rparr>) = Some c" "tl_out r = b @ o1"
  shows "\<exists>r'. tl_step P e r = Some r' \<and> c = r'\<lparr>tl_out := tl_out c\<rparr> \<and> tl_out r' = b @ tl_out c"
proof (cases e)
  case Main
  show ?thesis
  proof (cases "tl_main r")
    case Nil
    with assms Main show ?thesis by (auto simp: tl_step_def split: if_splits)
  next
    case (Cons a q)
    show ?thesis
    proof (cases a)
      case (Join k pol)
      with assms Main Cons show ?thesis
        by (cases pol; cases "tl_thr r k") (auto simp: tl_step_def tl_defs split: if_splits)
    qed (use assms Main Cons in \<open>auto simp: tl_step_def tl_defs split: if_splits option.splits\<close>)
  qed
next
  case (Thr k)
  with assms obtain d q where q: "tl_thr r k = Running d q" and ex: "tl_exit r = None" and ta: "tl_thread_act k d q (r\<lparr>tl_out := o1\<rparr>) = Some c"
    by (auto simp: tl_step_def split: if_splits tl_life.splits)
  show ?thesis using ta assms(2) q ex Thr
    by (cases "(k, d, q, r)" rule: tl_thread_act.cases) (auto simp: tl_step_def tl_defs)
qed

lemma tl_step_out_None: "tl_step P e (r\<lparr>tl_out := o1\<rparr>) = None \<longleftrightarrow> tl_step P e r = None"
proof (cases e)
  case Main
  show ?thesis
  proof (cases "tl_main r")
    case (Cons a q)
    with Main show ?thesis by (cases a) (auto simp: tl_step_def split: tl_life.splits option.splits)
  qed (use Main in \<open>simp add: tl_step_def\<close>)
next
  case (Thr k)
  show ?thesis
  proof (cases "tl_thr r k")
    case (Running d q)
    with Thr show ?thesis by (cases "(k, d, q, r)" rule: tl_thread_act.cases) (simp_all add: tl_step_def)
  qed (use Thr in \<open>simp_all add: tl_step_def\<close>)
qed

lemma tl_left_out [simp]: "tl_left P n (s\<lparr>tl_out := x\<rparr>) = tl_left P n s"
  by (simp add: tl_left_def)

text \<open>The lines of a thread, or of \<open>main()\<close>, in an output.\<close>

definition fw_lines :: "nat option \<Rightarrow> fw_output \<Rightarrow> tl_msg list" where
  "fw_lines who out = map snd (filter (\<lambda>x. fst x = who) out)"

lemma fw_lines_tl: "tl_lines k s = fw_lines (Some k) (tl_out s)" "tl_main_lines s = fw_lines None (tl_out s)"
  by (simp_all add: tl_lines_def tl_main_lines_def fw_lines_def)

lemma fw_lines_append [simp]: "fw_lines who (a @ b) = fw_lines who a @ fw_lines who b"
  by (simp add: fw_lines_def)

text \<open>The invariant, in terms of what the locale below assumes of a program, and the calls left.\<close>

definition fw_child_ok :: "fw_prog \<Rightarrow> (fw_output \<Rightarrow> fw_output) \<Rightarrow> fw_state \<Rightarrow> tl_state \<Rightarrow> bool" where
  "fw_child_ok F base s c \<longleftrightarrow> (\<exists>es r. exec (tl_step (fw_C F)) es (tl_start (fw_C F)) = Some r
     \<and> c = r\<lparr>tl_out := tl_out c\<rparr> \<and> tl_out r = base (fw_inherit s) @ tl_out c)"

definition fw_inv :: "fw_prog \<Rightarrow> (tl_state \<Rightarrow> bool) \<Rightarrow> (fw_output \<Rightarrow> fw_output) \<Rightarrow> (fw_output \<Rightarrow> bool) \<Rightarrow> fw_state \<Rightarrow> bool" where
  "fw_inv F pre base inh s \<longleftrightarrow> (\<exists>es. exec (tl_step (fw_P F)) es (tl_start (fw_P F)) = Some (fw_p s))
     \<and> (case fw_c s of None \<Rightarrow> pre (fw_p s)
        | Some c \<Rightarrow> inh (fw_inherit s) \<and> fw_child_ok F base s c
            \<and> (fw_end s \<noteq> None \<longrightarrow> fw_waits F \<and> fw_last s = [Note ''child exited.''] \<and> tl_exit (fw_p s) \<noteq> None \<and> tl_exit c \<noteq> None))"

definition fw_left :: "fw_prog \<Rightarrow> nat \<Rightarrow> nat \<Rightarrow> fw_state \<Rightarrow> nat" where
  "fw_left F n m s = tl_left (fw_P F) n (fw_p s) + (if fw_end s = None then 1 else 0)
     + (case fw_c s of None \<Rightarrow> Suc (tl_left (fw_C F) m (tl_start (fw_C F))) | Some c \<Rightarrow> tl_left (fw_C F) m c)"

text \<open>
  What the two programs have in common: \<open>pre\<close> holds of the parent until the \<open>fork\<close>; the child is, but for the output, in a state that its own
  program can reach, with an output there that is \<open>base\<close> of the parent's; \<open>inh\<close> holds of the buffer it inherits.
\<close>

locale forking_threads = P: joinable_program "fw_P F" n + C: joinable_program "fw_C F" m for F :: fw_prog and n m :: nat +
  fixes pre :: "tl_state \<Rightarrow> bool" and base :: "fw_output \<Rightarrow> fw_output"
    and inh :: "fw_output \<Rightarrow> bool"
  assumes pre_start: "pre (tl_start (fw_P F))"
    and pre_step: "pre s \<Longrightarrow> tl_step (fw_P F) e s = Some t \<Longrightarrow> \<not> (fw_next F s \<and> e = fw_forker F) \<Longrightarrow> pre t"
    and pre_running: "pre s \<Longrightarrow> tl_exit s = None"
    and copy: "pre s \<Longrightarrow> fw_next F s \<Longrightarrow> \<exists>es r. exec (tl_step (fw_C F)) es (tl_start (fw_C F)) = Some r
      \<and> fw_copy F s = r\<lparr>tl_out := []\<rparr> \<and> tl_out r = base (tl_out s)"
    and inherits: "pre s \<Longrightarrow> fw_next F s \<Longrightarrow> inh (tl_out s)"
begin

lemma exec_snoc: "exec step es s = Some t \<Longrightarrow> step e t = Some u \<Longrightarrow> exec step (es @ [e]) s = Some u"
  by (simp add: exec_append)

lemma fw_keeps:
  assumes inv: "fw_inv F pre base inh s" and st: "fw_step F e s = Some t"
  shows "fw_inv F pre base inh t \<and> fw_left F n m t < fw_left F n m s"
proof -
  from st have fe: "fw_end s = None" by (auto simp: fw_step_def split: if_splits)
  from inv obtain es where ex: "exec (tl_step (fw_P F)) es (tl_start (fw_P F)) = Some (fw_p s)" by (auto simp: fw_inv_def)
  show ?thesis
  proof (cases e)
    case (In_parent i)
    with st fe obtain p where p: "tl_step (fw_P F) i (fw_p s) = Some p" and t: "t = s\<lparr>fw_p := p\<rparr>"
      and no: "\<not> (fw_c s = None \<and> fw_next F (fw_p s) \<and> i = fw_forker F)"
      by (auto simp: fw_step_def split: if_splits)
    have "tl_left (fw_P F) n p < tl_left (fw_P F) n (fw_p s)" by (rule P.m_step [OF _ p]) (rule P.exec_inv [OF P.inv_init ex])
    moreover have "pre p" if "fw_c s = None" "pre (fw_p s)" using pre_step [OF that(2) p] no that(1) by blast
    ultimately show ?thesis using inv exec_snoc [OF ex p] fe
      by (auto simp: t fw_inv_def fw_left_def fw_child_ok_def split: option.splits)
  next
    case (In_child i)
    with st fe obtain c d where c: "fw_c s = Some c" and d: "tl_step (fw_C F) i c = Some d" and t: "t = s\<lparr>fw_c := Some d\<rparr>"
      by (auto simp: fw_step_def split: option.splits)
    from inv c obtain cs r where r: "exec (tl_step (fw_C F)) cs (tl_start (fw_C F)) = Some r" "c = r\<lparr>tl_out := tl_out c\<rparr>"
      "tl_out r = base (fw_inherit s) @ tl_out c" by (auto simp: fw_inv_def fw_child_ok_def)
    from tl_step_out [of "fw_C F" i "tl_out c" r d, OF _ r(3)] d r(2) obtain r' where
      r': "tl_step (fw_C F) i r = Some r'" "d = r'\<lparr>tl_out := tl_out d\<rparr>" "tl_out r' = base (fw_inherit s) @ tl_out d" by auto
    have "tl_left (fw_C F) m r' < tl_left (fw_C F) m r" by (rule C.m_step [OF _ r'(1)]) (rule C.exec_inv [OF C.inv_init r(1)])
    then have "tl_left (fw_C F) m d < tl_left (fw_C F) m c" using r(2) r'(2) tl_left_out by metis
    moreover have "fw_child_ok F base t d" using exec_snoc [OF r(1) r'(1)] r'(2,3) by (auto simp: fw_child_ok_def t)
    ultimately show ?thesis using inv c fe by (auto simp: t fw_inv_def fw_left_def)
  next
    case (Fork ok)
    with st fe have no: "fw_c s = None" and nx: "fw_next F (fw_p s)"
      and t: "t = (if ok then s\<lparr>fw_c := Some (fw_copy F (fw_p s)), fw_inherit := tl_out (fw_p s)\<rparr> else s\<lparr>fw_last := [Note ''fork''], fw_end := Some 1\<rparr>)"
      by (auto simp: fw_step_def split: if_splits)
    from inv no have pre: "pre (fw_p s)" by (simp add: fw_inv_def)
    from copy [OF pre nx] obtain cs r where r: "exec (tl_step (fw_C F)) cs (tl_start (fw_C F)) = Some r"
      "fw_copy F (fw_p s) = r\<lparr>tl_out := []\<rparr>" "tl_out r = base (tl_out (fw_p s))" by blast
    have left: "tl_left (fw_C F) m r \<le> tl_left (fw_C F) m (tl_start (fw_C F))" using C.exec_length [OF r(1)] by simp
    have "fw_inv F pre base inh t"
    proof (cases ok)
      case True
      have "fw_child_ok F base t (fw_copy F (fw_p s))" using r True by (auto simp: fw_child_ok_def t)
      with True ex fe inherits [OF pre nx] show ?thesis by (auto simp: fw_inv_def t)
    qed (use inv no in \<open>auto simp: fw_inv_def t\<close>)
    with left no fe r(2) show ?thesis by (simp add: t fw_left_def)
  next
    case Reap
    with st fe obtain c where "fw_c s = Some c" "fw_waits F" "tl_exit (fw_p s) \<noteq> None" "tl_exit c \<noteq> None"
      "t = s\<lparr>fw_last := [Note ''child exited.''], fw_end := Some 0\<rparr>"
      by (auto simp: fw_step_def split: option.splits if_splits)
    with inv fe show ?thesis by (auto simp: fw_inv_def fw_left_def fw_child_ok_def)
  qed
qed

sublocale forks: step_measure "fw_step F" "fw_start F" "fw_inv F pre base inh" "fw_left F n m"
proof unfold_locales
  show "fw_inv F pre base inh (fw_start F)" using pre_start by (auto simp: fw_inv_def fw_start_def intro: exI [of _ "[]"])
qed (use fw_keeps in blast)+

lemma fw_moves:
  assumes inv: "fw_inv F pre base inh s" and running: "fw_end s = None" and left: "fw_waits F \<or> fw_c s = None \<or> tl_exit (fw_p s) = None \<or> tl_exit (the (fw_c s)) = None"
  shows "\<exists>e. fw_step F e s \<noteq> None"
proof -
  from inv obtain es where ex: "exec (tl_step (fw_P F)) es (tl_start (fw_P F)) = Some (fw_p s)" by (auto simp: fw_inv_def)
  have p: "\<exists>e. tl_step (fw_P F) e (fw_p s) \<noteq> None" if "tl_exit (fw_p s) = None" using P.joinable_outcome [OF ex] that by simp
  show ?thesis
  proof (cases "fw_c s")
    case None
    show ?thesis
    proof (cases "fw_next F (fw_p s)")
      case True
      with None running have "fw_step F (Fork True) s \<noteq> None" by (simp add: fw_step_def)
      then show ?thesis ..
    next
      case False
      from None inv have "tl_exit (fw_p s) = None" by (simp add: fw_inv_def pre_running)
      from p [OF this] obtain e where "tl_step (fw_P F) e (fw_p s) \<noteq> None" ..
      with False running have "fw_step F (In_parent e) s \<noteq> None" by (auto simp: fw_step_def)
      then show ?thesis ..
    qed
  next
    case (Some c)
    show ?thesis
    proof (cases "tl_exit (fw_p s)")
      case None
      from p [OF this] obtain e where "tl_step (fw_P F) e (fw_p s) \<noteq> None" ..
      with Some running have "fw_step F (In_parent e) s \<noteq> None" by (auto simp: fw_step_def)
      then show ?thesis ..
    next
      case (Some x)
      show ?thesis
      proof (cases "tl_exit c")
        case None
        from inv \<open>fw_c s = Some c\<close> obtain cs r where r: "exec (tl_step (fw_C F)) cs (tl_start (fw_C F)) = Some r" "c = r\<lparr>tl_out := tl_out c\<rparr>"
          by (auto simp: fw_inv_def fw_child_ok_def)
        have "tl_exit r = None" using None by (subst (asm) r(2)) simp
        then have "\<exists>e. tl_step (fw_C F) e r \<noteq> None" using C.joinable_outcome [OF r(1)] by simp
        then obtain e where "tl_step (fw_C F) e r \<noteq> None" ..
        with tl_step_out_None r(2) have "tl_step (fw_C F) e c \<noteq> None" by metis
        with \<open>fw_c s = Some c\<close> running have "fw_step F (In_child e) s \<noteq> None" by (auto simp: fw_step_def)
        then show ?thesis ..
      next
        case (Some y)
        with left \<open>fw_c s = Some c\<close> \<open>tl_exit (fw_p s) = Some x\<close> running have "fw_step F Reap s \<noteq> None" by (auto simp: fw_step_def)
        then show ?thesis ..
      qed
    qed
  qed
qed

lemma fw_outcome:
  assumes ex: "exec (fw_step F) es (fw_start F) = Some s" and c: "fw_c s = Some c"
  shows "inh (fw_inherit s)"
    and "tl_exit (fw_p s) = Some x \<Longrightarrow> x = tl_main_status True (fw_P F) (pr_main (fw_P F))
      \<and> fw_lines None (tl_out (fw_p s)) = tl_main_says True (fw_P F) (pr_main (fw_P F))
      \<and> (\<forall>k \<in> tl_joins (pr_main (fw_P F)). fw_lines (Some k) (tl_out (fw_p s)) = tl_says (pr_body (fw_P F) k))"
    and "tl_exit c = Some x \<Longrightarrow> x = tl_main_status True (fw_C F) (pr_main (fw_C F))
      \<and> fw_lines None (base (fw_inherit s) @ tl_out c) = tl_main_says True (fw_C F) (pr_main (fw_C F))
      \<and> (\<forall>k \<in> tl_joins (pr_main (fw_C F)). fw_lines (Some k) (base (fw_inherit s) @ tl_out c) = tl_says (pr_body (fw_C F) k))"
proof -
  have inv: "fw_inv F pre base inh s" by (rule forks.exec_inv [OF forks.inv_init ex])
  with c show "inh (fw_inherit s)" by (simp add: fw_inv_def)
  from inv obtain ps where ps: "exec (tl_step (fw_P F)) ps (tl_start (fw_P F)) = Some (fw_p s)" by (auto simp: fw_inv_def)
  show "x = tl_main_status True (fw_P F) (pr_main (fw_P F))
      \<and> fw_lines None (tl_out (fw_p s)) = tl_main_says True (fw_P F) (pr_main (fw_P F))
      \<and> (\<forall>k \<in> tl_joins (pr_main (fw_P F)). fw_lines (Some k) (tl_out (fw_p s)) = tl_says (pr_body (fw_P F) k))"
    if "tl_exit (fw_p s) = Some x" using P.joinable_outcome [OF ps] that by (simp add: fw_lines_tl)
  from inv c obtain cs r where r: "exec (tl_step (fw_C F)) cs (tl_start (fw_C F)) = Some r" "c = r\<lparr>tl_out := tl_out c\<rparr>"
    "tl_out r = base (fw_inherit s) @ tl_out c" by (auto simp: fw_inv_def fw_child_ok_def)
  show "x = tl_main_status True (fw_C F) (pr_main (fw_C F))
      \<and> fw_lines None (base (fw_inherit s) @ tl_out c) = tl_main_says True (fw_C F) (pr_main (fw_C F))
      \<and> (\<forall>k \<in> tl_joins (pr_main (fw_C F)). fw_lines (Some k) (base (fw_inherit s) @ tl_out c) = tl_says (pr_body (fw_C F) k))"
    if "tl_exit c = Some x"
  proof -
    have "tl_exit r = Some x" using that by (subst (asm) r(2)) simp
    with C.joinable_outcome [OF r(1)] show ?thesis by (simp add: fw_lines_tl r(3))
  qed
qed

lemma fw_ended:
  assumes "exec (fw_step F) es (fw_start F) = Some s" "fw_c s = Some c" "fw_end s \<noteq> None"
  shows "tl_exit (fw_p s) \<noteq> None \<and> tl_exit c \<noteq> None \<and> fw_last s = [Note ''child exited.'']"
  using forks.exec_inv [OF forks.inv_init assms(1)] assms(2,3) by (auto simp: fw_inv_def)

lemma fw_bounded: "exec (fw_step F) es (fw_start F) = Some s \<Longrightarrow> length es \<le> fw_left F n m (fw_start F)"
  using forks.exec_length [of es s] by simp

lemma fw_continues:
  assumes "exec (fw_step F) es (fw_start F) = Some s" "fw_end s = None"
    "fw_waits F \<or> fw_c s = None \<or> tl_exit (fw_p s) = None \<or> tl_exit (the (fw_c s)) = None"
  shows "\<exists>e. fw_step F e s \<noteq> None"
  using fw_moves [OF forks.exec_inv [OF forks.inv_init assms(1)] assms(2,3)] .

end

section \<open>The two programs\<close>

text \<open>\<open>forkall.c\<close>: until the \<open>fork\<close> the parent is in a state that the child's program, too, could have reached.\<close>

definition fal_before :: "tl_act list" where
  "fal_before = [Create 0 False, Create 1 False, Say (Note ''in main before forkall()'')]"

definition fal_pre :: "tl_state \<Rightarrow> bool" where
  "fal_pre s \<longleftrightarrow> tl_exit s = None \<and> (\<exists>es todo. tl_main s = todo @ fal_parent_rest \<and> suffix todo fal_before
     \<and> fw_lines None (tl_out s) = (if todo = [] then [Note ''in main before forkall()''] else [])
     \<and> exec (tl_step (fal_prog fal_child_rest)) es (tl_start (fal_prog fal_child_rest)) = Some (s\<lparr>tl_main := todo @ fal_child_rest\<rparr>))"

lemma fal_suffix: "suffix (a # todo) fal_before \<Longrightarrow>
    suffix todo fal_before \<and> (a = Say (Note ''in main before forkall()'') \<and> todo = [] \<or> (\<exists>k. a = Create k False) \<and> todo \<noteq> [])"
  by (auto simp: fal_before_def suffix_Cons)

lemma tl_thread_act_main: "tl_thread_act k d q (s\<lparr>tl_main := x\<rparr>) = map_option (\<lambda>t. t\<lparr>tl_main := x\<rparr>) (tl_thread_act k d q s)"
  by (cases "(k, d, q, s)" rule: tl_thread_act.cases) (simp_all add: tl_defs)

lemma tl_thread_act_out: "tl_thread_act k d q s = Some t \<Longrightarrow> tl_exit t = tl_exit s \<and> tl_main t = tl_main s \<and> fw_lines None (tl_out t) = fw_lines None (tl_out s)"
  by (cases "(k, d, q, s)" rule: tl_thread_act.cases) (auto simp: tl_defs fw_lines_def)

lemma fal_pre_step:
  assumes pre: "fal_pre s" and st: "tl_step (fal_prog fal_parent_rest) e s = Some t" and no: "\<not> (tl_main s = fal_parent_rest \<and> e = Main)"
  shows "fal_pre t"
proof -
  from pre obtain es todo where ex: "tl_exit s = None" and main: "tl_main s = todo @ fal_parent_rest" and suf: "suffix todo fal_before"
    and out: "fw_lines None (tl_out s) = (if todo = [] then [Note ''in main before forkall()''] else [])"
    and run: "exec (tl_step (fal_prog fal_child_rest)) es (tl_start (fal_prog fal_child_rest)) = Some (s\<lparr>tl_main := todo @ fal_child_rest\<rparr>)"
    by (auto simp: fal_pre_def)
  have "\<exists>todo'. tl_exit t = None \<and> tl_main t = todo' @ fal_parent_rest \<and> suffix todo' fal_before
      \<and> fw_lines None (tl_out t) = (if todo' = [] then [Note ''in main before forkall()''] else [])
      \<and> tl_step (fal_prog fal_child_rest) e (s\<lparr>tl_main := todo @ fal_child_rest\<rparr>) = Some (t\<lparr>tl_main := todo' @ fal_child_rest\<rparr>)"
  proof (cases e)
    case (Thr k)
    with st ex obtain d q where q: "tl_thr s k = Running d q" "tl_thread_act k d q s = Some t"
      by (auto simp: tl_step_def split: tl_life.splits)
    with tl_thread_act_out [OF q(2)] ex main out suf Thr show ?thesis
      by (auto simp: tl_step_def tl_thread_act_main)
  next
    case Main
    with no main obtain a todo' where todo: "todo = a # todo'" by (cases todo) auto
    with main st Main ex have ma: "tl_main_act (fal_prog fal_parent_rest) a (s\<lparr>tl_main := todo' @ fal_parent_rest\<rparr>) = Some t"
      by (simp add: tl_step_def)
    from suf todo have suf': "suffix todo' fal_before"
      and "a = Say (Note ''in main before forkall()'') \<and> todo' = [] \<or> (\<exists>k. a = Create k False) \<and> todo' \<noteq> []"
      using fal_suffix by blast+
    then consider (say) "a = Say (Note ''in main before forkall()'')" "todo' = []" | (create) k where "a = Create k False" "todo' \<noteq> []" by blast
    then show ?thesis
    proof cases
      case say
      with ma have t: "t = tl_say None (Note ''in main before forkall()'') (s\<lparr>tl_main := fal_parent_rest\<rparr>)" by simp
      show ?thesis by (rule exI [of _ "[]"]) (use suf' say ex out todo Main in \<open>simp add: t tl_step_def tl_defs fw_lines_def\<close>)
    next
      case create
      with ma have t: "t = tl_set k (Running False (loop_lines (Suc k) 5)) (s\<lparr>tl_main := todo' @ fal_parent_rest\<rparr>)" by (simp add: fal_prog_def)
      show ?thesis by (rule exI [of _ todo']) (use suf' create ex out todo Main in \<open>simp add: t tl_step_def tl_defs fal_prog_def\<close>)
    qed
  qed
  then obtain todo' where "tl_exit t = None" "tl_main t = todo' @ fal_parent_rest" "suffix todo' fal_before"
    "fw_lines None (tl_out t) = (if todo' = [] then [Note ''in main before forkall()''] else [])"
    and "tl_step (fal_prog fal_child_rest) e (s\<lparr>tl_main := todo @ fal_child_rest\<rparr>) = Some (t\<lparr>tl_main := todo' @ fal_child_rest\<rparr>)" by blast
  moreover from this(5) run have "exec (tl_step (fal_prog fal_child_rest)) (es @ [e]) (tl_start (fal_prog fal_child_rest)) = Some (t\<lparr>tl_main := todo' @ fal_child_rest\<rparr>)"
    by (simp add: exec_append)
  ultimately show ?thesis unfolding fal_pre_def by blast
qed

lemma fal_parts [simp]:
  "fw_P fal = fal_prog fal_parent_rest" "fw_C fal = fal_prog fal_child_rest" "fw_forker fal = Main" "fw_waits fal"
  "fw_next fal s \<longleftrightarrow> tl_main s = fal_parent_rest" "fw_copy fal s = s\<lparr>tl_main := fal_child_rest, tl_out := []\<rparr>"
  by (simp_all add: fal_def)

lemma fal_joinable: "joinable_program (fal_prog fal_parent_rest) 2" "joinable_program (fal_prog fal_child_rest) 2"
  by (unfold_locales; simp add: fal_prog_def fal_parent_rest_def fal_child_rest_def)+

interpretation fal: forking_threads fal 2 2 fal_pre "\<lambda>o1. o1" "\<lambda>o1. fw_lines None o1 = [Note ''in main before forkall()'']"
proof (intro forking_threads.intro forking_threads_axioms.intro)
  show "fal_pre (tl_start (fw_P fal))" unfolding fal_pre_def
    by (intro conjI exI [of _ "[]"] exI [of _ fal_before]) (simp_all add: fal_prog_def tl_start_def fal_before_def fw_lines_def)
  fix s assume pre: "fal_pre s"
  show "fal_pre t" if "tl_step (fw_P fal) e s = Some t" "\<not> (fw_next fal s \<and> e = fw_forker fal)" for e t
    using fal_pre_step [OF pre, of e t] that by simp
  show "tl_exit s = None" using pre by (simp add: fal_pre_def)
  assume nx: "fw_next fal s"
  from pre obtain es todo where main: "tl_main s = todo @ fal_parent_rest" and out: "fw_lines None (tl_out s) = (if todo = [] then [Note ''in main before forkall()''] else [])"
    and run: "exec (tl_step (fal_prog fal_child_rest)) es (tl_start (fal_prog fal_child_rest)) = Some (s\<lparr>tl_main := todo @ fal_child_rest\<rparr>)"
    by (auto simp: fal_pre_def)
  from main nx have todo: "todo = []" by simp
  with out show "fw_lines None (tl_out s) = [Note ''in main before forkall()'']" by simp
  show "\<exists>es r. exec (tl_step (fw_C fal)) es (tl_start (fw_C fal)) = Some r \<and> fw_copy fal s = r\<lparr>tl_out := []\<rparr> \<and> tl_out r = tl_out s"
    by (rule exI [of _ es], rule exI [of _ "s\<lparr>tl_main := fal_child_rest\<rparr>"]) (use run todo in simp)
qed (simp_all add: fal_joinable)

text \<open>\<open>fork-not-in-main.c\<close>: up to the \<open>fork\<close> nothing is left to the schedule.\<close>

fun fn_at :: "tl_life \<Rightarrow> tl_act list \<Rightarrow> fw_output \<Rightarrow> bool" where
  "fn_at Unborn r o1 \<longleftrightarrow> r = pr_main fn_parent \<and> o1 = [] \<or> r = tl (pr_main fn_parent) \<and> o1 = [(None, Note ''in main: starting.'')]"
| "fn_at (Running d q) r o1 \<longleftrightarrow> \<not> d \<and> r = tl (tl (pr_main fn_parent))
     \<and> (q = pr_body fn_parent 0 \<and> o1 = [(None, Note ''in main: starting.'')]
      \<or> q = fn_parent_rest \<and> o1 = [(None, Note ''in main: starting.''), (Some 0, Note ''before fork() in non-main thread'')])"
| "fn_at _ r o1 \<longleftrightarrow> False"

definition fn_pre :: "tl_state \<Rightarrow> bool" where
  "fn_pre s \<longleftrightarrow> tl_exit s = None \<and> (\<forall>k. 0 < k \<longrightarrow> tl_thr s k = Unborn) \<and> fn_at (tl_thr s 0) (tl_main s) (tl_out s)"

lemma fn_parent_sel [simp]:
  "pr_main fn_parent = [Say (Note ''in main: starting.''), Create 0 False, Join 0 Ignore, Say (Note ''in main: exiting.'')]"
  "pr_body fn_parent k = Say (Note ''before fork() in non-main thread'') # fn_parent_rest" "pr_status fn_parent = 0"
  by (simp_all add: fn_parent_def)

lemma fn_pre_step:
  assumes pre: "fn_pre s" and st: "tl_step fn_parent e s = Some t" and no: "\<not> (tl_thr s 0 = Running False fn_parent_rest \<and> e = Thr 0)"
  shows "fn_pre t"
proof -
  have ex: "tl_exit s = None" using pre by (simp add: fn_pre_def)
  show ?thesis
  proof (cases "tl_thr s 0")
    case Unborn
    with pre have "tl_thr s k = Unborn" for k by (cases k) (simp_all add: fn_pre_def)
    with st ex have e: "e = Main" by (cases e) (simp_all add: tl_step_def)
    from Unborn pre st show ?thesis unfolding e by (auto simp: fn_pre_def tl_step_def tl_defs)
  next
    case (Running d q)
    show ?thesis
    proof (cases e)
      case Main
      with Running pre st show ?thesis by (auto simp: fn_pre_def tl_step_def)
    next
      case (Thr k)
      with pre st Running have k: "k = 0" by (cases k) (auto simp: fn_pre_def tl_step_def)
      with Thr no Running pre have q: "q = pr_body fn_parent 0" "\<not> d" by (auto simp: fn_pre_def)
      from st have "t = tl_set 0 (Running False fn_parent_rest) (tl_say (Some 0) (Note ''before fork() in non-main thread'') s)"
        unfolding Thr k using Running q ex by (simp add: tl_step_def)
      then show ?thesis using pre Running q by (auto simp: fn_pre_def tl_defs)
    qed
  qed (use pre in \<open>simp_all add: fn_pre_def\<close>)
qed

lemma fn_parts [simp]:
  "fw_P fn = fn_parent" "fw_C fn = fn_child" "fw_forker fn = Thr 0" "\<not> fw_waits fn"
  "fw_next fn s \<longleftrightarrow> tl_thr s 0 = Running False fn_parent_rest" "fw_copy fn s = tl_start fn_child"
  by (simp_all add: fn_def)

lemma fn_joinable: "joinable_program fn_parent 1" "joinable_program fn_child 0"
  by (unfold_locales; simp add: fn_parent_rest_def fn_child_def loop_lines_def upt_rec)+

interpretation fn: forking_threads fn 1 0 fn_pre "\<lambda>o1. []"
  "\<lambda>o1. o1 = [(None, Note ''in main: starting.''), (Some 0, Note ''before fork() in non-main thread'')]"
proof (intro forking_threads.intro forking_threads_axioms.intro)
  show "fn_pre (tl_start (fw_P fn))" by (simp add: fn_pre_def tl_start_def)
  fix s assume pre: "fn_pre s"
  show "fn_pre t" if "tl_step (fw_P fn) e s = Some t" "\<not> (fw_next fn s \<and> e = fw_forker fn)" for e t
    using fn_pre_step [OF pre, of e t] that by simp
  show "tl_exit s = None" using pre by (simp add: fn_pre_def)
  assume nx: "fw_next fn s"
  show "\<exists>es r. exec (tl_step (fw_C fn)) es (tl_start (fw_C fn)) = Some r \<and> fw_copy fn s = r\<lparr>tl_out := []\<rparr> \<and> tl_out r = []"
    by (rule exI [of _ "[]"]) (simp add: tl_start_def)
  show "tl_out s = [(None, Note ''in main: starting.''), (Some 0, Note ''before fork() in non-main thread'')]"
    using pre nx by (auto simp: fn_pre_def)
qed (simp_all add: fn_joinable fn_joinable [simplified])

section \<open>What is written\<close>

lemma fal_bound: "fw_left fal 2 2 (fw_start fal) = 41"
  by (simp add: fw_left_def fw_start_def tl_left_def tl_start_def fal_prog_def fal_parent_rest_def fal_child_rest_def eval_nat_numeral)

lemma fn_bound: "fw_left fn 1 0 (fw_start fn) = 18"
  by (simp add: fw_left_def fw_start_def tl_left_def tl_start_def fn_parent_rest_def fn_child_def loop_lines_def upt_rec)

lemma fal_schedules:
  "\<forall>j \<in> set [0..<6]. runs (fw_step fal) (map In_parent ([Main, Main, Main] @ replicate j (Thr 0)) @ [Fork True])
     (fw_start fal) (\<lambda>s. fw_lines (Some 0) (fw_inherit s) = map (Line 1) [0..<j] \<and> fw_c s \<noteq> None)"
  by code_simp

lemma less_2: "k < 2 \<longleftrightarrow> k = 0 \<or> k = (1 :: nat)"
  by auto

lemma fal_result:
  assumes ex: "exec (fw_step fal) es (fw_start fal) = Some s" and c: "fw_c s = Some c" and e: "fw_end s \<noteq> None"
  shows "k < 2 \<Longrightarrow> fw_lines (Some k) (tl_out (fw_p s)) = map (Line (Suc k)) [0..<5]"
    and "k < 2 \<Longrightarrow> fw_lines (Some k) (fw_inherit s) @ fw_lines (Some k) (tl_out c) = map (Line (Suc k)) [0..<5]"
    and "fw_lines None (tl_out (fw_p s)) = [Note ''in main before forkall()'', Note ''threads joined.'']"
    and "fw_lines None (fw_inherit s) = [Note ''in main before forkall()'']"
    and "fw_lines None (tl_out c) = [Note ''I'm a child, will join my threads...'', Note ''child joined all its threads.'']"
proof -
  from fal.fw_ended [OF ex c e] obtain x y where x: "tl_exit (fw_p s) = Some x" and y: "tl_exit c = Some y" by auto
  note o = fal.fw_outcome [OF ex c]
  show "fw_lines None (fw_inherit s) = [Note ''in main before forkall()'']" using o(1) by simp
  then show "fw_lines None (tl_out c) = [Note ''I'm a child, will join my threads...'', Note ''child joined all its threads.'']"
    using o(3) [OF y] by (simp add: fal_prog_def fal_child_rest_def)
  show "k < 2 \<Longrightarrow> fw_lines (Some k) (tl_out (fw_p s)) = map (Line (Suc k)) [0..<5]"
    using o(2) [OF x] by (auto simp: fal_prog_def fal_parent_rest_def less_2)
  show "k < 2 \<Longrightarrow> fw_lines (Some k) (fw_inherit s) @ fw_lines (Some k) (tl_out c) = map (Line (Suc k)) [0..<5]"
    using o(3) [OF y] by (auto simp: fal_prog_def fal_child_rest_def less_2)
  show "fw_lines None (tl_out (fw_p s)) = [Note ''in main before forkall()'', Note ''threads joined.'']"
    using o(2) [OF x] by (simp add: fal_prog_def fal_parent_rest_def)
qed

lemma fn_result:
  assumes ex: "exec (fw_step fn) es (fw_start fn) = Some s" and c: "fw_c s = Some c"
  shows "tl_exit (fw_p s) \<noteq> None \<Longrightarrow> fw_lines None (tl_out (fw_p s)) = [Note ''in main: starting.'', Note ''in main: exiting.'']
      \<and> fw_lines (Some 0) (tl_out (fw_p s)) = [Note ''before fork() in non-main thread'', Note ''I'm parent thread()'', Line 0 0, Line 0 1, Line 0 2]"
    and "tl_exit c \<noteq> None \<Longrightarrow> fw_lines None (tl_out c) = [Note ''I'm child thread()'', Line 0 0, Line 0 1, Line 0 2]"
    and "fw_inherit s = [(None, Note ''in main: starting.''), (Some 0, Note ''before fork() in non-main thread'')]"
proof -
  note o = fn.fw_outcome [OF ex c]
  show "fw_inherit s = [(None, Note ''in main: starting.''), (Some 0, Note ''before fork() in non-main thread'')]" by (rule o(1))
  have l: "tl_says (loop_lines 0 3) = [Line 0 0, Line 0 1, Line 0 2]" by (simp add: upt_rec)
  show "fw_lines None (tl_out (fw_p s)) = [Note ''in main: starting.'', Note ''in main: exiting.'']
      \<and> fw_lines (Some 0) (tl_out (fw_p s)) = [Note ''before fork() in non-main thread'', Note ''I'm parent thread()'', Line 0 0, Line 0 1, Line 0 2]"
    if "tl_exit (fw_p s) \<noteq> None"
  proof -
    from that obtain x where "tl_exit (fw_p s) = Some x" by auto
    from o(2) [OF this] show ?thesis by (simp add: fn_parent_rest_def l del: tl_says_loop)
  qed
  show "fw_lines None (tl_out c) = [Note ''I'm child thread()'', Line 0 0, Line 0 1, Line 0 2]" if "tl_exit c \<noteq> None"
  proof -
    from that obtain x where "tl_exit c = Some x" by auto
    from o(3) [OF this] show ?thesis by (simp add: fn_child_def loop_lines_def upt_rec)
  qed
qed

text \<open>C36: \<open>forkall.c\<close> (on Solaris) and \<open>fork-not-in-main.c\<close>. On every schedule both processes can go on until they have ended, within 41 (18) calls, unless
  \<open>fork\<close> fails. With \<open>forkall\<close> the threads of the child continue where those of the parent were, which can be anywhere in their loops: what the child inherits
  and what it prints itself make up each thread's five lines, and the parent's threads print all of theirs; the child joins its threads and the parent,
  which waits for it, ends last. With \<open>fork\<close> in a thread, \<open>main()\<close> runs on in the parent only; off a terminal its first line and the
  thread's are written by the child as well.\<close>

theorem forks_with_threads:
  "(\<forall>es s. exec (fw_step fal) es (fw_start fal) = Some s \<longrightarrow>
      length es \<le> 41 \<and> (fw_end s = None \<longrightarrow> (\<exists>e. fw_step fal e s \<noteq> None))
    \<and> (\<forall>c. fw_c s = Some c \<and> fw_end s \<noteq> None \<longrightarrow>
         (\<forall>k < 2. fw_lines (Some k) (tl_out (fw_p s)) = map (Line (Suc k)) [0..<5]
           \<and> fw_lines (Some k) (fw_inherit s) @ fw_lines (Some k) (fw_child_output True s) = map (Line (Suc k)) [0..<5]
           \<and> fw_lines (Some k) (fw_child_output False s) = map (Line (Suc k)) [0..<5])
       \<and> fw_lines None (tl_out (fw_p s)) @ fw_last s = [Note ''in main before forkall()'', Note ''threads joined.'', Note ''child exited.'']
       \<and> fw_lines None (fw_child_output True s) = [Note ''I'm a child, will join my threads...'', Note ''child joined all its threads.'']
       \<and> fw_lines None (fw_child_output False s) = Note ''in main before forkall()'' # fw_lines None (fw_child_output True s)))
   \<and> (\<forall>j \<le> 5. \<exists>s. reach (fw_step fal) (fw_start fal) s \<and> fw_c s \<noteq> None \<and> fw_lines (Some 0) (fw_inherit s) = map (Line 1) [0..<j])
   \<and> (\<forall>es s c. exec (fw_step fn) es (fw_start fn) = Some s \<and> fw_c s = Some c \<longrightarrow>
      length es \<le> 18 \<and> (tl_exit (fw_p s) = None \<or> tl_exit c = None \<longrightarrow> (\<exists>e. fw_step fn e s \<noteq> None))
    \<and> (tl_exit (fw_p s) \<noteq> None \<longrightarrow> fw_lines None (tl_out (fw_p s)) = [Note ''in main: starting.'', Note ''in main: exiting.'']
       \<and> fw_lines (Some 0) (tl_out (fw_p s)) = [Note ''before fork() in non-main thread'', Note ''I'm parent thread()'', Line 0 0, Line 0 1, Line 0 2])
    \<and> (tl_exit c \<noteq> None \<longrightarrow> fw_lines None (fw_child_output True s) = [Note ''I'm child thread()'', Line 0 0, Line 0 1, Line 0 2]
       \<and> fw_child_output False s = [(None, Note ''in main: starting.''), (Some 0, Note ''before fork() in non-main thread'')] @ fw_child_output True s))"
proof (intro conjI allI impI)
  fix es s assume ex: "exec (fw_step fal) es (fw_start fal) = Some s"
  show "length es \<le> 41" using fal.fw_bounded [OF ex] unfolding fal_bound .
  show "\<exists>e. fw_step fal e s \<noteq> None" if "fw_end s = None" using fal.fw_continues [OF ex that] by simp
next
  fix es s c k assume ex: "exec (fw_step fal) es (fw_start fal) = Some s" and c: "fw_c s = Some c \<and> fw_end s \<noteq> None" and k: "k < (2 :: nat)"
  note r = fal_result [OF ex conjunct1 [OF c] conjunct2 [OF c]]
  show "fw_lines (Some k) (tl_out (fw_p s)) = map (Line (Suc k)) [0..<5]" by (rule r(1) [OF k])
  show "fw_lines (Some k) (fw_inherit s) @ fw_lines (Some k) (fw_child_output True s) = map (Line (Suc k)) [0..<5]"
    using r(2) [OF k] c by (simp add: fw_child_output_def)
  show "fw_lines (Some k) (fw_child_output False s) = map (Line (Suc k)) [0..<5]" using r(2) [OF k] c by (simp add: fw_child_output_def)
next
  fix es s c assume ex: "exec (fw_step fal) es (fw_start fal) = Some s" and c: "fw_c s = Some c \<and> fw_end s \<noteq> None"
  note r = fal_result [OF ex conjunct1 [OF c] conjunct2 [OF c]]
  show "fw_lines None (tl_out (fw_p s)) @ fw_last s = [Note ''in main before forkall()'', Note ''threads joined.'', Note ''child exited.'']"
    using r(3) fal.fw_ended [OF ex conjunct1 [OF c] conjunct2 [OF c]] by simp
  show "fw_lines None (fw_child_output True s) = [Note ''I'm a child, will join my threads...'', Note ''child joined all its threads.'']"
    using r(5) c by (simp add: fw_child_output_def)
  show "fw_lines None (fw_child_output False s) = Note ''in main before forkall()'' # fw_lines None (fw_child_output True s)"
    using r(4) c by (simp add: fw_child_output_def)
next
  fix j :: nat assume "j \<le> 5"
  then have "runs (fw_step fal) (map In_parent ([Main, Main, Main] @ replicate j (Thr 0)) @ [Fork True])
     (fw_start fal) (\<lambda>s. fw_lines (Some 0) (fw_inherit s) = map (Line 1) [0..<j] \<and> fw_c s \<noteq> None)"
    using fal_schedules by auto
  from runs_reach [OF this]
  show "\<exists>s. reach (fw_step fal) (fw_start fal) s \<and> fw_c s \<noteq> None \<and> fw_lines (Some 0) (fw_inherit s) = map (Line 1) [0..<j]" by blast
next
  fix es s c assume "exec (fw_step fn) es (fw_start fn) = Some s \<and> fw_c s = Some c"
  then have ex: "exec (fw_step fn) es (fw_start fn) = Some s" and c: "fw_c s = Some c" by simp_all
  note r = fn_result [OF ex c]
  show "length es \<le> 18" using fn.fw_bounded [OF ex] unfolding fn_bound .
  show "\<exists>e. fw_step fn e s \<noteq> None" if "tl_exit (fw_p s) = None \<or> tl_exit c = None"
  proof (rule fn.fw_continues [OF ex])
    show "fw_end s = None" using fn.forks.exec_inv [OF fn.forks.inv_init ex] c by (simp add: fw_inv_def)
  qed (use that c in simp)
  show "fw_lines None (tl_out (fw_p s)) = [Note ''in main: starting.'', Note ''in main: exiting.'']"
    and "fw_lines (Some 0) (tl_out (fw_p s)) = [Note ''before fork() in non-main thread'', Note ''I'm parent thread()'', Line 0 0, Line 0 1, Line 0 2]"
    if "tl_exit (fw_p s) \<noteq> None" using r(1) [OF that] by simp_all
  show "fw_lines None (fw_child_output True s) = [Note ''I'm child thread()'', Line 0 0, Line 0 1, Line 0 2]" if "tl_exit c \<noteq> None"
    using r(2) [OF that] c by (simp add: fw_child_output_def)
  show "fw_child_output False s = [(None, Note ''in main: starting.''), (Some 0, Note ''before fork() in non-main thread'')] @ fw_child_output True s"
    using r(3) by (simp add: fw_child_output_def)
qed

theorem forks_with_threads_witness:
  "\<exists>s. exec (fw_step fn) (map In_parent [Main, Main, Thr 0] @ [Fork True] @ replicate 5 (In_child Main)) (fw_start fn) = Some s
    \<and> fw_lines None (fw_child_output True s) = [Note ''I'm child thread()'', Line 0 0, Line 0 1, Line 0 2]"
proof -
  have "runs (fw_step fn) (map In_parent [Main, Main, Thr 0] @ [Fork True] @ replicate 5 (In_child Main)) (fw_start fn)
      (\<lambda>s. fw_c s \<noteq> None \<and> tl_exit (the (fw_c s)) \<noteq> None)"
    by code_simp
  from runs_exec [OF this] obtain s c where ex: "exec (fw_step fn) (map In_parent [Main, Main, Thr 0] @ [Fork True] @ replicate 5 (In_child Main)) (fw_start fn) = Some s"
    and c: "fw_c s = Some c" and e: "tl_exit c \<noteq> None" by auto
  from conjunct2 [OF conjunct2 [OF forks_with_threads], THEN spec, THEN spec, THEN spec, THEN mp, OF conjI [OF ex c]] e ex show ?thesis by blast
qed

end
