(* ===== verification/System_Queries.thy ===== *)
theory System_Queries
  imports Process_Environment
begin

text \<open>
  Programs that ask the system about something: \<open>read/isstdout.c\<close>, \<open>stat/stat.c\<close> and \<open>stat012.c\<close>, \<open>pmap/proc-addr-space.c\<close>,
  \<open>unix-standards/suvreq.c\<close> with its header, and the small programs of \<open>basic-utils/\<close>.
\<close>

section \<open>\<open>isstdout.c\<close>\<close>

text \<open>
  An open file: the name of the terminal if it is one, device and inode. The program keeps what it prints in a buffer, unless its output is a terminal,
  and a flush goes to the file that descriptor 1 denotes at that time. \<open>is_out\<close> is what has been written, with the file it went to.
\<close>

record file_obj =
  ob_tty :: "string option"
  ob_major :: nat
  ob_minor :: nat
  ob_ino :: nat

type_synonym is_table = "nat \<Rightarrow> file_obj option"

record is_state =
  is_tab :: is_table
  is_buf :: "string list"
  is_out :: "(file_obj \<times> string) list"

definition is_flush :: "is_state \<Rightarrow> is_state" where
  "is_flush s = (case is_tab s 1 of
       None \<Rightarrow> s\<lparr>is_buf := []\<rparr>
     | Some o1 \<Rightarrow> s\<lparr>is_buf := [], is_out := is_out s @ map (Pair o1) (is_buf s)\<rparr>)"

definition is_printf :: "bool \<Rightarrow> string \<Rightarrow> is_state \<Rightarrow> is_state" where
  "is_printf tty l s = (let t = s\<lparr>is_buf := is_buf s @ [l]\<rparr> in if tty then is_flush t else t)"

definition statfd_lines :: "bool \<Rightarrow> nat \<Rightarrow> file_obj \<Rightarrow> string list" where
  "statfd_lines linux fd ob =
     [''fd '' @ show_nat fd @ '' (tty: '' @ (case ob_tty ob of None \<Rightarrow> ''no'' | Some t \<Rightarrow> t) @ '')'']
     @ (if linux then [''  dev = '' @ show_nat (ob_major ob) @ ''/'' @ show_nat (ob_minor ob)] else [])
     @ [''  inode = '' @ show_nat (ob_ino ob)]"

text \<open>\<open>None\<close> where \<open>fstat\<close> fails: the program exits with 1, which flushes the buffer.\<close>

definition statfd :: "bool \<Rightarrow> bool \<Rightarrow> nat \<Rightarrow> is_state \<Rightarrow> is_state \<times> bool" where
  "statfd linux tty fd s =
     (case is_tab s fd of None \<Rightarrow> (s, False)
      | Some ob \<Rightarrow> (fold (is_printf tty) (statfd_lines linux fd ob) s, True))"

fun is_seq :: "(is_state \<Rightarrow> is_state \<times> bool) list \<Rightarrow> is_state \<Rightarrow> is_state \<times> int" where
  "is_seq [] s = (is_flush s, 0)"
| "is_seq (f # fs) s = (case f s of (t, ok) \<Rightarrow> if ok then is_seq fs t else (is_flush t, 1))"

definition is_dup2 :: "is_state \<Rightarrow> is_state \<times> bool" where
  "is_dup2 s = (case is_tab s 2 of None \<Rightarrow> (s, False) | Some o2 \<Rightarrow> (s\<lparr>is_tab := (is_tab s)(1 := Some o2)\<rparr>, True))"

definition is_main :: "bool \<Rightarrow> is_table \<Rightarrow> is_state \<times> int" where
  "is_main linux tab =
     (let tty = (case tab 1 of None \<Rightarrow> False | Some o1 \<Rightarrow> ob_tty o1 \<noteq> None);
          say = (\<lambda>l s. (is_printf tty l s, True))
      in is_seq
        [say ''fileno(stdout) = 1'', say ''fileno(stderr) = 2'', say ''=== before dup'', statfd linux tty 1, statfd linux tty 2,
         is_dup2, say ''=== after dup'', say ''this is standard output'', statfd linux tty 1, statfd linux tty 2]
        \<lparr>is_tab = tab, is_buf = [], is_out = []\<rparr>)"

definition is_before :: "bool \<Rightarrow> file_obj \<Rightarrow> file_obj \<Rightarrow> string list" where
  "is_before linux o1 o2 = [''fileno(stdout) = 1'', ''fileno(stderr) = 2'', ''=== before dup''] @ statfd_lines linux 1 o1 @ statfd_lines linux 2 o2"

definition is_after :: "bool \<Rightarrow> file_obj \<Rightarrow> string list" where
  "is_after linux o2 = [''=== after dup'', ''this is standard output''] @ statfd_lines linux 1 o2 @ statfd_lines linux 2 o2"

lemma is_printf_simps:
  "is_tab (is_printf tty l s) = is_tab s"
  "is_tab s 1 = Some ob \<Longrightarrow> is_buf s = [] \<Longrightarrow> is_printf True l s = s\<lparr>is_out := is_out s @ [(ob, l)]\<rparr>"
  "is_printf False l s = s\<lparr>is_buf := is_buf s @ [l]\<rparr>"
  by (auto simp: is_printf_def is_flush_def Let_def split: option.splits)

lemma is_print_tty:
  "is_tab s 1 = Some ob \<Longrightarrow> is_buf s = [] \<Longrightarrow> fold (is_printf True) ls s = s\<lparr>is_out := is_out s @ map (Pair ob) ls\<rparr>"
  by (induction ls arbitrary: s) (simp_all add: is_printf_simps)

lemma is_print_buf: "fold (is_printf False) ls s = s\<lparr>is_buf := is_buf s @ ls\<rparr>"
  by (induction ls arbitrary: s) (simp_all add: is_printf_simps)

text \<open>\<open>isstdout.c\<close>: with both descriptors open it exits with 0. If standard output is a terminal, the lines from before \<open>dup2\<close> go there and
  those after it to the file of descriptor 2. If it is not, the lines from before \<open>dup2\<close> are still in the buffer: all go to the file of
  descriptor 2, and nothing is ever written to standard output. After \<open>dup2\<close> descriptor 1 shows what 2 shows. If 2 is closed, the
  program ends with 1 before \<open>dup2\<close>.\<close>

theorem isstdout_destinations:
  assumes "tab 1 = Some o1"
  shows "tab 2 = Some o2 \<longrightarrow>
       snd (is_main linux tab) = 0
     \<and> is_out (fst (is_main linux tab)) =
         map (Pair (if ob_tty o1 = None then o2 else o1)) (is_before linux o1 o2) @ map (Pair o2) (is_after linux o2)"
    and "tab 2 = None \<longrightarrow> snd (is_main linux tab) = 1 \<and> fst ` set (is_out (fst (is_main linux tab))) = {o1}"
proof -
  show "tab 2 = Some o2 \<longrightarrow> snd (is_main linux tab) = 0 \<and> is_out (fst (is_main linux tab)) =
         map (Pair (if ob_tty o1 = None then o2 else o1)) (is_before linux o1 o2) @ map (Pair o2) (is_after linux o2)"
  proof (cases "ob_tty o1")
    case None
    with assms show ?thesis
      by (simp add: is_main_def Let_def statfd_def is_dup2_def is_print_buf is_printf_simps is_flush_def is_before_def is_after_def)
  next
    case (Some t)
    with assms show ?thesis
      by (simp add: is_main_def Let_def statfd_def is_dup2_def is_print_tty is_printf_simps is_flush_def is_before_def is_after_def)
  qed
  show "tab 2 = None \<longrightarrow> snd (is_main linux tab) = 1 \<and> fst ` set (is_out (fst (is_main linux tab))) = {o1}"
    using assms by (cases "ob_tty o1")
      (auto simp: is_main_def Let_def statfd_def statfd_lines_def is_dup2_def is_print_tty is_print_buf is_printf_simps is_flush_def)
qed

section \<open>\<open>stat.c\<close>, \<open>stat012.c\<close>\<close>

text \<open>\<open>fstat\<close> gives blocks and inode; the inode number goes through a signed \<open>long\<close> but is printed as unsigned. With \<open>NDEBUG\<close> a failing
  \<open>fstat\<close> is not noticed, and \<open>junk\<close> is what the buffer holds.\<close>

definition stat_lines :: "int \<times> 64 word \<Rightarrow> string list" where
  "stat_lines st = [''Allocated number of 512 byte blocks: '' @ show_int (fst st), ''Inode number: '' @ show_nat (unat (snd st))]"

definition fs_main :: "bool \<Rightarrow> (string \<Rightarrow> bool) \<Rightarrow> (int \<times> 64 word) option \<Rightarrow> int \<times> 64 word \<Rightarrow> string list \<Rightarrow> exit_info + string list" where
  "fs_main ndebug opens fstat junk argv =
     (if length argv \<noteq> 2 then Inl (Exit 1 ''Filename missing as a parameter.'')
      else if \<not> opens (argv ! 1) then Inl (Exit 1 ''open'')
      else case fstat of
        None \<Rightarrow> if ndebug then Inr (stat_lines junk) else Inl Abort
      | Some st \<Rightarrow> Inr (stat_lines st))"

definition fz_main :: "(int \<times> 64 word) option \<Rightarrow> exit_info + string list" where
  "fz_main fstat = (case fstat of None \<Rightarrow> Inl (Exit 1 ''fstat'') | Some st \<Rightarrow> Inr (stat_lines st))"

lemma fs_fz: "opens f \<Longrightarrow> fs_main ndebug opens (Some st) junk [p, f] = fz_main (Some st)"
  by (simp add: fs_main_def fz_main_def)

section \<open>\<open>proc-addr-space.c\<close>\<close>

text \<open>
  Where things are, given by their names, is an argument; so are the results of \<open>malloc\<close>, \<open>fork\<close> and \<open>execl\<close>, and the output of
  \<open>pmap\<close>, which goes to the descriptor at once. If \<open>execl\<close> fails, the child returns from \<open>main()\<close> and so writes its copy of the buffer.
\<close>

definition pm_lines :: "(string \<Rightarrow> string) \<Rightarrow> bool \<Rightarrow> int \<Rightarrow> string list" where
  "pm_lines adr heap pid =
     [''addresses:''] @ (if heap then [''  variable on the heap: '' @ adr ''p''] else [])
     @ [''  local variable: '' @ adr ''buf'', ''  noninitialized var: '' @ adr ''nonini1'', ''  initialized var 1: '' @ adr ''ini1'',
        ''  initialized var 2: '' @ adr ''ini2'', ''  readdir: '' @ adr ''readdir'', ''  *readdir: '' @ adr ''readdir'',
        nl @ ''=== pmap '' @ show_int pid @ '' ==='']"

definition pm_main ::
  "bool \<Rightarrow> (string \<Rightarrow> string) \<Rightarrow> (64 word \<Rightarrow> bool) \<Rightarrow> bool \<Rightarrow> (string option list \<Rightarrow> string list) option \<Rightarrow> int \<Rightarrow> string list \<Rightarrow> exit_info + string list"
where
  "pm_main tty adr malloc forks pmap pid argv =
     (let to_alloc = (if 1 < length argv then atoi (argv ! 1) else 0)
      in if 0 < to_alloc \<and> \<not> malloc (word_of_int to_alloc) then Inl (Exit 1 ''malloc'')
         else let io = fold (io_put tty) (pm_lines adr (0 < to_alloc) pid) ([], []);
                  args = [Some ''pmap'', Some (take 15 (show_int pid)), None]
              in Inr (if \<not> forks then io_exit io
                      else case pmap of
                        Some out \<Rightarrow> snd io @ out args @ fst io
                      | None \<Rightarrow> io_exit io @ fst io))"

text \<open>On a terminal the addresses come first and once. Otherwise the map comes before them; and without \<open>pmap\<close> they are printed twice.\<close>

theorem pm_order:
  fixes adr :: "string \<Rightarrow> string" and pid :: int
  assumes "\<not> 0 < (if 1 < length argv then atoi (argv ! 1) else 0) \<or> malloc (word_of_int (atoi (argv ! 1)))"
  defines "ls \<equiv> pm_lines adr (0 < (if 1 < length argv then atoi (argv ! 1) else 0)) pid"
  shows "pm_main True adr malloc True (Some out) pid argv = Inr (ls @ out [Some ''pmap'', Some (take 15 (show_int pid)), None])"
    and "pm_main False adr malloc True (Some out) pid argv = Inr (out [Some ''pmap'', Some (take 15 (show_int pid)), None] @ ls)"
    and "pm_main tty adr malloc True None pid argv = Inr (if tty then ls else ls @ ls)"
  using assms by (auto simp: pm_main_def Let_def io_put_fold io_exit_def)

section \<open>\<open>unix-standards/\<close>\<close>

text \<open>
  Macros of the preprocessor; \<open>M_empty\<close> is one that is defined without a value. The header turns a request into macros and refuses to be included
  when \<open>_POSIX_SOURCE\<close> is defined before.
\<close>

datatype macro = M_empty | M_num int

type_synonym macros = "string \<Rightarrow> macro option"

fun suv_macros :: "string list \<Rightarrow> macros \<Rightarrow> macros option" where
  "suv_macros req m =
     (if m ''_POSIX_SOURCE'' \<noteq> None then None
      else Some
       (if ''SUV_POSIX1990'' \<in> set req then m(''_POSIX_SOURCE'' \<mapsto> M_empty, ''_POSIX_C_SOURCE'' \<mapsto> M_num 1)
        else if ''SUV_POSIX1993'' \<in> set req then m(''_POSIX_SOURCE'' \<mapsto> M_empty, ''_POSIX_C_SOURCE'' \<mapsto> M_num 199309)
        else if ''SUV_POSIX1996'' \<in> set req then m(''_POSIX_SOURCE'' \<mapsto> M_empty, ''_POSIX_C_SOURCE'' \<mapsto> M_num 199506)
        else if ''SUV_SUS1'' \<in> set req then
          m(''_POSIX_SOURCE'' \<mapsto> M_empty, ''_POSIX_C_SOURCE'' \<mapsto> M_num 2, ''_XOPEN_SOURCE'' \<mapsto> M_empty, ''_XOPEN_SOURCE_EXTENDED'' \<mapsto> M_num 1)
        else if ''SUV_SUS2'' \<in> set req then
          m(''_POSIX_SOURCE'' \<mapsto> M_empty, ''_POSIX_C_SOURCE'' \<mapsto> M_num 199506, ''_XOPEN_SOURCE'' \<mapsto> M_num 500, ''_XOPEN_SOURCE_EXTENDED'' \<mapsto> M_num 1)
        else if ''SUV_SUS3'' \<in> set req then
          m(''_POSIX_SOURCE'' \<mapsto> M_empty, ''_POSIX_C_SOURCE'' \<mapsto> M_num 200112, ''_XOPEN_SOURCE'' \<mapsto> M_num 600, ''_XOPEN_SOURCE_EXTENDED'' \<mapsto> M_num 1)
        else m))"

text \<open>
  The program: \<open>hdr\<close> is what the system's headers add to the macros. \<open>None\<close> where the compiler refuses it: \<open>#if\<close> needs a number,
  and a macro without a value leaves none.
\<close>

definition mac_num :: "macro option \<Rightarrow> string" where
  "mac_num v = (case v of Some (M_num n) \<Rightarrow> show_int n | _ \<Rightarrow> [])"

definition suvreq_main :: "string list \<Rightarrow> (macros \<Rightarrow> macros) \<Rightarrow> string list option" where
  "suvreq_main req hdr =
     (case suv_macros req Map.empty of
        None \<Rightarrow> None
      | Some m0 \<Rightarrow>
         let m = hdr m0 in
         if m ''_XOPEN_SOURCE'' = Some M_empty then None
         else Some ([''Request:'']
           @ (if m ''_POSIX_SOURCE'' \<noteq> None
              then [''_POSIX_SOURCE defined'', ''_POSIX_C_SOURCE = '' @ mac_num (m ''_POSIX_C_SOURCE'')] else [''_POSIX_SOURCE undefined''])
           @ [case m ''_XOPEN_SOURCE'' of None \<Rightarrow> ''_XOPEN_SOURCE undefined''
              | v \<Rightarrow> if v = Some (M_num 0) then ''_XOPEN_SOURCE defined (0 or no value)'' else ''_XOPEN_SOURCE = '' @ mac_num v,
              if m ''_XOPEN_SOURCE_EXTENDED'' \<noteq> None then ''_XOPEN_SOURCE_EXTENDED defined'' else ''_XOPEN_SOURCE_EXTENDED undefined'',
              ''Claims:'',
              case m ''_POSIX_VERSION'' of None \<Rightarrow> ''Not POSIX'' | v \<Rightarrow> ''_POSIX_VERSION = '' @ mac_num v]
           @ (if m ''_XOPEN_UNIX'' \<noteq> None
              then [''X/Open'', case m ''_XOPEN_VERSION'' of None \<Rightarrow> ''Error: _XOPEN_UNIX defined, but not _XOPEN_VERSION'' | v \<Rightarrow> ''_XOPEN_VERSION = '' @ mac_num v]
              else [''Not X/Open''])))"

definition SUVREQ :: "string list" where
  "SUVREQ = [''SUV_SUS2'']"

text \<open>With headers that keep the request: the program as it is shows that of SUS version 2; for version 1 it cannot be compiled, although
  one of its lines is meant for this case.\<close>

theorem suvreq_requests:
  assumes keep: "\<And>m x. x \<in> {''_POSIX_SOURCE'', ''_POSIX_C_SOURCE'', ''_XOPEN_SOURCE'', ''_XOPEN_SOURCE_EXTENDED''} \<Longrightarrow> hdr m x = m x"
  shows "\<exists>claims. suvreq_main SUVREQ hdr = Some ([''Request:'', ''_POSIX_SOURCE defined'', ''_POSIX_C_SOURCE = 199506'', ''_XOPEN_SOURCE = 500'',
      ''_XOPEN_SOURCE_EXTENDED defined'', ''Claims:''] @ claims)"
    and "suvreq_main [''SUV_SUS1''] hdr = None"
proof -
  have n: "show_int 199506 = ''199506''" "show_int 500 = ''500''"
    by (simp_all add: show_int_def show_nat.simps, code_simp+)
  define m2 where "m2 = [''_POSIX_SOURCE'' \<mapsto> M_empty, ''_POSIX_C_SOURCE'' \<mapsto> M_num 199506, ''_XOPEN_SOURCE'' \<mapsto> M_num 500,
     ''_XOPEN_SOURCE_EXTENDED'' \<mapsto> M_num 1]"
  have r2: "suv_macros SUVREQ Map.empty = Some m2" by (simp add: SUVREQ_def m2_def)
  have v2: "hdr m2 ''_POSIX_SOURCE'' = Some M_empty" "hdr m2 ''_POSIX_C_SOURCE'' = Some (M_num 199506)" "hdr m2 ''_XOPEN_SOURCE'' = Some (M_num 500)"
    "hdr m2 ''_XOPEN_SOURCE_EXTENDED'' = Some (M_num 1)"
    using keep [of "''_POSIX_SOURCE''" m2] keep [of "''_POSIX_C_SOURCE''" m2] keep [of "''_XOPEN_SOURCE''" m2] keep [of "''_XOPEN_SOURCE_EXTENDED''" m2]
    by (simp_all add: m2_def)
  show "\<exists>claims. suvreq_main SUVREQ hdr = Some ([''Request:'', ''_POSIX_SOURCE defined'', ''_POSIX_C_SOURCE = 199506'', ''_XOPEN_SOURCE = 500'',
      ''_XOPEN_SOURCE_EXTENDED defined'', ''Claims:''] @ claims)"
    by (simp add: suvreq_main_def r2 v2 mac_num_def n Let_def del: suv_macros.simps)
  obtain m1 where r1: "suv_macros [''SUV_SUS1''] Map.empty = Some m1" "m1 ''_XOPEN_SOURCE'' = Some M_empty" by simp
  then show "suvreq_main [''SUV_SUS1''] hdr = None"
    using keep [of "''_XOPEN_SOURCE''" m1] by (simp add: suvreq_main_def Let_def del: suv_macros.simps)
qed

section \<open>\<open>basic-utils/\<close>\<close>

text \<open>\<open>function_x()\<close> with the descriptors that are open; \<open>preload.c\<close> replaces \<open>close\<close> by a function that only prints.\<close>

definition libc_close :: "nat \<Rightarrow> nat list \<Rightarrow> string list \<times> nat list" where
  "libc_close fd fds = ([], filter (\<lambda>x. x \<noteq> fd) fds)"

definition preload_close :: "nat \<Rightarrow> nat list \<Rightarrow> string list \<times> nat list" where
  "preload_close fd fds = ([''fd '' @ show_nat fd @ '' will not be closed!''], fds)"

definition function_x :: "(nat \<Rightarrow> nat list \<Rightarrow> string list \<times> nat list) \<Rightarrow> nat list \<Rightarrow> string list \<times> nat list" where
  "function_x close fds = (''hello world'' # fst (close 2 fds), snd (close 2 fds))"

definition line_main :: "string \<Rightarrow> string" where
  "line_main file = file @ '':'' @ show_nat 6"

definition xopen_main :: "int \<Rightarrow> string \<times> int" where
  "xopen_main version = (if version = 600 then (''ok'', 0) else (''no way...'', 1))"

lemma preloaded:
  "function_x libc_close [0, 1, 2] = ([''hello world''], [0, 1])"
  "function_x preload_close [0, 1, 2] = ([''hello world'', ''fd 2 will not be closed!''], [0, 1, 2])"
  by code_simp+

end
