(* ===== verification/Spec2Isabelle.thy ===== *)
theory Spec2Isabelle
  imports Posix_Barrier Queue_Simulation Race Atomic_Add File_Locking Nonblocking_Connect Datagrams Semaphores
    Mutexes Rwlock Thread_Cancellation Mapping_Limits File_Descriptors Process_Status Resolver
    Pipes Signal_Programs Thread_Arguments Credentials
    Processes Signal_Threads File_Programs Rwlock_Preference Long_Options Legacy_Resolver
    Local_Sockets Dynamic_Linking Small_Programs
    Thread_Forks System_Queries
begin

text \<open>
  A verification development for the example programs of a course on Unix programming in C.

  The repository is a collection of about 160 short programs, each a demonstration of one part of
  the Unix interface: threads and their synchronisation, processes and signals, files and
  descriptors, memory mappings, sockets and the resolver. The programs do not call each other; some
  are pairs (a faulty version and its repair, a client and its server). The system calls and the C
  library are not part of the repository: what a program uses of them is either modelled as POSIX
  documents it (mutexes, condition variables, semaphores, record locks, \<open>getopt\<close>, descriptors,
  mappings, status words) or is an argument of the definitions (results of \<open>read\<close>, \<open>connect\<close>,
  \<open>getaddrinfo\<close>, random numbers, the schedule).

  How a program is modelled. A sequential program is a function of its arguments and of what the calls
  return, with its error exits as values (the calls that are taken to succeed are listed below). A
  concurrent one is a step function from an event (which thread or process moves, what the environment
  chooses) and a state to the next state or \<^term>\<open>None\<close>; the state is a record with the
  global variables under the names of the source and a program counter for each thread, and each
  statement that another thread can observe is one step. \<^const>\<open>exec\<close>,
  \<^const>\<open>runs\<close> and \<^const>\<open>reach\<close> of the theory Prelude run such
  functions; the locale \<open>step_invariant\<close> is interpreted on every step function that has an
  invariant. Sleeps and delays only let others run, so they are points between steps.

  The theories, the sources they model, and what is shown:

  \<^item> Prelude: theorem collections, 32-bit conversions, \<open>atoi\<close>, exits, runs and reachability, counts
    of threads.
  \<^item> Barrier (\<open>pthreads/implement-barrier.c\<close>, \<open>pthreads/implement-barrier-fixed.c\<close>): the fixed
    barrier keeps its rounds apart and always has a thread that can move; the first one deadlocks for
    every number of threads.
  \<^item> Posix_Barrier (\<open>pthreads/pthread-barrier.c\<close>): an abstract barrier, which the hand-made one and the
    program that uses the one of POSIX both refine; the stages of the latter and its end.
  \<^item> Queue_Simulation (\<open>cond-variables/queue-simulation.c\<close>): bounds of the queue, absence of
    deadlock, whole output lines, and what an unchecked capacity does.
  \<^item> Race_Loop, Race (\<open>race/race.c\<close>, \<open>sem-fixed-race.c\<close>, \<open>fcntl-fixed-race.c\<close>,
    \<open>posix-sem-fixed-race.c\<close>, \<open>mutexes/race.c\<close>, \<open>race-fixed.c\<close>): one loop, proved once in the locale
    \<open>rc_bracket\<close> for any locking calls that exclude each other, and interpreted on each program's own.
  \<^item> Atomic_Add (\<open>race/atomic-add.c\<close>): sums on 32-bit words with and without protection.
  \<^item> File_Locking (\<open>file-locking/\<close>): record locks between processes, the lock file, \<open>lockf\<close>.
  \<^item> Getopt (\<open>getopt/getopt.c\<close>): the option scanner the other programs use, with a round trip from
    options to words and back. Long_Options (\<open>getopt/getopt_long.c\<close>): the spelling of an option makes no
    difference, and its place only if arguments are not reordered.
  \<^item> Nonblocking_Connect (\<open>select/non-blocking-connect.c\<close>): every pending connection is reported
    exactly once unless \<open>select\<close> or \<open>getsockopt\<close> fails; the loops that go wrong.
  \<^item> Tcp_Programs (\<open>tcp/\<close>, \<open>select/\<close>, \<open>resolving/getbyname.c\<close>) and Datagrams (\<open>udp/\<close>): set-up calls and service loops over
    what the kernel returns; equivalence of polling and \<open>select\<close>; what arrives at the other end.
  \<^item> Local_Sockets (\<open>unix-socket/main.c\<close>, \<open>inetd/accept-rw.c\<close>): the exchange over a local socket, and the
    client that connects too early.
  \<^item> Semaphores (\<open>semaphores/\<close>): the number of talkers with a new or a left-over semaphore, whole
    turns, and the effect of signals and of a failing \<open>fork()\<close>.
  \<^item> Mutexes (\<open>mutexes/not-my-lock.c\<close>, \<open>pthreads/atfork.c\<close>): mutex types; termination with the fork
    handlers, also when \<open>fork()\<close> fails, and the deadlock without them.
  \<^item> Thread_Arguments (\<open>pthreads/correct-use-of-args.c\<close>, \<open>wrong-use-of-arg.c\<close>, \<open>int-as-arg.c\<close>): threads
    that print their own numbers, which numbers they print when they share a counter, and which joins fail.
  \<^item> Thread_Lifecycle (\<open>pthreads/pthread-join.c\<close> and five more): programs as lists of calls; what
    joining guarantees, and what becomes of a thread that is detached or not waited for.
  \<^item> Process_Environment (\<open>main/\<close>, \<open>exec/\<close>): the environment as pointers into memory, argument lists, and what
    \<open>posix_spawn\<close> lets a program know.
  \<^item> Dynamic_Linking (\<open>dyn-lib/\<close>, \<open>linker/\<close>, \<open>lib-abi/\<close>): when symbols are resolved, a function put in front of
    \<open>read\<close> that a program can tell from it only by \<open>errno\<close>, and a library whose interface has changed.
  \<^item> Thread_Forks (\<open>pthreads/forkall.c\<close>, \<open>fork-not-in-main.c\<close>): two such processes, one made by the other in the
    middle; which threads the child has and what it writes.
  \<^item> Rwlock (\<open>pthreads/pthread-rwlock.c\<close>): writers exclude everyone, readers see the last value set,
    all 32 threads end. Rwlock_Preference (\<open>pthreads/pthread-rwlock-pref.c\<close>, \<open>pthread-rwlock-limit.c\<close>): a reader and a
    writer that contend for a lock, over a clock, and how long they really sleep.
  \<^item> Thread_Cancellation (\<open>pthreads/pthread-setcanceltype.c\<close>): where a thread can be cancelled and what
    \<open>main()\<close> returns.
  \<^item> Mapped_Files and Mapping_Limits (\<open>mmap/\<close>): mappings at page granularity over 64-bit addresses;
    the pointer loop of \<open>reverse.c\<close> refines list reversal, the records of \<open>aligned.c\<close> are read back,
    and what happens after the end of a file or mapping.
  \<^item> File_Descriptors (\<open>read/\<close>): \<open>cat.c\<close> and the descriptor tables of the two redirections.
  \<^item> File_Programs (\<open>shm/shm.c\<close>, \<open>read/simple-cat.c\<close>, \<open>readdir/\<close>, \<open>unlink/\<close>, \<open>readlink/\<close> and others): the loop that
    fills a shared object, a directory listing, a file without a name, the bits of a file's type.
  \<^item> Process_Status (\<open>wait/wait.c\<close>, \<open>signals/sigqueue.c\<close>): status words and their macros; the
    outcomes of a signal sent to a child.
  \<^item> Resolver (\<open>resolving/\<close>): the programs that walk lists of addresses, and \<open>addresses.c\<close>.
    Legacy_Resolver (\<open>resolving/gethostby*.c\<close>, \<open>reentrant/\<close>): results in static memory, and an endless loop.

  \<^item> Pipes (\<open>pipe/\<close>, \<open>fifo/\<close>): who holds which end of a pipe; the pipeline of \<open>pipe-and-fork.c\<close>
    delivers everything and ends, \<open>countdown.c\<close> waits for its last child.
  \<^item> Signals and Signal_Programs (\<open>signals/\<close>): what the kernel keeps of a signal; blocked signals are
    merged, \<open>ping-pong.c\<close> alternates, reliable and unreliable handlers, the windows in which a signal
    comes too early or is lost.
  \<^item> Signal_Threads (\<open>pthreads/sigwait.c\<close> and three more): all signals blocked and taken by \<open>sigwait\<close>; what ends such
    a program, and what it reports.
  \<^item> Signal_Basics (\<open>signals/\<close>, \<open>debug/\<close>): signals a program sends itself, handlers in loops, and the end of programs that
    crash, with what is lost in the buffer of their output.
  \<^item> Small_Programs (\<open>pthreads/setjmp.c\<close>, the stack overflows, \<open>sleep/\<close>, \<open>malloc/\<close> and others): jumps, recursion up to the end of the
    stack, and sizes that wrap around.
  \<^item> System_Queries (\<open>read/isstdout.c\<close>, \<open>stat/\<close>, \<open>pmap/proc-addr-space.c\<close>, \<open>unix-standards/\<close>, \<open>basic-utils/\<close>): where
    buffered output goes after \<open>dup2\<close>, and what the preprocessor makes of a request for a standard.
  \<^item> Credentials (\<open>uid/\<close>, \<open>setuid/\<close>): the identities of a process, which never grow, what the programs that
    change them show and become, and how they end, and who owns what \<open>screate-file.c\<close> creates.
  \<^item> Processes (\<open>fork/\<close>, \<open>exit/\<close>, \<open>session/getppid.c\<close>, \<open>pthreads/fork.c\<close>): who prints what, and how often,
    when the buffer of standard output is copied by \<open>fork()\<close> or lost by \<open>_exit()\<close>; adoption.

  Loops and bounds. Recursive definitions follow the data or have a termination proof; endless loops
  are step functions or functions of the list of events seen so far, so no fuel is used. Bounds on
  runs (23 steps for \<open>atfork.c\<close>, 14464 for \<open>pthread-rwlock.c\<close>, \<open>14 n + 12\<close> for \<open>atomic-add.c\<close>) are
  the initial values of a measure each step decreases. Integers that can leave their range are
  words or reduced explicitly; other counters are \<^typ>\<open>int\<close> with the overflow as a missing step.
  A page has 4096 bytes and a pointer 64 bits, as on the machines the programs are written for.

  Conventions of the proofs. An invariant is a conjunction of facts on program counters, written as
  predicates by pattern matching, so that preservation is a case analysis over the statement
  executed; schedules that show a fault are executed by \<^const>\<open>runs\<close>. Locking interfaces are
  locales, interpreted on the calls of each program.

  Not modelled: process numbers and addresses in the output (arguments or left out), the reasons
  \<open>err\<close> appends to its messages (but see \<open>err/err.c\<close> in Small_Programs), and the
  failures of thread and process creation where the programs do not handle them, unless a theorem says so. The
  failure of \<open>fork()\<close> is modelled but in \<open>getppid.c\<close>, \<open>pthreads/fork.c\<close>
  and \<open>sigqueue.c\<close>. Taken to succeed are also calls that could only fail on a wrong argument
  (\<open>sigaction\<close>, the initialisation of locks), and the writes to files of
  \<open>fcntl-locking.c\<close>, \<open>race/\<close> and \<open>mmap/\<close>, to standard output and to
  connections, unless a definition has their result as an argument (\<open>busy-wait.c\<close>,
  \<open>connect.c\<close>, \<open>accept-rw.c\<close>, \<open>unlink.c\<close>, \<open>rtld_next.c\<close>).
  Standard output is buffered in the models of Processes, Signal_Basics, Process_Environment, Thread_Forks,
  System_Queries and a few single programs, where the buffer makes a difference; elsewhere a line is output
  when it is printed. What tools outside the sources do (compilers, debuggers, tracers, the commands that
  programs execute) is an argument or left out; \<open>basic-utils/standards.c\<close>, which only has to
  compile, has no model.
\<close>

end
